(* ===== verification/Fix_Prelude.thy ===== *)
theory Fix_Prelude
  imports
    Main
    "HOL-Library.Word"
    "HOL-Library.Monad_Syntax"
    "HOL-Library.Char_ord"
    "HOL-Library.List_Lexorder"
begin

text \<open>
  Shared vocabulary of the development.

  \<^item> Bytes are \<open>char\<close>s (HOL's \<open>char\<close> is an 8-bit value), a \<open>std::string_view\<close> or a
    \<open>std::string\<close> is a \<open>string\<close>.
  \<^item> An operation that can run into a failed \<open>assert\<close>, an access out of the bounds of an
    array or a null pointer returns an \<open>option\<close>; \<open>None\<close> is that fault.
    The \<open>do\<close> notation of \<open>Monad_Syntax\<close> sequences such operations.
  \<^item> A heap array of capacity \<open>cap\<close> is the list of its initialised prefix;
    \<open>memcpy\<close> is the checked write into it.
  \<^item> The \<open>find\<close> and \<open>rfind\<close> members of \<open>std::string_view\<close> are the functions
    \<open>sv_find_char\<close>, \<open>sv_find\<close> and \<open>sv_rfind\<close>; \<open>npos\<close> is \<open>None\<close>.
\<close>

named_theorems mem_simps \<open>slices of arrays after a write\<close>

type_synonym bytes = "char list"

abbreviation SOH :: char where
  "SOH \<equiv> CHR 0x01"

section \<open>Assertions and arrays\<close>

definition assert_that :: "bool \<Rightarrow> unit option" where
  "assert_that b = (if b then Some () else None)"

lemma assert_that_simps [simp]:
  "assert_that True = Some ()"
  "assert_that False = None"
  "assert_that b = Some u \<longleftrightarrow> b"
  "assert_that b = None \<longleftrightarrow> \<not> b"
  by (simp_all add: assert_that_def)

lemma bind_assert_that:
  "assert_that b \<bind> f = (if b then f () else None)"
  by (simp add: assert_that_def)

lemma bind_assert_that_True [simp]: "b \<Longrightarrow> assert_that b \<bind> f = f ()"
  by (simp add: assert_that_def)

definition slice :: "nat \<Rightarrow> nat \<Rightarrow> 'a list \<Rightarrow> 'a list" where
  "slice off n m = take n (drop off m)"

text \<open>
  \<open>memcpy cap off xs m\<close> copies \<open>xs\<close> into an array of capacity \<open>cap\<close> whose initialised
  prefix is \<open>m\<close>. Writing past the capacity is a fault, and so is writing behind a hole of
  uninitialised cells, which no class of the library does.
\<close>

definition memcpy :: "nat \<Rightarrow> nat \<Rightarrow> 'a list \<Rightarrow> 'a list \<Rightarrow> 'a list option" where
  "memcpy cap off xs m =
     (if off \<le> length m \<and> off + length xs \<le> cap
      then Some (take off m @ xs @ drop (off + length xs) m) else None)"

lemma memcpy_eq_Some [simp]:
  "off \<le> length m \<Longrightarrow> off + length xs \<le> cap \<Longrightarrow>
   memcpy cap off xs m = Some (take off m @ xs @ drop (off + length xs) m)"
  by (simp add: memcpy_def)

lemma memcpy_SomeD:
  "memcpy cap off xs m = Some m' \<Longrightarrow>
   off \<le> length m \<and> off + length xs \<le> cap \<and>
   m' = take off m @ xs @ drop (off + length xs) m"
  by (simp add: memcpy_def split: if_splits)

lemma length_slice [simp]: "length (slice off n m) = min n (length m - off)"
  by (simp add: slice_def)

lemma slice_0 [simp]: "slice off 0 m = []" and slice_Nil [simp]: "slice off n [] = []"
  by (simp_all add: slice_def)

lemma slice_append_left [mem_simps]:
  "off + n \<le> length xs \<Longrightarrow> slice off n (xs @ ys) = slice off n xs"
  by (simp add: slice_def)

lemma slice_append_right [mem_simps]:
  "length xs \<le> off \<Longrightarrow> slice off n (xs @ ys) = slice (off - length xs) n ys"
  by (simp add: slice_def)

lemma slice_exact [mem_simps, simp]: "off = length xs \<Longrightarrow> n = length ys \<Longrightarrow> slice off n (xs @ ys @ zs) = ys"
  by (simp add: slice_def)

lemma slice_full [simp]: "n = length m \<Longrightarrow> slice 0 n m = m"
  by (simp add: slice_def)

lemma slice_drop [mem_simps]: "slice off n (drop k m) = slice (k + off) n m"
  by (simp add: slice_def add.commute)

lemma slice_take [mem_simps]: "off + n \<le> k \<Longrightarrow> slice off n (take k m) = slice off n m"
  by (simp add: slice_def drop_take min_def)

lemma slice_split: "slice off (n + k) m = slice off n m @ slice (off + n) k m"
  by (simp add: slice_def take_add add.commute [of off])

lemma slice_write [mem_simps]:
  assumes "h \<le> t" "t \<le> length d"
  shows "slice h (t + length xs - h) (take t d @ xs @ r) = slice h (t - h) d @ xs"
proof -
  have "t + length xs - h = (t - h) + length xs" using assms by simp
  then show ?thesis
    using assms slice_split [of h "t - h" "length xs" "take t d @ xs @ r"]
    by (simp add: slice_append_left slice_take)
qed

lemma drop_eq_slice_append: "drop off m = slice off n m @ drop (off + n) m"
  by (metis add.commute append_take_drop_id drop_drop slice_def)

text \<open>A read of one cell; reading outside the initialised part is a fault.\<close>

definition array_get :: "'a list \<Rightarrow> nat \<Rightarrow> 'a option" where
  "array_get m i = (if i < length m then Some (m ! i) else None)"

lemma array_get_eq_Some [simp]: "i < length m \<Longrightarrow> array_get m i = Some (m ! i)"
  by (simp add: array_get_def)

lemma array_get_None [simp]: "array_get m i = None \<longleftrightarrow> length m \<le> i"
  by (auto simp: array_get_def)

text \<open>Generic consumer of a queue: \<open>n\<close> times read the front element and drop it.\<close>

primrec drain_n :: "('q \<Rightarrow> 'a option) \<Rightarrow> ('q \<Rightarrow> 'q option) \<Rightarrow> nat \<Rightarrow> 'q \<Rightarrow> ('a list \<times> 'q) option" where
  "drain_n front pop 0 q = Some ([], q)"
| "drain_n front pop (Suc n) q =
     do { x \<leftarrow> front q; q' \<leftarrow> pop q; (xs, q'') \<leftarrow> drain_n front pop n q'; Some (x # xs, q'') }"

section \<open>Searching\<close>

primrec find_index :: "('a \<Rightarrow> bool) \<Rightarrow> 'a list \<Rightarrow> nat option" where
  "find_index P [] = None"
| "find_index P (x # xs) = (if P x then Some 0 else map_option Suc (find_index P xs))"

lemma find_index_SomeD:
  "find_index P xs = Some i \<Longrightarrow> i < length xs \<and> P (xs ! i) \<and> (\<forall>j < i. \<not> P (xs ! j))"
  by (induction xs arbitrary: i) (auto simp: less_Suc_eq_0_disj nth_Cons' split: if_splits)

lemma find_index_None [simp]: "find_index P xs = None \<longleftrightarrow> (\<forall>x \<in> set xs. \<not> P x)"
  by (induction xs) auto

lemma find_index_append:
  "find_index P (xs @ ys) =
     (case find_index P xs of Some i \<Rightarrow> Some i | None \<Rightarrow> map_option ((+) (length xs)) (find_index P ys))"
proof (induction xs)
  case Nil
  have "((+) (length [])) = (\<lambda>x. x)" by auto
  then show ?case by (simp add: option.map_ident)
next
  case (Cons x xs)
  then show ?case
    by (cases "find_index P xs"; cases "find_index P ys") (simp_all del: find_index_None)
qed

lemma find_index_append_Some: "find_index P xs = Some i \<Longrightarrow> find_index P (xs @ ys) = Some i"
  by (simp add: find_index_append)

lemma find_index_first:
  "\<forall>x \<in> set xs. \<not> P x \<Longrightarrow> P y \<Longrightarrow> find_index P (xs @ y # ys) = Some (length xs)"
  by (simp add: find_index_append option.case_eq_if)

definition sv_find_char :: "string \<Rightarrow> char \<Rightarrow> nat \<Rightarrow> nat option" where
  "sv_find_char s c pos = map_option ((+) pos) (find_index (\<lambda>x. x = c) (drop pos s))"

definition starts_with :: "'a list \<Rightarrow> 'a list \<Rightarrow> bool" where
  "starts_with pat s \<longleftrightarrow> take (length pat) s = pat"

lemma starts_with_length: "starts_with pat s \<Longrightarrow> length pat \<le> length s"
  by (metis starts_with_def length_take min.cobounded2 min_def nat_le_linear)

lemma starts_with_append [simp]: "starts_with pat (pat @ s)"
  by (simp add: starts_with_def)

lemma starts_with_iff: "starts_with pat s \<longleftrightarrow> (\<exists>r. s = pat @ r)"
  by (metis append_take_drop_id starts_with_append starts_with_def)

lemma starts_with_appendI: "starts_with pat s \<Longrightarrow> starts_with pat (s @ t)"
  by (auto simp: starts_with_iff)

lemma starts_with_append_short:
  "length pat \<le> length s \<Longrightarrow> starts_with pat (s @ t) \<longleftrightarrow> starts_with pat s"
  by (simp add: starts_with_def)

fun find_sub :: "'a list \<Rightarrow> 'a list \<Rightarrow> nat option" where
  "find_sub pat [] = (if pat = [] then Some 0 else None)"
| "find_sub pat (x # xs) =
     (if starts_with pat (x # xs) then Some 0 else map_option Suc (find_sub pat xs))"

fun rfind_sub :: "'a list \<Rightarrow> 'a list \<Rightarrow> nat option" where
  "rfind_sub pat [] = (if pat = [] then Some 0 else None)"
| "rfind_sub pat (x # xs) =
     (case rfind_sub pat xs of
        Some i \<Rightarrow> Some (Suc i)
      | None \<Rightarrow> (if starts_with pat (x # xs) then Some 0 else None))"

definition sv_find :: "string \<Rightarrow> string \<Rightarrow> nat \<Rightarrow> nat option" where
  "sv_find s pat pos = (if pos \<le> length s then map_option ((+) pos) (find_sub pat (drop pos s)) else None)"

definition sv_rfind :: "string \<Rightarrow> string \<Rightarrow> nat option" where
  "sv_rfind s pat = rfind_sub pat s"

lemma find_sub_SomeD:
  "find_sub pat s = Some i \<Longrightarrow>
   i \<le> length s \<and> starts_with pat (drop i s) \<and> (\<forall>j < i. \<not> starts_with pat (drop j s))"
proof (induction s arbitrary: i)
  case Nil
  then show ?case by (auto simp: starts_with_def split: if_splits)
next
  case (Cons x xs)
  then show ?case
    by (auto simp: less_Suc_eq_0_disj split: if_splits)
qed

lemma find_sub_NoneD: "find_sub pat s = None \<Longrightarrow> j \<le> length s \<Longrightarrow> \<not> starts_with pat (drop j s)"
proof (induction s arbitrary: j)
  case Nil
  then show ?case by (auto simp: starts_with_def split: if_splits)
next
  case (Cons x xs)
  then show ?case by (cases j) (auto split: if_splits)
qed

lemma find_sub_eqI:
  assumes "starts_with pat (drop i s)" and "i \<le> length s" and "\<And>j. j < i \<Longrightarrow> \<not> starts_with pat (drop j s)"
  shows "find_sub pat s = Some i"
proof (cases "find_sub pat s")
  case None
  with assms show ?thesis by (auto dest: find_sub_NoneD)
next
  case (Some k)
  with find_sub_SomeD [OF Some] assms show ?thesis
    by (metis linorder_neqE_nat)
qed

lemma find_sub_NoneI:
  assumes "\<And>j. j \<le> length s \<Longrightarrow> \<not> starts_with pat (drop j s)"
  shows "find_sub pat s = None"
  using assms find_sub_SomeD by (metis not_None_eq)

lemma find_sub_append_Some:
  assumes "find_sub pat s = Some i"
  shows "find_sub pat (s @ t) = Some i"
proof (rule find_sub_eqI)
  note D = find_sub_SomeD [OF assms]
  then have len: "i + length pat \<le> length s"
    using starts_with_length [of pat "drop i s"] by (auto simp: le_diff_conv2 add.commute)
  show "starts_with pat (drop i (s @ t))" "i \<le> length (s @ t)"
    using D by (auto intro: starts_with_appendI)
  fix j assume "j < i"
  with D have "\<not> starts_with pat (drop j s)" by simp
  moreover have "length pat \<le> length (drop j s)" using len \<open>j < i\<close> by simp
  ultimately show "\<not> starts_with pat (drop j (s @ t))"
    using \<open>j < i\<close> len by (simp add: starts_with_append_short)
qed

lemma rfind_sub_SomeD:
  "rfind_sub pat s = Some i \<Longrightarrow>
   i \<le> length s \<and> starts_with pat (drop i s) \<and> (\<forall>j. i < j \<and> j \<le> length s \<longrightarrow> \<not> starts_with pat (drop j s))"
proof (induction s arbitrary: i)
  case Nil
  then show ?case by (auto simp: starts_with_def split: if_splits)
next
  case (Cons x xs)
  have none: "\<not> starts_with pat (drop j xs)" if "rfind_sub pat xs = None" "j \<le> length xs" for j
    using that
  proof (induction xs arbitrary: j)
    case Nil
    then show ?case by (auto simp: starts_with_def split: if_splits)
  next
    case (Cons y ys)
    then show ?case by (cases j) (auto split: if_splits option.splits)
  qed
  show ?case
  proof (cases "rfind_sub pat xs")
    case None
    with Cons.prems none show ?thesis
      by (auto simp: drop_Cons' split: if_splits)
  next
    case (Some k)
    with Cons.prems have i: "i = Suc k" by simp
    have "\<not> starts_with pat (drop j (x # xs))" if "i < j" "j \<le> length (x # xs)" for j
      using Cons.IH [OF Some] that i by (cases j) auto
    with Cons.IH [OF Some] i show ?thesis by auto
  qed
qed

lemma rfind_sub_NoneD: "rfind_sub pat s = None \<Longrightarrow> j \<le> length s \<Longrightarrow> \<not> starts_with pat (drop j s)"
proof (induction s arbitrary: j)
  case Nil
  then show ?case by (auto simp: starts_with_def split: if_splits)
next
  case (Cons x xs)
  then show ?case by (cases j) (auto split: if_splits option.splits)
qed

lemma rfind_sub_eqI:
  assumes "starts_with pat (drop i s)" and "i \<le> length s"
    and "\<And>j. i < j \<Longrightarrow> j \<le> length s \<Longrightarrow> \<not> starts_with pat (drop j s)"
  shows "rfind_sub pat s = Some i"
proof (cases "rfind_sub pat s")
  case None
  with assms show ?thesis by (auto dest: rfind_sub_NoneD)
next
  case (Some k)
  with rfind_sub_SomeD [OF Some] assms show ?thesis
    by (metis linorder_neqE_nat)
qed

lemma sv_find_char_SomeD:
  assumes "sv_find_char s c pos = Some i"
  shows "pos \<le> i" "i < length s" "s ! i = c" "\<And>j. pos \<le> j \<Longrightarrow> j < i \<Longrightarrow> s ! j \<noteq> c"
proof -
  from assms obtain k where k: "find_index (\<lambda>x. x = c) (drop pos s) = Some k" "i = pos + k"
    by (auto simp: sv_find_char_def)
  note D = find_index_SomeD [OF k(1)]
  from D k(2) show "pos \<le> i" "i < length s" "s ! i = c" by auto
  fix j assume "pos \<le> j" "j < i"
  then have "j - pos < k" using k(2) by simp
  with D have "drop pos s ! (j - pos) \<noteq> c" by blast
  with \<open>pos \<le> j\<close> \<open>j < i\<close> \<open>i < length s\<close> show "s ! j \<noteq> c" by simp
qed

lemma sv_find_char_append_Some:
  "sv_find_char s c pos = Some i \<Longrightarrow> sv_find_char (s @ t) c pos = Some i"
  by (auto simp: sv_find_char_def find_index_append_Some)

lemma sv_find_char_at:
  assumes "s = pre @ v @ c # post" and "pos = length pre" and "c \<notin> set v"
  shows "sv_find_char s c pos = Some (length pre + length v)"
proof -
  have "find_index (\<lambda>x. x = c) (v @ c # post) = Some (length v)"
    using assms(3) by (intro find_index_first) auto
  with assms(1,2) show ?thesis by (simp add: sv_find_char_def)
qed

end
