(* ===== verification/Charconv.thy ===== *)
theory Charconv
  imports Fix_Prelude
begin

text \<open>
  The part of \<open>std::to_chars\<close> and \<open>std::from_chars\<close> (base 10) that the library uses, and
  \<open>Fix::Utils::parse_int\<close>. \<open>from_chars\<close> reads the longest run of digits (after a minus sign
  for a signed type); it reports where it stopped, and it leaves its output argument alone
  when nothing matched or when the value does not fit the type.
\<close>

definition is_digit :: "char \<Rightarrow> bool" where
  "is_digit c \<longleftrightarrow> 48 \<le> (of_char c :: nat) \<and> (of_char c :: nat) \<le> 57"

definition digit_char :: "nat \<Rightarrow> char" where
  "digit_char d = char_of (48 + d)"

definition digit_val :: "char \<Rightarrow> nat" where
  "digit_val c = of_char c - 48"

fun to_chars :: "nat \<Rightarrow> string" where
  "to_chars n = (if n < 10 then [digit_char n] else to_chars (n div 10) @ [digit_char (n mod 10)])"

declare to_chars.simps [simp del]

definition to_chars_int :: "int \<Rightarrow> string" where
  "to_chars_int i = (if i < 0 then CHR ''-'' # to_chars (nat (- i)) else to_chars (nat i))"

definition digits_val :: "string \<Rightarrow> nat" where
  "digits_val ds = foldl (\<lambda>a c. 10 * a + digit_val c) 0 ds"

datatype errc = Errc_ok | Invalid_argument | Result_out_of_range

definition from_chars_u :: "nat \<Rightarrow> string \<Rightarrow> nat \<Rightarrow> nat \<times> errc \<times> nat" where
  "from_chars_u maxv s old =
     (let ds = takeWhile is_digit s in
      if ds = [] then (0, Invalid_argument, old)
      else if digits_val ds \<le> maxv then (length ds, Errc_ok, digits_val ds)
      else (length ds, Result_out_of_range, old))"

definition from_chars_int32 :: "string \<Rightarrow> int \<Rightarrow> nat \<times> errc \<times> int" where
  "from_chars_int32 s old =
     (let neg = (s \<noteq> [] \<and> hd s = CHR ''-'');
          ds = takeWhile is_digit (if neg then tl s else s);
          n = (if neg then 1 else 0) + length ds;
          v = (if neg then - int (digits_val ds) else int (digits_val ds)) in
      if ds = [] then (0, Invalid_argument, old)
      else if - (2 ^ 31) \<le> v \<and> v < 2 ^ 31 then (n, Errc_ok, v)
      else (n, Result_out_of_range, old))"

text \<open>The recurring test \<open>ec == std::errc() && ptr == last\<close>: the whole text is one number.\<close>

definition from_chars_whole :: "nat \<Rightarrow> string \<Rightarrow> nat option" where
  "from_chars_whole maxv s =
     (case from_chars_u maxv s 0 of
        (n, ec, v) \<Rightarrow> if ec = Errc_ok \<and> n = length s then Some v else None)"

definition parse_int :: "string \<Rightarrow> nat option" where
  "parse_int sv =
     (case from_chars_int32 sv 0 of
        (n, ec, tmp) \<Rightarrow>
          if ec \<noteq> Errc_ok \<or> n \<noteq> length sv \<or> tmp < 0 then None else Some (nat tmp))"

section \<open>Digits\<close>

lemma of_char_digit_char: "d < 10 \<Longrightarrow> (of_char (digit_char d) :: nat) = 48 + d"
  by (simp add: digit_char_def)

lemma is_digit_digit_char [simp]: "d < 10 \<Longrightarrow> is_digit (digit_char d)"
  by (simp add: is_digit_def of_char_digit_char)

lemma digit_val_digit_char [simp]: "d < 10 \<Longrightarrow> digit_val (digit_char d) = d"
  by (simp add: digit_val_def of_char_digit_char)

lemma not_is_digit_sep [simp]:
  "\<not> is_digit SOH" "\<not> is_digit CHR ''=''" "\<not> is_digit CHR ''-''" "\<not> is_digit CHR ''+''" "\<not> is_digit CHR ''.''"
  by (simp_all add: is_digit_def)

lemma digits_val_snoc: "digits_val (ds @ [c]) = 10 * digits_val ds + digit_val c"
  by (simp add: digits_val_def)

lemma digits_val_Nil [simp]: "digits_val [] = 0"
  by (simp add: digits_val_def)

lemma to_chars_not_Nil [simp]: "to_chars n \<noteq> []"
  by (subst to_chars.simps) simp

lemma to_chars_digits: "c \<in> set (to_chars n) \<Longrightarrow> is_digit c"
proof (induction n rule: to_chars.induct)
  case (1 n)
  then show ?case
    by (cases "n < 10") (auto simp: to_chars.simps [of n])
qed

lemma digits_val_to_chars [simp]: "digits_val (to_chars n) = n"
proof (induction n rule: to_chars.induct)
  case (1 n)
  show ?case
  proof (cases "n < 10")
    case True
    then show ?thesis by (simp add: to_chars.simps [of n] digits_val_def)
  next
    case False
    with "1.IH" show ?thesis
      by (simp add: to_chars.simps [of n] digits_val_snoc)
  qed
qed

lemma length_to_chars_le: "n < 10 ^ k \<Longrightarrow> 0 < k \<Longrightarrow> length (to_chars n) \<le> k"
proof (induction n arbitrary: k rule: to_chars.induct)
  case (1 n)
  show ?case
  proof (cases "n < 10")
    case True
    with "1.prems" show ?thesis by (simp add: to_chars.simps [of n])
  next
    case False
    obtain j where j: "k = Suc j" using "1.prems" by (cases k) auto
    have "j \<noteq> 0" using "1.prems" False j by (cases j) auto
    moreover have "n div 10 < 10 ^ j" using "1.prems" j by (simp add: less_mult_imp_div_less mult.commute)
    ultimately have "length (to_chars (n div 10)) \<le> j" using "1.IH" [OF False] by simp
    with False j show ?thesis by (simp add: to_chars.simps [of n])
  qed
qed

lemma length_to_chars_pos [simp]: "0 < length (to_chars n)"
  by simp

lemma to_chars_SOH [simp]: "SOH \<notin> set (to_chars n)" and to_chars_eq_sign [simp]: "CHR ''='' \<notin> set (to_chars n)"
  using to_chars_digits [of SOH n] to_chars_digits [of "CHR ''=''" n] by auto

lemma takeWhile_to_chars [simp]: "takeWhile is_digit (to_chars n) = to_chars n"
  by (auto simp: takeWhile_eq_all_conv dest: to_chars_digits)

lemma digit_char_eval [simp]:
  "digit_char 0 = CHR ''0''" "digit_char (Suc 0) = CHR ''1''" "digit_char 2 = CHR ''2''"
  "digit_char 3 = CHR ''3''" "digit_char 4 = CHR ''4''" "digit_char 5 = CHR ''5''"
  "digit_char 6 = CHR ''6''" "digit_char 7 = CHR ''7''" "digit_char 8 = CHR ''8''" "digit_char 9 = CHR ''9''"
  using char_of_char [where 'a = nat, of "CHR ''0''"] char_of_char [where 'a = nat, of "CHR ''1''"] char_of_char [where 'a = nat, of "CHR ''2''"]
    char_of_char [where 'a = nat, of "CHR ''3''"] char_of_char [where 'a = nat, of "CHR ''4''"] char_of_char [where 'a = nat, of "CHR ''5''"]
    char_of_char [where 'a = nat, of "CHR ''6''"] char_of_char [where 'a = nat, of "CHR ''7''"] char_of_char [where 'a = nat, of "CHR ''8''"]
    char_of_char [where 'a = nat, of "CHR ''9''"]
  by (simp_all add: digit_char_def)

lemma to_chars_inj: "to_chars m = to_chars n \<Longrightarrow> m = n"
  by (metis digits_val_to_chars)

lemma to_chars_int_nat [simp]: "to_chars_int (int n) = to_chars n" "to_chars_int (numeral k) = to_chars (numeral k)"
  "to_chars_int 0 = to_chars 0" "to_chars_int 1 = to_chars 1"
  by (simp_all add: to_chars_int_def)

section \<open>Round trips\<close>

lemma from_chars_u_to_chars:
  "n \<le> maxv \<Longrightarrow> from_chars_u maxv (to_chars n) old = (length (to_chars n), Errc_ok, n)"
  by (simp add: from_chars_u_def)

lemma from_chars_whole_to_chars [simp]: "n \<le> maxv \<Longrightarrow> from_chars_whole maxv (to_chars n) = Some n"
  by (simp add: from_chars_whole_def from_chars_u_to_chars)

lemma takeWhile_length_eq: "length (takeWhile P s) = length s \<Longrightarrow> takeWhile P s = s"
  by (metis takeWhile_eq_take take_all_iff order_refl)

lemma from_chars_wholeD:
  assumes "from_chars_whole maxv s = Some v"
  shows "s \<noteq> []" "\<forall>c \<in> set s. is_digit c" "v = digits_val s" "v \<le> maxv"
proof -
  from assms have "length (takeWhile is_digit s) = length s"
    by (simp add: from_chars_whole_def from_chars_u_def Let_def split: if_splits)
  then have tw: "takeWhile is_digit s = s" by (rule takeWhile_length_eq)
  with assms show "s \<noteq> []" "v = digits_val s" "v \<le> maxv"
    by (simp_all add: from_chars_whole_def from_chars_u_def Let_def split: if_splits)
  show "\<forall>c \<in> set s. is_digit c"
    using tw by (metis takeWhile_eq_all_conv)
qed

lemma parse_int_to_chars: "n < 2 ^ 31 \<Longrightarrow> parse_int (to_chars n) = Some n"
proof -
  assume n: "n < 2 ^ 31"
  have "hd (to_chars n) \<noteq> CHR ''-''"
    using to_chars_digits [of "hd (to_chars n)" n] by (auto simp: is_digit_def)
  with n show ?thesis
    by (simp add: parse_int_def from_chars_int32_def Let_def)
qed

end
