(* ===== verification/Ring.thy ===== *)
theory Ring
  imports Fix_Prelude
begin

text \<open>
  \<open>Fix::Ring\<close> (include/fix/core/Ring.hpp): a circular buffer whose policy on a full buffer is
  a template argument. \<open>r_buffer\<close> is the initialised prefix of the array, so the capacity and
  the list may differ in length until the ring has wrapped once.
  The section proves that under every policy the ring is the list \<open>ring_list\<close> of its
  elements, states what a FIFO client may rely on as the locale \<open>bounded_fifo\<close>, and
  interprets it for the rejecting ring, the one the framer uses.
\<close>

datatype RingPolicy = Grow | Reject | Overwrite

record 'a ring =
  r_head :: nat
  r_tail :: nat
  r_capacity :: nat
  r_size :: nat
  r_buffer :: "'a list"

definition ring_new :: "nat \<Rightarrow> 'a ring" where
  "ring_new Capacity =
     \<lparr>r_head = 0, r_tail = 0, r_capacity = Capacity, r_size = 0, r_buffer = []\<rparr>"

definition ring_next :: "'a ring \<Rightarrow> nat \<Rightarrow> nat" where
  "ring_next r idx = (idx + 1) mod r_capacity r"

definition ring_prev :: "'a ring \<Rightarrow> nat \<Rightarrow> nat" where
  "ring_prev r idx = (if idx = 0 then r_capacity r - 1 else idx - 1)"

definition ring_empty :: "'a ring \<Rightarrow> bool" where
  "ring_empty r \<longleftrightarrow> r_size r = 0"

definition ring_full :: "'a ring \<Rightarrow> bool" where
  "ring_full r \<longleftrightarrow> r_size r = r_capacity r"

text \<open>The lines after the policy switch: store at the tail and advance.\<close>

definition ring_store :: "'a \<Rightarrow> 'a ring \<Rightarrow> 'a ring option" where
  "ring_store item r =
     do {
       buf \<leftarrow> memcpy (r_capacity r) (r_tail r) [item] (r_buffer r);
       Some (r\<lparr>r_buffer := buf, r_tail := ring_next r (r_tail r), r_size := r_size r + 1\<rparr>)
     }"

text \<open>The copy loop of the growing policy.\<close>

definition ring_grow :: "nat \<Rightarrow> 'a ring \<Rightarrow> 'a ring option" where
  "ring_grow MinGrowSize r =
     do {
       elems \<leftarrow> those (map (\<lambda>k. array_get (r_buffer r) ((r_head r + k) mod r_capacity r)) [0..<r_size r]);
       Some (r\<lparr>r_head := 0, r_tail := r_size r, r_buffer := elems,
               r_capacity := r_capacity r + MinGrowSize\<rparr>)
     }"

definition ring_push :: "RingPolicy \<Rightarrow> nat \<Rightarrow> 'a \<Rightarrow> 'a ring \<Rightarrow> (bool \<times> 'a ring) option" where
  "ring_push policy MinGrowSize item r =
     (if ring_full r then
        (case policy of
           Grow \<Rightarrow> do { r' \<leftarrow> ring_grow MinGrowSize r; r'' \<leftarrow> ring_store item r'; Some (True, r'') }
         | Overwrite \<Rightarrow>
             do { r' \<leftarrow> ring_store item (r\<lparr>r_head := ring_next r (r_head r), r_size := r_size r - 1\<rparr>);
                  Some (True, r') }
         | Reject \<Rightarrow> Some (False, r))
      else do { r' \<leftarrow> ring_store item r; Some (True, r') })"

definition ring_front :: "'a ring \<Rightarrow> 'a option" where
  "ring_front r = do { assert_that (\<not> ring_empty r); array_get (r_buffer r) (r_head r) }"

definition ring_back :: "'a ring \<Rightarrow> 'a option" where
  "ring_back r =
     do { assert_that (\<not> ring_empty r); array_get (r_buffer r) (ring_prev r (r_tail r)) }"

definition ring_pop_front :: "'a ring \<Rightarrow> 'a ring option" where
  "ring_pop_front r =
     do { assert_that (\<not> ring_empty r);
          Some (r\<lparr>r_head := ring_next r (r_head r), r_size := r_size r - 1\<rparr>) }"

definition ring_pop_back :: "'a ring \<Rightarrow> 'a ring option" where
  "ring_pop_back r =
     do { assert_that (\<not> ring_empty r);
          Some (r\<lparr>r_tail := ring_prev r (r_tail r), r_size := r_size r - 1\<rparr>) }"

definition ring_clear :: "'a ring \<Rightarrow> 'a ring" where
  "ring_clear r = r\<lparr>r_head := 0, r_tail := 0, r_size := 0\<rparr>"

section \<open>Invariant and abstraction\<close>

definition ring_inv :: "'a ring \<Rightarrow> bool" where
  "ring_inv r \<longleftrightarrow>
     0 < r_capacity r \<and> r_size r \<le> r_capacity r \<and> r_head r < r_capacity r \<and>
     r_tail r = (r_head r + r_size r) mod r_capacity r \<and>
     length (r_buffer r) \<le> r_capacity r \<and>
     (r_head r + r_size r \<le> length (r_buffer r) \<or> length (r_buffer r) = r_capacity r)"

definition ring_list :: "'a ring \<Rightarrow> 'a list" where
  "ring_list r = map (\<lambda>k. r_buffer r ! ((r_head r + k) mod r_capacity r)) [0..<r_size r]"

lemma length_ring_list [simp]: "length (ring_list r) = r_size r"
  by (simp add: ring_list_def)

lemma ring_list_nth: "k < r_size r \<Longrightarrow> ring_list r ! k = r_buffer r ! ((r_head r + k) mod r_capacity r)"
  by (simp add: ring_list_def)

lemma ring_list_eq_Nil: "ring_list r = [] \<longleftrightarrow> r_size r = 0"
  by (simp add: ring_list_def)

lemma ring_empty_iff: "ring_empty r \<longleftrightarrow> ring_list r = []"
  by (simp add: ring_empty_def ring_list_eq_Nil)

lemma ring_slot_bound:
  assumes "ring_inv r" and "k < r_size r"
  shows "(r_head r + k) mod r_capacity r < length (r_buffer r)"
proof -
  have "(r_head r + k) mod r_capacity r < r_capacity r"
    using assms by (simp add: ring_inv_def)
  moreover have "(r_head r + k) mod r_capacity r \<le> r_head r + k" by (rule mod_less_eq_dividend)
  ultimately show ?thesis using assms by (auto simp: ring_inv_def)
qed

lemma ring_tail_le: "ring_inv r \<Longrightarrow> r_tail r \<le> length (r_buffer r)"
  by (auto simp: ring_inv_def intro: order_trans [OF mod_less_eq_dividend] less_imp_le)

lemma ring_mod_neq:
  assumes "k < s" and "s < (c::nat)"
  shows "(h + k) mod c \<noteq> (h + s) mod c"
proof
  assume "(h + k) mod c = (h + s) mod c"
  then have "c dvd (h + s) - (h + k)" using assms by (intro mod_eq_dvd_iff_nat [THEN iffD1]) auto
  then have "c dvd s - k" by simp
  with assms show False using nat_dvd_not_less [of "s - k" c] by auto
qed

lemma ring_new_inv [simp]: "0 < cap \<Longrightarrow> ring_inv (ring_new cap)"
  by (simp add: ring_inv_def ring_new_def)

lemma ring_new_list [simp]: "ring_list (ring_new cap) = []"
  by (simp add: ring_list_def ring_new_def)

lemma ring_clear_inv: "ring_inv r \<Longrightarrow> ring_inv (ring_clear r)"
  by (auto simp: ring_inv_def ring_clear_def)

lemma ring_clear_list [simp]: "ring_list (ring_clear r) = []"
  by (simp add: ring_list_def ring_clear_def)

section \<open>Storing at the tail\<close>

lemma ring_store_slot:
  assumes inv: "ring_inv r" and room: "r_size r < r_capacity r" and k: "k < r_size r + 1"
  shows "(take (r_tail r) (r_buffer r) @ [x] @ drop (r_tail r + 1) (r_buffer r)) ! ((r_head r + k) mod r_capacity r) =
    (ring_list r @ [x]) ! k"
proof (cases "k = r_size r")
  case True
  then show ?thesis using inv ring_tail_le [OF inv] by (simp add: ring_inv_def nth_append)
next
  case False
  with k have k: "k < r_size r" by simp
  let ?i = "(r_head r + k) mod r_capacity r"
  have neq: "?i \<noteq> r_tail r" using ring_mod_neq [OF k room, of "r_head r"] inv by (simp add: ring_inv_def)
  show ?thesis
    using neq ring_slot_bound [OF inv k] ring_tail_le [OF inv] k
    by (auto simp: nth_append nth_Cons' min_def ring_list_nth)
qed

lemma ring_store_ok:
  assumes inv: "ring_inv r" and room: "r_size r < r_capacity r"
  obtains r' where "ring_store x r = Some r'" "ring_inv r'" "ring_list r' = ring_list r @ [x]"
    "r_capacity r' = r_capacity r"
proof -
  let ?c = "r_capacity r" and ?h = "r_head r" and ?s = "r_size r" and ?t = "r_tail r"
  define b where "b = take ?t (r_buffer r) @ [x] @ drop (?t + 1) (r_buffer r)"
  let ?r = "r\<lparr>r_buffer := b, r_tail := ring_next r ?t, r_size := ?s + 1\<rparr>"
  have t: "?t = (?h + ?s) mod ?c" "?t < ?c" and c: "0 < ?c" using inv by (auto simp: ring_inv_def)
  have lc: "length (r_buffer r) \<le> ?c" using inv by (simp add: ring_inv_def)
  have tl: "?t \<le> length (r_buffer r)" by (rule ring_tail_le [OF inv])
  have st: "ring_store x r = Some ?r"
    using tl t by (simp add: ring_store_def b_def)
  have lb: "length b = max (length (r_buffer r)) (Suc ?t)" using tl by (auto simp: b_def)
  have inv': "ring_inv ?r"
  proof -
    have "ring_next r ?t = (?h + (?s + 1)) mod ?c"
      using t by (simp add: ring_next_def mod_Suc_eq)
    moreover have "length b \<le> ?c"  using lb t(2) lc by simp
    moreover have "?h + (?s + 1) \<le> length b \<or> length b = ?c"
    proof (cases "length (r_buffer r) = ?c")
      case True
      with lb t show ?thesis by auto
    next
      case False
      with inv have "?h + ?s \<le> length (r_buffer r)" "length (r_buffer r) < ?c"
        by (auto simp: ring_inv_def)
      then have "?t = ?h + ?s" using t by simp
      with lb show ?thesis by auto
    qed
    ultimately show ?thesis using inv room by (simp add: ring_inv_def)
  qed
  have "b ! ((?h + k) mod ?c) = (ring_list r @ [x]) ! k" if "k < ?s + 1" for k
    unfolding b_def by (rule ring_store_slot [OF inv room that])
  then have "ring_list ?r = ring_list r @ [x]"
    by (intro nth_equalityI) (simp_all add: ring_list_nth)
  with st inv' show thesis by (intro that [of ?r]) simp_all
qed

lemma ring_grow_ok:
  assumes inv: "ring_inv r" and full: "ring_full r" and g: "0 < g"
  obtains r' where "ring_grow g r = Some r'" "ring_inv r'" "ring_list r' = ring_list r"
    "r_capacity r' = r_capacity r + g" "r_size r' = r_size r"
proof -
  have get: "map (\<lambda>k. array_get (r_buffer r) ((r_head r + k) mod r_capacity r)) [0..<r_size r]
      = map Some (ring_list r)"
    using ring_slot_bound [OF inv] by (simp add: ring_list_def)
  have those_Some: "those (map Some xs) = Some xs" for xs :: "'a list"
    by (induction xs) auto
  let ?r = "r\<lparr>r_head := 0, r_tail := r_size r, r_buffer := ring_list r, r_capacity := r_capacity r + g\<rparr>"
  have "ring_grow g r = Some ?r"
    by (simp add: ring_grow_def get those_Some)
  moreover have "ring_inv ?r"
    using inv full g by (simp add: ring_inv_def ring_full_def)
  moreover have "ring_list ?r = ring_list r"
    using inv full g by (intro nth_equalityI) (simp_all add: ring_list_nth ring_full_def)
  ultimately show thesis by (intro that [of ?r]) simp_all
qed

lemma ring_pop_front_ok:
  assumes inv: "ring_inv r" and ne: "r_size r \<noteq> 0"
  shows "ring_front r = Some (hd (ring_list r))"
    and "\<exists>r'. ring_pop_front r = Some r' \<and> ring_inv r' \<and> ring_list r' = tl (ring_list r) \<and> r_capacity r' = r_capacity r"
proof -
  let ?c = "r_capacity r"
  have h: "r_head r < ?c" "0 < ?c" using inv by (auto simp: ring_inv_def)
  have "r_head r < length (r_buffer r)" using ring_slot_bound [OF inv, of 0] ne h by simp
  moreover have "hd (ring_list r) = r_buffer r ! r_head r"
    using ne h by (simp add: hd_conv_nth ring_list_nth ring_list_eq_Nil)
  ultimately show "ring_front r = Some (hd (ring_list r))"
    using ne by (simp add: ring_front_def ring_empty_def)
  let ?r = "r\<lparr>r_head := ring_next r (r_head r), r_size := r_size r - 1\<rparr>"
  have step: "(ring_next r (r_head r) + k) mod ?c = (r_head r + Suc k) mod ?c" for k
    by (simp add: ring_next_def mod_add_left_eq)
  have "ring_inv ?r"
  proof -
    have "(ring_next r (r_head r) + (r_size r - 1)) mod ?c = r_tail r"
      using step [of "r_size r - 1"] ne inv by (simp add: ring_inv_def)
    moreover have "ring_next r (r_head r) \<le> r_head r + 1" by (simp add: ring_next_def)
    ultimately show ?thesis using inv ne h by (auto simp: ring_inv_def ring_next_def)
  qed
  moreover have "ring_list ?r = tl (ring_list r)"
    by (rule nth_equalityI) (simp_all add: ring_list_nth nth_tl step)
  ultimately show "\<exists>r'. ring_pop_front r = Some r' \<and> ring_inv r' \<and> ring_list r' = tl (ring_list r) \<and> r_capacity r' = r_capacity r"
    using ne by (simp add: ring_pop_front_def ring_empty_def)
qed

lemma ring_pop_back_ok:
  assumes inv: "ring_inv r" and ne: "r_size r \<noteq> 0"
  shows "ring_back r = Some (last (ring_list r))"
    and "\<exists>r'. ring_pop_back r = Some r' \<and> ring_inv r' \<and> ring_list r' = butlast (ring_list r) \<and> r_capacity r' = r_capacity r"
proof -
  let ?c = "r_capacity r"
  have h: "r_head r < ?c" "0 < ?c" using inv by (auto simp: ring_inv_def)
  have pv: "ring_prev r (r_tail r) = (r_head r + (r_size r - 1)) mod ?c"
  proof -
    obtain m where m: "r_head r + r_size r = Suc m" using ne by (cases "r_head r + r_size r") auto
    have "r_tail r = Suc m mod ?c" using inv m by (simp add: ring_inv_def)
    then have "ring_prev r (r_tail r) = m mod ?c"
      using h by (auto simp: ring_prev_def mod_Suc split: if_splits)
    moreover have "r_head r + (r_size r - 1) = m" using m ne by simp
    ultimately show ?thesis by simp
  qed
  have "last (ring_list r) = r_buffer r ! ((r_head r + (r_size r - 1)) mod ?c)"
    using ne by (simp add: last_conv_nth ring_list_nth ring_list_eq_Nil)
  moreover have "(r_head r + (r_size r - 1)) mod ?c < length (r_buffer r)"
    using ring_slot_bound [OF inv, of "r_size r - 1"] ne by simp
  ultimately show "ring_back r = Some (last (ring_list r))"
    using ne pv by (simp add: ring_back_def ring_empty_def)
  let ?r = "r\<lparr>r_tail := ring_prev r (r_tail r), r_size := r_size r - 1\<rparr>"
  have "ring_inv ?r" using inv ne pv by (auto simp: ring_inv_def)
  moreover have "ring_list ?r = butlast (ring_list r)"
    by (rule nth_equalityI) (simp_all add: ring_list_nth nth_butlast)
  ultimately show "\<exists>r'. ring_pop_back r = Some r' \<and> ring_inv r' \<and> ring_list r' = butlast (ring_list r) \<and> r_capacity r' = r_capacity r"
    using ne by (simp add: ring_pop_back_def ring_empty_def)
qed

text \<open>What a push does to the list of elements, by policy.\<close>

definition ring_push_spec :: "RingPolicy \<Rightarrow> nat \<Rightarrow> 'a \<Rightarrow> 'a list \<Rightarrow> bool \<times> 'a list" where
  "ring_push_spec policy cap x xs =
     (if length xs < cap then (True, xs @ [x])
      else case policy of
             Grow \<Rightarrow> (True, xs @ [x])
           | Reject \<Rightarrow> (False, xs)
           | Overwrite \<Rightarrow> (True, tl xs @ [x]))"

lemma ring_push_refines:
  assumes inv: "ring_inv r" and g: "policy = Grow \<Longrightarrow> 0 < g"
  shows "\<exists>ok r'. ring_push policy g x r = Some (ok, r') \<and> ring_inv r' \<and>
           (ok, ring_list r') = ring_push_spec policy (r_capacity r) x (ring_list r)"
proof (cases "ring_full r")
  case False
  with inv have room: "r_size r < r_capacity r" by (auto simp: ring_full_def ring_inv_def)
  obtain r' where "ring_store x r = Some r'" "ring_inv r'" "ring_list r' = ring_list r @ [x]"
    by (rule ring_store_ok [OF inv room])
  with room False show ?thesis by (auto simp: ring_push_def ring_push_spec_def)
next
  case True
  then have full: "r_size r = r_capacity r" by (simp add: ring_full_def)
  show ?thesis
  proof (cases policy)
    case Reject
    with True full inv show ?thesis by (auto simp: ring_push_def ring_push_spec_def)
  next
    case Grow
    obtain r1 where r1: "ring_grow g r = Some r1" "ring_inv r1" "ring_list r1 = ring_list r"
        "r_capacity r1 = r_capacity r + g" "r_size r1 = r_size r"
      by (rule ring_grow_ok [OF inv True g [OF Grow]])
    have "r_size r1 < r_capacity r1" using r1(4,5) full g [OF Grow] by simp
    then obtain r2 where "ring_store x r1 = Some r2" "ring_inv r2" "ring_list r2 = ring_list r1 @ [x]"
      by (rule ring_store_ok [OF r1(2)])
    with r1 True Grow full show ?thesis by (auto simp: ring_push_def ring_push_spec_def)
  next
    case Overwrite
    let ?r1 = "r\<lparr>r_head := ring_next r (r_head r), r_size := r_size r - 1\<rparr>"
    have ne: "r_size r \<noteq> 0" using inv full by (simp add: ring_inv_def)
    from ring_pop_front_ok(2) [OF inv ne] ne have r1: "ring_inv ?r1" "ring_list ?r1 = tl (ring_list r)"
      by (simp_all add: ring_pop_front_def ring_empty_def)
    have "r_size ?r1 < r_capacity ?r1" using ne full by simp
    then obtain r2 where "ring_store x ?r1 = Some r2" "ring_inv r2" "ring_list r2 = ring_list ?r1 @ [x]"
      by (rule ring_store_ok [OF r1(1)])
    with r1 True Overwrite full show ?thesis by (auto simp: ring_push_def ring_push_spec_def)
  qed
qed

section \<open>The FIFO interface\<close>

locale bounded_fifo =
  fixes push :: "'a \<Rightarrow> 'q \<Rightarrow> (bool \<times> 'q) option"
    and front :: "'q \<Rightarrow> 'a option"
    and pop :: "'q \<Rightarrow> 'q option"
    and clear :: "'q \<Rightarrow> 'q"
    and is_full :: "'q \<Rightarrow> bool"
    and count :: "'q \<Rightarrow> nat"
    and elems :: "'q \<Rightarrow> 'a list"
    and invar :: "'q \<Rightarrow> bool"
  assumes push_room: "invar q \<Longrightarrow> \<not> is_full q \<Longrightarrow>
      \<exists>q'. push x q = Some (True, q') \<and> invar q' \<and> elems q' = elems q @ [x]"
    and push_full: "invar q \<Longrightarrow> is_full q \<Longrightarrow> push x q = Some (False, q)"
    and front_hd: "invar q \<Longrightarrow> elems q \<noteq> [] \<Longrightarrow> front q = Some (hd (elems q))"
    and pop_tl: "invar q \<Longrightarrow> elems q \<noteq> [] \<Longrightarrow> \<exists>q'. pop q = Some q' \<and> invar q' \<and> elems q' = tl (elems q)"
    and clear_elems: "elems (clear q) = []"
    and clear_invar: "invar q \<Longrightarrow> invar (clear q)"
    and count_elems: "invar q \<Longrightarrow> count q = length (elems q)"
begin

text \<open>Draining yields the elements in the order in which they were pushed.\<close>

lemma drain_all:
  "invar q \<Longrightarrow> \<exists>q'. drain_n front pop (length (elems q)) q = Some (elems q, q') \<and> invar q' \<and> elems q' = []"
proof (induction "elems q" arbitrary: q)
  case Nil
  then show ?case by (metis drain_n.simps(1) list.size(3))
next
  case (Cons x xs)
  then have ne: "elems q \<noteq> []" by (metis list.discI)
  obtain q1 where q1: "pop q = Some q1" "invar q1" "elems q1 = xs"
    using pop_tl [OF Cons.prems ne] Cons.hyps(2) by (metis list.sel(3))
  obtain q2 where "drain_n front pop (length xs) q1 = Some (xs, q2)" "invar q2" "elems q2 = []"
    using Cons.hyps(1) [of q1] q1 by auto
  then show ?case
    using q1(1) front_hd [OF Cons.prems ne] Cons.hyps(2) [symmetric] by simp
qed

lemma push_front_first:
  assumes "invar q" "\<not> is_full q" "elems q = []" "push x q = Some (b, q')"
  shows "front q' = Some x"
proof -
  from push_room [OF assms(1,2), of x] assms(3,4) have "invar q'" "elems q' = [x]" by auto
  with front_hd [of q'] show ?thesis by simp
qed

end

interpretation rq: bounded_fifo "ring_push Reject 0" ring_front ring_pop_front ring_clear ring_full r_size
  ring_list ring_inv
proof (unfold_locales, goal_cases)
  case (1 q x)
  then have "r_size q < r_capacity q" by (auto simp: ring_full_def ring_inv_def)
  with 1 ring_push_refines [of q Reject 0 x] show ?case by (auto simp: ring_push_spec_def)
next
  case (2 q x)
  then show ?case by (simp add: ring_push_def)
next
  case (3 q)
  then show ?case by (simp add: ring_pop_front_ok(1) ring_list_eq_Nil)
next
  case (4 q)
  then show ?case using ring_pop_front_ok(2) [of q] by (auto simp: ring_list_eq_Nil)
qed (simp_all add: ring_clear_inv)

lemma ring_pop_front_capacity: "ring_pop_front r = Some r' \<Longrightarrow> r_capacity r' = r_capacity r"
  by (auto simp: ring_pop_front_def bind_assert_that split: if_splits)

lemma ring_push_reject_capacity: "ring_push Reject g x r = Some (b, r') \<Longrightarrow> r_capacity r' = r_capacity r"
  by (auto simp: ring_push_def ring_store_def bind_eq_Some_conv split: if_splits)

end
