(* ===== verification/Linear_Buffer.thy ===== *)
theory Linear_Buffer
  imports Fix_Prelude
begin

text \<open>
  \<open>Fix::LinearBuffer\<close> (include/fix/core/LinearBuffer.hpp): a growable array with a readable
  window \<open>[head, tail)\<close> whose cells also have absolute stream positions, counted from
  \<open>base_abs\<close>. Compaction and growth move the cells but must not change what is readable nor
  the absolute position of any readable cell. That contract is the locale \<open>abs_stream\<close>; the
  framer, which remembers messages by absolute positions, relies on its window lemmas.
  Positions are natural numbers: the code's \<open>std::uint64_t\<close> counters would wrap only after
  \<open>2\<^sup>6\<^sup>4\<close> bytes on one connection.
\<close>

record 'a lbuf =
  lb_capacity :: nat
  lb_data :: "'a list"
  lb_head :: nat
  lb_tail :: nat
  lb_base_abs :: nat

definition Start_Capacity :: nat where
  "Start_Capacity = 64 * 1024"

definition Min_Grow :: nat where
  "Min_Grow = 16 * 1024"

definition lb_new :: "'a lbuf" where
  "lb_new = \<lparr>lb_capacity = Start_Capacity, lb_data = [], lb_head = 0, lb_tail = 0, lb_base_abs = 0\<rparr>"

definition lb_readable_size :: "'a lbuf \<Rightarrow> nat" where
  "lb_readable_size b = lb_tail b - lb_head b"

definition lb_empty :: "'a lbuf \<Rightarrow> bool" where
  "lb_empty b \<longleftrightarrow> lb_tail b = lb_head b"

definition lb_readable :: "'a lbuf \<Rightarrow> 'a list" where
  "lb_readable b = slice (lb_head b) (lb_tail b - lb_head b) (lb_data b)"

definition lb_local_to_abs :: "'a lbuf \<Rightarrow> nat \<Rightarrow> nat" where
  "lb_local_to_abs b l = lb_base_abs b + l"

definition lb_abs_to_local :: "'a lbuf \<Rightarrow> nat \<Rightarrow> nat option" where
  "lb_abs_to_local b a = do { assert_that (lb_base_abs b \<le> a); Some (a - lb_base_abs b) }"

definition lb_readable_rel_to_abs :: "'a lbuf \<Rightarrow> nat \<Rightarrow> nat" where
  "lb_readable_rel_to_abs b rel = lb_local_to_abs b (lb_head b + rel)"

definition lb_abs_to_readable_rel :: "'a lbuf \<Rightarrow> nat \<Rightarrow> nat option" where
  "lb_abs_to_readable_rel b a =
     do { l \<leftarrow> lb_abs_to_local b a; assert_that (lb_head b \<le> l); Some (l - lb_head b) }"

definition lb_compact :: "'a lbuf \<Rightarrow> 'a lbuf option" where
  "lb_compact b =
     (let live = lb_tail b - lb_head b in
      if live = 0 then Some (b\<lparr>lb_base_abs := lb_base_abs b + lb_head b, lb_head := 0, lb_tail := 0\<rparr>)
      else do {
        d \<leftarrow> memcpy (lb_capacity b) 0 (slice (lb_head b) live (lb_data b)) (lb_data b);
        Some (b\<lparr>lb_data := d, lb_base_abs := lb_base_abs b + lb_head b, lb_head := 0, lb_tail := live\<rparr>)
      })"

definition lb_grow :: "nat \<Rightarrow> 'a lbuf \<Rightarrow> 'a lbuf option" where
  "lb_grow n b =
     (let live = lb_tail b - lb_head b;
          required = live + n;
          increase = max n Min_Grow;
          new_capacity = (if lb_capacity b + increase < required then required else lb_capacity b + increase) in
      do {
        d \<leftarrow> (if live > 0 then memcpy new_capacity 0 (slice (lb_head b) live (lb_data b)) [] else Some []);
        Some (b\<lparr>lb_data := d, lb_capacity := new_capacity, lb_base_abs := lb_base_abs b + lb_head b,
                lb_head := 0, lb_tail := live\<rparr>)
      })"

definition lb_ensure_writable :: "nat \<Rightarrow> 'a lbuf \<Rightarrow> 'a lbuf option" where
  "lb_ensure_writable n b =
     (if lb_tail b + n \<le> lb_capacity b then Some b
      else let live = lb_tail b - lb_head b in
        if lb_head b > 0 \<and> live + n \<le> lb_capacity b then lb_compact b
        else lb_grow n b)"

definition lb_push :: "'a list \<Rightarrow> 'a lbuf \<Rightarrow> 'a lbuf option" where
  "lb_push items b =
     do {
       b' \<leftarrow> lb_ensure_writable (length items) b;
       d \<leftarrow> memcpy (lb_capacity b') (lb_tail b') items (lb_data b');
       Some (b'\<lparr>lb_data := d, lb_tail := lb_tail b' + length items\<rparr>)
     }"

definition lb_discard_prefix :: "nat \<Rightarrow> 'a lbuf \<Rightarrow> 'a lbuf option" where
  "lb_discard_prefix count b =
     do {
       assert_that (count \<le> lb_tail b - lb_head b);
       (let b1 = b\<lparr>lb_head := lb_head b + count\<rparr> in
        if lb_head b1 = lb_tail b1
        then Some (b1\<lparr>lb_base_abs := lb_base_abs b1 + lb_head b1, lb_head := 0, lb_tail := 0\<rparr>)
        else if lb_capacity b1 div 2 \<le> lb_head b1 then lb_compact b1
        else Some b1)
     }"

definition lb_reset :: "'a lbuf \<Rightarrow> 'a lbuf" where
  "lb_reset b = b\<lparr>lb_base_abs := 0, lb_head := 0, lb_tail := 0\<rparr>"

section \<open>Invariant and behaviour of each operation\<close>

definition lb_inv :: "'a lbuf \<Rightarrow> bool" where
  "lb_inv b \<longleftrightarrow> lb_head b \<le> lb_tail b \<and> lb_tail b \<le> length (lb_data b) \<and> length (lb_data b) \<le> lb_capacity b"

definition lb_start :: "'a lbuf \<Rightarrow> nat" where
  "lb_start b = lb_base_abs b + lb_head b"

lemma lb_new_inv: "lb_inv lb_new"
  and lb_new_readable [simp]: "lb_readable lb_new = []"
  and lb_new_start [simp]: "lb_start lb_new = 0"
  by (simp_all add: lb_inv_def lb_new_def lb_readable_def lb_start_def)

lemma length_lb_readable [simp]: "lb_inv b \<Longrightarrow> length (lb_readable b) = lb_tail b - lb_head b"
  by (auto simp: lb_readable_def lb_inv_def min_def)

lemma lb_rel_to_abs [simp]: "lb_readable_rel_to_abs b rel = lb_start b + rel"
  by (simp add: lb_readable_rel_to_abs_def lb_local_to_abs_def lb_start_def)

lemma lb_abs_to_rel: "lb_abs_to_readable_rel b a = (if lb_start b \<le> a then Some (a - lb_start b) else None)"
  by (auto simp: lb_abs_to_readable_rel_def lb_abs_to_local_def lb_start_def bind_assert_that)

lemma lb_compact_ok:
  assumes "lb_inv b"
  obtains b' where "lb_compact b = Some b'" "lb_inv b'" "lb_readable b' = lb_readable b"
    "lb_start b' = lb_start b" "lb_head b' = 0" "lb_tail b' = lb_tail b - lb_head b" "lb_capacity b' = lb_capacity b"
proof (cases "lb_tail b - lb_head b = 0")
  case True
  with assms show thesis
    by (intro that [of "b\<lparr>lb_base_abs := lb_base_abs b + lb_head b, lb_head := 0, lb_tail := 0\<rparr>"])
      (auto simp: lb_compact_def lb_inv_def lb_readable_def lb_start_def)
next
  case False
  let ?live = "lb_tail b - lb_head b"
  let ?s = "slice (lb_head b) ?live (lb_data b)"
  define d where "d = take 0 (lb_data b) @ ?s @ drop (0 + length ?s) (lb_data b)"
  have ls: "length ?s = ?live" using assms by (auto simp: lb_inv_def min_def)
  have cpy: "memcpy (lb_capacity b) 0 ?s (lb_data b) = Some d"
    using assms ls by (auto simp: d_def lb_inv_def memcpy_def)
  have ld: "length d = length (lb_data b)" "take ?live d = ?s"
    using assms ls by (simp_all add: d_def lb_inv_def)
  let ?b = "b\<lparr>lb_data := d, lb_base_abs := lb_base_abs b + lb_head b, lb_head := 0, lb_tail := ?live\<rparr>"
  have "lb_compact b = Some ?b" using False cpy by (simp add: lb_compact_def Let_def)
  moreover have "lb_readable ?b = lb_readable b"
    using ld by (simp add: lb_readable_def slice_def)
  ultimately show thesis
    using assms ld by (intro that [of ?b]) (auto simp: lb_inv_def lb_start_def)
qed

lemma lb_grow_ok:
  assumes "lb_inv b"
  obtains b' where "lb_grow n b = Some b'" "lb_inv b'" "lb_readable b' = lb_readable b"
    "lb_start b' = lb_start b" "lb_tail b' + n \<le> lb_capacity b'"
proof -
  let ?live = "lb_tail b - lb_head b"
  define s where "s = slice (lb_head b) ?live (lb_data b)"
  define c where "c = (if lb_capacity b + max n Min_Grow < ?live + n then ?live + n else lb_capacity b + max n Min_Grow)"
  have ls: "length s = ?live" using assms by (auto simp: lb_inv_def s_def min_def)
  have c: "?live + n \<le> c" "?live \<le> c" using assms by (auto simp: c_def lb_inv_def)
  let ?b = "b\<lparr>lb_data := s, lb_capacity := c, lb_base_abs := lb_base_abs b + lb_head b, lb_head := 0, lb_tail := ?live\<rparr>"
  have "(if ?live > 0 then memcpy c 0 s [] else Some []) = Some s"
    using ls c by (auto simp: memcpy_def)
  then have "lb_grow n b = Some ?b"
    by (simp add: lb_grow_def Let_def s_def c_def)
  moreover have "lb_readable ?b = lb_readable b"
    using ls by (simp add: lb_readable_def s_def [symmetric])
  ultimately show thesis
    using ls c by (intro that [of ?b]) (auto simp: lb_inv_def lb_start_def)
qed

lemma lb_ensure_writable_ok:
  assumes "lb_inv b"
  obtains b' where "lb_ensure_writable n b = Some b'" "lb_inv b'" "lb_readable b' = lb_readable b"
    "lb_start b' = lb_start b" "lb_tail b' + n \<le> lb_capacity b'"
proof (cases "lb_tail b + n \<le> lb_capacity b")
  case True
  with assms show thesis by (intro that [of b]) (auto simp: lb_ensure_writable_def)
next
  case nofit: False
  show thesis
  proof (cases "lb_head b > 0 \<and> lb_tail b - lb_head b + n \<le> lb_capacity b")
    case True
    obtain b' where "lb_compact b = Some b'" "lb_inv b'" "lb_readable b' = lb_readable b"
      "lb_start b' = lb_start b" "lb_tail b' = lb_tail b - lb_head b" "lb_capacity b' = lb_capacity b"
      by (rule lb_compact_ok [OF assms])
    with True nofit show thesis by (intro that [of b']) (auto simp: lb_ensure_writable_def)
  next
    case False
    obtain b' where "lb_grow n b = Some b'" "lb_inv b'" "lb_readable b' = lb_readable b"
      "lb_start b' = lb_start b" "lb_tail b' + n \<le> lb_capacity b'"
      by (rule lb_grow_ok [OF assms])
    with False nofit show thesis by (intro that [of b']) (auto simp: lb_ensure_writable_def)
  qed
qed

lemma lb_push_ok:
  assumes "lb_inv b"
  obtains b' where "lb_push xs b = Some b'" "lb_inv b'" "lb_readable b' = lb_readable b @ xs"
    "lb_start b' = lb_start b"
proof -
  obtain b1 where b1: "lb_ensure_writable (length xs) b = Some b1" "lb_inv b1"
    "lb_readable b1 = lb_readable b" "lb_start b1 = lb_start b" "lb_tail b1 + length xs \<le> lb_capacity b1"
    by (rule lb_ensure_writable_ok [OF assms])
  define d where "d = take (lb_tail b1) (lb_data b1) @ xs @ drop (lb_tail b1 + length xs) (lb_data b1)"
  let ?b = "b1\<lparr>lb_data := d, lb_tail := lb_tail b1 + length xs\<rparr>"
  have "lb_push xs b = Some ?b"
    using b1 by (simp add: lb_push_def d_def lb_inv_def)
  moreover have "lb_inv ?b" using b1(2,5) by (auto simp: lb_inv_def d_def)
  moreover have "lb_readable ?b = lb_readable b1 @ xs"
    using b1(2) by (simp add: lb_readable_def lb_inv_def d_def slice_write)
  ultimately show thesis using b1 by (intro that [of ?b]) (auto simp: lb_start_def)
qed

lemma lb_discard_prefix_ok:
  assumes "lb_inv b" and "n \<le> length (lb_readable b)"
  obtains b' where "lb_discard_prefix n b = Some b'" "lb_inv b'" "lb_readable b' = drop n (lb_readable b)"
    "lb_start b' = lb_start b + n"
proof -
  let ?b1 = "b\<lparr>lb_head := lb_head b + n\<rparr>"
  have n: "n \<le> lb_tail b - lb_head b" using assms by simp
  have inv1: "lb_inv ?b1" using assms n by (auto simp: lb_inv_def)
  have rd1: "lb_readable ?b1 = drop n (lb_readable b)"
    by (simp add: lb_readable_def slice_def drop_take add.commute)
  have st1: "lb_start ?b1 = lb_start b + n" by (simp add: lb_start_def)
  consider (emp) "lb_head b + n = lb_tail b"
    | (cmp) "lb_head b + n \<noteq> lb_tail b" "lb_capacity b div 2 \<le> lb_head b + n"
    | (keep) "lb_head b + n \<noteq> lb_tail b" "\<not> lb_capacity b div 2 \<le> lb_head b + n" by blast
  then show thesis
  proof cases
    case emp
    with n inv1 rd1 st1 show thesis
      by (intro that) (auto simp: lb_discard_prefix_def lb_inv_def lb_readable_def lb_start_def Let_def)
  next
    case cmp
    obtain b' where "lb_compact ?b1 = Some b'" "lb_inv b'" "lb_readable b' = lb_readable ?b1"
      "lb_start b' = lb_start ?b1"
      by (rule lb_compact_ok [OF inv1])
    with cmp n rd1 st1 show thesis
      by (intro that [of b']) (simp_all add: lb_discard_prefix_def Let_def)
  next
    case keep
    with n inv1 rd1 st1 show thesis
      by (intro that [of ?b1]) (simp_all add: lb_discard_prefix_def Let_def)
  qed
qed

lemma lb_discard_prefix_assert:
  "lb_inv b \<Longrightarrow> length (lb_readable b) < n \<Longrightarrow> lb_discard_prefix n b = None"
  by (simp add: lb_discard_prefix_def bind_assert_that)

lemma lb_reset_ok: "lb_inv b \<Longrightarrow> lb_inv (lb_reset b)" "lb_readable (lb_reset b) = []" "lb_start (lb_reset b) = 0"
  by (auto simp: lb_inv_def lb_reset_def lb_readable_def lb_start_def)

section \<open>The contract with the clients\<close>

locale abs_stream =
  fixes push :: "'a list \<Rightarrow> 'b \<Rightarrow> 'b option"
    and discard :: "nat \<Rightarrow> 'b \<Rightarrow> 'b option"
    and content :: "'b \<Rightarrow> 'a list"
    and start :: "'b \<Rightarrow> nat"
    and invar :: "'b \<Rightarrow> bool"
  assumes push_spec: "invar b \<Longrightarrow>
      \<exists>b'. push xs b = Some b' \<and> invar b' \<and> content b' = content b @ xs \<and> start b' = start b"
    and discard_spec: "invar b \<Longrightarrow> n \<le> length (content b) \<Longrightarrow>
      \<exists>b'. discard n b = Some b' \<and> invar b' \<and> content b' = drop n (content b) \<and> start b' = start b + n"
begin

text \<open>The cells at the absolute positions \<open>[p, q)\<close> stay the same when more is appended \<dots>\<close>

lemma push_window:
  assumes "invar b" "push xs b = Some b'" "start b \<le> p" "p \<le> q" "q \<le> start b + length (content b)"
  shows "slice (p - start b') (q - p) (content b') = slice (p - start b) (q - p) (content b)"
  using push_spec [OF assms(1), of xs] assms by (auto simp: mem_simps)

text \<open>\<dots> and when something before them is discarded.\<close>

lemma discard_window:
  assumes "invar b" "n \<le> length (content b)" "discard n b = Some b'" "start b + n \<le> p"
  shows "slice (p - start b') k (content b') = slice (p - start b) k (content b)"
  using discard_spec [OF assms(1,2)] assms(3,4) by (auto simp: mem_simps)

text \<open>Pushing chunk by chunk is pushing their concatenation.\<close>

primrec push_all :: "'a list list \<Rightarrow> 'b \<Rightarrow> 'b option" where
  "push_all [] b = Some b"
| "push_all (c # cs) b = push c b \<bind> push_all cs"

lemma push_all_concat:
  "invar b \<Longrightarrow> \<exists>b'. push_all cs b = Some b' \<and> invar b' \<and> content b' = content b @ concat cs \<and> start b' = start b"
proof (induction cs arbitrary: b)
  case Nil
  then show ?case by simp
next
  case (Cons c cs)
  obtain b1 where "push c b = Some b1" "invar b1" "content b1 = content b @ c" "start b1 = start b"
    using push_spec [OF Cons.prems] by blast
  with Cons.IH [of b1] show ?case by auto
qed

end

interpretation lb: abs_stream lb_push lb_discard_prefix lb_readable lb_start lb_inv
proof (unfold_locales, goal_cases)
  case (1 b xs)
  obtain b' where "lb_push xs b = Some b'" "lb_inv b'" "lb_readable b' = lb_readable b @ xs" "lb_start b' = lb_start b"
    by (rule lb_push_ok [OF 1])
  then show ?case by blast
next
  case (2 b n)
  obtain b' where "lb_discard_prefix n b = Some b'" "lb_inv b'" "lb_readable b' = drop n (lb_readable b)"
    "lb_start b' = lb_start b + n"
    by (rule lb_discard_prefix_ok [OF 2])
  then show ?case by blast
qed

end
