(* ===== verification/Framer_Refinement.thy ===== *)
theory Framer_Refinement
  imports Framer
begin

text \<open>
  The framer refines \<open>frames\<close>. \<open>framer_inv S W f\<close> relates a framer \<open>f\<close> to the bytes \<open>S\<close>
  it has been given since its last reset and to the windows \<open>W\<close> it has found so far, those
  already consumed included.
\<close>

section \<open>The reference under extension of the stream\<close>

lemma next_begin_append: "next_begin S p = Some b \<Longrightarrow> next_begin (S @ T) p = Some b"
  by (auto simp: next_begin_def find_sub_append_Some split: if_splits)

lemma header_at_append:
  assumes "b + 10 \<le> length S" and "header_at S b \<noteq> Incomplete"
  shows "header_at (S @ T) b = header_at S b"
proof -
  define s where "s = drop (b + 10) S"
  have s: "drop (b + 10) (S @ T) = s @ T" using assms(1) by (simp add: s_def)
  have len: "2 \<le> length s"
    using assms(2) by (auto simp: header_at_def Let_def s_def [symmetric] split: if_splits)
  then obtain x y r where xy: "s = x # y # r" by (metis One_nat_def Suc_1 Suc_le_length_iff)
  show ?thesis
  proof (cases "x \<noteq> CHR ''9'' \<or> y \<noteq> CHR ''=''")
    case True
    then show ?thesis by (auto simp: header_at_def Let_def s s_def [symmetric] xy)
  next
    case False
    then obtain k where k: "find_index (\<lambda>c. c = SOH) r = Some k"
      using assms(2) by (auto simp: header_at_def Let_def s_def [symmetric] xy split: option.splits)
    have "k < length r" using find_index_SomeD [OF k] by simp
    with k False show ?thesis
      by (simp add: header_at_def Let_def s s_def [symmetric] xy find_index_append_Some)
  qed
qed

lemma frames_cong: "next_begin U p = next_begin U q \<Longrightarrow> frames U p = frames U q"
  by (simp add: frames.simps [of U p] frames.simps [of U q])

lemma next_begin_self: "starts_with Fix_First_Field (drop b S) \<Longrightarrow> b \<le> length S \<Longrightarrow> next_begin S b = Some b"
  by (simp add: next_begin_def find_sub_eqI)

lemma next_begin_skip:
  assumes "p \<le> q" "q \<le> length U" "\<And>j. p \<le> j \<Longrightarrow> j < q \<Longrightarrow> \<not> starts_with Fix_First_Field (drop j U)"
  shows "next_begin U p = next_begin U q"
proof (cases "next_begin U q")
  case None
  have "\<not> starts_with Fix_First_Field (drop j (drop p U))" if "j \<le> length (drop p U)" for j
  proof (cases "p + j < q")
    case True
    with assms(3) [of "p + j"] show ?thesis by (simp add: add.commute)
  next
    case False
    from None assms have "find_sub Fix_First_Field (drop q U) = None"
      by (simp add: next_begin_def)
    from find_sub_NoneD [OF this, of "p + j - q"] False that assms show ?thesis
      by (simp add: add.commute)
  qed
  then have "find_sub Fix_First_Field (drop p U) = None" by (rule find_sub_NoneI)
  with None assms show ?thesis by (simp add: next_begin_def)
next
  case (Some b)
  note D = next_begin_SomeD [OF Some]
  have "find_sub Fix_First_Field (drop p U) = Some (b - p)"
  proof (rule find_sub_eqI)
    show "starts_with Fix_First_Field (drop (b - p) (drop p U))" "b - p \<le> length (drop p U)"
      using D assms by simp_all
    fix j assume "j < b - p"
    with assms(3) [of "p + j"] D(4) [of "p + j"] D(1) assms(1)
    show "\<not> starts_with Fix_First_Field (drop j (drop p U))"
      by (cases "p + j < q") (simp_all add: add.commute)
  qed
  then have "next_begin U p = Some b" using D(1,2) assms by (simp add: next_begin_def)
  with Some show ?thesis by simp
qed

lemma frames_at_begin:
  assumes "next_begin S p = Some b"
  shows "frames (S @ T) p = frames (S @ T) b"
proof (rule frames_cong)
  note D = next_begin_SomeD [OF assms]
  have "next_begin S b = Some b" using D by (intro next_begin_self) auto
  with assms show "next_begin (S @ T) p = next_begin (S @ T) b" by (simp add: next_begin_append)
qed

lemma frames_malformed:
  assumes "next_begin S p = Some b" "header_at S b = Malformed"
  shows "frames (S @ T) p = frames (S @ T) (b + 1)"
proof -
  have "header_at (S @ T) b = Malformed"
    using header_at_append [of b S T] next_begin_SomeD(2) [OF assms(1)] assms(2) by simp
  with next_begin_append [OF assms(1), of T] show ?thesis
    by (simp add: frames.simps [of "S @ T" p])
qed

lemma frames_header:
  assumes "next_begin S p = Some b" "header_at S b = Header e" "e \<le> length S"
  shows "frames (S @ T) p = \<lparr>w_begin = b, w_end = e\<rparr> # frames (S @ T) e"
proof -
  have "header_at (S @ T) b = Header e"
    using header_at_append [of b S T] next_begin_SomeD(2) [OF assms(1)] assms(2) by simp
  with next_begin_append [OF assms(1), of T] assms(3) show ?thesis
    by (simp add: frames.simps [of "S @ T" p])
qed

lemma starts_with_drop_append:
  assumes "starts_with pat (drop j (S @ T))" "j + length pat \<le> length S"
  shows "starts_with pat (drop j S)"
  using assms by (simp add: starts_with_append_short)

text \<open>
  Where no begin marker starts at or behind \<open>p\<close>, scanning may resume nine bytes before the
  end, or at \<open>p\<close> itself when that is later.
\<close>

lemma frames_no_begin:
  assumes none: "next_begin S p = None" and p: "p \<le> length S" and q: "p \<le> q" "q \<le> length S - 9 \<or> q = p"
  shows "frames (S @ T) p = frames (S @ T) q"
proof (rule frames_cong, rule next_begin_skip)
  show "p \<le> q" by (rule q)
  show "q \<le> length (S @ T)" using q p by auto
  fix j assume j: "p \<le> j" "j < q"
  then have le: "j + 10 \<le> length S" using q by auto
  show "\<not> starts_with Fix_First_Field (drop j (S @ T))"
  proof
    assume "starts_with Fix_First_Field (drop j (S @ T))"
    from starts_with_drop_append [OF this] le have "starts_with Fix_First_Field (drop j S)"
      by simp
    moreover from none p have "find_sub Fix_First_Field (drop p S) = None"
      by (simp add: next_begin_def)
    moreover have "j - p \<le> length (drop p S)" using le by (simp add: diff_le_mono)
    ultimately show False using find_sub_NoneD [of Fix_First_Field "drop p S" "j - p"] j by simp
  qed
qed

section \<open>The invariant\<close>

fun windows_in :: "nat \<Rightarrow> MessageWindow list \<Rightarrow> nat \<Rightarrow> bool" where
  "windows_in lo [] hi \<longleftrightarrow> lo \<le> hi"
| "windows_in lo (w # ws) hi \<longleftrightarrow> lo \<le> w_begin w \<and> w_begin w < w_end w \<and> windows_in (w_end w) ws hi"

lemma windows_in_snoc:
  "windows_in lo ws b \<Longrightarrow> b \<le> w_begin w \<Longrightarrow> w_begin w < w_end w \<Longrightarrow> windows_in lo (ws @ [w]) (w_end w)"
  by (induction ws arbitrary: lo) auto

lemma windows_in_mono: "windows_in lo ws a \<Longrightarrow> a \<le> b \<Longrightarrow> windows_in lo ws b"
  by (induction ws arbitrary: lo) auto

lemma windows_in_le: "windows_in lo ws hi \<Longrightarrow> lo \<le> hi"
  by (induction ws arbitrary: lo) fastforce+

definition framer_pos :: "framer \<Rightarrow> nat" where
  "framer_pos f = max (fr_scan_abs f) (lb_start (fr_buffer f))"

definition scan_ok :: "string \<Rightarrow> framer \<Rightarrow> bool" where
  "scan_ok S f \<longleftrightarrow>
     framer_pos f \<le> lb_start (fr_buffer f) \<or> framer_pos f + 9 \<le> length S \<or>
     starts_with Fix_First_Field (drop (framer_pos f) S) \<or>
     (ring_list (fr_completed f) \<noteq> [] \<and> framer_pos f = w_end (last (ring_list (fr_completed f))))"

definition ctx_ok :: "string \<Rightarrow> framer \<Rightarrow> bool" where
  "ctx_ok S f \<longleftrightarrow>
     fc_state (fr_ctx f) = FindingBegin \<or>
     (fc_state (fr_ctx f) = ReadingBody \<and> lb_start (fr_buffer f) \<le> fr_scan_abs f \<and>
      fc_begin (fr_ctx f) = fr_scan_abs f \<and> starts_with Fix_First_Field (drop (fr_scan_abs f) S) \<and>
      header_at S (fr_scan_abs f) = Header (fc_end (fr_ctx f)))"

definition framer_base :: "string \<Rightarrow> MessageWindow list \<Rightarrow> framer \<Rightarrow> bool" where
  "framer_base S W f \<longleftrightarrow>
     lb_inv (fr_buffer f) \<and> ring_inv (fr_completed f) \<and>
     lb_start (fr_buffer f) \<le> length S \<and> lb_readable (fr_buffer f) = drop (lb_start (fr_buffer f)) S \<and>
     (\<exists>V. W = V @ ring_list (fr_completed f)) \<and>
     windows_in (lb_start (fr_buffer f)) (ring_list (fr_completed f)) (framer_pos f) \<and>
     framer_pos f \<le> length S \<and>
     (\<forall>T. frames (S @ T) 0 = W @ frames (S @ T) (framer_pos f))"

definition framer_inv :: "string \<Rightarrow> MessageWindow list \<Rightarrow> framer \<Rightarrow> bool" where
  "framer_inv S W f \<longleftrightarrow> framer_base S W f \<and> scan_ok S f \<and> ctx_ok S f"

lemma framer_new_inv: "framer_inv [] [] framer_new"
  by (simp add: framer_inv_def framer_base_def scan_ok_def ctx_ok_def framer_pos_def framer_new_def
      fresh_context_def lb_new_inv)

section \<open>One round of the loop\<close>

text \<open>What a round adds to the queue; the ring never grows.\<close>

definition queue_ext :: "framer \<Rightarrow> framer \<Rightarrow> MessageWindow list \<Rightarrow> bool" where
  "queue_ext f f' W' \<longleftrightarrow>
     ring_list (fr_completed f') = ring_list (fr_completed f) @ W' \<and>
     r_capacity (fr_completed f') = r_capacity (fr_completed f)"

lemma queue_ext_refl [simp]: "fr_completed f' = fr_completed f \<Longrightarrow> queue_ext f f' []"
  by (simp add: queue_ext_def)

lemma queue_ext_trans: "queue_ext f g U \<Longrightarrow> queue_ext g h V \<Longrightarrow> queue_ext f h (U @ V)"
  by (simp add: queue_ext_def)

lemma framer_complete_ok:
  assumes base: "framer_base S W f" and room: "\<not> ring_full (fr_completed f)"
    and ctx: "fc_begin (fr_ctx f) = b" "fc_end (fr_ctx f) = e"
    and b: "framer_pos f = b" "b < e" "e \<le> length S"
    and step: "\<And>T. frames (S @ T) b = \<lparr>w_begin = b, w_end = e\<rparr> # frames (S @ T) e"
  shows "\<exists>f'. framer_complete f = Some (QueuedMessage, f') \<and>
           framer_inv S (W @ [\<lparr>w_begin = b, w_end = e\<rparr>]) f' \<and> framer_pos f' = e \<and>
           queue_ext f f' [\<lparr>w_begin = b, w_end = e\<rparr>]"
proof -
  let ?w = "\<lparr>w_begin = b, w_end = e\<rparr>"
  from base have rinv: "ring_inv (fr_completed f)" by (simp add: framer_base_def)
  obtain q where q: "ring_push Reject 0 ?w (fr_completed f) = Some (True, q)" "ring_inv q"
      "ring_list q = ring_list (fr_completed f) @ [?w]"
    using rq.push_room [OF rinv room] by blast
  let ?f = "f\<lparr>fr_scan_abs := e, fr_completed := q, fr_ctx := fresh_context\<rparr>"
  have pos: "framer_pos ?f = e" using b by (auto simp: framer_pos_def)
  have "framer_complete f = Some (QueuedMessage, ?f)"
    using q ctx by (simp add: framer_complete_def make_message_window_def)
  moreover have "windows_in (lb_start (fr_buffer f)) (ring_list q) e"
    using base b windows_in_snoc [of _ _ b ?w] by (simp add: q framer_base_def)
  then have "framer_base S (W @ [?w]) ?f"
    using base b q pos step by (auto simp: framer_base_def)
  moreover have "scan_ok S ?f" "ctx_ok S ?f"
    using q pos by (simp_all add: scan_ok_def ctx_ok_def fresh_context_def)
  moreover have "queue_ext f ?f [?w]"
    using q ring_push_reject_capacity [OF q(1)] by (simp add: queue_ext_def)
  ultimately show ?thesis using pos by (auto simp: framer_inv_def)
qed

text \<open>The concrete reading of the length field computes \<open>header_at\<close>.\<close>

lemma framer_parse_length_header:
  assumes rd: "view = drop st S" and b: "st \<le> b" "b + 10 \<le> length S" and st: "st = lb_start (fr_buffer f)"
  shows "framer_parse_length f view (b - st) =
    (case header_at S b of
       Incomplete \<Rightarrow> Some (NeedMoreData, f)
     | Malformed \<Rightarrow> Some (framer_resync f)
     | Header e \<Rightarrow>
         let f' = f\<lparr>fr_ctx := (fr_ctx f)\<lparr>fc_body_len :=
                    the (from_chars_whole (2 ^ 64 - 1)
                      (take (the (find_index (\<lambda>c. c = SOH) (drop (b + 12) S))) (drop (b + 12) S))),
                    fc_state := ReadingBody, fc_end := e\<rparr>\<rparr> in
         if e > length S then Some (NeedMoreData, f') else framer_complete f')"
proof -
  let ?bs = "b - st + 10"
  have abs: "st + (b - st) = b" "st + ?bs = b + 10" using b by simp_all
  have len: "length view < ?bs + 2 \<longleftrightarrow> length (drop (b + 10) S) < 2"
    using rd b by auto
  have d: "drop (?bs + 2) view = drop (b + 12) S" using rd b by (simp add: add.commute)
  have d2: "drop 2 (drop (b + 10) S) = drop (b + 12) S" by (simp add: add.commute)
  show ?thesis
  proof (cases "length (drop (b + 10) S) < 2")
    case True
    then show ?thesis
      by (simp only: framer_parse_length_def header_at_def Let_def length_Fix_First_Field len if_True
          header_status.case)
  next
    case two: False
    have nth: "view ! ?bs = drop (b + 10) S ! 0" "view ! (?bs + 1) = drop (b + 10) S ! 1"
      using two rd b abs by (simp_all add: add.assoc)
    have fc: "sv_find_char view SOH (?bs + 2) = map_option ((+) (?bs + 2)) (find_index (\<lambda>c. c = SOH) (drop (b + 12) S))"
      by (simp only: sv_find_char_def d)
    have sl: "slice (?bs + 2) (?bs + 2 + k - (?bs + 2)) view = take k (drop (b + 12) S)" for k
      unfolding slice_def d by simp
    have en: "(?bs + 2 + k + 1 + n + 7 > length view) = (b + 10 + 2 + k + 1 + n + 7 > length S)" for k n
      using rd b two by auto
    have ea: "lb_readable_rel_to_abs (fr_buffer f) (?bs + 2 + k + 1 + n + 7) = b + 10 + 2 + k + 1 + n + 7" for k n
      using st b by simp
    note unf = framer_parse_length_def header_at_def Let_def length_Fix_First_Field len nth fc d2
    show ?thesis
    proof (cases "drop (b + 10) S ! 0 \<noteq> CHR ''9'' \<or> drop (b + 10) S ! 1 \<noteq> CHR ''=''")
      case True
      with two show ?thesis unfolding unf by (simp only: if_False if_True header_status.case)
    next
      case nine: False
      show ?thesis
      proof (cases "find_index (\<lambda>c. c = SOH) (drop (b + 12) S)")
        case None
        with two nine show ?thesis
          unfolding unf by (simp only: if_False option.map option.case header_status.case)
      next
        case (Some k)
        with two nine show ?thesis
          unfolding unf
          by (cases "from_chars_whole (2 ^ 64 - 1) (take k (drop (b + 12) S))")
             (simp_all only: if_False option.map option.case header_status.case sl en ea option.sel
               if_distrib [where f = "case_header_status _ _ _"] cong: if_cong)
      qed
    qed
  qed
qed

lemma framer_base_scan:
  assumes "framer_base S W f" and "framer_pos f' = p" and "framer_pos f \<le> p" "p \<le> length S"
    and "fr_buffer f' = fr_buffer f" "fr_completed f' = fr_completed f"
    and "\<And>T. frames (S @ T) (framer_pos f) = frames (S @ T) p"
  shows "framer_base S W f'"
  using assms windows_in_mono by (auto simp: framer_base_def)

definition round_ok :: "string \<Rightarrow> MessageWindow list \<Rightarrow> framer \<Rightarrow> (FramerParseResult \<times> framer) option \<Rightarrow> bool" where
  "round_ok S W f res \<longleftrightarrow>
     (\<exists>r f' W'. res = Some (r, f') \<and> framer_inv S (W @ W') f' \<and> queue_ext f f' W' \<and>
        (r = NeedMoreData \<longrightarrow> W' = [] \<and> frames S (framer_pos f') = []) \<and>
        (r \<noteq> NeedMoreData \<longrightarrow> framer_pos f < framer_pos f'))"

lemma round_ok_wait: "framer_inv S W f' \<Longrightarrow> fr_completed f' = fr_completed f \<Longrightarrow> frames S (framer_pos f') = [] \<Longrightarrow> round_ok S W f (Some (NeedMoreData, f'))"
  unfolding round_ok_def by (intro exI [of _ NeedMoreData] exI [of _ f'] exI [of _ "[]"]) simp

text \<open>A complete length field: the message is taken when all of it is there, and waited for otherwise.\<close>

lemma header_round:
  assumes base: "framer_base S W f" and room: "\<not> ring_full (fr_completed f)"
    and pos: "framer_pos f = b" "fr_scan_abs f = b" and ctx: "fc_begin (fr_ctx f) = b"
    and nb: "next_begin S b = Some b" and Header: "header_at S b = Header e"
    and le: "framer_pos f0 \<le> b" and f0: "fr_completed f = fr_completed f0"
    and g: "g = f\<lparr>fr_ctx := (fr_ctx f)\<lparr>fc_body_len := n, fc_state := ReadingBody, fc_end := e\<rparr>\<rparr>"
  shows "round_ok S W f0 (if e > length S then Some (NeedMoreData, g) else framer_complete g)"
proof -
  note D = next_begin_SomeD [OF nb]
  have st: "lb_start (fr_buffer f) \<le> b" using pos by (auto simp: framer_pos_def)
  have p: "framer_pos g = b" using pos by (simp add: framer_pos_def g)
  have base': "framer_base S W g" using base p pos by (simp add: framer_base_def g)
  show ?thesis
  proof (cases "e > length S")
    case True
    have "framer_inv S W g"
      using base' p pos ctx D Header st by (simp add: framer_inv_def scan_ok_def ctx_ok_def g)
    moreover have "frames S (framer_pos g) = []"
      using nb Header True p by (simp add: frames.simps [of S b])
    ultimately show ?thesis using True f0 by (simp add: round_ok_wait g)
  next
    case False
    have "b < e" using header_at_Header_gt [OF Header] by simp
    from framer_complete_ok [OF base', of b e] False this room p ctx frames_header [OF nb Header]
    obtain f' where f': "framer_complete g = Some (QueuedMessage, f')"
        "framer_inv S (W @ [\<lparr>w_begin = b, w_end = e\<rparr>]) f'" "framer_pos f' = e"
        "queue_ext g f' [\<lparr>w_begin = b, w_end = e\<rparr>]"
      by (auto simp: g)
    from f'(4) have "queue_ext f0 f' [\<lparr>w_begin = b, w_end = e\<rparr>]"
      using f0 by (simp add: queue_ext_def g)
    with f'(1-3) show ?thesis
      unfolding round_ok_def using False le \<open>b < e\<close>
      by (intro exI [of _ QueuedMessage] exI [of _ f'] exI [of _ "[\<lparr>w_begin = b, w_end = e\<rparr>]"]) simp
  qed
qed

lemma parse_length_round:
  assumes base: "framer_base S W f" and room: "\<not> ring_full (fr_completed f)"
    and pos: "framer_pos f = b" "fr_scan_abs f = b" and ctx: "fc_begin (fr_ctx f) = b" "fc_state (fr_ctx f) = FindingBegin"
    and nb: "next_begin S b = Some b" and view: "view = lb_readable (fr_buffer f)"
    and le: "framer_pos f0 \<le> b" and f0: "fr_completed f = fr_completed f0"
  shows "round_ok S W f0 (framer_parse_length f view (b - lb_start (fr_buffer f)))"
proof -
  note D = next_begin_SomeD [OF nb]
  have st: "lb_start (fr_buffer f) \<le> b" using pos by (auto simp: framer_pos_def)
  have rd: "view = drop (lb_start (fr_buffer f)) S" using base view by (simp add: framer_base_def)
  note PL = framer_parse_length_header [OF rd st D(2) refl]
  show ?thesis
  proof (cases "header_at S b")
    case Incomplete
    have "framer_inv S W f"
      using base D pos ctx by (simp add: framer_inv_def scan_ok_def ctx_ok_def)
    moreover have "frames S (framer_pos f) = []"
      using nb Incomplete pos by (simp add: frames.simps [of S b])
    ultimately show ?thesis using PL Incomplete f0 by (simp add: round_ok_wait)
  next
    case Malformed
    let ?f = "f\<lparr>fr_scan_abs := b + 1, fr_ctx := fresh_context\<rparr>"
    have p: "framer_pos ?f = b + 1" using pos by (auto simp: framer_pos_def)
    have "12 + b \<le> length S"
      using Malformed D(2) by (auto simp: header_at_def Let_def split: if_splits)
    then have "framer_inv S W ?f"
      using p framer_base_scan [OF base p] D frames_malformed [OF nb Malformed] pos
      by (auto simp: framer_inv_def scan_ok_def ctx_ok_def fresh_context_def)
    moreover have "framer_parse_length f view (b - lb_start (fr_buffer f)) = Some (ProgressNoMsg, ?f)"
      using PL Malformed ctx by (simp add: framer_resync_def)
    ultimately show ?thesis
      unfolding round_ok_def using p le f0
      by (intro exI [of _ ProgressNoMsg] exI [of _ ?f] exI [of _ "[]"]) simp
  next
    case (Header e)
    then obtain n where "framer_parse_length f view (b - lb_start (fr_buffer f)) =
        (let f' = f\<lparr>fr_ctx := (fr_ctx f)\<lparr>fc_body_len := n, fc_state := ReadingBody, fc_end := e\<rparr>\<rparr> in
         if e > length S then Some (NeedMoreData, f') else framer_complete f')"
      using PL by simp
    then show ?thesis using header_round [OF base room pos ctx(1) nb Header le f0] by (simp add: Let_def)
  qed
qed

lemma frames_end: "frames S (length S) = []"
  by (subst frames.simps) (simp add: next_begin_def Fix_First_Field_def)

lemma sv_find_next_begin:
  assumes "st \<le> p" "p \<le> length S"
  shows "sv_find (drop st S) Fix_First_Field (p - st) = map_option (\<lambda>b. b - st) (next_begin S p)"
proof -
  have "((+) (p - st)) = (\<lambda>i. p + i - st)" using assms by auto
  then show ?thesis
    using assms by (simp add: sv_find_def next_begin_def option.map_comp comp_def diff_le_mono)
qed

text \<open>Without a begin string and with nothing queued, all but the last nine bytes are dropped.\<close>

lemma discard_searched:
  assumes inv: "framer_inv S W f" and fb: "fc_state (fr_ctx f) = FindingBegin" and empty: "ring_empty (fr_completed f)"
    and None: "next_begin S (framer_pos f) = None"
  obtains buf where
    "lb_discard_prefix (length S - lb_start (fr_buffer f) - (if length S - lb_start (fr_buffer f) < 9 then length S - lb_start (fr_buffer f) else 9)) (fr_buffer f) = Some buf"
    "framer_inv S W (f\<lparr>fr_buffer := buf, fr_scan_abs := lb_start buf\<rparr>)" "frames S (framer_pos (f\<lparr>fr_buffer := buf, fr_scan_abs := lb_start buf\<rparr>)) = []"
proof -
  let ?st = "lb_start (fr_buffer f)" and ?p = "framer_pos f"
  from inv have base: "framer_base S W f" and sok: "scan_ok S f" by (simp_all add: framer_inv_def)
  then have rd: "lb_readable (fr_buffer f) = drop ?st S" and p: "?st \<le> ?p" "?p \<le> length S"
    and linv: "lb_inv (fr_buffer f)" and stS: "?st \<le> length S"
    by (auto simp: framer_base_def framer_pos_def)
  have emp: "ring_list (fr_completed f) = []" using empty by (simp add: ring_empty_iff)
  define dr where "dr = length S - ?st - (if length S - ?st < 9 then length S - ?st else 9)"
  have "dr \<le> length (lb_readable (fr_buffer f))" using rd by (simp add: dr_def)
  then obtain buf where buf: "lb_discard_prefix dr (fr_buffer f) = Some buf" "lb_inv buf"
      "lb_readable buf = drop dr (lb_readable (fr_buffer f))" "lb_start buf = ?st + dr"
    using lb_discard_prefix_ok [OF linv] by metis
  let ?f = "f\<lparr>fr_buffer := buf, fr_scan_abs := lb_start buf\<rparr>"
  have "\<not> starts_with Fix_First_Field (drop ?p S)" using None next_begin_self [of ?p S] p by auto
  then have "?p \<le> ?st \<or> ?p + 9 \<le> length S" using sok emp by (auto simp: scan_ok_def)
  then have q: "lb_start buf \<le> length S" "?p \<le> lb_start buf" "lb_start buf \<le> length S - 9 \<or> lb_start buf = ?p"
    using p stS by (auto simp: buf(4) dr_def)
  have fr: "frames (S @ T) ?p = frames (S @ T) (lb_start buf)" for T
    by (rule frames_no_begin [OF None p(2) q(2,3)])
  have pq: "framer_pos ?f = lb_start buf" by (simp add: framer_pos_def)
  have "framer_base S W ?f" using base buf q fr pq rd emp by (auto simp: framer_base_def add.commute)
  then have "framer_inv S W ?f" using pq fb by (simp add: framer_inv_def scan_ok_def ctx_ok_def)
  moreover have "frames S (framer_pos ?f) = []" using fr [of "[]"] None pq by (simp add: frames.simps [of S ?p])
  ultimately show ?thesis using that buf(1) unfolding dr_def by blast
qed

lemma find_begin_round:
  assumes inv: "framer_inv S W f" and room: "\<not> ring_full (fr_completed f)"
    and pos: "fr_scan_abs f = framer_pos f" and fb: "fc_state (fr_ctx f) = FindingBegin"
    and le: "framer_pos f0 \<le> framer_pos f" and f0: "fr_completed f = fr_completed f0"
  shows "round_ok S W f0 (framer_find_begin f (lb_readable (fr_buffer f)) (framer_pos f - lb_start (fr_buffer f)))"
proof -
  let ?st = "lb_start (fr_buffer f)" and ?p = "framer_pos f"
  from inv have base: "framer_base S W f" and sok: "scan_ok S f" by (simp_all add: framer_inv_def)
  then have rd: "lb_readable (fr_buffer f) = drop ?st S" and p: "?st \<le> ?p" "?p \<le> length S"
    and linv: "lb_inv (fr_buffer f)" and stS: "?st \<le> length S"
    by (auto simp: framer_base_def framer_pos_def)
  note find = sv_find_next_begin [OF p]
  show ?thesis
  proof (cases "next_begin S ?p")
    case (Some b)
    note D = next_begin_SomeD [OF Some]
    let ?f = "f\<lparr>fr_ctx := (fr_ctx f)\<lparr>fc_begin := b\<rparr>, fr_scan_abs := b\<rparr>"
    have pb: "framer_pos ?f = b" using D p by (auto simp: framer_pos_def)
    have "framer_base S W ?f"
      using framer_base_scan [OF base pb] D frames_at_begin [OF Some] by simp
    moreover have "next_begin S b = Some b" using D by (intro next_begin_self) auto
    ultimately have "round_ok S W f0 (framer_parse_length ?f (lb_readable (fr_buffer f)) (b - ?st))"
      using parse_length_round [of S W ?f b "lb_readable (fr_buffer f)" f0] room pb fb D le f0 by simp
    then show ?thesis using Some find rd D p by (simp add: framer_find_begin_def Let_def)
  next
    case None
    have none: "frames S ?p = []" using None by (simp add: frames.simps [of S ?p])
    show ?thesis
    proof (cases "ring_empty (fr_completed f)")
      case False
      then show ?thesis using None find rd none inv f0
        by (simp add: framer_find_begin_def round_ok_wait)
    next
      case True
      obtain buf where "lb_discard_prefix (length S - ?st - (if length S - ?st < 9 then length S - ?st else 9)) (fr_buffer f) = Some buf"
        "framer_inv S W (f\<lparr>fr_buffer := buf, fr_scan_abs := lb_start buf\<rparr>)"
        "frames S (framer_pos (f\<lparr>fr_buffer := buf, fr_scan_abs := lb_start buf\<rparr>)) = []"
        using discard_searched [OF inv fb True None] .
      moreover from this(1) have "framer_find_begin f (lb_readable (fr_buffer f)) (?p - ?st) =
          Some (NeedMoreData, f\<lparr>fr_buffer := buf, fr_scan_abs := lb_start buf\<rparr>)"
        using None find rd True
        by (cases "length S - ?st < 9") (simp_all add: framer_find_begin_def Let_def)
      ultimately show ?thesis using f0 by (simp add: round_ok_wait)
    qed
  qed
qed

lemma read_body_round:
  assumes inv: "framer_inv S W f" and room: "\<not> ring_full (fr_completed f)"
    and rb: "fc_state (fr_ctx f) \<noteq> FindingBegin"
  shows "round_ok S W f (framer_read_body f (lb_readable (fr_buffer f)))"
proof -
  let ?e = "fc_end (fr_ctx f)" and ?b = "fr_scan_abs f"
  from inv rb have base: "framer_base S W f" and c: "lb_start (fr_buffer f) \<le> ?b" "fc_begin (fr_ctx f) = ?b"
      "starts_with Fix_First_Field (drop ?b S)" "header_at S ?b = Header ?e"
    by (auto simp: framer_inv_def ctx_ok_def)
  have p: "framer_pos f = ?b" using c by (simp add: framer_pos_def)
  have "?b \<le> length S" "lb_start (fr_buffer f) + length (lb_readable (fr_buffer f)) = length S"
    using base p by (auto simp: framer_base_def)
  with c have nb: "next_begin S ?b = Some ?b" by (intro next_begin_self) auto
  show ?thesis
  proof (cases "?e > length S")
    case True
    then have "frames S (framer_pos f) = []" using nb c p by (simp add: frames.simps [of S ?b])
    with inv True \<open>_ = length S\<close> show ?thesis by (simp add: framer_read_body_def round_ok_wait)
  next
    case False
    have "?b < ?e" using header_at_Header_gt [OF c(4)] by simp
    from framer_complete_ok [OF base room c(2) refl p this] False frames_header [OF nb c(4)]
    obtain f' where "framer_complete f = Some (QueuedMessage, f')"
        "framer_inv S (W @ [\<lparr>w_begin = ?b, w_end = ?e\<rparr>]) f'" "framer_pos f' = ?e"
        "queue_ext f f' [\<lparr>w_begin = ?b, w_end = ?e\<rparr>]"
      by auto
    then show ?thesis
      unfolding round_ok_def using False \<open>_ = length S\<close> p \<open>?b < ?e\<close>
      by (intro exI [of _ QueuedMessage] exI [of _ f'] exI [of _ "[\<lparr>w_begin = ?b, w_end = ?e\<rparr>]"])
         (simp add: framer_read_body_def)
  qed
qed

lemma parse_buffer_round:
  assumes inv: "framer_inv S W f0" and room: "\<not> ring_full (fr_completed f0)"
  shows "round_ok S W f0 (parse_buffer f0)"
proof -
  define f where "f = (if fr_scan_abs f0 < lb_start (fr_buffer f0)
      then f0\<lparr>fr_scan_abs := lb_start (fr_buffer f0)\<rparr> else f0)"
  have f: "fr_buffer f = fr_buffer f0" "fr_completed f = fr_completed f0" "fr_ctx f = fr_ctx f0"
      "framer_pos f = framer_pos f0" "fr_scan_abs f = framer_pos f0"
    by (auto simp: f_def framer_pos_def)
  have st: "lb_start (fr_buffer f) \<le> framer_pos f" using f(5) by (simp add: framer_pos_def)
  have inv': "framer_inv S W f"
  proof -
    have "ctx_ok S f" using inv by (auto simp: framer_inv_def ctx_ok_def f_def)
    moreover have "scan_ok S f" using inv f by (simp add: framer_inv_def scan_ok_def)
    moreover have "framer_base S W f" using inv f by (simp add: framer_inv_def framer_base_def)
    ultimately show ?thesis by (simp add: framer_inv_def)
  qed
  have len: "length (lb_readable (fr_buffer f)) = length S - lb_start (fr_buffer f)" "framer_pos f \<le> length S"
    using inv' by (auto simp: framer_inv_def framer_base_def)
  have pb: "parse_buffer f0 =
     (if length S - lb_start (fr_buffer f) \<le> framer_pos f - lb_start (fr_buffer f) then Some (NeedMoreData, f)
      else if fc_state (fr_ctx f) = FindingBegin
      then framer_find_begin f (lb_readable (fr_buffer f)) (framer_pos f - lb_start (fr_buffer f))
      else framer_read_body f (lb_readable (fr_buffer f)))"
    using st f len by (simp add: parse_buffer_def Let_def f_def [symmetric] lb_abs_to_rel)
  have le0: "framer_pos f0 \<le> framer_pos f" using f by simp
  show ?thesis
  proof (cases "length S - lb_start (fr_buffer f) \<le> framer_pos f - lb_start (fr_buffer f)")
    case True
    with st len have "framer_pos f = length S" by simp
    with True pb inv' f(2) show ?thesis by (simp add: round_ok_wait frames_end)
  next
    case False
    show ?thesis
    proof (cases "fc_state (fr_ctx f) = FindingBegin")
      case True
      with False pb find_begin_round [OF inv' _ _ True le0] room f show ?thesis by simp
    next
      case rb: False
      with False pb read_body_round [OF inv' _ rb] room f show ?thesis
        by (simp add: round_ok_def queue_ext_def)
    qed
  qed
qed

section \<open>The loop, chunks and consumption\<close>

lemma append_loop_ok:
  "framer_inv S W f \<Longrightarrow>
   \<exists>f' W'. append_loop f = Some f' \<and> framer_inv S (W @ W') f' \<and> queue_ext f f' W' \<and>
     (ring_full (fr_completed f') \<or> W @ W' = frames S 0)"
proof (induction "length S - framer_pos f" arbitrary: W f rule: less_induct)
  case less
  show ?case
  proof (cases "ring_full (fr_completed f)")
    case True
    with less.prems show ?thesis
      by (subst append_loop.simps) (auto intro!: exI [of _ "[]"])
  next
    case False
    obtain r f1 W1 where r: "parse_buffer f = Some (r, f1)" "framer_inv S (W @ W1) f1"
        "queue_ext f f1 W1"
        "r = NeedMoreData \<longrightarrow> W1 = [] \<and> frames S (framer_pos f1) = []"
        "r \<noteq> NeedMoreData \<longrightarrow> framer_pos f < framer_pos f1"
      using parse_buffer_round [OF less.prems False] by (auto simp: round_ok_def)
    show ?thesis
    proof (cases "r = NeedMoreData")
      case True
      from r(2) have "frames (S @ []) 0 = (W @ W1) @ frames (S @ []) (framer_pos f1)"
        unfolding framer_inv_def framer_base_def by blast
      with r True have "W @ [] = frames S 0" by simp
      with r True False show ?thesis
        by (subst append_loop.simps) (auto intro!: exI [of _ "[]"])
    next
      case rF: False
      from r(2) have "framer_pos f1 \<le> length S" by (simp add: framer_inv_def framer_base_def)
      with r rF have "length S - framer_pos f1 < length S - framer_pos f" by simp
      from less.hyps [OF this r(2)] obtain f' W' where
        f': "append_loop f1 = Some f'" "framer_inv S ((W @ W1) @ W') f'" "queue_ext f1 f' W'"
          "ring_full (fr_completed f') \<or> (W @ W1) @ W' = frames S 0"
        by blast
      have "append_loop f = Some f'"
        using r rF False f'(1) by (subst append_loop.simps) simp
      with f' queue_ext_trans [OF r(3) f'(3)] show ?thesis
        by (intro exI [of _ f'] exI [of _ "W1 @ W'"]) simp
    qed
  qed
qed

lemma framer_inv_push:
  assumes inv: "framer_inv S W f" and "lb_push T (fr_buffer f) = Some buf"
  shows "framer_inv (S @ T) W (f\<lparr>fr_buffer := buf\<rparr>)"
proof -
  from inv have base: "framer_base S W f" and linv: "lb_inv (fr_buffer f)"
    by (simp_all add: framer_inv_def framer_base_def)
  obtain b' where "lb_push T (fr_buffer f) = Some b'" "lb_inv b'" "lb_readable b' = lb_readable (fr_buffer f) @ T"
      "lb_start b' = lb_start (fr_buffer f)"
    by (rule lb_push_ok [OF linv])
  with assms(2) have buf: "lb_inv buf" "lb_readable buf = lb_readable (fr_buffer f) @ T"
      "lb_start buf = lb_start (fr_buffer f)"
    by simp_all
  let ?f = "f\<lparr>fr_buffer := buf\<rparr>"
  have p: "framer_pos ?f = framer_pos f" by (simp add: framer_pos_def buf)
  have pS: "framer_pos f \<le> length S" using base by (simp add: framer_base_def)
  have sw: "starts_with pat (drop j S) \<Longrightarrow> j \<le> length S \<Longrightarrow> starts_with pat (drop j (S @ T))" for pat j
    by (simp add: starts_with_appendI)
  have "framer_base (S @ T) W ?f"
    using base buf p pS by (auto simp: framer_base_def)
  moreover have "scan_ok (S @ T) ?f"
    using inv p buf sw [OF _ pS] unfolding framer_inv_def scan_ok_def by auto
  moreover have "ctx_ok (S @ T) ?f"
  proof (cases "fc_state (fr_ctx f) = FindingBegin")
    case True
    then show ?thesis by (simp add: ctx_ok_def)
  next
    case False
    with inv have c: "fc_state (fr_ctx f) = ReadingBody" "lb_start (fr_buffer f) \<le> fr_scan_abs f"
        "fc_begin (fr_ctx f) = fr_scan_abs f" "starts_with Fix_First_Field (drop (fr_scan_abs f) S)"
        "header_at S (fr_scan_abs f) = Header (fc_end (fr_ctx f))"
      by (auto simp: framer_inv_def ctx_ok_def)
    have le: "fr_scan_abs f \<le> length S" using pS by (simp add: framer_pos_def)
    have "fr_scan_abs f + 10 \<le> length S"
      using starts_with_length [OF c(4)] le by simp
    then have "header_at (S @ T) (fr_scan_abs f) = Header (fc_end (fr_ctx f))"
      using c header_at_append [of "fr_scan_abs f" S T] by simp
    with c sw [OF c(4) le] buf show ?thesis by (simp add: ctx_ok_def)
  qed
  ultimately show ?thesis by (simp add: framer_inv_def)
qed

lemma framer_append_ok:
  assumes "framer_inv S W f"
  shows "\<exists>f' W'. framer_append T f = Some f' \<and> framer_inv (S @ T) (W @ W') f' \<and> queue_ext f f' W' \<and>
     (ring_full (fr_completed f') \<or> W @ W' = frames (S @ T) 0)"
proof -
  from assms have "lb_inv (fr_buffer f)" by (simp add: framer_inv_def framer_base_def)
  then obtain buf where buf: "lb_push T (fr_buffer f) = Some buf" using lb.push_spec by blast
  from append_loop_ok [OF framer_inv_push [OF assms buf]] buf show ?thesis
    by (simp add: framer_append_def queue_ext_def)
qed

lemma framer_front_ok:
  assumes inv: "framer_inv S W f" and q: "ring_list (fr_completed f) = w # ws"
  shows "framer_get_message f = Some (slice (w_begin w) (w_end w - w_begin w) S)"
    and "\<exists>f'. framer_consume_message f = Some f' \<and> framer_inv S W f' \<and> ring_list (fr_completed f') = ws \<and>
      r_capacity (fr_completed f') = r_capacity (fr_completed f)"
proof -
  let ?st = "lb_start (fr_buffer f)"
  from inv have base: "framer_base S W f" by (simp add: framer_inv_def)
  then have linv: "lb_inv (fr_buffer f)" and rinv: "ring_inv (fr_completed f)"
    and rd: "lb_readable (fr_buffer f) = drop ?st S" and stS: "?st \<le> length S"
    and win: "windows_in ?st (w # ws) (framer_pos f)" and pS: "framer_pos f \<le> length S"
    using q by (auto simp: framer_base_def)
  have w: "?st \<le> w_begin w" "w_begin w < w_end w" "w_end w \<le> framer_pos f" "w_end w \<le> length S"
    using win windows_in_le [of "w_end w" ws "framer_pos f"] pS by auto
  have has: "framer_has_message f"
    using q by (metis framer_has_message_def length_greater_0_conv length_ring_list list.discI)
  have front: "ring_front (fr_completed f) = Some w"
    using rq.front_hd [OF rinv] q by simp
  show "framer_get_message f = Some (slice (w_begin w) (w_end w - w_begin w) S)"
    using has front w rd by (simp add: framer_get_message_def lb_abs_to_rel mem_simps diff_le_mono)
  have "w_end w - ?st \<le> length (lb_readable (fr_buffer f))" using w rd by (simp add: diff_le_mono)
  then obtain buf where buf: "lb_discard_prefix (w_end w - ?st) (fr_buffer f) = Some buf" "lb_inv buf"
      "lb_readable buf = drop (w_end w - ?st) (lb_readable (fr_buffer f))" "lb_start buf = ?st + (w_end w - ?st)"
    using lb_discard_prefix_ok [OF linv] by metis
  obtain q' where q': "ring_pop_front (fr_completed f) = Some q'" "ring_inv q'" "ring_list q' = ws"
    using rq.pop_tl [OF rinv] q by auto
  let ?f = "f\<lparr>fr_buffer := buf, fr_completed := q'\<rparr>"
  have st': "lb_start buf = w_end w" using buf w by simp
  have scan: "framer_pos f = fr_scan_abs f" "w_end w \<le> fr_scan_abs f"
    using w by (auto simp: framer_pos_def max_def split: if_splits)
  have p: "framer_pos ?f = framer_pos f" using scan st' by (simp add: framer_pos_def)
  have "framer_base S W ?f"
  proof -
    obtain V where "W = V @ w # ws" using base q by (auto simp: framer_base_def)
    then have "\<exists>V. W = V @ ring_list (fr_completed ?f)" by (intro exI [of _ "V @ [w]"]) (simp add: q')
    then show ?thesis using base buf q' st' w win p rd by (auto simp: framer_base_def)
  qed
  moreover have "scan_ok S ?f"
    using inv q p st' q' w unfolding framer_inv_def scan_ok_def by (auto split: if_splits)
  moreover have "ctx_ok S ?f"
    using inv scan st' by (auto simp: framer_inv_def ctx_ok_def)
  moreover have "framer_consume_message f = Some ?f"
    using has front w buf q' by (simp add: framer_consume_message_def lb_abs_to_rel)
  ultimately show "\<exists>f'. framer_consume_message f = Some f' \<and> framer_inv S W f' \<and> ring_list (fr_completed f') = ws \<and>
      r_capacity (fr_completed f') = r_capacity (fr_completed f)"
    using q' ring_pop_front_capacity [OF q'(1)] by (auto simp: framer_inv_def)
qed

lemma framer_drain_ok:
  "framer_inv S W f \<Longrightarrow>
   \<exists>f'. drain_n framer_get_message framer_consume_message (r_size (fr_completed f)) f
       = Some (messages_of S (ring_list (fr_completed f)), f') \<and>
     framer_inv S W f' \<and> ring_list (fr_completed f') = [] \<and>
     r_capacity (fr_completed f') = r_capacity (fr_completed f)"
proof (induction "ring_list (fr_completed f)" arbitrary: f)
  case Nil
  then have "r_size (fr_completed f) = 0" by (metis length_ring_list list.size(3))
  with Nil show ?case by (simp add: messages_of_def)
next
  case (Cons w ws)
  then have q: "ring_list (fr_completed f) = w # ws" by simp
  obtain f1 where f1: "framer_consume_message f = Some f1" "framer_inv S W f1" "ring_list (fr_completed f1) = ws"
      "r_capacity (fr_completed f1) = r_capacity (fr_completed f)"
    using framer_front_ok(2) [OF Cons.prems q] by blast
  have sz: "r_size (fr_completed f) = Suc (length ws)" "r_size (fr_completed f1) = length ws"
    using q f1(3) by (metis length_ring_list length_Cons)+
  obtain f2 where "drain_n framer_get_message framer_consume_message (length ws) f1 = Some (messages_of S ws, f2)"
      "framer_inv S W f2" "ring_list (fr_completed f2) = []" "r_capacity (fr_completed f2) = r_capacity (fr_completed f1)"
    using Cons.hyps(1) [OF f1(3) [symmetric] f1(2)] sz f1(3) by auto
  with sz f1(1,4) framer_front_ok(1) [OF Cons.prems q] q show ?case
    by (simp add: messages_of_def)
qed

section \<open>Properties of the framed windows\<close>

lemma frames_bounds:
  "w \<in> set (frames S p) \<Longrightarrow>
   p \<le> w_begin w \<and> w_begin w < w_end w \<and> w_end w \<le> length S \<and>
   starts_with Fix_First_Field (drop (w_begin w) S) \<and> header_at S (w_begin w) = Header (w_end w)"
proof (induction S p rule: frames.induct)
  case (1 S p)
  show ?case
  proof (cases "next_begin S p")
    case None
    with "1.prems" show ?thesis by (simp add: frames.simps [of S p])
  next
    case (Some b)
    note D = next_begin_SomeD [OF Some]
    show ?thesis
    proof (cases "header_at S b")
      case Incomplete
      with "1.prems" Some show ?thesis by (simp add: frames.simps [of S p])
    next
      case Malformed
      with "1.prems" "1.IH"(1) [OF Some Malformed] Some D show ?thesis
        by (simp add: frames.simps [of S p])
    next
      case (Header e)
      note G = header_at_Header_gt [OF Header]
      from "1.prems" Some Header have eS: "e \<le> length S" and
        "w = \<lparr>w_begin = b, w_end = e\<rparr> \<or> w \<in> set (frames S e)"
        by (auto simp: frames.simps [of S p] split: if_splits)
      then show ?thesis
        using "1.IH"(2) [OF Some Header eS] D G Header by auto
    qed
  qed
qed

lemma messages_of_append:
  "(\<And>w. w \<in> set ws \<Longrightarrow> w_begin w \<le> w_end w \<and> w_end w \<le> length S) \<Longrightarrow> messages_of (S @ T) ws = messages_of S ws"
  by (auto simp: messages_of_def mem_simps)

section \<open>Feeding chunks\<close>

text \<open>
  What the read handler of the session does with the chunks it receives: append a chunk, then
  take out every completed message.
\<close>

primrec framer_feed :: "string list \<Rightarrow> framer \<Rightarrow> (string list \<times> framer) option" where
  "framer_feed [] f = Some ([], f)"
| "framer_feed (c # cs) f =
     do {
       f1 \<leftarrow> framer_append c f;
       (ms, f2) \<leftarrow> drain_n framer_get_message framer_consume_message (r_size (fr_completed f1)) f1;
       (ms', f3) \<leftarrow> framer_feed cs f2;
       Some (ms @ ms', f3)
     }"

lemma framer_feed_step:
  assumes inv: "framer_inv S (frames S 0) f" and emp: "ring_list (fr_completed f) = []"
    and cap: "r_capacity (fr_completed f) = 1024"
    and few: "length (frames (S @ c) 0) < length (frames S 0) + 1024"
  obtains f1 f2 ms where "framer_append c f = Some f1"
    "drain_n framer_get_message framer_consume_message (r_size (fr_completed f1)) f1 = Some (ms, f2)"
    "framer_inv (S @ c) (frames (S @ c) 0) f2" "ring_list (fr_completed f2) = []"
    "r_capacity (fr_completed f2) = 1024"
    "messages_of (S @ c) (frames (S @ c) 0) = messages_of S (frames S 0) @ ms"
proof -
  obtain f1 W' where f1: "framer_append c f = Some f1" "framer_inv (S @ c) (frames S 0 @ W') f1"
      "queue_ext f f1 W'" "ring_full (fr_completed f1) \<or> frames S 0 @ W' = frames (S @ c) 0"
    using framer_append_ok [OF inv, of c] by blast
  have q: "ring_list (fr_completed f1) = W'" "r_capacity (fr_completed f1) = 1024"
    using f1(3) emp cap by (simp_all add: queue_ext_def)
  have "frames (S @ c) 0 = (frames S 0 @ W') @ frames (S @ c) (framer_pos f1)"
    using f1(2) unfolding framer_inv_def framer_base_def by (metis append_Nil2)
  from arg_cong [OF this, of length] few have "length W' < 1024" by simp
  then have all: "frames S 0 @ W' = frames (S @ c) 0"
    using f1(4) q length_ring_list [of "fr_completed f1"] by (auto simp: ring_full_def)
  obtain f2 where f2: "drain_n framer_get_message framer_consume_message (r_size (fr_completed f1)) f1
        = Some (messages_of (S @ c) W', f2)" "framer_inv (S @ c) (frames (S @ c) 0) f2"
      "ring_list (fr_completed f2) = []" "r_capacity (fr_completed f2) = 1024"
    using framer_drain_ok [OF f1(2)] q all by auto
  have "messages_of (S @ c) (frames S 0) = messages_of S (frames S 0)"
    by (rule messages_of_append) (auto dest!: frames_bounds)
  then have "messages_of (S @ c) (frames (S @ c) 0) = messages_of S (frames S 0) @ messages_of (S @ c) W'"
    unfolding all [symmetric] by (simp add: messages_of_def)
  with f1(1) f2 show thesis by (rule that)
qed

lemma framer_feed_ok:
  assumes "framer_inv S (frames S 0) f" "ring_list (fr_completed f) = []" "r_capacity (fr_completed f) = 1024"
    and "\<And>k. k < length cs \<Longrightarrow>
      length (frames (S @ concat (take (Suc k) cs)) 0) < length (frames (S @ concat (take k cs)) 0) + 1024"
  shows "\<exists>f' ms. framer_feed cs f = Some (ms, f') \<and>
     messages_of (S @ concat cs) (frames (S @ concat cs) 0) = messages_of S (frames S 0) @ ms \<and>
     framer_inv (S @ concat cs) (frames (S @ concat cs) 0) f'"
  using assms
proof (induction cs arbitrary: S f)
  case Nil
  then show ?case by simp
next
  case (Cons c cs)
  have "length (frames (S @ c) 0) < length (frames S 0) + 1024" using Cons.prems(4) [of 0] by simp
  then obtain f1 f2 ms where st: "framer_append c f = Some f1"
    "drain_n framer_get_message framer_consume_message (r_size (fr_completed f1)) f1 = Some (ms, f2)"
    "framer_inv (S @ c) (frames (S @ c) 0) f2" "ring_list (fr_completed f2) = []"
    "r_capacity (fr_completed f2) = 1024"
    "messages_of (S @ c) (frames (S @ c) 0) = messages_of S (frames S 0) @ ms"
    by (rule framer_feed_step [OF Cons.prems(1-3)])
  have "length (frames ((S @ c) @ concat (take (Suc k) cs)) 0) < length (frames ((S @ c) @ concat (take k cs)) 0) + 1024"
    if "k < length cs" for k
    using Cons.prems(4) [of "Suc k"] that by simp
  from Cons.IH [OF st(3-5) this] st show ?case by auto
qed

text \<open>
  C11: However the bytes of a stream are cut into chunks, the framer that starts empty and is
  drained after each chunk hands out exactly the messages of the whole stream, in order:
  it returns (no assertion fails, the loop ends) and misses, repeats or splits nothing,
  provided fewer than 1024 messages (the capacity of its ring) become complete in one chunk.
\<close>

theorem framer_feed_correct:
  assumes "\<And>k. k < length cs \<Longrightarrow>
      length (frames (concat (take (Suc k) cs)) 0) < length (frames (concat (take k cs)) 0) + 1024"
  shows "\<exists>f'. framer_feed cs framer_new = Some (messages_of (concat cs) (frames (concat cs) 0), f')"
proof -
  have nil: "frames [] 0 = []" using frames_end [of "[]"] by simp
  have "framer_inv [] (frames [] 0) framer_new" using framer_new_inv nil by simp
  from framer_feed_ok [OF this, of cs] assms nil show ?thesis
    by (auto simp: framer_new_def messages_of_def ring_new_def ring_list_def)
qed

lemmas frames_eval = frames.simps next_begin_def header_at_def Fix_First_Field_def starts_with_def
  from_chars_whole_def from_chars_u_def is_digit_def digits_val_def digit_val_def MAX_MESSAGE_SIZE_def

theorem framer_feed_correct_witness:
  "\<exists>f'. framer_feed [''xx8=FIX.4.4'' @ [SOH] @ ''9=5'' @ [SOH] @ ''35=0'' @ [SOH] @ ''10=1'', ''61'' @ [SOH] @ ''8=FI'']
     framer_new = Some ([''8=FIX.4.4'' @ [SOH] @ ''9=5'' @ [SOH] @ ''35=0'' @ [SOH] @ ''10=161'' @ [SOH]], f')"
proof -
  let ?a = "''xx8=FIX.4.4'' @ [SOH] @ ''9=5'' @ [SOH] @ ''35=0'' @ [SOH] @ ''10=1''" and ?b = "''61'' @ [SOH] @ ''8=FI''"
  have f: "frames [] 0 = []" "frames ?a 0 = []" "frames (?a @ ?b) 0 = [\<lparr>w_begin = 2, w_end = 28\<rparr>]"
    by (simp_all add: frames_eval)
  have "length (frames (concat (take (Suc k) [?a, ?b])) 0) < length (frames (concat (take k [?a, ?b])) 0) + 1024"
    if "k < length [?a, ?b]" for k
  proof -
    from that have "k = 0 \<or> k = 1" by auto
    with f show ?thesis by auto
  qed
  from framer_feed_correct [of "[?a, ?b]", OF this] f(3) show ?thesis
    by (simp add: messages_of_def slice_def)
qed

end
