(* ===== verification/Message_Model.thy ===== *)
theory Message_Model
  imports Charconv
begin

text \<open>
  The message model: \<open>GenericField\<close>, \<open>GenericMessage\<close> and \<open>MsgType\<close>
  (include/fix/message/GenericMessage.hpp), the header cache of \<open>ValidMessageView\<close> and
  \<open>ValidMessage\<close> (include/fix/core/Message.hpp, src/Message.cpp), sequence numbers as 64-bit
  words, and \<open>SessionParameters\<close> with \<open>Role\<close> and \<open>SessionID\<close>
  (include/fix/core/definitions.hpp). A view and an owned field have the same model.
  A tag is a \<open>nat\<close>; the parser bounds it by the range of \<open>std::uint32_t\<close>.
\<close>

type_synonym Tag = nat
type_synonym SeqNum = "64 word"

record GenericField =
  gf_tag :: Tag
  gf_value :: string

type_synonym GenericMessage = "GenericField list"

abbreviation field :: "Tag \<Rightarrow> string \<Rightarrow> GenericField" where
  "field t v \<equiv> \<lparr>gf_tag = t, gf_value = v\<rparr>"

lemma field_eta [simp]: "field (gf_tag f) (gf_value f) = f"
  by (cases f) simp

text \<open>\<open>MsgType\<close> keeps at most eight characters; \<open>to_string_view\<close> gives them back.\<close>

definition MsgType :: "string \<Rightarrow> string" where
  "MsgType sv = take (if length sv > 8 then 8 else length sv) sv"

datatype Role = INITIATOR | ACCEPTOR

record SessionID =
  storage_index :: nat
  sid :: nat

definition SessionID_eq :: "SessionID \<Rightarrow> SessionID \<Rightarrow> bool" where
  "SessionID_eq a b \<longleftrightarrow> sid b = sid a"

record SessionParameters =
  fix_version :: string
  sender_comp_id :: string
  target_comp_id :: string
  heart_beat_int :: "32 word"
  encrypt_method :: int
  initiator_reset_on_logon :: bool
  acceptor_reset_on_logon :: bool

definition DEFAULT_FIX_VERSION :: string where
  "DEFAULT_FIX_VERSION = ''FIX.4.4''"

definition default_params :: SessionParameters where
  "default_params =
     \<lparr>fix_version = ''FIX.4.4'', sender_comp_id = ''test_sender'', target_comp_id = ''test_target'',
      heart_beat_int = 30, encrypt_method = 0, initiator_reset_on_logon = False,
      acceptor_reset_on_logon = True\<rparr>"

section \<open>Header cache\<close>

datatype CacheSlot =
  Slot_MsgType | Slot_SenderCompID | Slot_TargetCompID | Slot_SendingTime | Slot_MsgSeqNum
  | Slot_PossDupFlag | Slot_OrigSendingTime | Slot_TestReqID

record HeaderCache =
  slots :: "CacheSlot \<Rightarrow> string option"
  msg_seq_num :: SeqNum
  has_msg_seq_num :: bool

definition empty_cache :: HeaderCache where
  "empty_cache = \<lparr>slots = (\<lambda>_. None), msg_seq_num = 0, has_msg_seq_num = False\<rparr>"

definition set_slot :: "CacheSlot \<Rightarrow> string \<Rightarrow> HeaderCache \<Rightarrow> HeaderCache" where
  "set_slot k v c = c\<lparr>slots := (slots c)(k := Some v)\<rparr>"

text \<open>The body of the loop of \<open>make_valid_message_view\<close>, one \<open>switch\<close> over the tag.\<close>

definition cache_field :: "GenericField \<Rightarrow> HeaderCache \<Rightarrow> HeaderCache" where
  "cache_field f c =
     (let v = gf_value f in
      if gf_tag f = 35 then set_slot Slot_MsgType v c
      else if gf_tag f = 49 then set_slot Slot_SenderCompID v c
      else if gf_tag f = 56 then set_slot Slot_TargetCompID v c
      else if gf_tag f = 52 then set_slot Slot_SendingTime v c
      else if gf_tag f = 43 then set_slot Slot_PossDupFlag v c
      else if gf_tag f = 122 then set_slot Slot_OrigSendingTime v c
      else if gf_tag f = 112 then set_slot Slot_TestReqID v c
      else if gf_tag f = 34 then
        (let c1 = set_slot Slot_MsgSeqNum v c in
         case from_chars_u (2 ^ 64 - 1) v (unat (msg_seq_num c1)) of
           (n, ec, x) \<Rightarrow>
             let c2 = c1\<lparr>msg_seq_num := of_nat x\<rparr> in
             if ec = Errc_ok \<and> n = length v then c2\<lparr>has_msg_seq_num := True\<rparr> else c2)
      else c)"

record ValidMessageView =
  vm_message :: GenericMessage
  vm_cache :: HeaderCache

definition make_valid_message_view :: "GenericMessage \<Rightarrow> ValidMessageView" where
  "make_valid_message_view msg = \<lparr>vm_message = msg, vm_cache = fold cache_field msg empty_cache\<rparr>"

text \<open>\<open>make_valid_message\<close> copies every value into owned storage and fills the same cache.\<close>

definition make_valid_message :: "GenericMessage \<Rightarrow> ValidMessageView" where
  "make_valid_message msg =
     \<lparr>vm_message = map (\<lambda>f. field (gf_tag f) (gf_value f)) msg,
      vm_cache = fold cache_field msg empty_cache\<rparr>"

definition find_field :: "Tag \<Rightarrow> GenericMessage \<Rightarrow> string option" where
  "find_field t msg = map_option gf_value (find (\<lambda>f. gf_tag f = t) msg)"

section \<open>What the cache holds\<close>

fun slot_tag :: "CacheSlot \<Rightarrow> Tag" where
  "slot_tag Slot_MsgType = 35"
| "slot_tag Slot_SenderCompID = 49"
| "slot_tag Slot_TargetCompID = 56"
| "slot_tag Slot_SendingTime = 52"
| "slot_tag Slot_MsgSeqNum = 34"
| "slot_tag Slot_PossDupFlag = 43"
| "slot_tag Slot_OrigSendingTime = 122"
| "slot_tag Slot_TestReqID = 112"

lemma slots_cache_field:
  "slots (cache_field f c) k = (if gf_tag f = slot_tag k then Some (gf_value f) else slots c k)"
  by (cases k) (auto simp: cache_field_def set_slot_def Let_def split: prod.splits)

lemma slots_fold_cache:
  "slots (fold cache_field msg c) k =
     (case find_field (slot_tag k) (rev msg) of Some v \<Rightarrow> Some v | None \<Rightarrow> slots c k)"
proof (induction msg rule: rev_induct)
  case Nil
  then show ?case by (simp add: find_field_def)
next
  case (snoc f msg)
  then show ?case by (simp add: slots_cache_field find_field_def)
qed

text \<open>Each slot holds the last field of its tag.\<close>

lemma view_slots: "slots (vm_cache (make_valid_message_view msg)) k = find_field (slot_tag k) (rev msg)"
  by (simp add: make_valid_message_view_def slots_fold_cache empty_cache_def split: option.splits)

lemma find_field_Some_iff_tag: "find_field t msg \<noteq> None \<longleftrightarrow> t \<in> gf_tag ` set msg"
  by (auto simp: find_field_def find_None_iff)

lemma find_field_rev:
  assumes "distinct (map gf_tag msg)"
  shows "find_field t (rev msg) = find_field t msg"
  using assms
proof (induction msg)
  case Nil
  then show ?case by simp
next
  case (Cons f msg)
  have app: "find_field t (xs @ ys) = (case find_field t xs of Some v \<Rightarrow> Some v | None \<Rightarrow> find_field t ys)" for xs ys
    by (induction xs) (auto simp: find_field_def)
  show ?case
  proof (cases "gf_tag f = t")
    case True
    with Cons.prems have "find_field t (rev msg) = None"
      using find_field_Some_iff_tag [of t "rev msg"] by auto
    with True show ?thesis by (simp add: app) (simp add: find_field_def)
  next
    case False
    with Cons show ?thesis by (simp add: app) (simp add: find_field_def split: option.splits)
  qed
qed

lemma has_msg_seq_num_cache_field:
  "gf_tag f \<noteq> 34 \<Longrightarrow> has_msg_seq_num (cache_field f c) = has_msg_seq_num c \<and> msg_seq_num (cache_field f c) = msg_seq_num c"
  by (auto simp: cache_field_def set_slot_def Let_def)

lemma cache_field_34:
  "gf_tag f = 34 \<Longrightarrow> from_chars_whole (2 ^ 64 - 1) (gf_value f) = Some n \<Longrightarrow>
   has_msg_seq_num (cache_field f c) \<and> msg_seq_num (cache_field f c) = of_nat n"
  by (auto simp: cache_field_def set_slot_def Let_def from_chars_whole_def from_chars_u_def split: if_splits prod.splits)

lemma seq_num_fold_cache:
  assumes "distinct (map gf_tag msg)" "find_field 34 msg = Some v" "from_chars_whole (2 ^ 64 - 1) v = Some n"
  shows "has_msg_seq_num (fold cache_field msg c) \<and> msg_seq_num (fold cache_field msg c) = of_nat n"
  using assms
proof (induction msg arbitrary: c)
  case Nil
  then show ?case by (simp add: find_field_def)
next
  case (Cons f msg)
  have keep: "34 \<notin> gf_tag ` set xs \<Longrightarrow>
      has_msg_seq_num (fold cache_field xs d) = has_msg_seq_num d \<and> msg_seq_num (fold cache_field xs d) = msg_seq_num d"
    for xs d
    by (induction xs arbitrary: d) (auto simp: has_msg_seq_num_cache_field)
  show ?case
  proof (cases "gf_tag f = 34")
    case True
    with Cons.prems have "34 \<notin> gf_tag ` set msg" "from_chars_whole (2 ^ 64 - 1) (gf_value f) = Some n"
      by (auto simp: find_field_def)
    with keep cache_field_34 [OF True] show ?thesis by simp
  next
    case False
    with Cons.prems have "find_field 34 msg = Some v" by (simp add: find_field_def)
    with Cons show ?thesis by simp
  qed
qed

end
