(* ===== verification/Schema.thy ===== *)
theory Schema
  imports Message_Model
begin

text \<open>
  The message dictionary: \<open>FieldType\<close>, \<open>FieldPresence\<close>, \<open>FieldSchema\<close> and the type tests
  (include/fix/schema/Field.hpp), the schemas of the header, the trailer and of the eight
  registered message types (include/fix/message), and \<open>Registry\<close> with its binary search
  over sorted indices (include/fix/schema/Registry.hpp).
  A \<open>GroupSchema\<close> pointer is an optional list of field schemas.
\<close>

datatype FieldType = FT_INT | FT_STRING | FT_BOOLEAN | FT_FLOAT | FT_DOUBLE | FT_CHAR | FT_GROUP

datatype FieldPresence = REQUIRED | OPTIONAL | CONDITIONAL

datatype FieldSchema =
  FieldSchema (fs_tag: Tag) (fs_type: FieldType) (fs_presence: FieldPresence)
    (fs_group: "FieldSchema list option")

abbreviation plain :: "Tag \<Rightarrow> FieldType \<Rightarrow> FieldPresence \<Rightarrow> FieldSchema" where
  "plain t ty pr \<equiv> FieldSchema t ty pr None"

section \<open>Type tests\<close>

fun double_loop :: "bool \<Rightarrow> string \<Rightarrow> bool" where
  "double_loop singledot [] = True"
| "double_loop singledot (c # cs) =
     (if c = CHR ''.'' \<and> \<not> singledot then double_loop True cs
      else if \<not> is_digit c then False
      else double_loop singledot cs)"

text \<open>A lone sign makes \<open>is_double_type\<close> read one past the end of the text: \<open>None\<close>.\<close>

definition is_double_type :: "string \<Rightarrow> bool option" where
  "is_double_type sv =
     (if sv = [] then Some False
      else let first_num_idx = (if sv ! 0 = CHR ''+'' \<or> sv ! 0 = CHR ''-'' then 1 else 0) in
        do { c \<leftarrow> array_get sv first_num_idx;
             if \<not> is_digit c then Some False
             else Some (double_loop False (drop (first_num_idx + 1) sv)) })"

definition is_boolean_type :: "string \<Rightarrow> bool" where
  "is_boolean_type sv \<longleftrightarrow> sv = ''Y'' \<or> sv = ''N''"

definition is_char_type :: "string \<Rightarrow> bool" where
  "is_char_type sv \<longleftrightarrow> length sv = 1"

definition is_int_type :: "string \<Rightarrow> bool" where
  "is_int_type sv =
     (if sv = [] then False
      else let first_num_idx = (if sv ! 0 = CHR ''+'' \<or> sv ! 0 = CHR ''-'' then 1 else 0) in
        if first_num_idx \<ge> length sv then False
        else list_all is_digit (drop first_num_idx sv))"

lemma is_int_type_to_chars [simp]: "is_int_type (to_chars n)"
proof -
  have d: "\<forall>c \<in> set (to_chars n). is_digit c" using to_chars_digits by blast
  then have "is_digit (to_chars n ! 0)" by simp
  then have "to_chars n ! 0 \<noteq> CHR ''+'' \<and> to_chars n ! 0 \<noteq> CHR ''-''" by auto
  with d show ?thesis by (simp add: is_int_type_def list_all_iff)
qed

lemma is_double_type_lone_sign: "is_double_type ''+'' = None" "is_double_type ''-'' = None"
  by (simp_all add: is_double_type_def array_get_def)

section \<open>Header and trailer\<close>

definition Group627Schema :: "FieldSchema list" where
  "Group627Schema =
     [plain 628 FT_STRING OPTIONAL, plain 629 FT_STRING OPTIONAL, plain 630 FT_INT OPTIONAL]"

definition StandardHeaderSchema :: "FieldSchema list" where
  "StandardHeaderSchema =
     [plain 8 FT_STRING REQUIRED, plain 9 FT_INT REQUIRED, plain 35 FT_STRING REQUIRED,
      plain 49 FT_STRING REQUIRED, plain 56 FT_STRING REQUIRED, plain 34 FT_INT REQUIRED,
      plain 52 FT_STRING REQUIRED,
      plain 115 FT_STRING OPTIONAL, plain 128 FT_STRING OPTIONAL,
      plain 90 FT_INT OPTIONAL, plain 91 FT_STRING OPTIONAL,
      plain 50 FT_STRING OPTIONAL, plain 142 FT_STRING OPTIONAL,
      plain 57 FT_STRING OPTIONAL, plain 143 FT_STRING OPTIONAL,
      plain 116 FT_STRING OPTIONAL, plain 144 FT_STRING OPTIONAL,
      plain 129 FT_STRING OPTIONAL, plain 145 FT_STRING OPTIONAL,
      plain 43 FT_STRING OPTIONAL, plain 97 FT_BOOLEAN OPTIONAL,
      plain 122 FT_STRING OPTIONAL,
      plain 212 FT_INT OPTIONAL, plain 213 FT_STRING OPTIONAL,
      plain 347 FT_STRING OPTIONAL, plain 369 FT_INT OPTIONAL,
      FieldSchema 627 FT_GROUP OPTIONAL (Some Group627Schema)]"

definition TrailerSchema :: "FieldSchema list" where
  "TrailerSchema = [plain 10 FT_INT REQUIRED, plain 83 FT_STRING OPTIONAL, plain 93 FT_INT OPTIONAL]"

section \<open>Message bodies\<close>

definition Group384Schema :: "FieldSchema list" where
  "Group384Schema = [plain 372 FT_STRING REQUIRED, plain 385 FT_CHAR REQUIRED]"

definition LogonSchema :: "FieldSchema list" where
  "LogonSchema =
     [plain 98 FT_INT REQUIRED, plain 108 FT_INT REQUIRED, plain 141 FT_BOOLEAN OPTIONAL,
      plain 95 FT_INT OPTIONAL, plain 96 FT_STRING OPTIONAL, plain 553 FT_STRING OPTIONAL,
      plain 554 FT_STRING OPTIONAL, plain 789 FT_INT OPTIONAL, plain 383 FT_INT OPTIONAL,
      FieldSchema 384 FT_GROUP OPTIONAL (Some Group384Schema), plain 464 FT_BOOLEAN OPTIONAL]"

definition HeartbeatSchema :: "FieldSchema list" where
  "HeartbeatSchema = [plain 112 FT_STRING OPTIONAL]"

definition TestRequestSchema :: "FieldSchema list" where
  "TestRequestSchema = [plain 112 FT_STRING REQUIRED]"

definition SequenceResetSchema :: "FieldSchema list" where
  "SequenceResetSchema = [plain 36 FT_INT REQUIRED, plain 123 FT_BOOLEAN OPTIONAL]"

definition LogoutSchema :: "FieldSchema list" where
  "LogoutSchema = [plain 58 FT_STRING OPTIONAL, plain 354 FT_INT OPTIONAL, plain 355 FT_STRING OPTIONAL]"

definition ResendRequestSchema :: "FieldSchema list" where
  "ResendRequestSchema = [plain 7 FT_INT REQUIRED, plain 16 FT_INT REQUIRED]"

definition RejectSchema :: "FieldSchema list" where
  "RejectSchema =
     [plain 45 FT_INT REQUIRED, plain 371 FT_INT OPTIONAL, plain 372 FT_STRING OPTIONAL,
      plain 373 FT_INT OPTIONAL, plain 58 FT_STRING OPTIONAL, plain 354 FT_INT OPTIONAL,
      plain 355 FT_STRING OPTIONAL]"

definition CustomSchema :: "FieldSchema list" where
  "CustomSchema = [plain 9250 FT_STRING REQUIRED]"

lemmas schema_defs =
  StandardHeaderSchema_def TrailerSchema_def LogonSchema_def HeartbeatSchema_def
  TestRequestSchema_def SequenceResetSchema_def LogoutSchema_def ResendRequestSchema_def
  RejectSchema_def CustomSchema_def Group627Schema_def Group384Schema_def

section \<open>Registry\<close>

record MessageSchema =
  ms_type :: string
  ms_body :: "FieldSchema list"

abbreviation make_schema :: "string \<Rightarrow> FieldSchema list \<Rightarrow> MessageSchema" where
  "make_schema t b \<equiv> \<lparr>ms_type = t, ms_body = b\<rparr>"

definition message_schemas :: "MessageSchema list" where
  "message_schemas =
     [make_schema ''A'' LogonSchema, make_schema ''0'' HeartbeatSchema,
      make_schema ''1'' TestRequestSchema, make_schema ''4'' SequenceResetSchema,
      make_schema ''5'' LogoutSchema, make_schema ''2'' ResendRequestSchema,
      make_schema ''3'' RejectSchema, make_schema ''cu'' CustomSchema]"

definition make_sorted_registry_indices :: "MessageSchema list \<Rightarrow> nat list" where
  "make_sorted_registry_indices arr = sort_key (\<lambda>i. ms_type (arr ! i)) [0..<length arr]"

function registry_search :: "MessageSchema list \<Rightarrow> nat list \<Rightarrow> string \<Rightarrow> nat \<Rightarrow> nat \<Rightarrow> nat option" where
  "registry_search arr indices message_type left right =
     (if left < right then
        let mid = left + (right - left) div 2 in
        do { idx \<leftarrow> array_get indices mid;
             s \<leftarrow> array_get arr idx;
             if ms_type s < message_type
             then registry_search arr indices message_type (mid + 1) right
             else registry_search arr indices message_type left mid }
      else Some left)"
  by pat_completeness auto
termination by (relation "measure (\<lambda>(arr, ind, mt, l, r). r - l)") auto

declare registry_search.simps [simp del]

definition registry_get_from :: "MessageSchema list \<Rightarrow> nat list \<Rightarrow> string \<Rightarrow> MessageSchema option option" where
  "registry_get_from arr indices message_type =
     do { left \<leftarrow> registry_search arr indices message_type 0 (length indices);
          if left < length indices then
            do { s \<leftarrow> array_get arr (indices ! left);
                 if ms_type s = message_type then Some (Some s) else Some None }
          else Some None }"

definition registry_get :: "string \<Rightarrow> MessageSchema option option" where
  "registry_get message_type =
     registry_get_from message_schemas (make_sorted_registry_indices message_schemas) message_type"

subsection \<open>The binary search is the linear search\<close>

lemma registry_search_lower_bound:
  assumes "sorted (map (\<lambda>i. ms_type (arr ! i)) ind)" "set ind \<subseteq> {..<length arr}"
    and "l \<le> r" "r \<le> length ind"
    and "\<And>j. j < l \<Longrightarrow> ms_type (arr ! (ind ! j)) < mt"
    and "\<And>j. r \<le> j \<Longrightarrow> j < length ind \<Longrightarrow> mt \<le> ms_type (arr ! (ind ! j))"
  shows "\<exists>k. registry_search arr ind mt l r = Some k \<and> k \<le> length ind \<and>
    (\<forall>j < k. ms_type (arr ! (ind ! j)) < mt) \<and> (\<forall>j. k \<le> j \<and> j < length ind \<longrightarrow> mt \<le> ms_type (arr ! (ind ! j)))"
  using assms
proof (induction arr ind mt l r rule: registry_search.induct)
  case (1 arr ind mt l r)
  let ?key = "\<lambda>j. ms_type (arr ! (ind ! j))"
  show ?case
  proof (cases "l < r")
    case False
    with "1.prems"(3-6) show ?thesis
      by (subst registry_search.simps) (auto simp: le_antisym)
  next
    case True
    define mid where "mid = l + (r - l) div 2"
    have mid: "l \<le> mid" "mid < r" "mid < length ind" using True "1.prems"(4) by (auto simp: mid_def)
    have idx: "ind ! mid < length arr" using mid(3) "1.prems"(2) nth_mem by blast
    have le: "?key i \<le> ?key j" if "i \<le> j" "j < length ind" for i j
      using "1.prems"(1) that by (auto simp: sorted_iff_nth_mono)
    have step: "registry_search arr ind mt l r =
        (if ?key mid < mt then registry_search arr ind mt (mid + 1) r else registry_search arr ind mt l mid)"
      using True mid idx by (subst registry_search.simps) (simp add: Let_def mid_def [symmetric])
    have ag: "array_get ind mid = Some (ind ! mid)" "array_get arr (ind ! mid) = Some (arr ! (ind ! mid))"
      using mid idx by simp_all
    show ?thesis
    proof (cases "?key mid < mt")
      case less: True
      have "?key j < mt" if "j < mid + 1" for j
        using le [of j mid] less mid(3) that by simp
      then show ?thesis
        using "1.IH"(1) [OF True mid_def ag less] "1.prems" mid step less by simp
    next
      case ge: False
      have "mt \<le> ?key j" if "mid \<le> j" "j < length ind" for j
        using le [of mid j] ge that by simp
      then show ?thesis
        using "1.IH"(2) [OF True mid_def ag ge] "1.prems" mid step ge by simp
    qed
  qed
qed

lemma registry_get_from_find:
  assumes "distinct (map ms_type arr)"
  shows "registry_get_from arr (make_sorted_registry_indices arr) mt = Some (find (\<lambda>s. ms_type s = mt) arr)"
proof -
  let ?ind = "make_sorted_registry_indices arr" and ?key = "\<lambda>i. ms_type (arr ! i)"
  have set: "set ?ind = {..<length arr}" by (auto simp: make_sorted_registry_indices_def)
  have len: "length ?ind = length arr" by (simp add: make_sorted_registry_indices_def)
  have srt: "sorted (map ?key ?ind)" by (simp add: make_sorted_registry_indices_def)
  obtain k where k: "registry_search arr ?ind mt 0 (length ?ind) = Some k" "k \<le> length ?ind"
      "\<forall>j < k. ?key (?ind ! j) < mt" "\<forall>j. k \<le> j \<and> j < length ?ind \<longrightarrow> mt \<le> ?key (?ind ! j)"
    using registry_search_lower_bound [OF srt, of 0 "length ?ind" mt] set by auto
  have bnd: "j < length ?ind \<Longrightarrow> ?ind ! j < length arr" for j
    using set nth_mem by blast
  show ?thesis
  proof (cases "\<exists>s \<in> set arr. ms_type s = mt")
    case True
    then obtain i where i: "i < length arr" "?key i = mt" by (metis in_set_conv_nth)
    then obtain j where j: "j < length ?ind" "?ind ! j = i"
      using set by (metis in_set_conv_nth lessThan_iff)
    with k(3) i have "k \<le> j" by (metis not_le less_irrefl)
    with j have kl: "k < length ?ind" by simp
    have "?key (?ind ! k) \<le> ?key (?ind ! j)"
      using srt \<open>k \<le> j\<close> j(1) by (auto simp: sorted_iff_nth_mono)
    with k(4) kl i j have "?key (?ind ! k) = mt" by (metis antisym le_refl)
    moreover have "find (\<lambda>s. ms_type s = mt) arr = Some (arr ! (?ind ! k))"
    proof -
      have "\<And>m. m < ?ind ! k \<Longrightarrow> ?key m \<noteq> mt"
        using assms \<open>?key (?ind ! k) = mt\<close> bnd [OF kl]
        by (metis distinct_conv_nth length_map less_irrefl less_trans nth_map)
      then show ?thesis
        using \<open>?key (?ind ! k) = mt\<close> bnd [OF kl] by (auto simp: find_Some_iff)
    qed
    ultimately show ?thesis using k(1) kl bnd [OF kl] by (simp add: registry_get_from_def)
  next
    case False
    then have "find (\<lambda>s. ms_type s = mt) arr = None" by (simp add: find_None_iff)
    moreover have "k < length ?ind \<Longrightarrow> ?key (?ind ! k) \<noteq> mt" using False bnd nth_mem by blast
    ultimately show ?thesis using k(1) bnd by (auto simp: registry_get_from_def)
  qed
qed

lemma distinct_message_schemas: "distinct (map ms_type message_schemas)"
  by (simp add: message_schemas_def)

lemma registry_get_find: "registry_get mt = Some (find (\<lambda>s. ms_type s = mt) message_schemas)"
  unfolding registry_get_def by (rule registry_get_from_find [OF distinct_message_schemas])

lemma registry_get_simps [simp]:
  "registry_get ''A'' = Some (Some (make_schema ''A'' LogonSchema))"
  "registry_get ''0'' = Some (Some (make_schema ''0'' HeartbeatSchema))"
  "registry_get ''1'' = Some (Some (make_schema ''1'' TestRequestSchema))"
  "registry_get ''4'' = Some (Some (make_schema ''4'' SequenceResetSchema))"
  "registry_get ''5'' = Some (Some (make_schema ''5'' LogoutSchema))"
  "registry_get ''2'' = Some (Some (make_schema ''2'' ResendRequestSchema))"
  "registry_get ''3'' = Some (Some (make_schema ''3'' RejectSchema))"
  "registry_get ''cu'' = Some (Some (make_schema ''cu'' CustomSchema))"
  by (simp_all add: registry_get_find message_schemas_def)

text \<open>
  C24: Registry lookup. The binary search over the sorted indices returns, for every text, the
  schema registered under exactly that message type and a null pointer for every other text; it
  never reads outside its two arrays. So \<open>Registry::get\<close> is the linear search over the eight
  registered schemas.\<close>

theorem registry_get_correct:
  "registry_get mt = Some (find (\<lambda>s. ms_type s = mt) message_schemas)"
  by (rule registry_get_find)

end
