(* ===== verification/Tag_Scratch.thy ===== *)
theory Tag_Scratch
  imports Fix_Prelude
begin

unbundle bit_operations_syntax

text \<open>
  \<open>TagScratch\<close> (include/fix/core/Validator.hpp): a bit set over a vector of 64-bit words that
  marks which fields of a message the validator has matched. \<open>data_[i]\<close> outside the vector is
  a fault. The locale \<open>marking\<close> is what the validator relies on: a cleared scratch of enough
  bits, marks that accumulate, and the test that the first \<open>n\<close> marks are all there.
\<close>

type_synonym TagScratch = "64 word list"

definition ts_ensure_bits :: "nat \<Rightarrow> TagScratch \<Rightarrow> TagScratch" where
  "ts_ensure_bits sz d =
     (if length d < sz div 64 + 1 then d @ replicate (sz div 64 + 1 - length d) 0 else d)"

definition ts_clear :: "TagScratch \<Rightarrow> TagScratch" where
  "ts_clear d = map (\<lambda>c. 0) d"

function ts_blocks_full :: "nat \<Rightarrow> nat \<Rightarrow> TagScratch \<Rightarrow> bool option" where
  "ts_blocks_full i q d =
     (if i < q then
        do { w \<leftarrow> array_get d i;
             if w \<noteq> NOT 0 then Some False else ts_blocks_full (i + 1) q d }
      else Some True)"
  by pat_completeness auto
termination by (relation "measure (\<lambda>(i, q, d). q - i)") auto

declare ts_blocks_full.simps [simp del]

definition ts_full :: "nat \<Rightarrow> TagScratch \<Rightarrow> bool option" where
  "ts_full sz d =
     (let q = sz div 64; r = sz mod 64 in
      do { b \<leftarrow> ts_blocks_full 0 q d;
           if \<not> b then Some False
           else if r \<noteq> 0 then
             do { w \<leftarrow> array_get d q;
                  let m = push_bit r 1 - 1 in
                  if w AND m \<noteq> m then Some False else Some True }
           else Some True })"

definition ts_set :: "nat \<Rightarrow> TagScratch \<Rightarrow> TagScratch option" where
  "ts_set index d =
     do { w \<leftarrow> array_get d (index div 64);
          Some (d[index div 64 := w OR push_bit (index mod 64) 1]) }"

definition ts_get :: "nat \<Rightarrow> TagScratch \<Rightarrow> bool option" where
  "ts_get index d =
     do { w \<leftarrow> array_get d (index div 64); Some (w AND push_bit (index mod 64) 1 \<noteq> 0) }"

section \<open>The set of marks\<close>

definition ts_marks :: "TagScratch \<Rightarrow> nat set" where
  "ts_marks d = {i. i < 64 * length d \<and> bit (d ! (i div 64)) (i mod 64)}"

definition ts_capacity :: "TagScratch \<Rightarrow> nat" where
  "ts_capacity d = 64 * length d"

lemma block_index: "i < 64 * n \<Longrightarrow> i div 64 < (n :: nat)"
  by (simp add: less_mult_imp_div_less mult.commute)

lemma and_single_bit: "(w :: 64 word) AND push_bit k 1 \<noteq> 0 \<longleftrightarrow> k < 64 \<and> bit w k"
proof
  assume "w AND push_bit k 1 \<noteq> 0"
  then obtain n where "bit (w AND push_bit k 1) n" by (metis bit_0_eq bit_eqI bot_apply bot_bool_def)
  then show "k < 64 \<and> bit w k" by (auto simp: bit_simps dest: bit_imp_le_length)
next
  assume "k < 64 \<and> bit w k"
  then have "bit (w AND push_bit k 1) k" by (simp add: bit_simps)
  then show "w AND push_bit k 1 \<noteq> 0" by auto
qed

lemma ts_get_marks: "i < 64 * length d \<Longrightarrow> ts_get i d = Some (i \<in> ts_marks d)"
  using block_index [of i "length d"] by (simp add: ts_get_def ts_marks_def and_single_bit del: push_bit_of_1)

lemma ts_set_marks:
  assumes "i < 64 * length d"
  shows "\<exists>d'. ts_set i d = Some d' \<and> length d' = length d \<and> ts_marks d' = insert i (ts_marks d)"
proof -
  let ?q = "i div 64" and ?r = "i mod 64"
  let ?d' = "d[?q := d ! ?q OR push_bit ?r 1]"
  have q: "?q < length d" using block_index [OF assms] .
  have "j \<in> ts_marks ?d' \<longleftrightarrow> j \<in> insert i (ts_marks d)" for j
  proof (cases "j div 64 = ?q")
    case True
    have "bit (push_bit ?r (1 :: 64 word)) (j mod 64) \<longleftrightarrow> j mod 64 = ?r" by (auto simp: bit_simps)
    moreover have "j mod 64 = ?r \<longleftrightarrow> j = i" using True by (metis div_mult_mod_eq)
    ultimately show ?thesis using True q assms by (auto simp: ts_marks_def bit_or_iff)
  next
    case False
    then show ?thesis by (auto simp: ts_marks_def)
  qed
  then have "ts_marks ?d' = insert i (ts_marks d)" by blast
  then show ?thesis using q by (simp add: ts_set_def)
qed

lemma ts_blocks_full_iff:
  assumes "q \<le> length d" "i \<le> q"
  shows "ts_blocks_full i q d = Some (\<forall>k. i \<le> k \<and> k < q \<longrightarrow> d ! k = NOT 0)"
  using assms
proof (induction i q d rule: ts_blocks_full.induct)
  case (1 i q d)
  show ?case
  proof (cases "i < q")
    case False
    then show ?thesis by (subst ts_blocks_full.simps) auto
  next
    case True
    then have g: "array_get d i = Some (d ! i)" using "1.prems" by simp
    have split: "(\<forall>k. i \<le> k \<and> k < q \<longrightarrow> d ! k = NOT 0) \<longleftrightarrow>
        d ! i = NOT 0 \<and> (\<forall>k. i + 1 \<le> k \<and> k < q \<longrightarrow> d ! k = NOT 0)"
      using True by (auto simp: le_eq_less_or_eq [of i] Suc_le_eq)
    have step: "ts_blocks_full i q d = (if d ! i \<noteq> NOT 0 then Some False else ts_blocks_full (i + 1) q d)"
      using True g by (subst ts_blocks_full.simps) simp
    show ?thesis
    proof (cases "d ! i = NOT 0")
      case full: True
      have "ts_blocks_full (i + 1) q d = Some (\<forall>k. i + 1 \<le> k \<and> k < q \<longrightarrow> d ! k = NOT 0)"
        using "1.IH" [OF True g] full True "1.prems" by simp
      with full show ?thesis unfolding step split by simp
    next
      case False
      then show ?thesis unfolding step split by simp
    qed
  qed
qed

lemma full_word_iff: "(w :: 64 word) = NOT 0 \<longleftrightarrow> (\<forall>k < 64. bit w k)"
  by (auto simp: bit_eq_iff bit_simps)

lemma low_bits_iff: "r < 64 \<Longrightarrow> (w :: 64 word) AND (push_bit r 1 - 1) = push_bit r 1 - 1 \<longleftrightarrow> (\<forall>k < r. bit w k)"
  by (auto simp: bit_eq_iff bit_simps mask_eq_exp_minus_1 [symmetric] push_bit_eq_mult) (meson less_trans)

lemma split_range_64:
  "(\<forall>i < n. P i) \<longleftrightarrow> (\<forall>b < n div 64. \<forall>k < 64. P (64 * b + k)) \<and> (\<forall>k < n mod 64. P (64 * (n div 64) + k))"
  for n :: nat
proof
  assume "\<forall>i < n. P i"
  moreover have "64 * b + k < n" if "b < n div 64" "k < 64" for b k using that by linarith
  moreover have "64 * (n div 64) + k < n" if "k < n mod 64" for k using that div_mult_mod_eq [of n 64] by linarith
  ultimately show "(\<forall>b < n div 64. \<forall>k < 64. P (64 * b + k)) \<and> (\<forall>k < n mod 64. P (64 * (n div 64) + k))"
    by blast
next
  assume H: "(\<forall>b < n div 64. \<forall>k < 64. P (64 * b + k)) \<and> (\<forall>k < n mod 64. P (64 * (n div 64) + k))"
  show "\<forall>i < n. P i"
  proof (intro allI impI)
    fix i assume "i < n"
    have i: "i = 64 * (i div 64) + i mod 64" by simp
    have "i div 64 < n div 64 \<or> i div 64 = n div 64 \<and> i mod 64 < n mod 64"
      using \<open>i < n\<close> div_mult_mod_eq [of n 64] div_mult_mod_eq [of i 64] by linarith
    with H i show "P i" by (metis mod_less_divisor zero_less_numeral)
  qed
qed

lemma ts_full_marks:
  assumes "n \<le> 64 * length d"
  shows "ts_full n d = Some ({..<n} \<subseteq> ts_marks d)"
proof -
  let ?q = "n div 64" and ?r = "n mod 64"
  have q: "?q \<le> length d" using assms by linarith
  have qr: "?r \<noteq> 0 \<Longrightarrow> ?q < length d" using assms div_mult_mod_eq [of n 64] by linarith
  have "{..<n} \<subseteq> ts_marks d \<longleftrightarrow> (\<forall>i < n. bit (d ! (i div 64)) (i mod 64))"
    using assms by (auto simp: ts_marks_def)
  also have "\<dots> \<longleftrightarrow> (\<forall>b < ?q. \<forall>k < 64. bit (d ! b) k) \<and> (\<forall>k < ?r. bit (d ! ?q) k)"
  proof -
    have "k < ?r \<Longrightarrow> k < 64" for k using mod_less_divisor [of 64 n] by linarith
    then show ?thesis by (subst split_range_64) simp
  qed
  also have "\<dots> \<longleftrightarrow> (\<forall>k. 0 \<le> k \<and> k < ?q \<longrightarrow> d ! k = NOT 0) \<and> (\<forall>k < ?r. bit (d ! ?q) k)"
    unfolding full_word_iff by simp
  finally show ?thesis
    using ts_blocks_full_iff [OF q, of 0] qr low_bits_iff [of ?r "d ! ?q"]
    by (simp add: ts_full_def Let_def del: push_bit_of_1)
qed

lemma ts_fresh:
  "ts_marks (ts_clear (ts_ensure_bits n d)) = {}" "n \<le> ts_capacity (ts_clear (ts_ensure_bits n d))"
  using block_index by (auto simp: ts_marks_def ts_clear_def ts_ensure_bits_def ts_capacity_def)

section \<open>The interface of the validator\<close>

primrec mark_each :: "('i \<Rightarrow> 's \<Rightarrow> 's option) \<Rightarrow> 'i list \<Rightarrow> 's \<Rightarrow> 's option" where
  "mark_each mark [] s = Some s"
| "mark_each mark (i # is) s = mark i s \<bind> mark_each mark is"

locale marking =
  fixes marks :: "'s \<Rightarrow> nat set" and capacity :: "'s \<Rightarrow> nat"
    and reset :: "nat \<Rightarrow> 's \<Rightarrow> 's" and mark :: "nat \<Rightarrow> 's \<Rightarrow> 's option" and all_marked :: "nat \<Rightarrow> 's \<Rightarrow> bool option"
  assumes reset_empty: "marks (reset n s) = {}"
    and reset_capacity: "n \<le> capacity (reset n s)"
    and mark_adds: "i < capacity s \<Longrightarrow> \<exists>s'. mark i s = Some s' \<and> capacity s' = capacity s \<and> marks s' = insert i (marks s)"
    and all_marked_iff: "n \<le> capacity s \<Longrightarrow> all_marked n s = Some ({..<n} \<subseteq> marks s)"
begin

lemma mark_cases:
  assumes "i < capacity s"
  obtains s' where "mark i s = Some s'" "capacity s' = capacity s" "marks s' = insert i (marks s)"
  using mark_adds [OF assms] by blast

lemma mark_each_marks:
  "\<forall>i \<in> set is. i < capacity s \<Longrightarrow>
   \<exists>s'. mark_each mark is s = Some s' \<and> capacity s' = capacity s \<and> marks s' = marks s \<union> set is"
proof (induction "is" arbitrary: s)
  case Nil
  then show ?case by simp
next
  case (Cons i "is")
  then obtain s' where "mark i s = Some s'" "capacity s' = capacity s" "marks s' = insert i (marks s)"
    using mark_cases [of i s] by auto
  with Cons.IH [of s'] Cons.prems show ?case by auto
qed

lemma mark_each_full:
  assumes "\<forall>i \<in> set is. i < n"
  shows "(mark_each mark is (reset n s) \<bind> all_marked n) = Some ({..<n} \<subseteq> set is)"
proof -
  have "\<forall>i \<in> set is. i < capacity (reset n s)" using assms reset_capacity [of n s] by fastforce
  then obtain s' where "mark_each mark is (reset n s) = Some s'" "capacity s' = capacity (reset n s)" "marks s' = set is"
    using mark_each_marks [of "is" "reset n s"] reset_empty by auto
  then show ?thesis using all_marked_iff [of n s'] reset_capacity [of n s] by simp
qed

end

interpretation ts: marking ts_marks ts_capacity "\<lambda>n d. ts_clear (ts_ensure_bits n d)" ts_set ts_full
proof
  fix n d i
  show "ts_marks (ts_clear (ts_ensure_bits n d)) = {}" "n \<le> ts_capacity (ts_clear (ts_ensure_bits n d))"
    by (rule ts_fresh)+
  show "\<exists>d'. ts_set i d = Some d' \<and> ts_capacity d' = ts_capacity d \<and> ts_marks d' = insert i (ts_marks d)"
    if "i < ts_capacity d"
    using ts_set_marks [of i d] that by (auto simp: ts_capacity_def)
  show "ts_full n d = Some ({..<n} \<subseteq> ts_marks d)" if "n \<le> ts_capacity d"
    using ts_full_marks that by (simp add: ts_capacity_def)
qed

end
