(* ===== verification/Validator.thy ===== *)
theory Validator
  imports Schema Tag_Scratch
begin

text \<open>
  \<open>Fix::Validator\<close> (include/fix/core/Validator.hpp, src/Validator.cpp) with its error codes
  and severities (include/fix/error). The validator owns its result and its scratch, which are
  threaded through every function as the record \<open>Validator\<close>; an early \<open>return\<close> leaves the
  state as it is at that point. A loop that can return early or \<open>break\<close> gives back a flag.
  A trailing underscore of a C++ name is dropped.
  \<open>None\<close> is a failed \<open>assert\<close> or an access outside an array.
\<close>

datatype Severity = Sev_NA | Sev_Low | Sev_Moderate | Sev_High | Sev_Fatal

datatype ValidatorCode =
  InvalidTagNumber | RequiredTagMissing | TagNotDefinedForMessage | UndefinedTag
  | TagSpecifiedWithoutAValue | ValueIsIncorrect | IncorrectDataFormatForValue
  | DecryptionProblem | SignatureProblem | CompIDProblem | SendingTimeAccuracyProblem
  | InvalidMsgType | XMLValidationError | TagAppearsMoreThanOnce | TagSpecifiedOutOfRequiredOrder
  | RepeatingGroupFieldsOutOfOrder | IncorrectNumInGroupCount | NonDataFieldIncludesFieldDelimiter
  | Code_Other

fun validator_code :: "ValidatorCode \<Rightarrow> nat" where
  "validator_code InvalidTagNumber = 0"
| "validator_code RequiredTagMissing = 1"
| "validator_code TagNotDefinedForMessage = 2"
| "validator_code UndefinedTag = 3"
| "validator_code TagSpecifiedWithoutAValue = 4"
| "validator_code ValueIsIncorrect = 5"
| "validator_code IncorrectDataFormatForValue = 6"
| "validator_code DecryptionProblem = 7"
| "validator_code SignatureProblem = 8"
| "validator_code CompIDProblem = 9"
| "validator_code SendingTimeAccuracyProblem = 10"
| "validator_code InvalidMsgType = 11"
| "validator_code XMLValidationError = 12"
| "validator_code TagAppearsMoreThanOnce = 13"
| "validator_code TagSpecifiedOutOfRequiredOrder = 14"
| "validator_code RepeatingGroupFieldsOutOfOrder = 15"
| "validator_code IncorrectNumInGroupCount = 16"
| "validator_code NonDataFieldIncludesFieldDelimiter = 17"
| "validator_code Code_Other = 99"

text \<open>\<open>ErrorString\<close> is a fixed array of 32 bytes; a longer text fails its \<open>assert\<close>.\<close>

definition ErrorString :: "string \<Rightarrow> string option" where
  "ErrorString str = do { assert_that (length str \<le> 32); Some str }"

record ValidatorErrorContext =
  ve_info :: string
  ve_tag :: Tag
  ve_code :: ValidatorCode

record ValidatorResult =
  vr_severity :: Severity
  vr_errors :: "ValidatorErrorContext list"

definition vr_clear :: ValidatorResult where
  "vr_clear = \<lparr>vr_severity = Sev_Moderate, vr_errors = []\<rparr>"

record Validator =
  v_results :: ValidatorResult
  v_scratch :: TagScratch

definition push_error :: "string \<Rightarrow> Tag \<Rightarrow> ValidatorCode \<Rightarrow> Validator \<Rightarrow> Validator" where
  "push_error info tag code v =
     v\<lparr>v_results := (v_results v)\<lparr>vr_errors := vr_errors (v_results v) @ [\<lparr>ve_info = info, ve_tag = tag, ve_code = code\<rparr>]\<rparr>\<rparr>"

definition set_fatal :: "Validator \<Rightarrow> Validator" where
  "set_fatal v = v\<lparr>v_results := (v_results v)\<lparr>vr_severity := Sev_Fatal\<rparr>\<rparr>"

definition v_mark :: "nat \<Rightarrow> Validator \<Rightarrow> Validator option" where
  "v_mark i v = do { d \<leftarrow> ts_set i (v_scratch v); Some (v\<lparr>v_scratch := d\<rparr>) }"

fun validate_type :: "string \<Rightarrow> FieldType \<Rightarrow> bool option" where
  "validate_type value FT_GROUP = Some (is_int_type value)"
| "validate_type value FT_INT = Some (is_int_type value)"
| "validate_type value FT_STRING = Some True"
| "validate_type value FT_BOOLEAN = Some (is_boolean_type value)"
| "validate_type value FT_FLOAT = is_double_type value"
| "validate_type value FT_DOUBLE = is_double_type value"
| "validate_type value FT_CHAR = Some (is_char_type value)"

section \<open>Repeating groups\<close>

definition kMaxGroupCount :: nat where
  "kMaxGroupCount = 32"

type_synonym FieldOcc = "Tag \<times> nat"

definition has_occured :: "Tag \<Rightarrow> FieldOcc list \<Rightarrow> bool" where
  "has_occured tag count \<longleftrightarrow> list_ex (\<lambda>(t, c). tag = t \<and> c > 0) count"

definition increment_tag_count :: "Tag \<Rightarrow> FieldOcc list \<Rightarrow> FieldOcc list" where
  "increment_tag_count tag count = map (\<lambda>(t, c). if tag = t then (t, c + 1) else (t, c)) count"

text \<open>
  \<open>validate_groups\<close> is the function itself, \<open>group_reps\<close> its loop over the repetitions and
  \<open>group_fields\<close> the inner loop over the fields of the group; the latter returns \<open>True\<close> when
  the whole function has to return. A field that is itself a group advances the index once
  before the nested call and once more after it.
\<close>

function (sequential) validate_groups :: "nat \<Rightarrow> GenericMessage \<Rightarrow> FieldSchema option \<Rightarrow> nat \<Rightarrow> Validator \<Rightarrow> (nat \<times> Validator) option"
  and group_reps :: "nat \<Rightarrow> GenericMessage \<Rightarrow> Tag \<Rightarrow> FieldSchema list \<Rightarrow> nat \<Rightarrow> Validator \<Rightarrow> (nat \<times> Validator) option"
  and group_fields :: "GenericMessage \<Rightarrow> FieldSchema list \<Rightarrow> FieldOcc list \<Rightarrow> nat \<Rightarrow> Validator \<Rightarrow> (bool \<times> FieldOcc list \<times> nat \<times> Validator) option"
where
  "validate_groups groupcnt msg groupfield curr_index v =
     (if groupcnt = 0 then Some (curr_index, v)
      else case groupfield of
        None \<Rightarrow> Some (curr_index, push_error [] 0 IncorrectNumInGroupCount v)
      | Some (FieldSchema tag ty pr None) \<Rightarrow>
          do { s \<leftarrow> ErrorString ''Missing group schema''; Some (curr_index, push_error s tag Code_Other v) }
      | Some (FieldSchema tag ty pr (Some gs)) \<Rightarrow>
          if gs = [] then
            do { s \<leftarrow> ErrorString ''Missing group schema entry''; Some (curr_index, push_error s tag Code_Other v) }
          else if length gs > kMaxGroupCount then
            do { s \<leftarrow> ErrorString ''Unsupported group size''; Some (curr_index, push_error s tag Code_Other v) }
          else group_reps groupcnt msg tag gs curr_index v)"
| "group_reps 0 msg tag gs curr_index v = Some (curr_index, v)"
| "group_reps (Suc n) msg tag gs curr_index v =
     do { (returned, count, curr_index', v') \<leftarrow> group_fields msg gs (map (\<lambda>f. (fs_tag f, 0)) gs) curr_index v;
          if returned then Some (curr_index', v')
          else if \<not> list_ex (\<lambda>(t, c). c > 0) count
          then Some (curr_index', push_error [] tag IncorrectNumInGroupCount v')
          else group_reps n msg tag gs curr_index' v' }"
| "group_fields msg [] count curr_index v = Some (False, count, curr_index, v)"
| "group_fields msg (fs # rest) count curr_index v =
     (if curr_index \<ge> length msg
      then Some (True, count, curr_index, push_error [] (fs_tag fs) IncorrectNumInGroupCount v)
      else let current_tag = gf_tag (msg ! curr_index) in
        if current_tag \<noteq> fs_tag fs then
          (if fs_presence fs = REQUIRED
           then Some (True, count, curr_index, push_error [] (fs_tag fs) RequiredTagMissing v)
           else group_fields msg rest count curr_index v)
        else if has_occured current_tag count then Some (False, count, curr_index, v)
        else do { v1 \<leftarrow> v_mark curr_index v;
          if fs_type fs = FT_GROUP then
            (case parse_int (gf_value (msg ! curr_index)) of
               None \<Rightarrow> Some (True, count, curr_index + 1, push_error [] (fs_tag fs) IncorrectDataFormatForValue v1)
             | Some group_count \<Rightarrow>
                 do { (curr_index', v2) \<leftarrow> validate_groups group_count msg (Some fs) (curr_index + 1) v1;
                      group_fields msg rest (increment_tag_count current_tag count) (curr_index' + 1) v2 })
          else do { ok \<leftarrow> validate_type (gf_value (msg ! curr_index)) (fs_type fs);
            if \<not> ok
            then Some (True, count, curr_index, push_error [] (fs_tag fs) IncorrectDataFormatForValue v1)
            else group_fields msg rest (increment_tag_count current_tag count) (curr_index + 1) v1 } })"
  by pat_completeness auto
termination
proof (relation "inv_image (less_than <*lex*> less_than <*lex*> less_than)
     (\<lambda>x. case x of
        Inl (n, m, g, c, v) \<Rightarrow> ((case g of None \<Rightarrow> 0 | Some f \<Rightarrow> size f), 2 :: nat, 0 :: nat)
      | Inr (Inl (n, m, t, gs, c, v)) \<Rightarrow> (size_list size gs, 1, n)
      | Inr (Inr (m, gs, cnt, c, v)) \<Rightarrow> (size_list size gs, 0, 0))", goal_cases)
  case 1
  show ?case by auto
qed auto

declare validate_groups.simps [simp del] group_fields.simps(2) [simp del]

section \<open>Field lists, header, trailer, message\<close>

fun validate_fields :: "GenericMessage \<Rightarrow> FieldSchema list \<Rightarrow> Validator \<Rightarrow> Validator option" where
  "validate_fields msg [] v = Some v"
| "validate_fields msg (fs # rest) v =
     (case find_index (\<lambda>f. gf_tag f = fs_tag fs) msg of
        Some i \<Rightarrow>
          do { v1 \<leftarrow> v_mark i v;
               if fs_type fs = FT_GROUP then
                 (case parse_int (gf_value (msg ! i)) of
                    None \<Rightarrow> Some (push_error [] (fs_tag fs) IncorrectNumInGroupCount v1)
                  | Some group_count \<Rightarrow>
                      do { (start_idx, v2) \<leftarrow> validate_groups group_count msg (Some fs) (i + 1) v1;
                           validate_fields msg rest v2 })
               else do { ok \<leftarrow> validate_type (gf_value (msg ! i)) (fs_type fs);
                         if \<not> ok then Some (push_error [] (fs_tag fs) IncorrectDataFormatForValue v1)
                         else validate_fields msg rest v1 } }
      | None \<Rightarrow>
          if fs_presence fs = REQUIRED then Some (push_error [] (fs_tag fs) RequiredTagMissing v)
          else validate_fields msg rest v)"

definition validate_header :: "ValidMessageView \<Rightarrow> string \<Rightarrow> SessionParameters \<Rightarrow> Validator \<Rightarrow> Validator option" where
  "validate_header message expected_message_type params v =
     (let msg_buffer = vm_message message; schema = StandardHeaderSchema; slot = slots (vm_cache message) in
      if length msg_buffer < 3 then Some (set_fatal (push_error [] 8 RequiredTagMissing v))
      else do { ok0 \<leftarrow> validate_type (gf_value (msg_buffer ! 0)) (fs_type (schema ! 0));
        if \<not> ok0 \<or> gf_value (msg_buffer ! 0) \<noteq> DEFAULT_FIX_VERSION then
          do { s \<leftarrow> ErrorString ''Unsupported FIX version''; Some (set_fatal (push_error s 8 Code_Other v)) }
        else do { ok1 \<leftarrow> validate_type (gf_value (msg_buffer ! 1)) (fs_type (schema ! 1));
          if \<not> ok1 then Some (push_error [] (fs_tag (schema ! 1)) IncorrectDataFormatForValue v)
          else do { ok2 \<leftarrow> validate_type (gf_value (msg_buffer ! 2)) (fs_type (schema ! 2));
            if \<not> ok2 \<or> gf_value (msg_buffer ! 2) \<noteq> expected_message_type
            then Some (push_error [] (fs_tag (schema ! 2)) IncorrectDataFormatForValue v)
            else do {
              seq_ok \<leftarrow> (case slot Slot_MsgSeqNum of None \<Rightarrow> Some False | Some s \<Rightarrow> validate_type s FT_INT);
              if \<not> seq_ok then Some (set_fatal (push_error [] 34 IncorrectDataFormatForValue v))
              else if slot Slot_SenderCompID \<noteq> Some (target_comp_id params) then
                do { s \<leftarrow> ErrorString ''Sender CompID mismatch''; Some (set_fatal (push_error s 49 CompIDProblem v)) }
              else if slot Slot_TargetCompID \<noteq> Some (sender_comp_id params) then
                do { s \<leftarrow> ErrorString ''Target CompID mismatch''; Some (set_fatal (push_error s 56 CompIDProblem v)) }
              else validate_fields msg_buffer schema v } } } })"

definition validate_trailer :: "ValidMessageView \<Rightarrow> Validator \<Rightarrow> Validator option" where
  "validate_trailer message v = validate_fields (vm_message message) TrailerSchema v"

definition validate_message :: "ValidMessageView \<Rightarrow> SessionParameters \<Rightarrow> Validator \<Rightarrow> Validator option" where
  "validate_message message params v =
     (let n = length (vm_message message);
          v0 = v\<lparr>v_results := vr_clear, v_scratch := ts_clear (ts_ensure_bits n (v_scratch v))\<rparr> in
      case slots (vm_cache message) Slot_MsgType of
        None \<Rightarrow> Some (push_error [] 35 RequiredTagMissing v0)
      | Some expected_message_type \<Rightarrow>
          do { schema \<leftarrow> registry_get expected_message_type;
               case schema of
                 None \<Rightarrow> Some (push_error [] 0 InvalidMsgType v0)
               | Some s \<Rightarrow>
                   do { v1 \<leftarrow> validate_header message expected_message_type params v0;
                        v2 \<leftarrow> validate_fields (vm_message message) (ms_body s) v1;
                        v3 \<leftarrow> validate_trailer message v2;
                        if vr_errors (v_results v3) = [] then
                          do { full \<leftarrow> ts_full n (v_scratch v3);
                               if \<not> full then Some (push_error [] 0 InvalidTagNumber v3) else Some v3 }
                        else Some v3 } })"

text \<open>What passes has a type of the registry.\<close>

lemma validated_type:
  assumes "validate_message message params v = Some v'" "vr_errors (v_results v') = []"
  shows "\<exists>ty \<in> ms_type ` set message_schemas. slots (vm_cache message) Slot_MsgType = Some ty"
proof (cases "slots (vm_cache message) Slot_MsgType")
  case None
  then show ?thesis using assms by (auto simp: validate_message_def Let_def push_error_def)
next
  case (Some ty)
  show ?thesis
  proof (cases "find (\<lambda>s. ms_type s = ty) message_schemas")
    case None
    then show ?thesis using assms Some by (auto simp: validate_message_def Let_def push_error_def registry_get_find)
  next
    case (Some sch)
    then have "sch \<in> set message_schemas" "ms_type sch = ty" by (auto simp: find_Some_iff)
    then show ?thesis using \<open>slots (vm_cache message) Slot_MsgType = Some ty\<close> by blast
  qed
qed

section \<open>The validator always returns\<close>

fun no_float :: "FieldSchema \<Rightarrow> bool" where
  "no_float (FieldSchema t ty pr g) \<longleftrightarrow>
     ty \<noteq> FT_FLOAT \<and> ty \<noteq> FT_DOUBLE \<and> (case g of None \<Rightarrow> True | Some gs \<Rightarrow> list_all no_float gs)"

abbreviation v_errors :: "Validator \<Rightarrow> ValidatorErrorContext list" where
  "v_errors v \<equiv> vr_errors (v_results v)"

abbreviation v_severity :: "Validator \<Rightarrow> Severity" where
  "v_severity v \<equiv> vr_severity (v_results v)"

text \<open>What every step keeps: bits are only added, errors only appended, the severity is kept.\<close>

definition v_grows :: "Validator \<Rightarrow> Validator \<Rightarrow> bool" where
  "v_grows v v' \<longleftrightarrow> ts_capacity (v_scratch v') = ts_capacity (v_scratch v) \<and>
     ts_marks (v_scratch v) \<subseteq> ts_marks (v_scratch v') \<and>
     (\<exists>es. v_errors v' = v_errors v @ es) \<and> v_severity v' = v_severity v"

lemma v_grows_refl [simp]: "v_grows v v"
  by (simp add: v_grows_def)

lemma v_grows_trans: "v_grows u v \<Longrightarrow> v_grows v w \<Longrightarrow> v_grows u w"
  by (auto simp: v_grows_def)

lemma v_grows_capacity: "v_grows v v' \<Longrightarrow> ts_capacity (v_scratch v') = ts_capacity (v_scratch v)"
  by (simp add: v_grows_def)

lemma v_grows_push [simp]: "v_grows v (push_error s t c v)"
  by (simp add: v_grows_def push_error_def)

lemma push_error_simps [simp]:
  "v_errors (push_error s t c v) = v_errors v @ [\<lparr>ve_info = s, ve_tag = t, ve_code = c\<rparr>]"
  "v_scratch (push_error s t c v) = v_scratch v" "v_severity (push_error s t c v) = v_severity v"
  "v_errors (set_fatal v) = v_errors v" "v_scratch (set_fatal v) = v_scratch v" "v_severity (set_fatal v) = Sev_Fatal"
  by (simp_all add: push_error_def set_fatal_def)

lemma v_mark_ok:
  assumes "i < ts_capacity (v_scratch v)"
  obtains v' where "v_mark i v = Some v'" "v_grows v v'" "v_results v' = v_results v"
    "ts_marks (v_scratch v') = insert i (ts_marks (v_scratch v))"
proof -
  obtain d where d: "ts_set i (v_scratch v) = Some d" "ts_capacity d = ts_capacity (v_scratch v)"
    "ts_marks d = insert i (ts_marks (v_scratch v))"
    using ts.mark_cases [OF assms] .
  show ?thesis
    by (rule that [of "v\<lparr>v_scratch := d\<rparr>"]) (use d in \<open>auto simp: v_mark_def v_grows_def\<close>)
qed

lemma ErrorString_short [simp]: "length s \<le> 32 \<Longrightarrow> ErrorString s = Some s"
  by (simp add: ErrorString_def)

lemma validate_type_total:
  "ty \<noteq> FT_FLOAT \<Longrightarrow> ty \<noteq> FT_DOUBLE \<Longrightarrow> \<exists>b. validate_type s ty = Some b"
  by (cases ty) auto

lemma no_floatD: "no_float fs \<Longrightarrow> fs_type fs \<noteq> FT_FLOAT \<and> fs_type fs \<noteq> FT_DOUBLE"
  by (cases fs) auto

text \<open>
  \<open>grown p v r\<close>: the computation \<open>r\<close> returns, and the validator in its result has only grown from \<open>v\<close>. The rules follow
  the shape of the code.
\<close>

definition grown :: "('a \<Rightarrow> Validator) \<Rightarrow> Validator \<Rightarrow> 'a option \<Rightarrow> bool" where
  "grown p v r \<longleftrightarrow> (\<exists>x. r = Some x \<and> v_grows v (p x))"

named_theorems grown_intro

lemma grown_Some [grown_intro]: "v_grows v (p x) \<Longrightarrow> grown p v (Some x)"
  by (simp add: grown_def)

lemma grown_if [grown_intro]: "(b \<Longrightarrow> grown p v x) \<Longrightarrow> (\<not> b \<Longrightarrow> grown p v y) \<Longrightarrow> grown p v (if b then x else y)"
  by simp

lemma grown_option [grown_intro]:
  "(z = None \<Longrightarrow> grown p v x) \<Longrightarrow> (\<And>a. z = Some a \<Longrightarrow> grown p v (f a)) \<Longrightarrow> grown p v (case z of None \<Rightarrow> x | Some a \<Rightarrow> f a)"
  by (cases z) simp_all

lemma grown_bind:
  assumes "grown q w r" "v_grows v w" "\<And>x. v_grows v (q x) \<Longrightarrow> grown p v (f x)"
  shows "grown p v (r \<bind> f)"
proof -
  obtain x where "r = Some x" "v_grows w (q x)" using assms(1) by (auto simp: grown_def)
  then show ?thesis using assms(3) [OF v_grows_trans [OF assms(2)]] by simp
qed

lemma grown_from: "grown p w r \<Longrightarrow> v_grows v w \<Longrightarrow> grown p v r"
  by (auto simp: grown_def intro: v_grows_trans)

lemma grown_mark:
  assumes "v_grows v w" "i < ts_capacity (v_scratch v)" "\<And>w'. v_grows v w' \<Longrightarrow> grown p v (f w')"
  shows "grown p v (v_mark i w \<bind> f)"
proof -
  have "i < ts_capacity (v_scratch w)" using assms(1,2) by (simp add: v_grows_capacity)
  then obtain w' where "v_mark i w = Some w'" "v_grows w w'" by (rule v_mark_ok)
  then show ?thesis using assms(3) v_grows_trans [OF assms(1)] by simp
qed

lemma grown_type:
  assumes "ty \<noteq> FT_FLOAT" "ty \<noteq> FT_DOUBLE" "\<And>b. grown p v (f b)"
  shows "grown p v (validate_type x ty \<bind> f)"
  using validate_type_total [OF assms(1,2), of x] assms(3) by auto

lemma v_grows_push_trans [grown_intro]: "v_grows v w \<Longrightarrow> v_grows v (push_error s t c w)"
  by (erule v_grows_trans) simp

definition group_validator :: "bool \<times> FieldOcc list \<times> nat \<times> Validator \<Rightarrow> Validator" where
  "group_validator x = snd (snd (snd x))"

abbreviation fields_total :: "GenericMessage \<Rightarrow> FieldSchema list \<Rightarrow> bool" where
  "fields_total m gs \<equiv> \<forall>cnt c (v :: Validator). length m \<le> ts_capacity (v_scratch v) \<longrightarrow> grown group_validator v (group_fields m gs cnt c v)"

abbreviation group_total :: "GenericMessage \<Rightarrow> FieldSchema \<Rightarrow> bool" where
  "group_total m fs \<equiv> \<forall>n c (v :: Validator). length m \<le> ts_capacity (v_scratch v) \<longrightarrow> grown snd v (validate_groups n m (Some fs) c v)"

lemma group_field_step:
  assumes "no_float fs" "group_total m fs" "fields_total m rest"
  shows "fields_total m (fs # rest)"
proof (intro allI impI)
  fix cnt c and v :: Validator assume len: "length m \<le> ts_capacity (v_scratch v)"
  have rest: "grown group_validator v (group_fields m rest cnt' c' w)" if "v_grows v w" for cnt' c' w
    using assms(3) len that by (intro grown_from [OF _ that]) (simp add: v_grows_capacity)
  have group: "grown snd w (validate_groups n m (Some fs) c' w)" if "v_grows v w" for n c' w
    using assms(2) len that by (simp add: v_grows_capacity)
  have ty: "fs_type fs \<noteq> FT_FLOAT" "fs_type fs \<noteq> FT_DOUBLE" using no_floatD [OF assms(1)] by simp_all
  show "grown group_validator v (group_fields m (fs # rest) cnt c v)"
    unfolding group_fields.simps(2) Let_def split_beta
    by (intro grown_intro grown_mark grown_type ty rest)
       (use len in \<open>auto simp: group_validator_def intro!: grown_intro grown_bind [OF group] rest\<close>)
qed

lemma fields_total_all: "list_all no_float gs \<Longrightarrow> \<forall>fs \<in> set gs. group_total m fs \<Longrightarrow> fields_total m gs"
proof (induction gs)
  case Nil
  then show ?case by (simp add: grown_def group_validator_def)
next
  case (Cons fs gs)
  then have "no_float fs" "group_total m fs" "fields_total m gs" by simp_all
  then show ?case by (rule group_field_step)
qed

lemma group_reps_total:
  assumes "fields_total m gs" "length m \<le> ts_capacity (v_scratch v)"
  shows "grown snd v (group_reps n m t gs c v)"
  using assms(2)
proof (induction n arbitrary: c v)
  case 0
  then show ?case by (simp add: grown_def)
next
  case (Suc n)
  have "grown group_validator v (group_fields m gs (map (\<lambda>f. (fs_tag f, 0)) gs) c v)" using assms(1) Suc.prems by blast
  moreover have "grown snd v (group_reps n m t gs c' w)" if "v_grows v w" for c' w
    using Suc.IH [of w] Suc.prems that by (intro grown_from [OF _ that]) (simp add: v_grows_capacity)
  ultimately show ?case
    unfolding group_reps.simps(2) split_beta
    by (intro grown_bind [OF _ v_grows_refl, of group_validator] grown_intro) (auto simp: group_validator_def intro!: grown_intro)
qed

lemma group_total: "no_float fs \<Longrightarrow> group_total m fs"
proof (induction fs)
  case (FieldSchema t ty pr g)
  have "fields_total m gs" if "g = Some gs" for gs
    using FieldSchema that by (intro fields_total_all) (auto simp: list_all_iff)
  then show ?case
    by (auto simp: validate_groups.simps intro!: grown_intro group_reps_total split: option.splits)
qed

lemma validate_fields_grown:
  "list_all no_float sch \<Longrightarrow> length m \<le> ts_capacity (v_scratch v) \<Longrightarrow> grown (\<lambda>w. w) v (validate_fields m sch v)"
proof (induction sch arbitrary: v)
  case Nil
  then show ?case by (simp add: grown_def)
next
  case (Cons fs rest)
  have rest: "grown (\<lambda>w. w) v (validate_fields m rest w)" if "v_grows v w" for w
    using Cons that by (intro grown_from [OF _ that]) (simp add: v_grows_capacity)
  have group: "grown snd w (validate_groups n m (Some fs) c w)" if "v_grows v w" for n c w
    using group_total [of fs m] Cons.prems that by (simp add: v_grows_capacity)
  have ty: "fs_type fs \<noteq> FT_FLOAT" "fs_type fs \<noteq> FT_DOUBLE" using no_floatD [of fs] Cons.prems(1) by simp_all
  have i: "i < ts_capacity (v_scratch v)" if "find_index (\<lambda>f. gf_tag f = fs_tag fs) m = Some i" for i
    using find_index_SomeD [OF that] Cons.prems(2) by simp
  show ?case
    unfolding validate_fields.simps(2) split_beta
    by (intro grown_intro grown_mark grown_type ty rest i)
       (auto intro!: grown_intro grown_bind [OF group] rest)
qed

lemma validate_fields_total:
  "list_all no_float sch \<Longrightarrow> length m \<le> ts_capacity (v_scratch v) \<Longrightarrow>
   \<exists>v'. validate_fields m sch v = Some v' \<and> v_grows v v'"
  using validate_fields_grown by (simp add: grown_def)

section \<open>What the validator accepts\<close>

definition field_conforms :: "GenericMessage \<Rightarrow> FieldSchema \<Rightarrow> bool" where
  "field_conforms msg fs \<longleftrightarrow>
     (case find_field (fs_tag fs) msg of
        None \<Rightarrow> fs_presence fs \<noteq> REQUIRED
      | Some v \<Rightarrow> validate_type v (fs_type fs) = Some True)"

definition first_fields :: "GenericMessage \<Rightarrow> Tag set \<Rightarrow> nat set" where
  "first_fields msg T = {i. \<exists>t \<in> T. find_index (\<lambda>f. gf_tag f = t) msg = Some i}"

lemma find_field_index:
  "find_field t msg = map_option (\<lambda>i. gf_value (msg ! i)) (find_index (\<lambda>f. gf_tag f = t) msg)"
proof (induction msg)
  case Nil
  then show ?case by (simp add: find_field_def)
next
  case (Cons f msg)
  then show ?case
    by (cases "find_index (\<lambda>f. gf_tag f = t) msg")
       (auto simp: find_field_def simp del: find_index_None)
qed

lemma first_fields_insert:
  "first_fields msg (insert t T) =
     (case find_index (\<lambda>f. gf_tag f = t) msg of None \<Rightarrow> {} | Some i \<Rightarrow> {i}) \<union> first_fields msg T"
  by (auto simp: first_fields_def simp del: find_index_None split: option.splits)

lemma first_fields_Un: "first_fields msg (S \<union> T) = first_fields msg S \<union> first_fields msg T"
  by (auto simp: first_fields_def)

text \<open>All fields are marked exactly when every tag is known and none appears twice.\<close>

lemma all_first_iff:
  "{..<length msg} \<subseteq> first_fields msg T \<longleftrightarrow> distinct (map gf_tag msg) \<and> gf_tag ` set msg \<subseteq> T"
proof
  assume A: "{..<length msg} \<subseteq> first_fields msg T"
  have first: "find_index (\<lambda>f. gf_tag f = gf_tag (msg ! i)) msg = Some i \<and> gf_tag (msg ! i) \<in> T" if "i < length msg" for i
  proof -
    have "i \<in> first_fields msg T" using A that by (rule subsetD [OF _ lessThan_iff [THEN iffD2]])
    then obtain t where t: "t \<in> T" "find_index (\<lambda>f. gf_tag f = t) msg = Some i"
      by (auto simp only: first_fields_def mem_Collect_eq)
    have "gf_tag (msg ! i) = t" using find_index_SomeD [OF t(2)] by simp
    with t show ?thesis by simp
  qed
  then have "gf_tag ` set msg \<subseteq> T" by (metis image_subsetI in_set_conv_nth)
  moreover have "distinct (map gf_tag msg)"
  proof (unfold distinct_conv_nth, intro allI impI)
    fix i j assume ij: "i < length (map gf_tag msg)" "j < length (map gf_tag msg)" "i \<noteq> j"
    then show "map gf_tag msg ! i \<noteq> map gf_tag msg ! j" using first [of i] first [of j] by auto
  qed
  ultimately show "distinct (map gf_tag msg) \<and> gf_tag ` set msg \<subseteq> T" by simp
next
  assume A: "distinct (map gf_tag msg) \<and> gf_tag ` set msg \<subseteq> T"
  show "{..<length msg} \<subseteq> first_fields msg T"
  proof
    fix i assume "i \<in> {..<length msg}"
    then have i: "i < length msg" by simp
    have "find_index (\<lambda>f. gf_tag f = gf_tag (msg ! i)) msg \<noteq> None" using i nth_mem [OF i] by auto
    then obtain j where j: "find_index (\<lambda>f. gf_tag f = gf_tag (msg ! i)) msg = Some j" by blast
    have "j < length msg" "gf_tag (msg ! j) = gf_tag (msg ! i)" using find_index_SomeD [OF j] by auto
    then have "j = i" using A i nth_eq_iff_index_eq [of "map gf_tag msg" j i] by simp
    moreover have "gf_tag (msg ! i) \<in> T" using A i by auto
    ultimately show "i \<in> first_fields msg T" using j by (auto simp: first_fields_def simp del: find_index_None)
  qed
qed

lemma validate_fields_plain:
  assumes "list_all no_float sch" "length msg \<le> ts_capacity (v_scratch v)"
    and "\<forall>fs \<in> set sch. fs_type fs = FT_GROUP \<longrightarrow> fs_tag fs \<notin> gf_tag ` set msg"
  shows "\<exists>v'. validate_fields msg sch v = Some v' \<and> v_grows v v' \<and>
    (if list_all (field_conforms msg) sch
     then v_errors v' = v_errors v \<and> ts_marks (v_scratch v') = ts_marks (v_scratch v) \<union> first_fields msg (fs_tag ` set sch)
     else v_errors v' \<noteq> v_errors v)"
  using assms
proof (induction sch arbitrary: v)
  case Nil
  then show ?case by (simp add: first_fields_def)
next
  case (Cons fs rest)
  let ?fi = "find_index (\<lambda>f. gf_tag f = fs_tag fs) msg"
  show ?case
  proof (cases ?fi)
    case None
    then have "field_conforms msg fs \<longleftrightarrow> fs_presence fs \<noteq> REQUIRED"
      by (simp add: field_conforms_def find_field_index del: find_index_None)
    with None Cons.prems Cons.IH [of v] show ?thesis
      by (auto simp: first_fields_insert simp del: find_index_None)
  next
    case (Some i)
    note I = find_index_SomeD [OF Some]
    then have "fs_tag fs \<in> gf_tag ` set msg" by (metis image_eqI nth_mem)
    then have plain: "fs_type fs \<noteq> FT_GROUP" using Cons.prems(3) by auto
    have "i < ts_capacity (v_scratch v)" using I Cons.prems(2) by simp
    then obtain w where w: "v_mark i v = Some w" "v_grows v w" "v_results w = v_results v"
        "ts_marks (v_scratch w) = insert i (ts_marks (v_scratch v))"
      by (rule v_mark_ok)
    have lw: "length msg \<le> ts_capacity (v_scratch w)" using w(2) Cons.prems(2) by (simp add: v_grows_capacity)
    obtain ok where ok: "validate_type (gf_value (msg ! i)) (fs_type fs) = Some ok"
      using validate_type_total no_floatD Cons.prems(1) by (metis list.pred_inject(2))
    have conf: "field_conforms msg fs \<longleftrightarrow> ok" by (simp add: field_conforms_def find_field_index Some ok)
    show ?thesis
    proof (cases ok)
      case False
      with Some plain w ok conf show ?thesis by (auto intro: v_grows_trans)
    next
      case True
      obtain w' where w': "validate_fields msg rest w = Some w'" "v_grows w w'"
          "if list_all (field_conforms msg) rest
           then v_errors w' = v_errors w \<and> ts_marks (v_scratch w') = ts_marks (v_scratch w) \<union> first_fields msg (fs_tag ` set rest)
           else v_errors w' \<noteq> v_errors w"
        using Cons.IH [OF _ lw] Cons.prems by auto
      with Some plain w ok conf True show ?thesis
        by (auto simp: first_fields_insert intro: v_grows_trans)
    qed
  qed
qed

definition header_values_ok :: "GenericMessage \<Rightarrow> string \<Rightarrow> bool" where
  "header_values_ok msg mt \<longleftrightarrow> length msg \<ge> 3 \<and> gf_value (msg ! 0) = DEFAULT_FIX_VERSION \<and>
     is_int_type (gf_value (msg ! 1)) \<and> gf_value (msg ! 2) = mt"

definition header_slots_ok :: "(CacheSlot \<Rightarrow> string option) \<Rightarrow> SessionParameters \<Rightarrow> bool" where
  "header_slots_ok slot params \<longleftrightarrow> (\<exists>s. slot Slot_MsgSeqNum = Some s \<and> is_int_type s) \<and>
     slot Slot_SenderCompID = Some (target_comp_id params) \<and> slot Slot_TargetCompID = Some (sender_comp_id params)"

lemma header_schema_nth:
  "StandardHeaderSchema ! 0 = plain 8 FT_STRING REQUIRED" "StandardHeaderSchema ! 1 = plain 9 FT_INT REQUIRED"
  "StandardHeaderSchema ! 2 = plain 35 FT_STRING REQUIRED"
  by (simp_all add: StandardHeaderSchema_def)

lemma validate_header_bad:
  assumes "\<not> (header_values_ok (vm_message m) mt \<and> header_slots_ok (slots (vm_cache m)) params)"
  shows "\<exists>v'. validate_header m mt params v = Some v' \<and> v_errors v' \<noteq> [] \<and> v_scratch v' = v_scratch v"
  using assms
  by (cases "slots (vm_cache m) Slot_MsgSeqNum")
     (auto simp: validate_header_def Let_def header_schema_nth header_values_ok_def header_slots_ok_def not_less_eq_eq
        simp del: One_nat_def)

lemma validate_header_good:
  assumes "header_values_ok (vm_message m) mt" "header_slots_ok (slots (vm_cache m)) params"
  shows "validate_header m mt params v = validate_fields (vm_message m) StandardHeaderSchema v"
  using assms
  by (auto simp: validate_header_def Let_def header_schema_nth header_values_ok_def header_slots_ok_def simp del: One_nat_def)

lemma schemas_no_float:
  "list_all no_float StandardHeaderSchema" "list_all no_float TrailerSchema"
  "s \<in> set message_schemas \<Longrightarrow> list_all no_float (ms_body s)"
  by (auto simp: schema_defs message_schemas_def)

lemma schema_group_tags:
  "\<forall>fs \<in> set StandardHeaderSchema. fs_type fs = FT_GROUP \<longrightarrow> fs_tag fs = 627"
  "\<forall>fs \<in> set TrailerSchema. fs_type fs \<noteq> FT_GROUP"
  "s \<in> set message_schemas \<Longrightarrow> \<forall>fs \<in> set (ms_body s). fs_type fs = FT_GROUP \<longrightarrow> fs_tag fs = 384"
  by (auto simp: schema_defs message_schemas_def)

text \<open>The specification: a message of the dictionary, addressed to this session.\<close>

definition valid_message :: "SessionParameters \<Rightarrow> GenericMessage \<Rightarrow> bool" where
  "valid_message params msg \<longleftrightarrow>
     (\<exists>s \<in> set message_schemas.
        header_values_ok msg (ms_type s) \<and> find_field 35 msg = Some (ms_type s) \<and>
        find_field 49 msg = Some (target_comp_id params) \<and> find_field 56 msg = Some (sender_comp_id params) \<and>
        distinct (map gf_tag msg) \<and>
        gf_tag ` set msg \<subseteq> fs_tag ` set (StandardHeaderSchema @ ms_body s @ TrailerSchema) \<and>
        list_all (field_conforms msg) (StandardHeaderSchema @ ms_body s @ TrailerSchema))"

definition no_group_fields :: "GenericMessage \<Rightarrow> bool" where
  "no_group_fields msg \<longleftrightarrow> 384 \<notin> gf_tag ` set msg \<and> 627 \<notin> gf_tag ` set msg"

lemma validate_three_schemas:
  assumes "s \<in> set message_schemas" "no_group_fields msg" "length msg \<le> ts_capacity (v_scratch v)"
    and "v_errors v = []" "ts_marks (v_scratch v) = {}"
  obtains v1 v2 v3 where "validate_fields msg StandardHeaderSchema v = Some v1"
    "validate_fields msg (ms_body s) v1 = Some v2" "validate_fields msg TrailerSchema v2 = Some v3"
    "ts_capacity (v_scratch v3) = ts_capacity (v_scratch v)"
    "v_errors v3 = [] \<longleftrightarrow> list_all (field_conforms msg) (StandardHeaderSchema @ ms_body s @ TrailerSchema)"
    "v_errors v3 = [] \<longrightarrow> ts_marks (v_scratch v3) =
       first_fields msg (fs_tag ` set (StandardHeaderSchema @ ms_body s @ TrailerSchema))"
proof -
  have ng: "\<forall>fs \<in> set sch. fs_type fs = FT_GROUP \<longrightarrow> fs_tag fs \<notin> gf_tag ` set msg"
    if "sch \<in> {StandardHeaderSchema, ms_body s, TrailerSchema}" for sch
    using schema_group_tags(1,2) schema_group_tags(3) [OF assms(1)] assms(2) that
    unfolding no_group_fields_def by (metis insertE singletonD)
  obtain v1 where v1: "validate_fields msg StandardHeaderSchema v = Some v1" "v_grows v v1"
    "if list_all (field_conforms msg) StandardHeaderSchema
     then v_errors v1 = v_errors v \<and> ts_marks (v_scratch v1) = ts_marks (v_scratch v) \<union> first_fields msg (fs_tag ` set StandardHeaderSchema)
     else v_errors v1 \<noteq> v_errors v"
    using validate_fields_plain [OF schemas_no_float(1) assms(3) ng] by auto
  have l1: "length msg \<le> ts_capacity (v_scratch v1)" using v1(2) assms(3) by (simp add: v_grows_capacity)
  obtain v2 where v2: "validate_fields msg (ms_body s) v1 = Some v2" "v_grows v1 v2"
    "if list_all (field_conforms msg) (ms_body s)
     then v_errors v2 = v_errors v1 \<and> ts_marks (v_scratch v2) = ts_marks (v_scratch v1) \<union> first_fields msg (fs_tag ` set (ms_body s))
     else v_errors v2 \<noteq> v_errors v1"
    using validate_fields_plain [OF schemas_no_float(3) [OF assms(1)] l1 ng] by auto
  have l2: "length msg \<le> ts_capacity (v_scratch v2)" using v2(2) l1 by (simp add: v_grows_capacity)
  obtain v3 where v3: "validate_fields msg TrailerSchema v2 = Some v3" "v_grows v2 v3"
    "if list_all (field_conforms msg) TrailerSchema
     then v_errors v3 = v_errors v2 \<and> ts_marks (v_scratch v3) = ts_marks (v_scratch v2) \<union> first_fields msg (fs_tag ` set TrailerSchema)
     else v_errors v3 \<noteq> v_errors v2"
    using validate_fields_plain [OF schemas_no_float(2) l2 ng] by auto
  have err: "v_errors v3 = [] \<Longrightarrow> v_errors v2 = []" "v_errors v2 = [] \<Longrightarrow> v_errors v1 = []"
    using v2(2) v3(2) by (auto simp: v_grows_def)
  show ?thesis
  proof (rule that [OF v1(1) v2(1) v3(1)])
    show "ts_capacity (v_scratch v3) = ts_capacity (v_scratch v)"
      using v1(2) v2(2) v3(2) by (simp add: v_grows_capacity)
    show "v_errors v3 = [] \<longleftrightarrow> list_all (field_conforms msg) (StandardHeaderSchema @ ms_body s @ TrailerSchema)"
      using v1(3) v2(3) v3(3) err assms(4) by (auto split: if_splits)
    show "v_errors v3 = [] \<longrightarrow> ts_marks (v_scratch v3) = first_fields msg (fs_tag ` set (StandardHeaderSchema @ ms_body s @ TrailerSchema))"
      using v1(3) v2(3) v3(3) err assms(4,5)
      by (auto simp: image_Un first_fields_Un Un_assoc split: if_splits)
  qed
qed

lemma valid_messageD:
  assumes "valid_message params msg"
  obtains s where "s \<in> set message_schemas" "header_values_ok msg (ms_type s)"
    "slots (vm_cache (make_valid_message_view msg)) Slot_MsgType = Some (ms_type s)"
    "header_slots_ok (slots (vm_cache (make_valid_message_view msg))) params"
    "distinct (map gf_tag msg)"
    "gf_tag ` set msg \<subseteq> fs_tag ` set (StandardHeaderSchema @ ms_body s @ TrailerSchema)"
    "list_all (field_conforms msg) (StandardHeaderSchema @ ms_body s @ TrailerSchema)"
proof -
  from assms obtain s where s: "s \<in> set message_schemas" "header_values_ok msg (ms_type s)"
    "find_field 35 msg = Some (ms_type s)" "find_field 49 msg = Some (target_comp_id params)"
    "find_field 56 msg = Some (sender_comp_id params)" and d: "distinct (map gf_tag msg)"
    and r: "gf_tag ` set msg \<subseteq> fs_tag ` set (StandardHeaderSchema @ ms_body s @ TrailerSchema)"
    "list_all (field_conforms msg) (StandardHeaderSchema @ ms_body s @ TrailerSchema)"
    unfolding valid_message_def by blast
  from r(2) have "field_conforms msg (plain 34 FT_INT REQUIRED)" by (simp add: StandardHeaderSchema_def)
  then have "\<exists>x. find_field 34 msg = Some x \<and> is_int_type x" by (auto simp: field_conforms_def split: option.splits)
  with s d r show ?thesis by (intro that [of s]) (auto simp: view_slots find_field_rev header_slots_ok_def)
qed

text \<open>Conversely the checks on the cached header fields are those on the only field of the tag.\<close>

lemma valid_messageI:
  assumes "s \<in> set message_schemas" "header_values_ok msg (ms_type s)"
    "slots (vm_cache (make_valid_message_view msg)) Slot_MsgType = Some (ms_type s)"
    "header_slots_ok (slots (vm_cache (make_valid_message_view msg))) params"
    "distinct (map gf_tag msg)"
    "gf_tag ` set msg \<subseteq> fs_tag ` set (StandardHeaderSchema @ ms_body s @ TrailerSchema)"
    "list_all (field_conforms msg) (StandardHeaderSchema @ ms_body s @ TrailerSchema)"
  shows "valid_message params msg"
  unfolding valid_message_def
  using assms by (intro bexI [of _ s]) (auto simp: view_slots find_field_rev header_slots_ok_def)

text \<open>The three ways through \<open>validate_message\<close>: an unknown type, a header that is rejected, and the field lists.\<close>

definition validator_start :: "GenericMessage \<Rightarrow> Validator \<Rightarrow> Validator" where
  "validator_start msg v = v\<lparr>v_results := vr_clear, v_scratch := ts_clear (ts_ensure_bits (length msg) (v_scratch v))\<rparr>"

lemma validator_start_simps [simp]:
  "v_errors (validator_start msg v) = []" "ts_marks (v_scratch (validator_start msg v)) = {}"
  "length msg \<le> ts_capacity (v_scratch (validator_start msg v))"
  by (simp_all add: validator_start_def vr_clear_def ts.reset_empty ts.reset_capacity)

lemma vm_message_view [simp]: "vm_message (make_valid_message_view msg) = msg"
  by (simp add: make_valid_message_view_def)

lemma validate_unknown_type:
  assumes "\<forall>s \<in> set message_schemas. slots (vm_cache (make_valid_message_view msg)) Slot_MsgType \<noteq> Some (ms_type s)"
  shows "\<exists>v'. validate_message (make_valid_message_view msg) params v = Some v' \<and> v_errors v' \<noteq> []"
proof -
  let ?mt = "slots (vm_cache (make_valid_message_view msg)) Slot_MsgType"
  have "find (\<lambda>s. ms_type s = mt) message_schemas = None" if "?mt = Some mt" for mt
    using assms that by (auto simp: find_None_iff)
  then show ?thesis by (cases ?mt) (auto simp: validate_message_def Let_def registry_get_find)
qed

lemma validate_known_type:
  assumes s: "s \<in> set message_schemas" "slots (vm_cache (make_valid_message_view msg)) Slot_MsgType = Some (ms_type s)"
  shows "validate_message (make_valid_message_view msg) params v =
     do { v1 \<leftarrow> validate_header (make_valid_message_view msg) (ms_type s) params (validator_start msg v);
          v2 \<leftarrow> validate_fields msg (ms_body s) v1;
          v3 \<leftarrow> validate_fields msg TrailerSchema v2;
          if v_errors v3 = [] then
            do { full \<leftarrow> ts_full (length msg) (v_scratch v3);
                 if \<not> full then Some (push_error [] 0 InvalidTagNumber v3) else Some v3 }
          else Some v3 }"
proof -
  have "registry_get (ms_type s) = Some (Some s)" using s(1) by (auto simp: message_schemas_def)
  then show ?thesis by (simp add: validate_message_def Let_def s(2) validate_trailer_def validator_start_def)
qed

lemma validate_bad_header:
  assumes s: "s \<in> set message_schemas" "slots (vm_cache (make_valid_message_view msg)) Slot_MsgType = Some (ms_type s)"
    and bad: "\<not> (header_values_ok msg (ms_type s) \<and> header_slots_ok (slots (vm_cache (make_valid_message_view msg))) params)"
  shows "\<exists>v'. validate_message (make_valid_message_view msg) params v = Some v' \<and> v_errors v' \<noteq> []"
proof -
  let ?m = "make_valid_message_view msg" and ?v = "validator_start msg v"
  obtain v1 where v1: "validate_header ?m (ms_type s) params ?v = Some v1" "v_errors v1 \<noteq> []" "v_scratch v1 = v_scratch ?v"
    using validate_header_bad [of ?m "ms_type s" params ?v] bad by auto
  obtain v2 where v2: "validate_fields msg (ms_body s) v1 = Some v2" "v_grows v1 v2"
    using validate_fields_total [OF schemas_no_float(3) [OF s(1)], of msg v1] v1(3) by auto
  obtain v3 where "validate_fields msg TrailerSchema v2 = Some v3" "v_grows v2 v3"
    using validate_fields_total [OF schemas_no_float(2), of msg v2] v1(3) v2(2) by (auto simp: v_grows_capacity)
  with v1 v2 show ?thesis by (auto simp: validate_known_type [OF s] v_grows_def)
qed

lemma validate_good_header:
  assumes s: "s \<in> set message_schemas" "slots (vm_cache (make_valid_message_view msg)) Slot_MsgType = Some (ms_type s)"
    and good: "header_values_ok msg (ms_type s)" "header_slots_ok (slots (vm_cache (make_valid_message_view msg))) params"
    and plain: "no_group_fields msg"
  shows "\<exists>v'. validate_message (make_valid_message_view msg) params v = Some v' \<and>
     (v_errors v' = [] \<longleftrightarrow> list_all (field_conforms msg) (StandardHeaderSchema @ ms_body s @ TrailerSchema) \<and>
        {..<length msg} \<subseteq> first_fields msg (fs_tag ` set (StandardHeaderSchema @ ms_body s @ TrailerSchema)))"
proof -
  let ?m = "make_valid_message_view msg" and ?v = "validator_start msg v"
  obtain v1 v2 v3 where v: "validate_fields msg StandardHeaderSchema ?v = Some v1"
    "validate_fields msg (ms_body s) v1 = Some v2" "validate_fields msg TrailerSchema v2 = Some v3"
    "ts_capacity (v_scratch v3) = ts_capacity (v_scratch ?v)"
    "v_errors v3 = [] \<longleftrightarrow> list_all (field_conforms msg) (StandardHeaderSchema @ ms_body s @ TrailerSchema)"
    "v_errors v3 = [] \<longrightarrow> ts_marks (v_scratch v3) =
       first_fields msg (fs_tag ` set (StandardHeaderSchema @ ms_body s @ TrailerSchema))"
    using validate_three_schemas [OF s(1) plain validator_start_simps(3,1,2)] .
  have "length msg \<le> ts_capacity (v_scratch v3)" using v(4) by simp
  then have "ts_full (length msg) (v_scratch v3) = Some ({..<length msg} \<subseteq> ts_marks (v_scratch v3))"
    using ts.all_marked_iff by simp
  moreover have "validate_header ?m (ms_type s) params ?v = Some v1"
    using validate_header_good [of ?m "ms_type s" params ?v] good v(1) by simp
  ultimately show ?thesis unfolding validate_known_type [OF s] using v(2,3,5,6) by simp
qed

lemma validate_message_spec:
  assumes "no_group_fields msg"
  shows "\<exists>v'. validate_message (make_valid_message_view msg) params v = Some v' \<and>
           (v_errors v' = [] \<longleftrightarrow> valid_message params msg)"
proof -
  let ?slots = "slots (vm_cache (make_valid_message_view msg))"
  show ?thesis
  proof (cases "\<exists>s \<in> set message_schemas. ?slots Slot_MsgType = Some (ms_type s)")
    case False
    then have "\<not> valid_message params msg" by (meson valid_messageD)
    then show ?thesis using validate_unknown_type [of msg params v] False by auto
  next
    case True
    then obtain s where s: "s \<in> set message_schemas" "?slots Slot_MsgType = Some (ms_type s)" by blast
    have same: "s' = s" if "s' \<in> set message_schemas" "?slots Slot_MsgType = Some (ms_type s')" for s'
      using that s distinct_message_schemas by (metis distinct_map inj_on_def option.inject)
    show ?thesis
    proof (cases "header_values_ok msg (ms_type s) \<and> header_slots_ok ?slots params")
      case False
      with same have "\<not> valid_message params msg" by (metis valid_messageD)
      then show ?thesis using validate_bad_header [OF s False, of v] by auto
    next
      case hdr: True
      have "valid_message params msg \<longleftrightarrow> list_all (field_conforms msg) (StandardHeaderSchema @ ms_body s @ TrailerSchema) \<and>
        {..<length msg} \<subseteq> first_fields msg (fs_tag ` set (StandardHeaderSchema @ ms_body s @ TrailerSchema))"
        using hdr s same all_first_iff [of msg] by (metis valid_messageD valid_messageI)
      then show ?thesis using validate_good_header [OF s _ _ assms, of params v] hdr by simp
    qed
  qed
qed

lemma validate_header_total:
  assumes "length (vm_message m) \<le> ts_capacity (v_scratch v)"
  shows "\<exists>v'. validate_header m mt params v = Some v' \<and> ts_capacity (v_scratch v') = ts_capacity (v_scratch v)"
proof (cases "header_values_ok (vm_message m) mt \<and> header_slots_ok (slots (vm_cache m)) params")
  case True
  then show ?thesis
    using validate_fields_total [OF schemas_no_float(1) assms] v_grows_capacity
    by (auto simp: validate_header_good)
next
  case False
  then show ?thesis using validate_header_bad [of m mt params v] by auto
qed

text \<open>The three header faults that end the session: no version, another version, wrong addressing.\<close>

definition fatal_header :: "ValidMessageView \<Rightarrow> string \<Rightarrow> SessionParameters \<Rightarrow> bool" where
  "fatal_header m mt params \<longleftrightarrow>
     length (vm_message m) < 3 \<or> gf_value (vm_message m ! 0) \<noteq> DEFAULT_FIX_VERSION \<or>
     is_int_type (gf_value (vm_message m ! 1)) \<and> gf_value (vm_message m ! 2) = mt \<and>
     \<not> header_slots_ok (slots (vm_cache m)) params"

lemma validate_header_severity:
  assumes "length (vm_message m) \<le> ts_capacity (v_scratch v)" "validate_header m mt params v = Some v'"
  shows "v_severity v' = (if fatal_header m mt params then Sev_Fatal else v_severity v)"
proof (cases "header_values_ok (vm_message m) mt \<and> header_slots_ok (slots (vm_cache m)) params")
  case True
  then have "v_grows v v'"
    using validate_fields_total [OF schemas_no_float(1) assms(1)] assms(2) by (auto simp: validate_header_good)
  with True show ?thesis by (auto simp: v_grows_def fatal_header_def header_values_ok_def)
next
  case False
  with assms(2) show ?thesis
    by (cases "slots (vm_cache m) Slot_MsgSeqNum")
       (auto simp: validate_header_def Let_def header_schema_nth header_values_ok_def header_slots_ok_def
          fatal_header_def not_less_eq_eq simp del: One_nat_def split: if_splits)
qed

lemma validate_message_returns:
  "\<exists>v'. validate_message m params v = Some v' \<and>
     (v_severity v' = Sev_Fatal \<longleftrightarrow>
        (\<exists>s \<in> set message_schemas. slots (vm_cache m) Slot_MsgType = Some (ms_type s) \<and> fatal_header m (ms_type s) params))"
proof -
  let ?n = "length (vm_message m)" and ?mt = "slots (vm_cache m) Slot_MsgType"
  define v0 where "v0 = v\<lparr>v_results := vr_clear, v_scratch := ts_clear (ts_ensure_bits ?n (v_scratch v))\<rparr>"
  have v0: "v_severity v0 = Sev_Moderate" "?n \<le> ts_capacity (v_scratch v0)"
    by (simp_all add: v0_def vr_clear_def ts.reset_capacity)
  show ?thesis
  proof (cases "\<exists>s. ?mt = Some (ms_type s) \<and> s \<in> set message_schemas")
    case False
    then have "find (\<lambda>s. ms_type s = mt) message_schemas = None" if "?mt = Some mt" for mt
      using that by (auto simp: find_None_iff)
    with False v0(1) show ?thesis
      by (cases ?mt) (auto simp: validate_message_def Let_def registry_get_find v0_def)
  next
    case True
    then obtain s where s: "?mt = Some (ms_type s)" "s \<in> set message_schemas" by blast
    then have reg: "registry_get (ms_type s) = Some (Some s)" by (auto simp: message_schemas_def)
    obtain v1 where v1: "validate_header m (ms_type s) params v0 = Some v1" "?n \<le> ts_capacity (v_scratch v1)"
      using validate_header_total [OF v0(2)] v0(2) by metis
    obtain v2 where v2: "validate_fields (vm_message m) (ms_body s) v1 = Some v2" "v_grows v1 v2"
      using validate_fields_total [OF schemas_no_float(3) [OF s(2)] v1(2)] by blast
    then have l2: "?n \<le> ts_capacity (v_scratch v2)" using v1(2) by (simp add: v_grows_capacity)
    obtain v3 where v3: "validate_fields (vm_message m) TrailerSchema v2 = Some v3" "v_grows v2 v3"
      using validate_fields_total [OF schemas_no_float(2) l2] by blast
    have sev: "v_severity v3 = Sev_Fatal \<longleftrightarrow> fatal_header m (ms_type s) params"
      using validate_header_severity [OF v0(2) v1(1)] v0(1) v2(2) v3(2) by (simp add: v_grows_def)
    have same: "ms_type s' = ms_type s" if "?mt = Some (ms_type s')" for s' using that s by simp
    have full: "ts_full ?n (v_scratch v3) = Some ({..<?n} \<subseteq> ts_marks (v_scratch v3))"
      using ts.all_marked_iff l2 v3(2) by (simp add: v_grows_capacity)
    have vm: "validate_message m params v =
        (if v_errors v3 = [] \<and> \<not> {..<?n} \<subseteq> ts_marks (v_scratch v3)
         then Some (push_error [] 0 InvalidTagNumber v3) else Some v3)"
      using v1(1) v2(1) v3(1) full
      by (simp add: validate_message_def Let_def s(1) reg validate_trailer_def v0_def)
    show ?thesis using sev s same unfolding vm by auto
  qed
qed

text \<open>
  C13: The validator's verdict. For every parsed message without repeating groups the validator
  returns, and it reports no error exactly when the message is valid for this session: its type
  is registered, the first three values are the version, a number and the type, the comp ids are
  the session's own swapped, no tag appears twice, every tag belongs to the header, the body of
  that type or the trailer, every required field is there and every value has its field's type.\<close>

theorem validate_message_correct:
  assumes "no_group_fields msg"
  shows "\<exists>v'. validate_message (make_valid_message_view msg) params v = Some v' \<and>
           (vr_errors (v_results v') = [] \<longleftrightarrow> valid_message params msg)"
  using assms by (rule validate_message_spec)

text \<open>
  C25: The validator on arbitrary messages. For every message, repeating groups included, and
  every state of its scratch, the validator returns a result and touches nothing outside its
  arrays; the result is fatal exactly when the message type is registered and one of the
  session-ending header faults is met first (fewer than three fields, another FIX version, or,
  after a well-formed body length and type, a bad sequence number or wrong comp ids).\<close>

theorem validate_message_severity:
  "\<exists>v'. validate_message m params v = Some v' \<and>
     (vr_severity (v_results v') = Sev_Fatal \<longleftrightarrow>
        (\<exists>s \<in> set message_schemas. slots (vm_cache m) Slot_MsgType = Some (ms_type s) \<and> fatal_header m (ms_type s) params))"
  by (rule validate_message_returns)

definition sample_heartbeat :: GenericMessage where
  "sample_heartbeat =
     [field 8 ''FIX.4.4'', field 9 ''5'', field 35 ''0'', field 49 ''test_target'', field 56 ''test_sender'',
      field 34 ''2'', field 52 ''20250101-00:00:00.000'', field 112 ''ping'', field 10 ''000'']"

lemma sample_heartbeat_valid: "valid_message default_params sample_heartbeat"
proof -
  have h: "make_schema ''0'' HeartbeatSchema \<in> set message_schemas" by (simp add: message_schemas_def)
  have i: "is_int_type ''5''" "is_int_type ''2''" "is_int_type ''000''" by (simp_all add: is_int_type_def is_digit_def)
  show ?thesis
    unfolding valid_message_def
    by (rule bexI [OF _ h])
       (simp add: header_values_ok_def sample_heartbeat_def DEFAULT_FIX_VERSION_def default_params_def
          find_field_def schema_defs field_conforms_def i)
qed

theorem validate_message_correct_witness:
  "no_group_fields sample_heartbeat \<and>
   (\<exists>v'. validate_message (make_valid_message_view sample_heartbeat) default_params
            \<lparr>v_results = vr_clear, v_scratch = []\<rparr> = Some v' \<and> vr_errors (v_results v') = [])"
proof -
  have "no_group_fields sample_heartbeat" by (simp add: no_group_fields_def sample_heartbeat_def)
  with validate_message_correct [OF this, of default_params "\<lparr>v_results = vr_clear, v_scratch = []\<rparr>"] sample_heartbeat_valid
  show ?thesis by auto
qed

end
