(* ===== verification/Parser.thy ===== *)
theory Parser
  imports Message_Model
begin

text \<open>
  \<open>Fix::Parser\<close> (include/fix/core/Parser.hpp, src/Parser.cpp): splits a framed message into
  its fields. The trailer is located by the last occurrence of \<open>10=\<close>; its three digits must
  be the sum of all bytes before it modulo 256. A failure is recorded as one
  \<open>ParseErrorInfo\<close>, with the fields read so far left in the output.
\<close>

datatype ParseError =
  NoTag | MaxTagSize | MalformedTag | MissingEqualSign | MissingValue | Failed_checksum | Missing_soh

record ParseErrorInfo =
  pe_tag :: Tag
  pe_code :: ParseError

abbreviation parse_error :: "Tag \<Rightarrow> ParseError \<Rightarrow> ParseErrorInfo" where
  "parse_error t c \<equiv> \<lparr>pe_tag = t, pe_code = c\<rparr>"

definition MAX_TAG_SIZE :: nat where
  "MAX_TAG_SIZE = 7"

definition undefined_tag :: Tag where
  "undefined_tag = 0"

definition parse_tag :: "string \<Rightarrow> Tag option" where
  "parse_tag str = from_chars_whole (2 ^ 32 - 1) str"

definition byte_sum :: "string \<Rightarrow> nat" where
  "byte_sum s = sum_list (map of_char s)"

text \<open>The \<open>while\<close> loop over the fields in front of the trailer.\<close>

function parse_fields :: "string \<Rightarrow> nat \<Rightarrow> nat \<Rightarrow> GenericMessage \<Rightarrow> GenericMessage \<times> ParseErrorInfo list" where
  "parse_fields msg_frame checksum_pos pos out_msg =
     (if pos < checksum_pos then
        (case sv_find_char msg_frame CHR ''='' pos of
           None \<Rightarrow> (out_msg, [parse_error undefined_tag MalformedTag])
         | Some equal_pos \<Rightarrow>
             if equal_pos - pos > MAX_TAG_SIZE then (out_msg, [parse_error undefined_tag MalformedTag])
             else case parse_tag (slice pos (equal_pos - pos) msg_frame) of
               None \<Rightarrow> (out_msg, [parse_error undefined_tag MalformedTag])
             | Some tag \<Rightarrow>
                 (case sv_find_char msg_frame SOH (equal_pos + 1) of
                    None \<Rightarrow> (out_msg, [parse_error tag Missing_soh])
                  | Some soh_pos \<Rightarrow>
                      let value = slice (equal_pos + 1) (soh_pos - (equal_pos + 1)) msg_frame in
                      if value = [] then (out_msg, [parse_error tag MissingValue])
                      else parse_fields msg_frame checksum_pos (soh_pos + 1) (out_msg @ [field tag value])))
      else (out_msg, []))"
  by pat_completeness auto
termination
proof (relation "measure (\<lambda>(fr, cp, pos, m). cp - pos)", goal_cases)
  case 1
  show ?case by simp
next
  case (2 fr cp pos m eq tag soh v)
  then show ?case
    using sv_find_char_SomeD(1) [of fr "CHR ''=''" pos eq] sv_find_char_SomeD(1) [of fr SOH "eq + 1" soh] by simp
qed

declare parse_fields.simps [simp del]

definition parse :: "string \<Rightarrow> GenericMessage \<times> ParseErrorInfo list" where
  "parse msg_frame =
     (case sv_rfind msg_frame ''10='' of
        None \<Rightarrow> ([], [parse_error 10 Failed_checksum])
      | Some checksum_pos \<Rightarrow>
          let checksum_str = slice (checksum_pos + 3) 3 msg_frame in
          (case from_chars_whole (2 ^ 16 - 1) checksum_str of
             None \<Rightarrow> ([], [parse_error 10 Failed_checksum])
           | Some checksum \<Rightarrow>
               if byte_sum (take checksum_pos msg_frame) mod 256 \<noteq> checksum
               then ([], [parse_error 10 Failed_checksum])
               else (case parse_fields msg_frame checksum_pos 0 [] of
                       (m, []) \<Rightarrow> (m @ [field 10 checksum_str], [])
                     | (m, e # es) \<Rightarrow> (m, e # es))))"

section \<open>The wire form of a message\<close>

definition enc_field :: "GenericField \<Rightarrow> string" where
  "enc_field f = to_chars (gf_tag f) @ CHR ''='' # gf_value f @ [SOH]"

definition enc_fields :: "GenericMessage \<Rightarrow> string" where
  "enc_fields fs = concat (map enc_field fs)"

text \<open>Three digits with leading zeros.\<close>

definition pad3 :: "nat \<Rightarrow> string" where
  "pad3 n = [digit_char (n div 100), digit_char (n div 10 mod 10), digit_char (n mod 10)]"

definition checksum_of :: "string \<Rightarrow> nat" where
  "checksum_of s = byte_sum s mod 256"

definition trailer :: "string \<Rightarrow> string" where
  "trailer s = ''10='' @ pad3 (checksum_of s) @ [SOH]"

definition field_ok :: "GenericField \<Rightarrow> bool" where
  "field_ok f \<longleftrightarrow> gf_tag f < 10 ^ 7 \<and> gf_value f \<noteq> [] \<and> SOH \<notin> set (gf_value f)"

lemma length_pad3 [simp]: "length (pad3 n) = 3"
  by (simp add: pad3_def)

lemma length_trailer [simp]: "length (trailer s) = 7"
  by (simp add: trailer_def)

lemma pad3_digits: "n < 1000 \<Longrightarrow> \<forall>c \<in> set (pad3 n). is_digit c"
  by (auto simp: pad3_def)

lemma from_chars_whole_pad3: "n < 1000 \<Longrightarrow> from_chars_whole (2 ^ 16 - 1) (pad3 n) = Some n"
proof -
  assume n: "n < 1000"
  have tw: "takeWhile is_digit (pad3 n) = pad3 n"
    using pad3_digits [OF n] by (auto simp: takeWhile_eq_all_conv)
  have "digits_val (pad3 n) = 100 * (n div 100) + 10 * (n div 10 mod 10) + n mod 10"
    using n by (simp add: pad3_def digits_val_def)
  also have "\<dots> = n"
  proof -
    have "n div 100 = n div 10 div 10" by (simp add: div_mult2_eq [symmetric])
    then show ?thesis
      using div_mult_mod_eq [of n 10] div_mult_mod_eq [of "n div 10" 10] by linarith
  qed
  finally have "digits_val (pad3 n) = n" .
  moreover have "pad3 n \<noteq> []" by (simp add: pad3_def)
  ultimately show ?thesis
    using n by (simp only: from_chars_whole_def from_chars_u_def tw Let_def) simp
qed

lemma checksum_of_less [simp]: "checksum_of s < 256"
  by (simp add: checksum_of_def)

lemma rfind_trailer:
  assumes "is_digit a" "is_digit b" "is_digit c"
  shows "sv_rfind (xs @ ''10='' @ [a, b, c, SOH]) ''10='' = Some (length xs)"
  unfolding sv_rfind_def
proof (rule rfind_sub_eqI)
  let ?t = "''10='' @ [a, b, c, SOH]"
  show "starts_with ''10='' (drop (length xs) (xs @ ?t))" "length xs \<le> length (xs @ ?t)"
    by (simp_all add: starts_with_def)
  fix j assume j: "length xs < j" "j \<le> length (xs @ ?t)"
  define k where "k = j - length xs"
  then have k: "j = length xs + k" "0 < k" "k \<le> 7" using j by auto
  have ne: "a \<noteq> CHR ''=''" "b \<noteq> CHR ''=''" "c \<noteq> CHR ''=''" using assms by auto
  have "k = 1 \<or> k = 2 \<or> k = 3 \<or> k = 4 \<or> k = 5 \<or> k = 6 \<or> k = 7" using k by arith
  then show "\<not> starts_with ''10='' (drop j (xs @ ?t))"
    using ne by (auto simp: k(1) starts_with_def)
qed

lemma enc_fields_Cons: "enc_fields (f # fs) = enc_field f @ enc_fields fs"
  and enc_fields_Nil [simp]: "enc_fields [] = []"
  and enc_fields_append: "enc_fields (fs @ gs) = enc_fields fs @ enc_fields gs"
  by (simp_all add: enc_fields_def)

lemma parse_fields_encode:
  "\<forall>f \<in> set fs. field_ok f \<Longrightarrow>
   parse_fields (pre @ enc_fields fs @ tr) (length pre + length (enc_fields fs)) (length pre) acc = (acc @ fs, [])"
proof (induction fs arbitrary: pre acc)
  case Nil
  then show ?case by (simp add: parse_fields.simps)
next
  case (Cons f fs)
  let ?t = "to_chars (gf_tag f)" and ?v = "gf_value f"
  let ?fr = "pre @ enc_fields (f # fs) @ tr" and ?cp = "length pre + length (enc_fields (f # fs))"
  from Cons.prems have ok: "gf_tag f < 10 ^ 7" "?v \<noteq> []" "SOH \<notin> set ?v" by (auto simp: field_ok_def)
  have fr: "?fr = pre @ ?t @ CHR ''='' # (?v @ SOH # enc_fields fs @ tr)"
    by (simp add: enc_fields_Cons enc_field_def)
  have eq: "sv_find_char ?fr CHR ''='' (length pre) = Some (length pre + length ?t)"
    using sv_find_char_at [OF fr refl] by simp
  have "length ?t \<le> 7" using length_to_chars_le [OF ok(1)] by simp
  then have tagsz: "\<not> length pre + length ?t - length pre > MAX_TAG_SIZE" by (simp add: MAX_TAG_SIZE_def)
  have tag: "parse_tag (slice (length pre) (length pre + length ?t - length pre) ?fr) = Some (gf_tag f)"
    using ok(1) by (simp add: fr parse_tag_def)
  have fr2: "?fr = (pre @ ?t @ ''='') @ ?v @ SOH # (enc_fields fs @ tr)" by (simp add: fr)
  have soh: "sv_find_char ?fr SOH (length pre + length ?t + 1) = Some (length pre + length ?t + 1 + length ?v)"
    using sv_find_char_at [OF fr2, of "length pre + length ?t + 1"] ok(3) by simp
  have val: "slice (length pre + length ?t + 1) (length pre + length ?t + 1 + length ?v - (length pre + length ?t + 1)) ?fr = ?v"
    by (subst fr2, rule slice_exact) simp_all
  have "parse_fields ?fr ?cp (length pre) acc =
      parse_fields ?fr ?cp (length pre + length ?t + 1 + length ?v + 1) (acc @ [field (gf_tag f) ?v])"
    using eq tagsz tag soh val ok(2)
    by (subst parse_fields.simps) (simp add: enc_fields_Cons enc_field_def Let_def del: One_nat_def)
  also have "?fr = (pre @ enc_field f) @ enc_fields fs @ tr" by (simp add: enc_fields_Cons)
  also have "?cp = length (pre @ enc_field f) + length (enc_fields fs)" by (simp add: enc_fields_Cons)
  also have "length pre + length ?t + 1 + length ?v + 1 = length (pre @ enc_field f)" by (simp add: enc_field_def)
  also have "parse_fields ((pre @ enc_field f) @ enc_fields fs @ tr) (length (pre @ enc_field f) + length (enc_fields fs))
      (length (pre @ enc_field f)) (acc @ [field (gf_tag f) ?v]) = ((acc @ [field (gf_tag f) ?v]) @ fs, [])"
    using Cons.prems by (intro Cons.IH) simp
  finally show ?case by (simp add: enc_fields_Cons add.assoc)
qed

text \<open>The wire form parses back to its fields, with the trailer as the last one.\<close>

lemma parse_wire:
  assumes "\<forall>f \<in> set fs. field_ok f"
  shows "parse (enc_fields fs @ trailer (enc_fields fs)) = (fs @ [field 10 (pad3 (checksum_of (enc_fields fs)))], [])"
proof -
  let ?e = "enc_fields fs" and ?c = "checksum_of (enc_fields fs)"
  let ?fr = "?e @ trailer ?e"
  have c: "?c < 1000" by (rule less_trans [OF checksum_of_less]) simp
  obtain x y z where xyz: "pad3 ?c = [x, y, z]" "is_digit x" "is_digit y" "is_digit z"
    using pad3_digits [OF c] by (auto simp: pad3_def)
  have rf: "sv_rfind ?fr ''10='' = Some (length ?e)"
    using rfind_trailer [OF xyz(2-4), of ?e] by (simp add: trailer_def xyz(1))
  have cs: "slice (length ?e + 3) 3 ?fr = pad3 ?c"
    by (simp add: trailer_def slice_def)
  have pf: "parse_fields ?fr (length ?e) 0 [] = (fs, [])"
    using parse_fields_encode [OF assms, of "[]" "trailer ?e" "[]"] by simp
  show ?thesis
    using rf cs pf from_chars_whole_pad3 [OF c]
    by (simp add: parse_def Let_def) (simp add: checksum_of_def)
qed

section \<open>Soundness of a successful parse\<close>

definition enc_with :: "string \<Rightarrow> GenericField \<Rightarrow> string" where
  "enc_with t f = t @ CHR ''='' # gf_value f @ [SOH]"

definition tagged_by :: "string \<Rightarrow> GenericField \<Rightarrow> bool" where
  "tagged_by t f \<longleftrightarrow> parse_tag t = Some (gf_tag f) \<and> length t \<le> MAX_TAG_SIZE \<and> gf_value f \<noteq> [] \<and> SOH \<notin> set (gf_value f)"

lemma slice_between_find:
  assumes "sv_find_char s c pos = Some i"
  shows "drop pos s = slice pos (i - pos) s @ c # drop (i + 1) s" "c \<notin> set (slice pos (i - pos) s)"
proof -
  note D = sv_find_char_SomeD [OF assms]
  have "drop pos s = slice pos (i - pos) s @ drop (pos + (i - pos)) s" by (rule drop_eq_slice_append)
  also have "drop (pos + (i - pos)) s = c # drop (i + 1) s" using D by (simp add: Cons_nth_drop_Suc [symmetric])
  finally show "drop pos s = slice pos (i - pos) s @ c # drop (i + 1) s" .
  show "c \<notin> set (slice pos (i - pos) s)"
  proof
    assume "c \<in> set (slice pos (i - pos) s)"
    then obtain k where "k < length (slice pos (i - pos) s)" "slice pos (i - pos) s ! k = c"
      by (metis in_set_conv_nth)
    then show False using D(4) [of "pos + k"] D(1,2) by (simp add: slice_def)
  qed
qed

lemma parse_fields_stepD:
  assumes "parse_fields fr cp pos acc = (m, [])" "pos < cp"
  obtains e t q where
    "sv_find_char fr CHR ''='' pos = Some e" "\<not> e - pos > MAX_TAG_SIZE"
    "parse_tag (slice pos (e - pos) fr) = Some t"
    "sv_find_char fr SOH (e + 1) = Some q" "slice (e + 1) (q - (e + 1)) fr \<noteq> []"
    "parse_fields fr cp (q + 1) (acc @ [field t (slice (e + 1) (q - (e + 1)) fr)]) = (m, [])"
  using assms that
  by (subst (asm) parse_fields.simps)
     (auto simp: Let_def simp del: One_nat_def split: if_splits option.splits)

text \<open>The byte at the end of the field area separates two fields only when it is an SOH of its own.\<close>

lemma no_SOH_inside_field:
  assumes "sv_find_char fr CHR ''='' pos = Some e" "parse_tag (slice pos (e - pos) fr) = Some t"
    "sv_find_char fr SOH (e + 1) = Some q" "pos \<le> j" "j < q"
  shows "fr ! j \<noteq> SOH"
proof -
  note E = sv_find_char_SomeD [OF assms(1)] and Q = sv_find_char_SomeD [OF assms(3)]
  consider "j < e" | "j = e" | "e + 1 \<le> j" by linarith
  then show ?thesis
  proof cases
    case 1
    have "\<forall>c \<in> set (slice pos (e - pos) fr). is_digit c"
      using from_chars_wholeD(2) [of "2 ^ 32 - 1"] assms(2) by (auto simp: parse_tag_def)
    moreover have "fr ! j = slice pos (e - pos) fr ! (j - pos)" "j - pos < length (slice pos (e - pos) fr)"
      using 1 assms(4) E by (auto simp: slice_def)
    ultimately show ?thesis by (metis not_is_digit_sep(1) nth_mem)
  qed (use E(3) Q(4) assms(5) in auto)
qed

lemma parse_fields_sound:
  "parse_fields fr cp pos acc = (m, []) \<Longrightarrow> pos \<le> length fr \<Longrightarrow>
   \<exists>ts fs. m = acc @ fs \<and> list_all2 tagged_by ts fs \<and>
     starts_with (concat (map2 enc_with ts fs)) (drop pos fr) \<and>
     cp \<le> pos + length (concat (map2 enc_with ts fs)) \<and>
     (pos \<le> cp \<and> (cp = 0 \<or> fr ! (cp - 1) = SOH) \<longrightarrow> cp = pos + length (concat (map2 enc_with ts fs)))"
proof (induction fr cp pos acc rule: parse_fields.induct)
  case (1 fr cp pos acc)
  show ?case
  proof (cases "pos < cp")
    case False
    with "1.prems" show ?thesis
      by (intro exI [of _ "[]"]) (auto simp: parse_fields.simps starts_with_def)
  next
    case True
    from parse_fields_stepD [OF "1.prems"(1) True] obtain e t q where
      e: "sv_find_char fr CHR ''='' pos = Some e" "\<not> e - pos > MAX_TAG_SIZE"
        "parse_tag (slice pos (e - pos) fr) = Some t"
      and q: "sv_find_char fr SOH (e + 1) = Some q" "slice (e + 1) (q - (e + 1)) fr \<noteq> []"
      and rec: "parse_fields fr cp (q + 1) (acc @ [field t (slice (e + 1) (q - (e + 1)) fr)]) = (m, [])" .
    let ?t = "slice pos (e - pos) fr" and ?v = "slice (e + 1) (q - (e + 1)) fr"
    have ql: "q + 1 \<le> length fr" using sv_find_char_SomeD(2) [OF q(1)] by simp
    then obtain ts fs where IH: "m = (acc @ [field t ?v]) @ fs" "list_all2 tagged_by ts fs"
        "starts_with (concat (map2 enc_with ts fs)) (drop (q + 1) fr)"
        "cp \<le> q + 1 + length (concat (map2 enc_with ts fs))"
        "q + 1 \<le> cp \<and> (cp = 0 \<or> fr ! (cp - 1) = SOH) \<longrightarrow> cp = q + 1 + length (concat (map2 enc_with ts fs))"
      using "1.IH" [OF True e q(1) refl q(2) rec] by blast
    have d: "drop pos fr = enc_with ?t (field t ?v) @ drop (q + 1) fr"
      using slice_between_find(1) [OF e(1)] slice_between_find(1) [OF q(1)] by (simp add: enc_with_def)
    have "pos \<le> q" using sv_find_char_SomeD(1) [OF e(1)] sv_find_char_SomeD(1) [OF q(1)] by simp
    then have len: "pos + length (enc_with ?t (field t ?v)) = q + 1"
      using arg_cong [OF d, of length] ql "1.prems"(2) by simp
    have "starts_with (enc_with ?t (field t ?v) @ concat (map2 enc_with ts fs)) (drop pos fr)"
      using IH(3) by (auto simp: d starts_with_iff)
    moreover have "tagged_by ?t (field t ?v)"
      using e q slice_between_find(2) [OF q(1)] by (simp add: tagged_by_def)
    moreover have "q + 1 \<le> cp" if "fr ! (cp - 1) = SOH"
      using no_SOH_inside_field [OF e(1,3) q(1), of "cp - 1"] that True by fastforce
    ultimately show ?thesis
      using IH True len
      by (intro exI [of _ "?t # ts"] exI [of _ "field t ?v # fs"]) auto
  qed
qed

lemma parse_okD:
  assumes "parse fr = (m, [])"
  obtains cp fs c where "sv_rfind fr ''10='' = Some cp" "from_chars_whole (2 ^ 16 - 1) (slice (cp + 3) 3 fr) = Some c"
    "byte_sum (take cp fr) mod 256 = c" "parse_fields fr cp 0 [] = (fs, [])"
    "m = fs @ [field 10 (slice (cp + 3) 3 fr)]"
  using assms that
  by (auto simp: parse_def Let_def split: option.splits if_splits prod.splits list.splits)

text \<open>
  C21: Wire round trip of the parser. Any list of fields whose tags have at most seven digits and
  whose values are non-empty and free of SOH, written as \<open>tag=value SOH\<close> and closed by the
  trailer with its checksum, parses without an error to exactly these fields followed by the
  trailer's checksum field; values may contain equal signs and the text \<open>10=\<close>.\<close>

theorem parse_roundtrip:
  assumes "\<forall>f \<in> set fs. field_ok f"
  shows "parse (enc_fields fs @ trailer (enc_fields fs)) =
           (fs @ [field 10 (pad3 (checksum_of (enc_fields fs)))], [])"
  using assms by (rule parse_wire)

theorem parse_roundtrip_witness:
  "parse (enc_fields [field 35 ''A'', field 58 ''x10=y''] @ trailer (enc_fields [field 35 ''A'', field 58 ''x10=y''])) =
     ([field 35 ''A'', field 58 ''x10=y'',
       field 10 (pad3 (checksum_of (enc_fields [field 35 ''A'', field 58 ''x10=y''])))], [])"
  using parse_roundtrip [of "[field 35 ''A'', field 58 ''x10=y'']"] by (simp add: field_ok_def)



text \<open>
  The trailer is not required to follow an SOH: the bytes \<open>35=A10=230\<close> with one final SOH are
  accepted, and the text of the trailer becomes part of the value of tag 35.
\<close>

lemma parse_trailer_inside_value:
  "parse (''35=A10=230'' @ [SOH]) = ([field 35 ''A10=230'', field 10 ''230''], [])"
proof -
  have "sv_rfind (''35=A10=230'' @ [SOH]) ''10='' = Some 4"
    by (simp add: sv_rfind_def starts_with_def)
  moreover have "from_chars_whole (2 ^ 16 - 1) (slice (4 + 3) 3 (''35=A10=230'' @ [SOH])) = Some 230"
    by (simp add: slice_def from_chars_whole_def from_chars_u_def is_digit_def digits_val_def digit_val_def)
  moreover have "byte_sum (take 4 (''35=A10=230'' @ [SOH])) mod 256 = 230"
    by (simp add: byte_sum_def)
  moreover have "parse_fields (''35=A10=230'' @ [SOH]) 4 0 [] = ([field 35 ''A10=230''], [])"
    by (simp add: parse_fields.simps sv_find_char_def MAX_TAG_SIZE_def slice_def parse_tag_def
        from_chars_whole_def from_chars_u_def is_digit_def digits_val_def digit_val_def)
  ultimately show ?thesis by (simp add: parse_def slice_def Let_def)
qed

end
