(* ===== verification/Factory_Scratch.thy ===== *)
theory Factory_Scratch
  imports Parser
begin

text \<open>
  \<open>FactoryScratch\<close> (include/fix/core/MessageFactory.hpp, src/FactoryScratch.cpp): the growing
  byte buffer in which outgoing messages are written. The body length is written over a
  placeholder of ten digits and the text behind it is moved left; then the checksum of
  everything before it is appended. A subtraction of sizes that would wrap around is a fault.

  The locale \<open>byte_sink\<close> is the contract of a buffer that grows as it is appended to: what the
  builders of the message factory rely on.
\<close>

record fscratch =
  sc_buffer :: string
  sc_buffer_size :: nat
  sc_position :: nat
  sc_body_length_offset :: nat
  sc_body_length_digit_size :: nat
  sc_checksum_offset :: nat

definition min_grow_size :: nat where
  "min_grow_size = 1024"

definition sc_new :: fscratch where
  "sc_new = \<lparr>sc_buffer = [], sc_buffer_size = 64 * 1024, sc_position = 0, sc_body_length_offset = 0,
     sc_body_length_digit_size = 10, sc_checksum_offset = 0\<rparr>"

definition sc_reset :: "fscratch \<Rightarrow> fscratch" where
  "sc_reset f = f\<lparr>sc_body_length_offset := 0, sc_position := 0, sc_body_length_digit_size := 10, sc_checksum_offset := 0\<rparr>"

definition sc_grow :: "nat \<Rightarrow> fscratch \<Rightarrow> fscratch option" where
  "sc_grow extra f =
     (let new_size = sc_buffer_size f + extra in
      do { new_buffer \<leftarrow> memcpy new_size 0 (slice 0 (sc_position f) (sc_buffer f)) [];
           Some (f\<lparr>sc_buffer := new_buffer, sc_buffer_size := new_size\<rparr>) })"

definition sc_add_string :: "string \<Rightarrow> fscratch \<Rightarrow> fscratch option" where
  "sc_add_string sv f =
     do { f1 \<leftarrow> (if sc_position f + length sv > sc_buffer_size f
                 then sc_grow (max (sc_position f + length sv - sc_buffer_size f) min_grow_size) f
                 else Some f);
          b \<leftarrow> memcpy (sc_buffer_size f1) (sc_position f1) sv (sc_buffer f1);
          Some (f1\<lparr>sc_buffer := b, sc_position := sc_position f1 + length sv\<rparr>) }"

definition sc_add_char :: "char \<Rightarrow> fscratch \<Rightarrow> fscratch option" where
  "sc_add_char c f =
     do { f1 \<leftarrow> (if sc_position f + 1 > sc_buffer_size f then sc_grow min_grow_size f else Some f);
          b \<leftarrow> memcpy (sc_buffer_size f1) (sc_position f1) [c] (sc_buffer f1);
          Some (f1\<lparr>sc_buffer := b, sc_position := sc_position f1 + 1\<rparr>) }"

definition sc_add_int :: "int \<Rightarrow> fscratch \<Rightarrow> fscratch option" where
  "sc_add_int i f = sc_add_string (to_chars_int i) f"

definition sc_add_equal_sign :: "fscratch \<Rightarrow> fscratch option" where
  "sc_add_equal_sign f = sc_add_char CHR ''='' f"

definition sc_add_soh :: "fscratch \<Rightarrow> fscratch option" where
  "sc_add_soh f = sc_add_char SOH f"

definition sc_add_field :: "int \<Rightarrow> string \<Rightarrow> fscratch \<Rightarrow> fscratch option" where
  "sc_add_field tag v f =
     do { f1 \<leftarrow> sc_add_int tag f; f2 \<leftarrow> sc_add_equal_sign f1; f3 \<leftarrow> sc_add_string v f2; sc_add_soh f3 }"

definition sc_add_field_int :: "int \<Rightarrow> int \<Rightarrow> fscratch \<Rightarrow> fscratch option" where
  "sc_add_field_int tag v f =
     do { f1 \<leftarrow> sc_add_int tag f; f2 \<leftarrow> sc_add_equal_sign f1; f3 \<leftarrow> sc_add_int v f2; sc_add_soh f3 }"

primrec sc_add_zeros :: "nat \<Rightarrow> fscratch \<Rightarrow> fscratch option" where
  "sc_add_zeros 0 f = Some f"
| "sc_add_zeros (Suc n) f = do { f1 \<leftarrow> sc_add_char CHR ''0'' f; sc_add_zeros n f1 }"

definition sc_add_body_length_placeholder :: "fscratch \<Rightarrow> fscratch option" where
  "sc_add_body_length_placeholder f =
     do { f1 \<leftarrow> sc_add_int 9 f; f2 \<leftarrow> sc_add_equal_sign f1;
          let f3 = f2\<lparr>sc_body_length_offset := sc_position f2\<rparr>;
          f4 \<leftarrow> sc_add_zeros (sc_body_length_digit_size f3) f3;
          sc_add_soh f4 }"

definition sc_compute_body_length :: "fscratch \<Rightarrow> nat option" where
  "sc_compute_body_length f =
     do { assert_that (sc_body_length_offset f + sc_body_length_digit_size f + 1 \<le> sc_position f);
          Some (sc_position f - (sc_body_length_offset f + sc_body_length_digit_size f + 1)) }"

definition sc_compute_checksum :: "fscratch \<Rightarrow> nat" where
  "sc_compute_checksum f = byte_sum (slice 0 (sc_checksum_offset f) (sc_buffer f)) mod 256"

definition sc_insert_checksum :: "fscratch \<Rightarrow> fscratch option" where
  "sc_insert_checksum f =
     (let f0 = f\<lparr>sc_checksum_offset := sc_position f\<rparr>;
          digits = to_chars (sc_compute_checksum f0);
          len = length digits in
      do { f1 \<leftarrow> sc_add_string ''10'' f0;
           f2 \<leftarrow> sc_add_equal_sign f1;
           f3 \<leftarrow> (if len < 3 then sc_add_zeros (3 - len) f2 else Some f2);
           f4 \<leftarrow> sc_add_string digits f3;
           sc_add_soh f4 })"

definition sc_insert_body_length :: "fscratch \<Rightarrow> fscratch option" where
  "sc_insert_body_length f =
     do { n \<leftarrow> sc_compute_body_length f;
          let digits = to_chars n;
          let len = length digits;
          let off = sc_body_length_offset f;
          let old = sc_body_length_digit_size f;
          b1 \<leftarrow> memcpy (sc_buffer_size f) off digits (sc_buffer f);
          b2 \<leftarrow> memcpy (sc_buffer_size f) (off + len) (slice (off + old) (sc_position f - (off + old)) b1) b1;
          Some (f\<lparr>sc_buffer := b2, sc_position := sc_position f + len - old, sc_body_length_digit_size := len\<rparr>) }"

definition sc_edit_window :: "nat \<Rightarrow> nat \<Rightarrow> string \<Rightarrow> fscratch \<Rightarrow> fscratch option" where
  "sc_edit_window offset len new_data f =
     do { assert_that (length new_data = len);
          assert_that (offset + len \<le> sc_position f);
          b \<leftarrow> memcpy (sc_buffer_size f) offset new_data (sc_buffer f);
          Some (f\<lparr>sc_buffer := b\<rparr>) }"

definition sc_get_buffer_view :: "fscratch \<Rightarrow> string" where
  "sc_get_buffer_view f = slice 0 (sc_position f) (sc_buffer f)"

section \<open>Appending\<close>

locale byte_sink =
  fixes ok :: "'s \<Rightarrow> bool" and content :: "'s \<Rightarrow> string" and meta :: "'s \<Rightarrow> 'm"
    and put :: "string \<Rightarrow> 's \<Rightarrow> 's option"
  assumes put_appends: "ok s \<Longrightarrow> \<exists>s'. put x s = Some s' \<and> ok s' \<and> content s' = content s @ x \<and> meta s' = meta s"
begin

definition appends :: "string \<Rightarrow> ('s \<Rightarrow> 's option) \<Rightarrow> bool" where
  "appends x f \<longleftrightarrow> (\<forall>s. ok s \<longrightarrow> (\<exists>s'. f s = Some s' \<and> ok s' \<and> content s' = content s @ x \<and> meta s' = meta s))"

lemma appends_put [intro, simp]: "appends x (put x)"
  using put_appends by (simp add: appends_def)

lemma appends_bind: "appends x f \<Longrightarrow> appends y g \<Longrightarrow> appends (x @ y) (\<lambda>s. f s \<bind> g)"
  unfolding appends_def by (metis append_assoc bind.bind_lunit)

lemma appends_Some [simp]: "appends [] Some"
  by (simp add: appends_def)

lemma appendsD:
  assumes "appends x f" "ok s"
  obtains s' where "f s = Some s'" "ok s'" "content s' = content s @ x" "meta s' = meta s"
  using assms unfolding appends_def by blast

primrec put_all :: "string list \<Rightarrow> 's \<Rightarrow> 's option" where
  "put_all [] s = Some s"
| "put_all (x # xs) s = put x s \<bind> put_all xs"

lemma appends_put_all: "appends (concat xs) (put_all xs)"
proof (induction xs)
  case Nil
  have "put_all [] = Some" by (rule ext) simp
  then show ?case by simp
next
  case (Cons x xs)
  have "put_all (x # xs) = (\<lambda>s. put x s \<bind> put_all xs)" by (rule ext) simp
  with appends_bind [OF appends_put Cons] show ?case by simp
qed

end

definition sc_inv :: "fscratch \<Rightarrow> bool" where
  "sc_inv f \<longleftrightarrow> sc_position f \<le> length (sc_buffer f) \<and> length (sc_buffer f) \<le> sc_buffer_size f"

definition sc_meta :: "fscratch \<Rightarrow> nat \<times> nat \<times> nat" where
  "sc_meta f = (sc_body_length_offset f, sc_body_length_digit_size f, sc_checksum_offset f)"

lemma sc_view_position: "sc_inv f \<Longrightarrow> length (sc_get_buffer_view f) = sc_position f"
  by (simp add: sc_inv_def sc_get_buffer_view_def)

lemma sc_grow_ok:
  assumes "sc_inv f" "sc_position f \<le> sc_buffer_size f + extra"
  obtains f' where "sc_grow extra f = Some f'" "sc_inv f'" "sc_get_buffer_view f' = sc_get_buffer_view f"
    "sc_meta f' = sc_meta f" "sc_position f' = sc_position f" "sc_buffer_size f' = sc_buffer_size f + extra"
  using assms
  by (intro that [of "f\<lparr>sc_buffer := take (sc_position f) (sc_buffer f), sc_buffer_size := sc_buffer_size f + extra\<rparr>"])
     (auto simp: sc_grow_def Let_def sc_inv_def sc_get_buffer_view_def sc_meta_def slice_def)

lemma sc_write_ok:
  assumes "sc_inv f" "sc_position f + length x \<le> sc_buffer_size f"
  shows "\<exists>f'. (do { b \<leftarrow> memcpy (sc_buffer_size f) (sc_position f) x (sc_buffer f);
                   Some (f\<lparr>sc_buffer := b, sc_position := sc_position f + length x\<rparr>) }) = Some f' \<and>
    sc_inv f' \<and> sc_get_buffer_view f' = sc_get_buffer_view f @ x \<and> sc_meta f' = sc_meta f"
  using assms by (auto simp: sc_inv_def sc_get_buffer_view_def sc_meta_def slice_def)

lemma sc_add_string_ok:
  assumes "sc_inv f"
  shows "\<exists>f'. sc_add_string x f = Some f' \<and> sc_inv f' \<and> sc_get_buffer_view f' = sc_get_buffer_view f @ x \<and> sc_meta f' = sc_meta f"
proof (cases "sc_position f + length x > sc_buffer_size f")
  case True
  let ?e = "max (sc_position f + length x - sc_buffer_size f) min_grow_size"
  have e: "sc_position f + length x \<le> sc_buffer_size f + ?e" using True by simp
  then obtain f1 where "sc_grow ?e f = Some f1" "sc_inv f1" "sc_get_buffer_view f1 = sc_get_buffer_view f"
      "sc_meta f1 = sc_meta f" "sc_position f1 = sc_position f" "sc_buffer_size f1 = sc_buffer_size f + ?e"
    using sc_grow_ok [OF assms, of ?e] by auto
  with True sc_write_ok [of f1 x] e show ?thesis by (simp add: sc_add_string_def)
next
  case False
  with sc_write_ok [OF assms, of x] show ?thesis by (simp add: sc_add_string_def)
qed

text \<open>The scratch is a byte sink, and every other append is made of its \<open>add_string\<close>.\<close>

interpretation sc: byte_sink sc_inv sc_get_buffer_view sc_meta sc_add_string
  by unfold_locales (rule sc_add_string_ok)

lemma sc_add_char_ok: "sc.appends [c] (sc_add_char c)"
proof (unfold sc.appends_def, intro allI impI)
  fix f assume f: "sc_inv f"
  show "\<exists>f'. sc_add_char c f = Some f' \<and> sc_inv f' \<and> sc_get_buffer_view f' = sc_get_buffer_view f @ [c] \<and> sc_meta f' = sc_meta f"
  proof (cases "sc_position f + 1 > sc_buffer_size f")
    case True
    have e: "sc_position f + 1 \<le> sc_buffer_size f + min_grow_size"
      using f by (simp add: sc_inv_def min_grow_size_def)
    then obtain f1 where "sc_grow min_grow_size f = Some f1" "sc_inv f1" "sc_get_buffer_view f1 = sc_get_buffer_view f"
        "sc_meta f1 = sc_meta f" "sc_position f1 = sc_position f" "sc_buffer_size f1 = sc_buffer_size f + min_grow_size"
      using sc_grow_ok [OF f, of min_grow_size] by auto
    with True sc_write_ok [of f1 "[c]"] e show ?thesis by (simp add: sc_add_char_def)
  next
    case False
    with sc_write_ok [OF f, of "[c]"] show ?thesis by (simp add: sc_add_char_def)
  qed
qed

lemma sc_add_zeros_ok: "sc.appends (replicate n CHR ''0'') (sc_add_zeros n)"
proof (induction n)
  case 0
  have "sc_add_zeros 0 = Some" by (rule ext) simp
  then show ?case by simp
next
  case (Suc n)
  have "sc_add_zeros (Suc n) = (\<lambda>f. sc_add_char CHR ''0'' f \<bind> sc_add_zeros n)" by (rule ext) simp
  with sc.appends_bind [OF sc_add_char_ok Suc] show ?case by simp
qed

lemma sc_add_int_ok: "sc.appends (to_chars_int i) (sc_add_int i)"
  by (simp add: sc.appends_def sc_add_int_def sc_add_string_ok)

lemma sc_add_equal_sign_ok: "sc.appends ''='' sc_add_equal_sign" and sc_add_soh_ok: "sc.appends [SOH] sc_add_soh"
  using sc_add_char_ok by (simp_all add: sc.appends_def sc_add_equal_sign_def sc_add_soh_def)

lemma sc_add_field_ok: "sc.appends (to_chars_int t @ CHR ''='' # v @ [SOH]) (sc_add_field t v)"
proof -
  have "sc.appends (to_chars_int t @ ''='' @ v @ [SOH])
      (\<lambda>f. sc_add_int t f \<bind> (\<lambda>f. sc_add_equal_sign f \<bind> (\<lambda>f. sc_add_string v f \<bind> sc_add_soh)))"
    by (intro sc.appends_bind sc_add_int_ok sc_add_equal_sign_ok sc_add_soh_ok sc.appends_put)
  then show ?thesis by (simp add: sc.appends_def sc_add_field_def)
qed

lemma sc_add_field_int_ok: "sc.appends (to_chars_int t @ CHR ''='' # to_chars_int v @ [SOH]) (sc_add_field_int t v)"
  using sc_add_field_ok [of t "to_chars_int v"]
  by (simp add: sc.appends_def sc_add_field_def sc_add_field_int_def sc_add_int_def)

section \<open>Body length and checksum\<close>

lemma sc_placeholder_ok:
  assumes "sc_inv f" "sc_body_length_digit_size f = 10"
  obtains f' where "sc_add_body_length_placeholder f = Some f'" "sc_inv f'"
    "sc_get_buffer_view f' = sc_get_buffer_view f @ ''9='' @ replicate 10 CHR ''0'' @ [SOH]"
    "sc_body_length_offset f' = length (sc_get_buffer_view f) + 2" "sc_body_length_digit_size f' = 10"
proof -
  obtain f1 where f1: "sc_add_int 9 f = Some f1" "sc_inv f1" "sc_get_buffer_view f1 = sc_get_buffer_view f @ ''9''" "sc_meta f1 = sc_meta f"
    by (rule sc.appendsD [OF sc_add_int_ok assms(1), of 9]) (simp add: to_chars.simps)
  obtain f2 where f2: "sc_add_equal_sign f1 = Some f2" "sc_inv f2" "sc_get_buffer_view f2 = sc_get_buffer_view f1 @ ''=''" "sc_meta f2 = sc_meta f1"
    using sc.appendsD [OF sc_add_equal_sign_ok f1(2)] .
  define f3 where "f3 = f2\<lparr>sc_body_length_offset := sc_position f2\<rparr>"
  have f3: "sc_inv f3" "sc_get_buffer_view f3 = sc_get_buffer_view f2" "sc_body_length_digit_size f3 = 10"
    "sc_body_length_offset f3 = length (sc_get_buffer_view f) + 2" "sc_body_length_digit_size f2 = 10"
    using f2(2,3,4) f1(3,4) assms(2) sc_view_position [OF f2(2)]
    by (simp_all add: f3_def sc_inv_def sc_get_buffer_view_def sc_meta_def)
  obtain f4 where f4: "sc_add_zeros 10 f3 = Some f4" "sc_inv f4" "sc_get_buffer_view f4 = sc_get_buffer_view f3 @ replicate 10 CHR ''0''" "sc_meta f4 = sc_meta f3"
    using sc.appendsD [OF sc_add_zeros_ok f3(1)] .
  obtain f5 where f5: "sc_add_soh f4 = Some f5" "sc_inv f5" "sc_get_buffer_view f5 = sc_get_buffer_view f4 @ [SOH]" "sc_meta f5 = sc_meta f4"
    using sc.appendsD [OF sc_add_soh_ok f4(2)] .
  have "sc_add_body_length_placeholder f = Some f5"
    using f1(1) f2(1) f4(1) f5(1) f3(3,5)
    by (simp add: sc_add_body_length_placeholder_def f3_def [symmetric] Let_def del: sc_add_zeros.simps)
  moreover have "sc_body_length_offset f5 = length (sc_get_buffer_view f) + 2" "sc_body_length_digit_size f5 = 10"
    using f5(4) f4(4) f3(3,4) by (auto simp: sc_meta_def)
  ultimately show ?thesis
    using f1(3) f2(3) f3(2) f4(3) f5(2,3) by (intro that [of f5]) simp_all
qed

lemma write_digits:
  assumes "b = pre @ zs @ SOH # body @ rest" "length zs = 10" "length d \<le> 10" "length b \<le> cap"
  shows "memcpy cap (length pre) d b = Some (pre @ d @ drop (length d) zs @ SOH # body @ rest)"
proof -
  have "drop (length pre + length d) b = drop (length d) zs @ SOH # body @ rest"
    using assms(2,3) by (simp add: assms(1))
  then show ?thesis using assms by (subst memcpy_eq_Some) simp_all
qed

lemma shift_left:
  assumes "b = pre @ d @ gap @ SOH # body @ rest" "length d + length gap = 10" "length b \<le> cap"
  shows "memcpy cap (length pre + length d) (slice (length pre + 10) (Suc (length body)) b) b =
           Some (pre @ d @ SOH # body @ drop (length pre + length d + Suc (length body)) b)"
proof -
  have "b = (pre @ d @ gap) @ (SOH # body) @ rest" by (simp add: assms(1))
  then have "slice (length pre + 10) (Suc (length body)) b = SOH # body"
    using assms(2) by (metis slice_exact length_Cons length_append)
  moreover have "take (length pre + length d) b = pre @ d" by (simp add: assms(1))
  ultimately show ?thesis using assms by (subst memcpy_eq_Some) simp_all
qed

lemma sc_insert_body_length_ok:
  assumes inv: "sc_inv f" and view: "sc_get_buffer_view f = pre @ zs @ SOH # body"
    and zs: "length zs = 10" "sc_body_length_digit_size f = 10" "sc_body_length_offset f = length pre"
    and len: "length body < 10 ^ 10"
  obtains f' where "sc_insert_body_length f = Some f'" "sc_inv f'"
    "sc_get_buffer_view f' = pre @ to_chars (length body) @ SOH # body"
proof -
  define d where "d = to_chars (length body)"
  define rest where "rest = drop (sc_position f) (sc_buffer f)"
  have p: "sc_position f = length pre + 11 + length body"
    using sc_view_position [OF inv] view zs(1) by simp
  have cap: "length (sc_buffer f) \<le> sc_buffer_size f" using inv by (simp add: sc_inv_def)
  have "sc_buffer f = take (sc_position f) (sc_buffer f) @ rest" by (simp add: rest_def)
  then have buf: "sc_buffer f = pre @ zs @ SOH # body @ rest"
    using view by (simp add: sc_get_buffer_view_def slice_def)
  have dl: "length d \<le> 10" using length_to_chars_le [OF len] by (simp add: d_def)
  define b1 where "b1 = pre @ d @ drop (length d) zs @ SOH # body @ rest"
  have b1: "memcpy (sc_buffer_size f) (length pre) d (sc_buffer f) = Some b1"
    unfolding b1_def by (rule write_digits [OF buf zs(1) dl cap])
  have lb1: "length b1 = length (sc_buffer f)" using dl zs(1) by (simp add: b1_def buf)
  define b2 where "b2 = pre @ d @ SOH # body @ drop (length pre + length d + Suc (length body)) b1"
  have b2: "memcpy (sc_buffer_size f) (length pre + length d) (slice (length pre + 10) (Suc (length body)) b1) b1 = Some b2"
    unfolding b2_def by (rule shift_left [OF b1_def]) (use dl zs(1) lb1 cap in simp_all)
  have lb2: "length b2 \<le> sc_buffer_size f" using lb1 cap dl zs(1) by (simp add: b2_def buf)
  have cbl: "sc_compute_body_length f = Some (length body)"
    using p zs by (simp add: sc_compute_body_length_def)
  define f' where "f' = f\<lparr>sc_buffer := b2, sc_position := length pre + length d + Suc (length body), sc_body_length_digit_size := length d\<rparr>"
  have "sc_insert_body_length f = Some f'"
    using b1 b2 p by (simp add: sc_insert_body_length_def cbl zs d_def [symmetric] Let_def f'_def del: memcpy_eq_Some)
  moreover have "sc_inv f'" using lb2 by (simp add: f'_def sc_inv_def b2_def)
  moreover have "sc_get_buffer_view f' = pre @ d @ SOH # body"
    by (simp add: f'_def sc_get_buffer_view_def slice_def b2_def)
  ultimately show ?thesis using that d_def by simp
qed

lemma pad3_to_chars: "n < 1000 \<Longrightarrow> replicate (3 - length (to_chars n)) CHR ''0'' @ to_chars n = pad3 n"
proof -
  assume n: "n < 1000"
  consider "n < 10" | "10 \<le> n" "n < 100" | "100 \<le> n" by linarith
  then show ?thesis
  proof cases
    case 1
    then show ?thesis by (simp add: to_chars.simps pad3_def numeral_2_eq_2)
  next
    case 2
    then have "to_chars n = [digit_char (n div 10), digit_char (n mod 10)]" by (simp add: to_chars.simps)
    with 2 show ?thesis by (simp add: pad3_def)
  next
    case 3
    then have "to_chars n = [digit_char (n div 10 div 10), digit_char (n div 10 mod 10), digit_char (n mod 10)]"
      using n by (subst to_chars.simps, subst to_chars.simps, subst to_chars.simps) auto
    then show ?thesis by (simp add: pad3_def div_mult2_eq [symmetric])
  qed
qed

lemma sc_insert_checksum_ok:
  assumes "sc_inv f"
  obtains f' where "sc_insert_checksum f = Some f'" "sc_inv f'"
    "sc_get_buffer_view f' = sc_get_buffer_view f @ trailer (sc_get_buffer_view f)"
proof -
  define f0 where "f0 = f\<lparr>sc_checksum_offset := sc_position f\<rparr>"
  let ?v = "sc_get_buffer_view f" and ?d = "to_chars (sc_compute_checksum f0)"
  have f0: "sc_inv f0" "sc_get_buffer_view f0 = ?v" "sc_compute_checksum f0 = checksum_of ?v"
    using assms by (auto simp: f0_def sc_inv_def sc_get_buffer_view_def sc_compute_checksum_def checksum_of_def)
  have c: "sc_compute_checksum f0 < 1000" using f0(3) checksum_of_less [of ?v] by linarith
  let ?z = "if length ?d < 3 then sc_add_zeros (3 - length ?d) else Some"
  have z: "sc.appends (replicate (3 - length ?d) CHR ''0'') ?z" using sc_add_zeros_ok by simp
  have "sc.appends (''10'' @ ''='' @ replicate (3 - length ?d) CHR ''0'' @ ?d @ [SOH])
      (\<lambda>f. sc_add_string ''10'' f \<bind> (\<lambda>f. sc_add_equal_sign f \<bind> (\<lambda>f. ?z f \<bind> (\<lambda>f. sc_add_string ?d f \<bind> sc_add_soh))))"
    by (intro sc.appends_bind sc.appends_put sc_add_equal_sign_ok z sc_add_soh_ok)
  from sc.appendsD [OF this f0(1)] obtain f' where
    "(sc_add_string ''10'' f0 \<bind> (\<lambda>f. sc_add_equal_sign f \<bind> (\<lambda>f. ?z f \<bind> (\<lambda>f. sc_add_string ?d f \<bind> sc_add_soh)))) = Some f'"
    "sc_inv f'" "sc_get_buffer_view f' = ?v @ (''10'' @ ''='' @ replicate (3 - length ?d) CHR ''0'' @ ?d @ [SOH])"
    using f0(2) by auto
  moreover have "sc_insert_checksum f = (sc_add_string ''10'' f0 \<bind> (\<lambda>f. sc_add_equal_sign f \<bind> (\<lambda>f. ?z f \<bind> (\<lambda>f. sc_add_string ?d f \<bind> sc_add_soh))))"
    by (simp add: sc_insert_checksum_def Let_def f0_def)
  moreover have "replicate (3 - length ?d) CHR ''0'' @ ?d @ [SOH] = pad3 (checksum_of ?v) @ [SOH]"
    using pad3_to_chars [OF c] f0(3) by simp
  ultimately show ?thesis by (intro that [of f']) (simp_all add: trailer_def)
qed

lemma sc_new_inv [simp]: "sc_inv sc_new"
  by (simp add: sc_inv_def sc_new_def)

lemma sc_reset_ok [simp]:
  "sc_inv f \<Longrightarrow> sc_inv (sc_reset f)" "sc_get_buffer_view (sc_reset f) = []"
  "sc_body_length_digit_size (sc_reset f) = 10"
  by (simp_all add: sc_inv_def sc_reset_def sc_get_buffer_view_def)

end
