(* ===== verification/Message_Store.thy ===== *)
theory Message_Store
  imports Parser
begin

text \<open>
  \<open>MessageStore\<close>, \<open>MsgIndex\<close> and \<open>ResendStream\<close> (include/fix/core/MessageStore.hpp,
  src/MessageStore.cpp): every outgoing message is copied into one byte array, with an index
  entry that records where it is and where the fields that a resend patches are. Sizes and
  sequence numbers that the code keeps in \<open>uint32_t\<close> are reduced modulo \<open>2 ^ 32\<close>, offsets kept
  in \<open>int32_t\<close> are the signed value of a 32-bit word, field lengths are \<open>uint16_t\<close>.
  \<open>std::size_t\<close> is a \<open>nat\<close>.
\<close>

record MsgIndex =
  mi_off :: nat
  mi_len :: nat
  mi_seq :: nat
  mi_off_34 :: int
  mi_off_52 :: int
  mi_off_43 :: int
  mi_off_122 :: int
  mi_len_34 :: nat
  mi_len_43 :: nat
  mi_len_122 :: nat
  mi_len_52 :: nat
  mi_msg_type :: string

definition to_u32 :: "nat \<Rightarrow> nat" where
  "to_u32 n = n mod 2 ^ 32"

definition to_u16 :: "nat \<Rightarrow> nat" where
  "to_u16 n = n mod 2 ^ 16"

definition to_i32 :: "nat \<Rightarrow> int" where
  "to_i32 n = sint (of_nat n :: 32 word)"

definition empty_index :: "nat \<Rightarrow> nat \<Rightarrow> MsgIndex" where
  "empty_index off len =
     \<lparr>mi_off = off, mi_len = len, mi_seq = 0, mi_off_34 = -1, mi_off_52 = -1, mi_off_43 = -1, mi_off_122 = -1,
      mi_len_34 = 0, mi_len_43 = 0, mi_len_122 = 0, mi_len_52 = 0, mi_msg_type = [CHR 0x00]\<rparr>"

text \<open>One turn of the loop of \<open>create_message_index\<close>; the flag is the \<open>break\<close> on tag 10.\<close>

definition index_field :: "string \<Rightarrow> nat \<Rightarrow> string \<Rightarrow> MsgIndex \<Rightarrow> (bool \<times> MsgIndex) option" where
  "index_field tag value_pos value idx =
     (if tag = ''34'' then
        (case from_chars_u (2 ^ 32 - 1) value 0 of
           (p, ec, seq) \<Rightarrow>
             do { assert_that (ec = Errc_ok);
                  Some (False, idx\<lparr>mi_off_34 := to_i32 value_pos, mi_len_34 := to_u16 (length value), mi_seq := seq\<rparr>) })
      else if tag = ''52'' then
        Some (False, idx\<lparr>mi_off_52 := to_i32 value_pos, mi_len_52 := to_u16 (length value)\<rparr>)
      else if tag = ''43'' then
        Some (False, idx\<lparr>mi_off_43 := to_i32 value_pos, mi_len_43 := to_u16 (length value)\<rparr>)
      else if tag = ''122'' then
        Some (False, idx\<lparr>mi_off_122 := to_i32 value_pos, mi_len_122 := to_u16 (length value)\<rparr>)
      else if tag = ''35'' then
        Some (False, idx\<lparr>mi_msg_type := take (min (length value) 2) value\<rparr>)
      else if tag = ''10'' then Some (True, idx)
      else Some (False, idx))"

function index_loop :: "string \<Rightarrow> nat \<Rightarrow> MsgIndex \<Rightarrow> MsgIndex option" where
  "index_loop wire pos idx =
     (if pos < length wire then
        (case sv_find_char wire CHR ''='' pos of
           None \<Rightarrow> None
         | Some eq_pos \<Rightarrow>
             (case sv_find_char wire SOH (eq_pos + 1) of
                None \<Rightarrow> None
              | Some soh_pos \<Rightarrow>
                  let tag = slice pos (eq_pos - pos) wire;
                      value = slice (eq_pos + 1) (soh_pos - eq_pos - 1) wire in
                  do { (stop, idx') \<leftarrow> index_field tag (eq_pos + 1) value idx;
                       if stop then Some idx' else index_loop wire (soh_pos + 1) idx' }))
      else Some idx)"
  by pat_completeness auto
termination
proof (relation "measure (\<lambda>(w, pos, i). length w - pos)", goal_cases)
  case 1
  show ?case by simp
next
  case (2 w pos i eq soh tag v r stop i')
  then show ?case
    using sv_find_char_SomeD(1) [of w "CHR ''=''" pos eq] sv_find_char_SomeD(1) [of w SOH "eq + 1" soh] by simp
qed

declare index_loop.simps [simp del]

definition create_message_index :: "string \<Rightarrow> nat \<Rightarrow> MsgIndex option" where
  "create_message_index wire off = index_loop wire 0 (empty_index off (to_u32 (length wire)))"

section \<open>The store\<close>

text \<open>\<open>ms_allocated\<close> is the size of the array behind \<open>blob_buffer_\<close>.\<close>

record mstore =
  ms_outbound_index :: "MsgIndex list"
  ms_blob_buffer :: string
  ms_allocated :: nat
  ms_blob_buffer_size :: nat
  ms_blob_buffer_used :: nat

definition blob_buffer_start_size :: nat where
  "blob_buffer_start_size = 8 * 1024 * 1024"

definition min_blob_buffer_grow_size :: nat where
  "min_blob_buffer_grow_size = 4 * 1024 * 1024"

definition ms_new :: mstore where
  "ms_new = \<lparr>ms_outbound_index = [], ms_blob_buffer = [], ms_allocated = blob_buffer_start_size,
     ms_blob_buffer_size = to_u32 blob_buffer_start_size, ms_blob_buffer_used = 0\<rparr>"

definition grow_blob_buffer :: "nat \<Rightarrow> mstore \<Rightarrow> mstore option" where
  "grow_blob_buffer additional_size st =
     (let new_size = ms_blob_buffer_size st + max min_blob_buffer_grow_size additional_size in
      do { new_buffer \<leftarrow> memcpy new_size 0 (slice 0 (ms_blob_buffer_used st) (ms_blob_buffer st)) [];
           Some (st\<lparr>ms_blob_buffer := new_buffer, ms_allocated := new_size, ms_blob_buffer_size := to_u32 new_size\<rparr>) })"

definition store_outbound_message :: "string \<Rightarrow> mstore \<Rightarrow> mstore option" where
  "store_outbound_message wire st =
     do { st1 \<leftarrow> (if ms_blob_buffer_used st + length wire > ms_blob_buffer_size st
                  then grow_blob_buffer (length wire + ms_blob_buffer_used st - ms_blob_buffer_size st) st
                  else Some st);
          blob \<leftarrow> memcpy (ms_allocated st1) (ms_blob_buffer_used st1) wire (ms_blob_buffer st1);
          msg_index \<leftarrow> create_message_index wire (to_u32 (ms_blob_buffer_used st1));
          assert_that (mi_seq msg_index = length (ms_outbound_index st1) + 1);
          Some (st1\<lparr>ms_blob_buffer := blob, ms_outbound_index := ms_outbound_index st1 @ [msg_index],
                    ms_blob_buffer_used := to_u32 (ms_blob_buffer_used st1 + length wire)\<rparr>) }"

definition ms_all_messages :: "mstore \<Rightarrow> string" where
  "ms_all_messages st = slice 0 (ms_blob_buffer_used st) (ms_blob_buffer st)"

definition get_message_index :: "nat \<Rightarrow> mstore \<Rightarrow> MsgIndex option" where
  "get_message_index seq_num st =
     do { assert_that (seq_num > 0 \<and> seq_num \<le> length (ms_outbound_index st));
          array_get (ms_outbound_index st) (seq_num - 1) }"

definition get_message_wire :: "MsgIndex \<Rightarrow> mstore \<Rightarrow> string option" where
  "get_message_wire idx st =
     do { assert_that (mi_off idx + mi_len idx \<le> length (ms_blob_buffer st));
          Some (slice (mi_off idx) (mi_len idx) (ms_blob_buffer st)) }"

section \<open>Resend stream\<close>

record ResendAction =
  ra_begin_seq_no :: nat
  ra_end_seq_no :: nat
  ra_gap_fill :: bool

record ResendStream =
  rs_outbound_index :: "MsgIndex list"
  rs_current_index :: "32 word"
  rs_end_seq_no :: "32 word"

definition get_resend_stream :: "32 word \<Rightarrow> 32 word \<Rightarrow> mstore \<Rightarrow> ResendStream" where
  "get_resend_stream begin_seq_no end_seq_no st =
     \<lparr>rs_outbound_index = ms_outbound_index st, rs_current_index = begin_seq_no, rs_end_seq_no = end_seq_no\<rparr>"

definition no_resend :: "string \<Rightarrow> bool" where
  "no_resend msg_type \<longleftrightarrow> length msg_type = 1 \<and> msg_type ! 0 \<in> set ''0A21345''"

definition rs_has_next :: "ResendStream \<Rightarrow> bool" where
  "rs_has_next rs \<longleftrightarrow> rs_current_index rs \<le> rs_end_seq_no rs"

text \<open>The loop of \<open>next\<close>. The index wraps around like \<open>uint32_t\<close>, so it need not end in general.\<close>

partial_function (option) rs_skip :: "MsgIndex list \<Rightarrow> 32 word \<Rightarrow> 32 word \<Rightarrow> bool \<Rightarrow> (32 word \<times> bool) option" where
  "rs_skip index current end_no gap_fill =
     (if current \<le> end_no then
        do { m \<leftarrow> array_get index (unat (current - 1));
             if no_resend (mi_msg_type m) then rs_skip index (current + 1) end_no True
             else Some (current, gap_fill) }
      else Some (current, gap_fill))"

definition rs_next :: "ResendStream \<Rightarrow> (ResendAction \<times> ResendStream) option" where
  "rs_next rs =
     do { (current, gap_fill) \<leftarrow> rs_skip (rs_outbound_index rs) (rs_current_index rs) (rs_end_seq_no rs) False;
          let end_no = (if gap_fill then current - 1 else current);
          Some (\<lparr>ra_begin_seq_no = unat (rs_current_index rs), ra_end_seq_no = unat end_no, ra_gap_fill = gap_fill\<rparr>,
                rs\<lparr>rs_current_index := (if gap_fill then current else current + 1)\<rparr>) }"

text \<open>The consumer's loop \<open>while (stream.has_next()) stream.next()\<close>.\<close>

partial_function (option) rs_actions :: "ResendStream \<Rightarrow> ResendAction list option" where
  "rs_actions rs =
     (if rs_has_next rs then
        do { (a, rs') \<leftarrow> rs_next rs; as \<leftarrow> rs_actions rs'; Some (a # as) }
      else Some [])"

section \<open>A resend covers its range once, in order\<close>

lemma u32_le: "c < 2 ^ 32 \<Longrightarrow> e < 2 ^ 32 \<Longrightarrow> ((of_nat c :: 32 word) \<le> of_nat e) = (c \<le> e)"
  by (simp add: word_le_nat_alt unat_of_nat take_bit_nat_eq_self)

lemma unat_u32: "c < 2 ^ 32 \<Longrightarrow> unat (of_nat c :: 32 word) = c"
  by (simp add: unat_of_nat take_bit_nat_eq_self)

lemma u32_pred: "0 < c \<Longrightarrow> (of_nat c :: 32 word) - 1 = of_nat (c - 1)"
  by (simp add: of_nat_diff)

abbreviation admin_at :: "MsgIndex list \<Rightarrow> nat \<Rightarrow> bool" where
  "admin_at index i \<equiv> no_resend (mi_msg_type (index ! (i - 1)))"

definition skip_end :: "MsgIndex list \<Rightarrow> nat \<Rightarrow> nat \<Rightarrow> nat \<Rightarrow> bool" where
  "skip_end index c e k \<longleftrightarrow> c \<le> k \<and> k \<le> e + 1 \<and> (\<forall>i. c \<le> i \<and> i < k \<longrightarrow> admin_at index i) \<and> (k \<le> e \<longrightarrow> \<not> admin_at index k)"

lemma skip_end_step: "skip_end index (c + 1) e k \<Longrightarrow> admin_at index c \<Longrightarrow> skip_end index c e k"
  unfolding skip_end_def by (metis Suc_eq_plus1 Suc_leD le_neq_implies_less Suc_leI)

lemma rs_skip_unfold:
  assumes "0 < c" "c \<le> e" "e \<le> length index" "length index + 1 < 2 ^ 32"
  shows "rs_skip index (of_nat c) (of_nat e) g =
      (if admin_at index c then rs_skip index (of_nat (c + 1)) (of_nat e) True else Some (of_nat c, g))"
proof -
  have b: "c < 2 ^ 32" "e < 2 ^ 32" "c - 1 < 2 ^ 32" using assms by linarith+
  have le: "(of_nat c :: 32 word) \<le> of_nat e" using u32_le [OF b(1,2)] assms(2) by simp
  have "unat ((of_nat c :: 32 word) - 1) = c - 1" using u32_pred [OF assms(1)] unat_u32 [OF b(3)] by simp
  then have get: "array_get index (unat ((of_nat c :: 32 word) - 1)) = Some (index ! (c - 1))"
    using assms by simp
  have "(of_nat c :: 32 word) + 1 = of_nat (c + 1)" by (simp add: add.commute)
  with le get show ?thesis by (subst rs_skip.simps) (simp add: add.commute)
qed

lemma rs_skip_ok:
  assumes "0 < c" "c \<le> e + 1" "e \<le> length index" "length index + 1 < 2 ^ 32"
  shows "\<exists>k. rs_skip index (of_nat c) (of_nat e) g = Some (of_nat k, g \<or> c < k) \<and> skip_end index c e k"
  using assms
proof (induction "e + 1 - c" arbitrary: c g)
  case 0
  then have c: "c = e + 1" by simp
  have "\<not> (of_nat c :: 32 word) \<le> of_nat e"
    using u32_le [of c e] 0 c by simp
  then have "rs_skip index (of_nat c) (of_nat e) g = Some (of_nat c, g)" by (subst rs_skip.simps) simp
  moreover have "skip_end index c e c" by (auto simp: skip_end_def c)
  ultimately show ?case by (intro exI [of _ c]) simp
next
  case (Suc n)
  have ce: "c \<le> e" using Suc.hyps(2) by simp
  note step = rs_skip_unfold [OF Suc.prems(1) ce Suc.prems(3,4), of g]
  show ?case
  proof (cases "admin_at index c")
    case False
    then have "skip_end index c e c" using ce by (auto simp: skip_end_def)
    with False step show ?thesis by (intro exI [of _ c]) simp
  next
    case True
    have "n = e + 1 - (c + 1)" "0 < c + 1" "c + 1 \<le> e + 1" using Suc.hyps(2) ce by simp_all
    from Suc.hyps(1) [OF this Suc.prems(3,4), of True] obtain k where
      k: "rs_skip index (of_nat (c + 1)) (of_nat e) True = Some (of_nat k, True \<or> c + 1 < k)" "skip_end index (c + 1) e k"
      by blast
    have "c < k" using k(2) by (simp add: skip_end_def)
    with True step k skip_end_step [OF k(2) True] show ?thesis by (intro exI [of _ k]) simp
  qed
qed

text \<open>What one action stands for: one application message, or a run of administrative ones.\<close>

definition action_ok :: "MsgIndex list \<Rightarrow> ResendAction \<Rightarrow> bool" where
  "action_ok index a \<longleftrightarrow> ra_begin_seq_no a \<le> ra_end_seq_no a \<and>
     (if ra_gap_fill a then \<forall>i \<in> {ra_begin_seq_no a..ra_end_seq_no a}. admin_at index i
      else ra_end_seq_no a = ra_begin_seq_no a \<and> \<not> admin_at index (ra_begin_seq_no a))"

definition action_range :: "ResendAction \<Rightarrow> nat list" where
  "action_range a = [ra_begin_seq_no a..<ra_end_seq_no a + 1]"

lemma rs_next_ok:
  assumes "0 < c" "c \<le> e" "e \<le> length index" "length index + 1 < 2 ^ 32"
  shows "\<exists>a k. rs_next \<lparr>rs_outbound_index = index, rs_current_index = of_nat c, rs_end_seq_no = of_nat e\<rparr> =
      Some (a, \<lparr>rs_outbound_index = index, rs_current_index = of_nat k, rs_end_seq_no = of_nat e\<rparr>) \<and>
    c < k \<and> k \<le> e + 1 \<and> action_ok index a \<and> action_range a = [c..<k]"
proof -
  let ?rs = "\<lambda>c. \<lparr>rs_outbound_index = index, rs_current_index = of_nat c, rs_end_seq_no = of_nat e\<rparr>"
  have "c \<le> e + 1" using assms(2) by simp
  from rs_skip_ok [OF assms(1) this assms(3,4), of False] obtain k where
    k0: "rs_skip index (of_nat c) (of_nat e) False = Some (of_nat k, False \<or> c < k)" "skip_end index c e k" by blast
  note k = k0(1) k0(2) [unfolded skip_end_def, THEN conjunct1] k0(2) [unfolded skip_end_def, THEN conjunct2, THEN conjunct1]
    k0(2) [unfolded skip_end_def, THEN conjunct2, THEN conjunct2, THEN conjunct1]
    k0(2) [unfolded skip_end_def, THEN conjunct2, THEN conjunct2, THEN conjunct2]
  have kb: "k < 2 ^ 32" "c < 2 ^ 32" using k(2,3) assms by linarith+
  show ?thesis
  proof (cases "c < k")
    case True
    let ?a = "\<lparr>ra_begin_seq_no = c, ra_end_seq_no = k - 1, ra_gap_fill = True\<rparr>"
    have "k - 1 < 2 ^ 32" "0 < k" using True kb by linarith+
    then have "unat ((of_nat k :: 32 word) - 1) = k - 1" using u32_pred [of k] unat_u32 [of "k - 1"] by simp
    then have "rs_next (?rs c) = Some (?a, ?rs k)"
      using True k(1) unat_u32 [OF kb(2)] by (simp add: rs_next_def)
    moreover have "action_ok index ?a" using True k(4) by (auto simp: action_ok_def)
    moreover have "action_range ?a = [c..<k]" using True by (simp add: action_range_def)
    ultimately show ?thesis using True k(3) by blast
  next
    case False
    then have kc: "k = c" using k(2) by simp
    let ?a = "\<lparr>ra_begin_seq_no = c, ra_end_seq_no = c, ra_gap_fill = False\<rparr>"
    have "(of_nat c :: 32 word) + 1 = of_nat (c + 1)" by (simp add: add.commute)
    then have "rs_next (?rs c) = Some (?a, ?rs (c + 1))"
      using k(1) kc unat_u32 [OF kb(2)] by (simp add: rs_next_def del: of_nat_add of_nat_Suc)
    moreover have "action_ok index ?a" using k(5) kc assms(2) by (simp add: action_ok_def)
    moreover have "action_range ?a = [c..<c + 1]" by (simp add: action_range_def)
    moreover have "c < c + 1" "c + 1 \<le> e + 1" using assms(2) by simp_all
    ultimately show ?thesis by blast
  qed
qed

lemma rs_actions_ok:
  assumes "0 < c" "c \<le> e + 1" "e \<le> length index" "length index + 1 < 2 ^ 32"
  shows "\<exists>as. rs_actions \<lparr>rs_outbound_index = index, rs_current_index = of_nat c, rs_end_seq_no = of_nat e\<rparr> = Some as \<and>
     concat (map action_range as) = [c..<e + 1] \<and> list_all (action_ok index) as"
  using assms
proof (induction "e + 1 - c" arbitrary: c rule: less_induct)
  case less
  let ?rs = "\<lambda>c. \<lparr>rs_outbound_index = index, rs_current_index = of_nat c, rs_end_seq_no = of_nat e\<rparr>"
  have has: "rs_has_next (?rs c) \<longleftrightarrow> c \<le> e"
    using u32_le [of c e] less.prems by (simp add: rs_has_next_def)
  show ?case
  proof (cases "c \<le> e")
    case False
    then show ?thesis using has less.prems by (subst rs_actions.simps) simp
  next
    case True
    obtain a k where a: "rs_next (?rs c) = Some (a, ?rs k)" "c < k" "k \<le> e + 1" "action_ok index a" "action_range a = [c..<k]"
      using rs_next_ok [OF less.prems(1) True less.prems(3,4)] by blast
    obtain as where as: "rs_actions (?rs k) = Some as" "concat (map action_range as) = [k..<e + 1]" "list_all (action_ok index) as"
    proof -
      have "e + 1 - k < e + 1 - c" "0 < k" using a(2,3) True by linarith+
      from less.hyps [OF this a(3) less.prems(3,4)] show ?thesis using that by blast
    qed
    have "rs_actions (?rs c) = Some (a # as)"
      using has True a(1) as(1) by (subst rs_actions.simps) simp
    moreover have "[c..<k] @ [k..<e + 1] = [c..<e + 1]"
      using a(2,3) upt_add_eq_append [of c k "e + 1 - k"] by simp
    ultimately show ?thesis using a as by (simp del: upt_Suc)
  qed
qed

text \<open>
  A range that starts at zero reads before the first entry: the unsigned index wraps around and
  the access leaves the array.
\<close>

lemma resend_from_zero_faults:
  assumes "length (ms_outbound_index st) < 2 ^ 32"
  shows "rs_actions (get_resend_stream 0 e st) = None"
proof -
  have "unat ((0 :: 32 word) - 1) = 2 ^ 32 - 1" by (simp add: unsigned_minus_1_eq_mask mask_eq_exp_minus_1)
  then have "array_get (ms_outbound_index st) (unat ((0 :: 32 word) - 1)) = None"
    using assms by (simp only: array_get_None)
  then have "rs_skip (ms_outbound_index st) 0 e False = None"
    by (subst rs_skip.simps) (simp del: array_get_None)
  then show ?thesis
    by (subst rs_actions.simps) (simp add: rs_has_next_def get_resend_stream_def rs_next_def)
qed

section \<open>The index of a message on the wire\<close>

primrec index_fields :: "nat \<Rightarrow> GenericMessage \<Rightarrow> MsgIndex \<Rightarrow> MsgIndex option" where
  "index_fields pos [] idx = Some idx"
| "index_fields pos (f # fs) idx =
     do { (stop, idx') \<leftarrow> index_field (to_chars (gf_tag f)) (pos + length (to_chars (gf_tag f)) + 1) (gf_value f) idx;
          if stop then Some idx' else index_fields (pos + length (enc_field f)) fs idx' }"

lemma to_chars_tags:
  "to_chars n = ''34'' \<longleftrightarrow> n = 34" "to_chars n = ''52'' \<longleftrightarrow> n = 52" "to_chars n = ''43'' \<longleftrightarrow> n = 43"
  "to_chars n = ''122'' \<longleftrightarrow> n = 122" "to_chars n = ''35'' \<longleftrightarrow> n = 35" "to_chars n = ''10'' \<longleftrightarrow> n = 10"
proof -
  have t: "to_chars 34 = ''34''" "to_chars 52 = ''52''" "to_chars 43 = ''43''" "to_chars 122 = ''122''"
    "to_chars 35 = ''35''" "to_chars 10 = ''10''"
    by (simp_all add: to_chars.simps)
  show "to_chars n = ''34'' \<longleftrightarrow> n = 34" "to_chars n = ''52'' \<longleftrightarrow> n = 52" "to_chars n = ''43'' \<longleftrightarrow> n = 43"
    "to_chars n = ''122'' \<longleftrightarrow> n = 122" "to_chars n = ''35'' \<longleftrightarrow> n = 35" "to_chars n = ''10'' \<longleftrightarrow> n = 10"
    using to_chars_inj [of n] unfolding t [symmetric] by blast+
qed

lemmas index_field_tag = index_field_def [of "to_chars n" for n, unfolded to_chars_tags]

lemma index_loop_step:
  assumes w: "w = pre @ t @ CHR ''='' # v @ SOH # rest" and "CHR ''='' \<notin> set t" "SOH \<notin> set v"
  shows "index_loop w (length pre) idx =
     do { (stop, idx') \<leftarrow> index_field t (length pre + length t + 1) v idx;
          if stop then Some idx' else index_loop w (Suc (length pre + length t + length v) + 1) idx' }"
proof -
  have eq: "sv_find_char w CHR ''='' (length pre) = Some (length pre + length t)"
    by (rule sv_find_char_at [OF w refl assms(2)])
  have w2: "w = (pre @ t @ ''='') @ v @ SOH # rest" by (simp add: w)
  have soh: "sv_find_char w SOH (length pre + length t + 1) = Some (length pre + length t + 1 + length v)"
    using sv_find_char_at [OF w2, of "length pre + length t + 1"] assms(3) by simp
  have "slice (length pre) (length t) w = t" by (simp add: w)
  moreover have "slice (length pre + length t + 1) (length v) w = v"
    by (subst w2, rule slice_exact) simp_all
  moreover have "length pre < length w" by (simp add: w)
  ultimately show ?thesis
    using eq soh by (subst index_loop.simps) (simp add: Let_def)
qed

lemma index_loop_enc:
  assumes "10 \<notin> gf_tag ` set fs" "\<forall>f \<in> set fs. SOH \<notin> set (gf_value f)"
  shows "index_loop (pre @ enc_fields fs @ tr) (length pre) idx =
     index_fields (length pre) fs idx \<bind> index_loop (pre @ enc_fields fs @ tr) (length pre + length (enc_fields fs))"
  using assms
proof (induction fs arbitrary: pre idx)
  case Nil
  then show ?case by simp
next
  case (Cons f fs)
  let ?w = "pre @ enc_fields (f # fs) @ tr"
  have w: "?w = pre @ to_chars (gf_tag f) @ CHR ''='' # gf_value f @ SOH # (enc_fields fs @ tr)"
    by (simp add: enc_fields_Cons enc_field_def)
  have w': "?w = (pre @ enc_field f) @ enc_fields fs @ tr" by (simp add: enc_fields_Cons)
  have len: "Suc (length pre + length (to_chars (gf_tag f)) + length (gf_value f)) + 1 = length (pre @ enc_field f)"
    by (simp add: enc_field_def)
  have IH: "index_loop ?w (length (pre @ enc_field f)) i =
      index_fields (length (pre @ enc_field f)) fs i \<bind> index_loop ?w (length pre + length (enc_fields (f # fs)))" for i
    unfolding w' using Cons.IH [of "pre @ enc_field f" i] Cons.prems by (simp add: enc_fields_Cons add.assoc)
  have nostop: "\<not> stop" if "index_field (to_chars (gf_tag f)) p v idx = Some (stop, i)" for p v stop i
    using that Cons.prems(1) by (auto simp: index_field_tag split: if_splits prod.splits bind_splits)
  have "index_loop ?w (length pre) idx =
     do { (stop, idx') \<leftarrow> index_field (to_chars (gf_tag f)) (length pre + length (to_chars (gf_tag f)) + 1) (gf_value f) idx;
          if stop then Some idx' else index_loop ?w (length (pre @ enc_field f)) idx' }"
    unfolding len [symmetric] by (rule index_loop_step [OF w]) (use Cons.prems in simp_all)
  also have "\<dots> = index_fields (length pre) (f # fs) idx \<bind> index_loop ?w (length pre + length (enc_fields (f # fs)))"
  proof (cases "index_field (to_chars (gf_tag f)) (length pre + length (to_chars (gf_tag f)) + 1) (gf_value f) idx")
    case None
    then show ?thesis by simp
  next
    case (Some r)
    then obtain i where r: "index_field (to_chars (gf_tag f)) (length pre + length (to_chars (gf_tag f)) + 1) (gf_value f) idx = Some (False, i)"
      using nostop by (cases r) auto
    show ?thesis using r IH [of i] by (simp only: index_fields.simps bind.bind_lunit prod.case if_False length_append)
  qed
  finally show ?case .
qed

lemma index_loop_trailer:
  assumes "\<forall>c \<in> set cs. is_digit c"
  shows "index_loop (pre @ ''10='' @ cs @ [SOH]) (length pre) idx = Some idx"
proof -
  have "SOH \<notin> set cs" using assms by auto
  then show ?thesis
    by (subst index_loop_step [of _ pre "''10''" cs "[]"]) (simp_all add: index_field_def)
qed

lemma create_message_index_wire:
  assumes "10 \<notin> gf_tag ` set fs" "\<forall>f \<in> set fs. SOH \<notin> set (gf_value f)"
  shows "create_message_index (enc_fields fs @ trailer (enc_fields fs)) off =
     index_fields 0 fs (empty_index off (to_u32 (length (enc_fields fs @ trailer (enc_fields fs)))))"
proof -
  let ?w = "enc_fields fs @ trailer (enc_fields fs)"
  have d: "\<forall>c \<in> set (pad3 (checksum_of (enc_fields fs))). is_digit c"
    by (rule pad3_digits) (rule less_trans [OF checksum_of_less], simp)
  have "index_loop ?w (length (enc_fields fs)) i = Some i" for i
    using index_loop_trailer [OF d] by (simp add: trailer_def)
  then show ?thesis
    using index_loop_enc [OF assms, of "[]" "trailer (enc_fields fs)"]
    by (cases "index_fields 0 fs (empty_index off (to_u32 (length ?w)))") (simp_all add: create_message_index_def)
qed

text \<open>What indexing a list of fields leaves alone: the entries of the tags that do not occur.\<close>

definition idx_frame :: "Tag set \<Rightarrow> MsgIndex \<Rightarrow> MsgIndex \<Rightarrow> bool" where
  "idx_frame T i j \<longleftrightarrow> mi_off j = mi_off i \<and> mi_len j = mi_len i \<and>
     (34 \<notin> T \<longrightarrow> mi_seq j = mi_seq i) \<and>
     (52 \<notin> T \<longrightarrow> mi_off_52 j = mi_off_52 i \<and> mi_len_52 j = mi_len_52 i) \<and>
     (43 \<notin> T \<longrightarrow> mi_off_43 j = mi_off_43 i) \<and> (122 \<notin> T \<longrightarrow> mi_off_122 j = mi_off_122 i) \<and>
     (35 \<notin> T \<longrightarrow> mi_msg_type j = mi_msg_type i)"

lemma idx_frame_trans: "idx_frame S i j \<Longrightarrow> idx_frame T j k \<Longrightarrow> idx_frame (S \<union> T) i k"
  by (simp add: idx_frame_def)

lemma index_field_frame:
  assumes "index_field (to_chars t) p v i = Some (s, j)"
  shows "idx_frame {t} i j"
proof (cases "t = 34")
  case True
  with assms show ?thesis
    by (cases "from_chars_u (2 ^ 32 - 1) v 0") (auto simp: index_field_tag bind_assert_that idx_frame_def split: if_splits)
next
  case False
  with assms show ?thesis by (auto simp: index_field_tag idx_frame_def split: if_splits)
qed

lemma index_fields_frame: "index_fields pos fs i = Some j \<Longrightarrow> idx_frame (gf_tag ` set fs) i j"
proof (induction fs arbitrary: pos i)
  case Nil
  then show ?case by (simp add: idx_frame_def)
next
  case (Cons f fs)
  from Cons.prems obtain s k where k: "index_field (to_chars (gf_tag f)) (pos + length (to_chars (gf_tag f)) + 1) (gf_value f) i = Some (s, k)"
    "(if s then Some k else index_fields (pos + length (enc_field f)) fs k) = Some j"
    by (auto simp: bind_eq_Some_conv)
  note step = index_field_frame [OF k(1)]
  show ?case
  proof (cases s)
    case True
    with k(2) step show ?thesis by (auto simp: idx_frame_def)
  next
    case False
    with k(2) Cons.IH have "idx_frame (gf_tag ` set fs) k j" by simp
    from idx_frame_trans [OF step this] show ?thesis by simp
  qed
qed

lemma index_fields_split:
  assumes "index_fields pos (A @ f # B) i = Some j" "10 \<notin> gf_tag ` set A"
  obtains i1 s i2 where "index_fields pos A i = Some i1"
    "index_field (to_chars (gf_tag f)) (pos + length (enc_fields A) + length (to_chars (gf_tag f)) + 1) (gf_value f) i1 = Some (s, i2)"
    "s \<and> j = i2 \<or> index_fields (pos + length (enc_fields (A @ [f]))) B i2 = Some j"
  using assms
proof (induction A arbitrary: pos i thesis)
  case Nil
  from Nil.prems(2) obtain s k where
    "index_field (to_chars (gf_tag f)) (pos + length (to_chars (gf_tag f)) + 1) (gf_value f) i = Some (s, k)"
    "(if s then Some k else index_fields (pos + length (enc_field f)) B k) = Some j"
    by (auto simp: bind_eq_Some_conv)
  then show ?case
    by (intro Nil.prems(1) [of i s k]) (auto simp: enc_fields_Cons split: if_splits)
next
  case (Cons g A)
  from Cons.prems(2) obtain s k where k:
    "index_field (to_chars (gf_tag g)) (pos + length (to_chars (gf_tag g)) + 1) (gf_value g) i = Some (s, k)"
    "(if s then Some k else index_fields (pos + length (enc_field g)) (A @ f # B) k) = Some j"
    by (auto simp: bind_eq_Some_conv)
  have "\<not> s" using k(1) Cons.prems(3) by (auto simp: index_field_tag bind_assert_that split: if_splits prod.splits)
  with k(2) have rec: "index_fields (pos + length (enc_field g)) (A @ f # B) k = Some j" by simp
  show ?case
  proof (rule Cons.IH [OF _ rec])
    show "10 \<notin> gf_tag ` set A" using Cons.prems(3) by simp
    fix i1 s2 i2
    assume "index_fields (pos + length (enc_field g)) A k = Some i1"
      "index_field (to_chars (gf_tag f)) (pos + length (enc_field g) + length (enc_fields A) + length (to_chars (gf_tag f)) + 1) (gf_value f) i1 = Some (s2, i2)"
      "s2 \<and> j = i2 \<or> index_fields (pos + length (enc_field g) + length (enc_fields (A @ [f]))) B i2 = Some j"
    then show thesis
      using k(1) \<open>\<not> s\<close> by (intro Cons.prems(1) [of i1 s2 i2]) (simp_all add: enc_fields_Cons add.assoc)
  qed
qed

lemma index_fields_total:
  "\<forall>f \<in> set fs. gf_tag f = 34 \<longrightarrow> from_chars_whole (2 ^ 32 - 1) (gf_value f) \<noteq> None \<Longrightarrow> \<exists>j. index_fields pos fs i = Some j"
proof (induction fs arbitrary: pos i)
  case Nil
  then show ?case by simp
next
  case (Cons f fs)
  have "\<exists>s k. index_field (to_chars (gf_tag f)) p (gf_value f) i = Some (s, k)" for p
  proof (cases "gf_tag f = 34")
    case True
    with Cons.prems show ?thesis
      by (cases "from_chars_u (2 ^ 32 - 1) (gf_value f) 0")
         (auto simp: index_field_tag bind_assert_that from_chars_whole_def split: if_splits)
  next
    case False
    then show ?thesis by (auto simp: index_field_tag)
  qed
  then obtain s k where "index_field (to_chars (gf_tag f)) (pos + length (to_chars (gf_tag f)) + 1) (gf_value f) i = Some (s, k)"
    by blast
  with Cons show ?case by (cases s) auto
qed

lemma index_fields_tag:
  assumes "index_fields pos (A @ f # B) i = Some j" "10 \<notin> gf_tag ` set (A @ f # B)" "gf_tag f \<notin> gf_tag ` set B"
  shows "gf_tag f = 34 \<Longrightarrow> from_chars_whole (2 ^ 32 - 1) (gf_value f) = Some n \<Longrightarrow> mi_seq j = n"
    and "gf_tag f = 52 \<Longrightarrow> mi_off_52 j = to_i32 (pos + length (enc_fields A) + 3) \<and> mi_len_52 j = to_u16 (length (gf_value f))"
    and "gf_tag f = 35 \<Longrightarrow> mi_msg_type j = take 2 (gf_value f)"
proof -
  obtain i1 s i2 where s: "index_fields pos A i = Some i1"
    "index_field (to_chars (gf_tag f)) (pos + length (enc_fields A) + length (to_chars (gf_tag f)) + 1) (gf_value f) i1 = Some (s, i2)"
    "s \<and> j = i2 \<or> index_fields (pos + length (enc_fields (A @ [f]))) B i2 = Some j"
    by (rule index_fields_split [OF assms(1)]) (use assms(2) in auto)
  have fr: "idx_frame (gf_tag ` set B) i2 j"
    using s(3) index_fields_frame by (auto simp: idx_frame_def)
  show "mi_seq j = n" if "gf_tag f = 34" "from_chars_whole (2 ^ 32 - 1) (gf_value f) = Some n"
    using that s(2) fr assms(3)
    by (cases "from_chars_u (2 ^ 32 - 1) (gf_value f) 0")
       (auto simp: index_field_tag bind_assert_that idx_frame_def from_chars_whole_def split: if_splits)
  show "mi_off_52 j = to_i32 (pos + length (enc_fields A) + 3) \<and> mi_len_52 j = to_u16 (length (gf_value f))" if t: "gf_tag f = 52"
  proof -
    have "length (to_chars 52) = 2" by (simp add: to_chars.simps)
    then have "pos + length (enc_fields A) + length (to_chars 52) + 1 = pos + length (enc_fields A) + 3" by simp
    with s(2) have "i2 = i1\<lparr>mi_off_52 := to_i32 (pos + length (enc_fields A) + 3), mi_len_52 := to_u16 (length (gf_value f))\<rparr>"
      unfolding t index_field_tag by (auto simp: eval_nat_numeral)
    with fr assms(3) t show ?thesis by (simp add: idx_frame_def)
  qed
  show "mi_msg_type j = take 2 (gf_value f)" if t: "gf_tag f = 35"
  proof -
    have "i2 = i1\<lparr>mi_msg_type := take (min (length (gf_value f)) 2) (gf_value f)\<rparr>"
      using s(2) unfolding t index_field_tag by simp
    then have "mi_msg_type j = take (min (length (gf_value f)) 2) (gf_value f)"
      using fr assms(3) t by (simp add: idx_frame_def)
    then show ?thesis by (simp add: min_def split: if_splits)
  qed
qed

section \<open>Every stored message can be fetched again\<close>

lemma index_field_location: "index_field tag p v i = Some (s, j) \<Longrightarrow> mi_off j = mi_off i \<and> mi_len j = mi_len i"
  by (cases "from_chars_u (2 ^ 32 - 1) v 0")
     (auto simp: index_field_def bind_assert_that split: if_splits)

lemma index_loop_location: "index_loop w pos i = Some j \<Longrightarrow> mi_off j = mi_off i \<and> mi_len j = mi_len i"
proof (induction w pos i rule: index_loop.induct)
  case (1 w pos i)
  show ?case
  proof (cases "pos < length w")
    case False
    with "1.prems" show ?thesis by (simp add: index_loop.simps)
  next
    case True
    with "1.prems" obtain e q s k where k: "sv_find_char w CHR ''='' pos = Some e" "sv_find_char w SOH (e + 1) = Some q"
      "index_field (slice pos (e - pos) w) (e + 1) (slice (e + 1) (q - e - 1) w) i = Some (s, k)"
      "(if s then Some k else index_loop w (q + 1) k) = Some j"
      by (subst (asm) index_loop.simps) (auto simp: Let_def bind_eq_Some_conv simp del: One_nat_def split: option.splits)
    show ?thesis
    proof (cases s)
      case True
      with k(3,4) index_field_location show ?thesis by auto
    next
      case False
      with "1.IH" [OF True k(1,2) refl refl k(3) refl] k index_field_location show ?thesis by auto
    qed
  qed
qed

definition ms_inv :: "string list \<Rightarrow> mstore \<Rightarrow> bool" where
  "ms_inv ws st \<longleftrightarrow>
     ms_blob_buffer_used st = length (concat ws) \<and> length (concat ws) \<le> length (ms_blob_buffer st) \<and>
     length (ms_blob_buffer st) \<le> ms_allocated st \<and> take (length (concat ws)) (ms_blob_buffer st) = concat ws \<and>
     ms_blob_buffer_size st = ms_allocated st \<and>
     length (ms_outbound_index st) = length ws \<and>
     (\<forall>i < length ws. create_message_index (ws ! i) (length (concat (take i ws))) = Some (ms_outbound_index st ! i) \<and>
        mi_seq (ms_outbound_index st ! i) = i + 1)"

text \<open>A message can be added while the store stays below \<open>2 ^ 32\<close> bytes and it has the next number.\<close>

definition ms_room :: "string list \<Rightarrow> string \<Rightarrow> bool" where
  "ms_room ws w \<longleftrightarrow> length (concat ws) + length w + min_blob_buffer_grow_size < 2 ^ 32"

definition ms_admissible :: "string list \<Rightarrow> string \<Rightarrow> bool" where
  "ms_admissible ws w \<longleftrightarrow> ms_room ws w \<and>
     (\<exists>idx. create_message_index w (length (concat ws)) = Some idx \<and> mi_seq idx = length ws + 1)"

lemma ms_new_inv: "ms_inv [] ms_new"
  by (simp add: ms_inv_def ms_new_def to_u32_def blob_buffer_start_size_def)

lemma to_u32_id: "n < 2 ^ 32 \<Longrightarrow> to_u32 n = n"
  by (simp add: to_u32_def)

lemma grow_blob_buffer_ok:
  assumes "ms_inv ws st" "ms_room ws w" "ms_blob_buffer_used st + length w > ms_blob_buffer_size st"
  obtains st' where "grow_blob_buffer (length w + ms_blob_buffer_used st - ms_blob_buffer_size st) st = Some st'"
    "ms_inv ws st'" "length (concat ws) + length w \<le> ms_allocated st'"
proof -
  define n where "n = ms_blob_buffer_size st + max min_blob_buffer_grow_size (length w + ms_blob_buffer_used st - ms_blob_buffer_size st)"
  have I: "ms_blob_buffer_used st = length (concat ws)" "length (concat ws) \<le> length (ms_blob_buffer st)"
    "length (ms_blob_buffer st) \<le> ms_allocated st" "take (length (concat ws)) (ms_blob_buffer st) = concat ws"
    "ms_blob_buffer_size st = ms_allocated st"
    using assms(1) by (simp_all add: ms_inv_def)
  have n: "length (concat ws) + length w \<le> n" "n \<le> length (concat ws) + length w + min_blob_buffer_grow_size"
    using assms(3) I(1) by (simp_all add: n_def)
  then have n32: "to_u32 n = n" using assms(2) by (intro to_u32_id) (simp add: ms_room_def)
  define st' where "st' = st\<lparr>ms_blob_buffer := concat ws, ms_allocated := n, ms_blob_buffer_size := n\<rparr>"
  have "grow_blob_buffer (length w + ms_blob_buffer_used st - ms_blob_buffer_size st) st = Some st'"
    unfolding grow_blob_buffer_def Let_def n_def [symmetric] using I(1,4) n(1) n32 by (simp add: slice_def st'_def)
  moreover have "ms_inv ws st'" using assms(1) n by (simp add: ms_inv_def st'_def)
  ultimately show ?thesis using that n by (simp add: st'_def)
qed

lemma store_outbound_message_ok:
  assumes "ms_inv ws st" "ms_admissible ws w"
  shows "\<exists>st'. store_outbound_message w st = Some st' \<and> ms_inv (ws @ [w]) st'"
proof -
  from assms(2) obtain idx where room: "ms_room ws w"
    and idx: "create_message_index w (length (concat ws)) = Some idx" "mi_seq idx = length ws + 1"
    by (auto simp: ms_admissible_def)
  obtain st1 where st1: "(if ms_blob_buffer_used st + length w > ms_blob_buffer_size st
      then grow_blob_buffer (length w + ms_blob_buffer_used st - ms_blob_buffer_size st) st else Some st) = Some st1"
    "ms_inv ws st1" "length (concat ws) + length w \<le> ms_allocated st1"
  proof (cases "ms_blob_buffer_used st + length w > ms_blob_buffer_size st")
    case True
    obtain st' where "grow_blob_buffer (length w + ms_blob_buffer_used st - ms_blob_buffer_size st) st = Some st'"
      "ms_inv ws st'" "length (concat ws) + length w \<le> ms_allocated st'"
      using grow_blob_buffer_ok [OF assms(1) room True] .
    with True show ?thesis by (intro that [of st']) simp_all
  next
    case False
    then show ?thesis using assms(1) by (intro that [of st]) (simp_all add: ms_inv_def)
  qed
  define used where "used = length (concat ws)"
  have I: "ms_blob_buffer_used st1 = used" "used \<le> length (ms_blob_buffer st1)" "length (ms_blob_buffer st1) \<le> ms_allocated st1"
    "take used (ms_blob_buffer st1) = concat ws" "ms_blob_buffer_size st1 = ms_allocated st1" "length (ms_outbound_index st1) = length ws"
    "\<forall>i < length ws. create_message_index (ws ! i) (length (concat (take i ws))) = Some (ms_outbound_index st1 ! i) \<and>
        mi_seq (ms_outbound_index st1 ! i) = i + 1"
    using st1(2) by (simp_all add: ms_inv_def used_def)
  have u32: "to_u32 used = used" "to_u32 (used + length w) = used + length w"
    using room by (auto simp: ms_room_def used_def intro!: to_u32_id)
  define b where "b = concat ws @ w @ drop (used + length w) (ms_blob_buffer st1)"
  define st' where "st' = st1\<lparr>ms_blob_buffer := b, ms_outbound_index := ms_outbound_index st1 @ [idx], ms_blob_buffer_used := used + length w\<rparr>"
  have "store_outbound_message w st = Some st'"
    using st1(1,3) I u32 idx by (simp add: store_outbound_message_def used_def [symmetric] st'_def b_def)
  moreover have "ms_inv (ws @ [w]) st'"
    using I st1(3) idx by (auto simp: ms_inv_def st'_def b_def used_def nth_append less_Suc_eq)
  ultimately show ?thesis by blast
qed

lemma ms_fetch:
  assumes "ms_inv ws st" "i < length ws" "length (concat ws) < 2 ^ 32"
  shows "(get_message_index (i + 1) st \<bind> (\<lambda>idx. get_message_wire idx st)) = Some (ws ! i)"
proof -
  let ?idx = "ms_outbound_index st ! i" and ?o = "length (concat (take i ws))"
  have split: "concat ws = concat (take i ws) @ ws ! i @ concat (drop (i + 1) ws)"
    using id_take_nth_drop [OF assms(2)] by (metis Suc_eq_plus1 concat.simps(2) concat_append)
  have "create_message_index (ws ! i) ?o = Some ?idx" "length (ms_outbound_index st) = length ws"
    and blob: "take (length (concat ws)) (ms_blob_buffer st) = concat ws" "length (concat ws) \<le> length (ms_blob_buffer st)"
    using assms(1,2) by (simp_all add: ms_inv_def)
  then have loc: "mi_off ?idx = ?o" "mi_len ?idx = length (ws ! i)"
    using index_loop_location [of "ws ! i" 0] assms(3) arg_cong [OF split, of length]
    by (auto simp: create_message_index_def empty_index_def intro!: to_u32_id)
  have "slice ?o (length (ws ! i)) (ms_blob_buffer st) = slice ?o (length (ws ! i)) (take (length (concat ws)) (ms_blob_buffer st))"
    by (rule slice_take [symmetric]) (use arg_cong [OF split, of length] in simp)
  also have "\<dots> = ws ! i" unfolding blob(1) by (subst split) (rule slice_exact, simp_all)
  finally have "slice ?o (length (ws ! i)) (ms_blob_buffer st) = ws ! i" .
  moreover have "?o + length (ws ! i) \<le> length (ms_blob_buffer st)"
    using blob(2) arg_cong [OF split, of length] by simp
  ultimately show ?thesis
    using assms(2) loc \<open>length (ms_outbound_index st) = length ws\<close>
    by (simp add: get_message_index_def get_message_wire_def)
qed

subsection \<open>The interface of the session\<close>

primrec append_each :: "('w \<Rightarrow> 's \<Rightarrow> 's option) \<Rightarrow> 'w list \<Rightarrow> 's \<Rightarrow> 's option" where
  "append_each add [] s = Some s"
| "append_each add (w # ws) s = add w s \<bind> append_each add ws"

text \<open>A log whose entries are numbered from one in the order in which they were added.\<close>

locale numbered_log =
  fixes holds :: "'w list \<Rightarrow> 's \<Rightarrow> bool" and admissible :: "'w list \<Rightarrow> 'w \<Rightarrow> bool"
    and add :: "'w \<Rightarrow> 's \<Rightarrow> 's option" and fetch :: "nat \<Rightarrow> 's \<Rightarrow> 'w option"
  assumes add_holds: "holds ws s \<Longrightarrow> admissible ws w \<Longrightarrow> \<exists>s'. add w s = Some s' \<and> holds (ws @ [w]) s'"
    and fetch_holds: "holds ws s \<Longrightarrow> i < length ws \<Longrightarrow> fetch (i + 1) s = Some (ws ! i)"
begin

lemma append_each_holds:
  assumes "holds ws s" "\<forall>i < length vs. admissible (ws @ take i vs) (vs ! i)"
  shows "\<exists>s'. append_each add vs s = Some s' \<and> holds (ws @ vs) s'"
  using assms
proof (induction vs arbitrary: ws s)
  case Nil
  then show ?case by simp
next
  case (Cons v vs)
  have "admissible ws v" using Cons.prems(2) by auto
  then obtain s1 where s1: "add v s = Some s1" "holds (ws @ [v]) s1" using add_holds [OF Cons.prems(1)] by blast
  have "\<forall>i < length vs. admissible ((ws @ [v]) @ take i vs) (vs ! i)"
    using Cons.prems(2) by (auto dest: spec [where x = "Suc _"])
  with Cons.IH [OF s1(2)] s1(1) show ?case by simp
qed

lemma append_each_fetch:
  assumes "holds [] s" "\<forall>i < length ws. admissible (take i ws) (ws ! i)"
  shows "\<exists>s'. append_each add ws s = Some s' \<and> (\<forall>i < length ws. fetch (i + 1) s' = Some (ws ! i))"
  using append_each_holds [OF assms(1), of ws] assms(2) fetch_holds by auto

end

definition ms_fetch_wire :: "nat \<Rightarrow> mstore \<Rightarrow> string option" where
  "ms_fetch_wire n st = do { idx \<leftarrow> get_message_index n st; get_message_wire idx st }"

interpretation ms: numbered_log "\<lambda>ws st. ms_inv ws st \<and> length (concat ws) < 2 ^ 32" ms_admissible
  store_outbound_message ms_fetch_wire
proof
  fix ws st w i
  show "\<exists>st'. store_outbound_message w st = Some st' \<and> ms_inv (ws @ [w]) st' \<and> length (concat (ws @ [w])) < 2 ^ 32"
    if "ms_inv ws st \<and> length (concat ws) < 2 ^ 32" "ms_admissible ws w"
    using store_outbound_message_ok [of ws st w] that by (auto simp: ms_admissible_def ms_room_def)
  show "ms_fetch_wire (i + 1) st = Some (ws ! i)" if "ms_inv ws st \<and> length (concat ws) < 2 ^ 32" "i < length ws"
    using ms_fetch [of ws st i] that by (simp add: ms_fetch_wire_def)
qed

text \<open>A well-formed outgoing message with number \<open>n\<close>.\<close>

definition numbered_wire :: "nat \<Rightarrow> string \<Rightarrow> bool" where
  "numbered_wire n w \<longleftrightarrow> (\<exists>fs. w = enc_fields fs @ trailer (enc_fields fs) \<and> 10 \<notin> gf_tag ` set fs \<and>
     (\<forall>f \<in> set fs. SOH \<notin> set (gf_value f)) \<and> distinct (map gf_tag fs) \<and> find_field 34 fs = Some (to_chars n))"

lemma find_field_split:
  assumes "find_field t fs = Some v" "distinct (map gf_tag fs)"
  obtains A B where "fs = A @ field t v # B" "t \<notin> gf_tag ` set B" "t \<notin> gf_tag ` set A"
proof -
  from assms(1) obtain f where f: "f \<in> set fs" "gf_tag f = t" "gf_value f = v"
    by (auto simp: find_field_def find_Some_iff dest: nth_mem)
  then obtain A B where "fs = A @ f # B" by (metis in_set_conv_decomp)
  moreover have "f = field t v" using f(2,3) field_eta [of f] by simp
  ultimately show ?thesis using assms(2) f by (intro that [of A B]) auto
qed

lemma numbered_wire_index:
  assumes "numbered_wire n w" "n < 2 ^ 32"
  shows "\<exists>idx. create_message_index w off = Some idx \<and> mi_seq idx = n"
proof -
  from assms(1) obtain fs where fs: "w = enc_fields fs @ trailer (enc_fields fs)" "10 \<notin> gf_tag ` set fs"
    "\<forall>f \<in> set fs. SOH \<notin> set (gf_value f)" "distinct (map gf_tag fs)" "find_field 34 fs = Some (to_chars n)"
    by (auto simp: numbered_wire_def)
  obtain A B where AB: "fs = A @ field 34 (to_chars n) # B" "34 \<notin> gf_tag ` set B" "34 \<notin> gf_tag ` set A"
    using find_field_split [OF fs(5,4)] .
  have n: "from_chars_whole (2 ^ 32 - 1) (to_chars n) = Some n" using assms(2) by simp
  have "\<forall>f \<in> set fs. gf_tag f = 34 \<longrightarrow> from_chars_whole (2 ^ 32 - 1) (gf_value f) \<noteq> None"
    using AB n by auto
  from index_fields_total [OF this] obtain j where
    j: "index_fields 0 fs (empty_index off (to_u32 (length w))) = Some j" by blast
  moreover have "mi_seq j = n"
    by (rule index_fields_tag(1) [OF j [unfolded AB(1)]]) (use AB fs(2) n in auto)
  ultimately show ?thesis using create_message_index_wire [OF fs(2,3), of off] fs(1) by simp
qed

text \<open>
  C26: The message store gives back what was stored. Storing any sequence of well-formed outgoing
  messages numbered 1, 2, 3, \<open>\<dots>\<close> into a fresh store succeeds (no \<open>assert\<close> fails, no write leaves
  the array) as long as all of them together stay four megabytes below the range of \<open>uint32_t\<close>,
  and afterwards the index entry and the bytes found under each sequence number are those of that
  very message, however often the array was grown in between.\<close>

theorem store_fetch_roundtrip:
  assumes "\<forall>i < length ws. numbered_wire (i + 1) (ws ! i)"
    and "length (concat ws) + min_blob_buffer_grow_size < 2 ^ 32" "length ws < 2 ^ 32 - 1"
  shows "\<exists>st. append_each store_outbound_message ws ms_new = Some st \<and>
           (\<forall>i < length ws. ms_fetch_wire (i + 1) st = Some (ws ! i))"
proof (rule ms.append_each_fetch)
  show "ms_inv [] ms_new \<and> length (concat ([] :: string list)) < 2 ^ 32" by (simp add: ms_new_inv)
  show "\<forall>i < length ws. ms_admissible (take i ws) (ws ! i)"
  proof (intro allI impI)
    fix i assume i: "i < length ws"
    have "concat ws = concat (take i ws) @ ws ! i @ concat (drop (i + 1) ws)"
      using id_take_nth_drop [OF i] by (metis Suc_eq_plus1 concat.simps(2) concat_append)
    from arg_cong [OF this, of length] have "ms_room (take i ws) (ws ! i)"
      using assms(2) by (simp add: ms_room_def)
    moreover have "\<exists>idx. create_message_index (ws ! i) (length (concat (take i ws))) = Some idx \<and> mi_seq idx = i + 1"
      by (rule numbered_wire_index) (use assms i in auto)
    ultimately show "ms_admissible (take i ws) (ws ! i)" using i by (simp add: ms_admissible_def)
  qed
qed

definition sample_wire :: "nat \<Rightarrow> string" where
  "sample_wire n = enc_fields [field 35 ''cu'', field 34 (to_chars n)] @ trailer (enc_fields [field 35 ''cu'', field 34 (to_chars n)])"

theorem store_fetch_roundtrip_witness:
  "\<exists>st. append_each store_outbound_message [sample_wire 1, sample_wire 2] ms_new = Some st \<and>
     (\<forall>i < length [sample_wire 1, sample_wire 2]. ms_fetch_wire (i + 1) st = Some ([sample_wire 1, sample_wire 2] ! i))"
proof (rule store_fetch_roundtrip)
  have n: "numbered_wire n (sample_wire n)" for n
    unfolding numbered_wire_def sample_wire_def
    by (intro exI [of _ "[field 35 ''cu'', field 34 (to_chars n)]"]) (simp add: find_field_def)
  then show "\<forall>i < length [sample_wire 1, sample_wire 2]. numbered_wire (i + 1) ([sample_wire 1, sample_wire 2] ! i)"
    by (auto simp: less_Suc_eq numeral_2_eq_2)
  have "length (sample_wire 1) = 18" "length (sample_wire 2) = 18"
    by (simp_all add: sample_wire_def enc_fields_def enc_field_def trailer_def to_chars.simps)
  then show "length (concat [sample_wire 1, sample_wire 2]) + min_blob_buffer_grow_size < 2 ^ 32"
    by (simp add: min_blob_buffer_grow_size_def)
qed simp

end
