(* ===== verification/Message_Factory.thy ===== *)
theory Message_Factory
  imports Factory_Scratch Message_Store
begin

text \<open>
  \<open>MessageFactory<Clock>\<close> (include/fix/core/MessageFactory.hpp), \<open>SeqProvider\<close>
  (include/fix/core/SeqProvider.hpp) and \<open>Clock\<close> (src/Clock.cpp, which returns a constant
  text). The factory owns a \<open>FactoryScratch\<close> and holds references to the parameters and to the
  sequence numbers; here they are arguments and the updated ones are results. Every builder
  returns the bytes of the message. \<open>std::size_t\<close> sequence numbers are 64-bit words.
\<close>

section \<open>Sequence numbers and clock\<close>

record SeqProvider =
  incoming_seq_number :: SeqNum
  outgoing_seq_number :: SeqNum

definition sp_new :: SeqProvider where
  "sp_new = \<lparr>incoming_seq_number = 1, outgoing_seq_number = 1\<rparr>"

definition update_in :: "SeqNum \<Rightarrow> SeqProvider \<Rightarrow> SeqProvider" where
  "update_in seq_no sp = sp\<lparr>incoming_seq_number := seq_no\<rparr>"

definition update_out :: "SeqNum \<Rightarrow> SeqProvider \<Rightarrow> SeqProvider" where
  "update_out seq_no sp = sp\<lparr>outgoing_seq_number := seq_no\<rparr>"

definition next_out :: "SeqProvider \<Rightarrow> SeqNum" where
  "next_out sp = outgoing_seq_number sp"

definition next_in :: "SeqProvider \<Rightarrow> SeqNum" where
  "next_in sp = incoming_seq_number sp"

definition sp_reset :: "SeqProvider \<Rightarrow> SeqProvider" where
  "sp_reset sp = sp\<lparr>incoming_seq_number := 1, outgoing_seq_number := 1\<rparr>"

definition initiator_reset :: "SeqProvider \<Rightarrow> SeqProvider" where
  "initiator_reset sp = sp\<lparr>incoming_seq_number := 1, outgoing_seq_number := 1\<rparr>"

definition acceptor_reset :: "SeqProvider \<Rightarrow> SeqProvider" where
  "acceptor_reset sp = sp\<lparr>incoming_seq_number := 2, outgoing_seq_number := 1\<rparr>"

definition now_fix :: string where
  "now_fix = ''Now''"

section \<open>Builders\<close>

type_synonym built = "(string \<times> fscratch \<times> SeqProvider) option"

definition stamp_header :: "SessionParameters \<Rightarrow> string \<Rightarrow> fscratch \<Rightarrow> SeqProvider \<Rightarrow> (fscratch \<times> SeqProvider) option" where
  "stamp_header params type f sp =
     do { f1 \<leftarrow> sc_add_field 8 (fix_version params) f;
          f2 \<leftarrow> sc_add_body_length_placeholder f1;
          f3 \<leftarrow> sc_add_field 35 type f2;
          f4 \<leftarrow> sc_add_field_int 34 (sint (next_out sp)) f3;
          f5 \<leftarrow> sc_add_field 49 (sender_comp_id params) f4;
          f6 \<leftarrow> sc_add_field 56 (target_comp_id params) f5;
          f7 \<leftarrow> sc_add_field 52 now_fix f6;
          Some (f7, update_out (next_out sp + 1) sp) }"

definition stamp_trailer :: "fscratch \<Rightarrow> fscratch option" where
  "stamp_trailer f = do { f1 \<leftarrow> sc_insert_body_length f; sc_insert_checksum f1 }"

definition logon :: "SessionParameters \<Rightarrow> int \<Rightarrow> bool \<Rightarrow> fscratch \<Rightarrow> SeqProvider \<Rightarrow> built" where
  "logon params heartbeat_override echo_reset f sp =
     do { (f1, sp') \<leftarrow> stamp_header params ''A'' (sc_reset f) sp;
          f2 \<leftarrow> sc_add_field_int 98 (encrypt_method params) f1;
          f3 \<leftarrow> sc_add_field 141 (if echo_reset then ''Y'' else ''N'') f2;
          f4 \<leftarrow> sc_add_field_int 108 heartbeat_override f3;
          f5 \<leftarrow> stamp_trailer f4;
          Some (sc_get_buffer_view f5, f5, sp') }"

definition heart_beat :: "SessionParameters \<Rightarrow> string \<Rightarrow> fscratch \<Rightarrow> SeqProvider \<Rightarrow> built" where
  "heart_beat params test_req_id f sp =
     do { (f1, sp') \<leftarrow> stamp_header params ''0'' (sc_reset f) sp;
          f2 \<leftarrow> (if test_req_id \<noteq> [] then sc_add_field 112 test_req_id f1 else Some f1);
          f3 \<leftarrow> stamp_trailer f2;
          Some (sc_get_buffer_view f3, f3, sp') }"

definition test_request :: "SessionParameters \<Rightarrow> string \<Rightarrow> fscratch \<Rightarrow> SeqProvider \<Rightarrow> built" where
  "test_request params req_id f sp =
     do { (f1, sp') \<leftarrow> stamp_header params ''1'' (sc_reset f) sp;
          f2 \<leftarrow> sc_add_field 112 req_id f1;
          f3 \<leftarrow> stamp_trailer f2;
          Some (sc_get_buffer_view f3, f3, sp') }"

definition resend_request :: "SessionParameters \<Rightarrow> SeqNum \<Rightarrow> SeqNum \<Rightarrow> fscratch \<Rightarrow> SeqProvider \<Rightarrow> built" where
  "resend_request params begin_seq_no end_seq_no f sp =
     do { (f1, sp') \<leftarrow> stamp_header params ''2'' (sc_reset f) sp;
          f2 \<leftarrow> sc_add_field_int 7 (sint begin_seq_no) f1;
          f3 \<leftarrow> sc_add_field_int 16 (sint end_seq_no) f2;
          f4 \<leftarrow> stamp_trailer f3;
          Some (sc_get_buffer_view f4, f4, sp') }"

definition sequence_reset :: "SessionParameters \<Rightarrow> SeqNum \<Rightarrow> bool \<Rightarrow> fscratch \<Rightarrow> SeqProvider \<Rightarrow> built" where
  "sequence_reset params newSeqNo gapfill f sp =
     do { (f1, sp') \<leftarrow> stamp_header params ''4'' (sc_reset f) sp;
          f2 \<leftarrow> (if gapfill then sc_add_field 123 ''Y'' f1 else Some f1);
          f3 \<leftarrow> sc_add_field_int 36 (sint newSeqNo) f2;
          f4 \<leftarrow> stamp_trailer f3;
          Some (sc_get_buffer_view f4, f4, sp') }"

definition sequence_reset_gap_fill :: "SessionParameters \<Rightarrow> SeqNum \<Rightarrow> SeqNum \<Rightarrow> fscratch \<Rightarrow> SeqProvider \<Rightarrow> built" where
  "sequence_reset_gap_fill params msgSeqNum newSeqNo f sp =
     do { f1 \<leftarrow> sc_add_field 8 (fix_version params) (sc_reset f);
          f2 \<leftarrow> sc_add_body_length_placeholder f1;
          f3 \<leftarrow> sc_add_field 35 ''4'' f2;
          f4 \<leftarrow> sc_add_field_int 34 (sint msgSeqNum) f3;
          f5 \<leftarrow> sc_add_field 49 (sender_comp_id params) f4;
          f6 \<leftarrow> sc_add_field 56 (target_comp_id params) f5;
          f7 \<leftarrow> sc_add_field 52 now_fix f6;
          f8 \<leftarrow> sc_add_field 123 ''Y'' f7;
          f9 \<leftarrow> sc_add_field_int 36 (sint newSeqNo) f8;
          f10 \<leftarrow> sc_add_field 43 ''Y'' f9;
          f11 \<leftarrow> sc_add_field 122 now_fix f10;
          f12 \<leftarrow> stamp_trailer f11;
          Some (sc_get_buffer_view f12, f12, sp) }"

definition logout :: "SessionParameters \<Rightarrow> string \<Rightarrow> fscratch \<Rightarrow> SeqProvider \<Rightarrow> built" where
  "logout params txt f sp =
     do { (f1, sp') \<leftarrow> stamp_header params ''5'' (sc_reset f) sp;
          f2 \<leftarrow> (if txt \<noteq> [] then sc_add_field 58 txt f1 else Some f1);
          f3 \<leftarrow> stamp_trailer f2;
          Some (sc_get_buffer_view f3, f3, sp') }"

definition reject :: "SessionParameters \<Rightarrow> SeqNum \<Rightarrow> nat \<Rightarrow> Tag \<Rightarrow> string \<Rightarrow> fscratch \<Rightarrow> SeqProvider \<Rightarrow> built" where
  "reject params ref_seq_num reason tag txt f sp =
     do { (f1, sp') \<leftarrow> stamp_header params ''3'' (sc_reset f) sp;
          f2 \<leftarrow> sc_add_field_int 45 (sint ref_seq_num) f1;
          f3 \<leftarrow> (if tag \<noteq> 0 then sc_add_field_int 371 (int tag) f2 else Some f2);
          f4 \<leftarrow> sc_add_field_int 373 (int reason) f3;
          f5 \<leftarrow> (if txt \<noteq> [] then sc_add_field 58 txt f4 else Some f4);
          f6 \<leftarrow> stamp_trailer f5;
          Some (sc_get_buffer_view f6, f6, sp') }"

definition custom_message :: "SessionParameters \<Rightarrow> string \<Rightarrow> fscratch \<Rightarrow> SeqProvider \<Rightarrow> built" where
  "custom_message params payload f sp =
     do { (f1, sp') \<leftarrow> stamp_header params ''cu'' (sc_reset f) sp;
          f2 \<leftarrow> sc_add_field 9250 payload f1;
          f3 \<leftarrow> stamp_trailer f2;
          Some (sc_get_buffer_view f3, f3, sp') }"

primrec add_fields :: "GenericMessage \<Rightarrow> fscratch \<Rightarrow> fscratch option" where
  "add_fields [] f = Some f"
| "add_fields (x # xs) f = do { f1 \<leftarrow> sc_add_field (int (gf_tag x)) (gf_value x) f; add_fields xs f1 }"

definition from_app :: "SessionParameters \<Rightarrow> GenericMessage \<Rightarrow> string \<Rightarrow> fscratch \<Rightarrow> SeqProvider \<Rightarrow> built" where
  "from_app params msg msg_type f sp =
     do { (f1, sp') \<leftarrow> stamp_header params msg_type (sc_reset f) sp;
          f2 \<leftarrow> add_fields msg f1;
          f3 \<leftarrow> stamp_trailer f2;
          Some (sc_get_buffer_view f3, f3, sp') }"

text \<open>
  The two helpers of \<open>regenerate_message\<close>. When \<open>find\<close> fails its result \<open>npos\<close> is the largest
  number, so adding one gives zero, and \<open>substr\<close> with a count that is too large goes to the end.
\<close>

definition get_msg_body_offset :: "string \<Rightarrow> nat" where
  "get_msg_body_offset wire =
     (case sv_find wire ''9='' 0 of
        None \<Rightarrow> 0
      | Some p \<Rightarrow> (case sv_find_char wire SOH p of None \<Rightarrow> 0 | Some q \<Rightarrow> q + 1))"

definition get_msg_body :: "string \<Rightarrow> string" where
  "get_msg_body wire =
     (let body_begin = get_msg_body_offset wire in
      case sv_rfind wire ''10='' of
        None \<Rightarrow> drop body_begin wire
      | Some body_end \<Rightarrow> if body_end < body_begin then drop body_begin wire else slice body_begin (body_end - body_begin) wire)"

text \<open>\<open>substr\<close> throws when its offset lies behind the end; an offset of -1 does.\<close>

definition sv_substr :: "string \<Rightarrow> int \<Rightarrow> nat \<Rightarrow> string option" where
  "sv_substr s off n = do { assert_that (0 \<le> off \<and> nat off \<le> length s); Some (slice (nat off) n s) }"

text \<open>An edit at an offset before the start of the buffer is a fault.\<close>

definition edit_at :: "int \<Rightarrow> nat \<Rightarrow> string \<Rightarrow> fscratch \<Rightarrow> fscratch option" where
  "edit_at off len new_data f = do { assert_that (0 \<le> off); sc_edit_window (nat off) len new_data f }"

definition regenerate_message :: "SessionParameters \<Rightarrow> string \<Rightarrow> MsgIndex \<Rightarrow> fscratch \<Rightarrow> SeqProvider \<Rightarrow> built" where
  "regenerate_message params original_wire msg_index f sp =
     do { f1 \<leftarrow> sc_add_field 8 (fix_version params) (sc_reset f);
          f2 \<leftarrow> sc_add_body_length_placeholder f1;
          let pos = int (sc_position f2);
          let body_offset = int (get_msg_body_offset original_wire);
          f3 \<leftarrow> sc_add_string (get_msg_body original_wire) f2;
          f4 \<leftarrow> (if mi_off_43 msg_index = -1 then sc_add_field 43 ''Y'' f3
                 else edit_at (pos + mi_off_43 msg_index - body_offset) (mi_len_43 msg_index) ''Y'' f3);
          f5 \<leftarrow> (if mi_off_122 msg_index = -1
                 then do { t \<leftarrow> sv_substr original_wire (mi_off_52 msg_index) (mi_len_52 msg_index); sc_add_field 122 t f4 }
                 else do { t \<leftarrow> sv_substr original_wire (mi_off_52 msg_index) (mi_len_52 msg_index);
                           edit_at (pos + mi_off_122 msg_index - body_offset) (mi_len_122 msg_index) t f4 });
          f6 \<leftarrow> edit_at (pos + mi_off_52 msg_index - body_offset) (mi_len_52 msg_index) now_fix f5;
          f7 \<leftarrow> stamp_trailer f6;
          Some (sc_get_buffer_view f7, f7, sp) }"

section \<open>The wire form of a built message\<close>

definition fix_fields :: "string \<Rightarrow> GenericMessage \<Rightarrow> GenericMessage" where
  "fix_fields version fs = field 8 version # field 9 (to_chars (length (enc_fields fs))) # fs"

definition fix_wire :: "string \<Rightarrow> GenericMessage \<Rightarrow> string" where
  "fix_wire version fs = enc_fields (fix_fields version fs) @ trailer (enc_fields (fix_fields version fs))"

text \<open>A message under construction: header start, placeholder for the length, and the body so far.\<close>

definition open_msg :: "string \<Rightarrow> string \<Rightarrow> fscratch \<Rightarrow> bool" where
  "open_msg version body f \<longleftrightarrow> sc_inv f \<and>
     sc_get_buffer_view f = (enc_field (field 8 version) @ ''9='') @ replicate 10 CHR ''0'' @ SOH # body \<and>
     sc_body_length_offset f = length (enc_field (field 8 version) @ ''9='') \<and> sc_body_length_digit_size f = 10"

lemma open_msg_append:
  assumes "open_msg ver b f" "sc.appends x g"
  obtains f' where "g f = Some f'" "open_msg ver (b @ x) f'"
proof -
  have "sc_inv f" using assms(1) by (simp add: open_msg_def)
  from sc.appendsD [OF assms(2) this] obtain f' where "g f = Some f'" "sc_inv f'"
    "sc_get_buffer_view f' = sc_get_buffer_view f @ x" "sc_meta f' = sc_meta f" .
  then show ?thesis using assms(1) by (intro that [of f']) (simp_all add: open_msg_def sc_meta_def)
qed

lemma add_field_enc: "sc.appends (enc_field (field t v)) (sc_add_field (int t) v)"
  using sc_add_field_ok [of "int t" v] by (simp add: enc_field_def)

lemma add_field_int_enc: "sc.appends (enc_field (field t (to_chars_int i))) (sc_add_field_int (int t) i)"
  using sc_add_field_int_ok [of "int t" i] by (simp add: enc_field_def)

text \<open>The same facts for literal tags, which appear as integer numerals in the code.\<close>

lemmas add_field_numeral = add_field_enc [of "numeral k" for k, unfolded of_nat_numeral]
lemmas add_field_int_numeral = add_field_int_enc [of "numeral k" for k, unfolded of_nat_numeral]

lemma add_fields_enc: "sc.appends (enc_fields fs) (add_fields fs)"
proof (induction fs)
  case Nil
  have "add_fields [] = Some" by (rule ext) simp
  then show ?case by simp
next
  case (Cons x xs)
  have "add_fields (x # xs) = (\<lambda>f. sc_add_field (int (gf_tag x)) (gf_value x) f \<bind> add_fields xs)" by (rule ext) simp
  with sc.appends_bind [OF add_field_enc [of "gf_tag x" "gf_value x"] Cons] show ?case by (simp add: enc_fields_Cons)
qed

lemma open_msg_start:
  assumes "sc_inv f"
  obtains f1 f2 where "sc_add_field 8 ver (sc_reset f) = Some f1"
    "sc_add_body_length_placeholder f1 = Some f2" "open_msg ver [] f2"
proof -
  have "sc_inv (sc_reset f)" using assms by simp
  from sc.appendsD [OF add_field_numeral this] obtain f1 where f1: "sc_add_field 8 ver (sc_reset f) = Some f1" "sc_inv f1"
    "sc_get_buffer_view f1 = sc_get_buffer_view (sc_reset f) @ enc_field (field 8 ver)" "sc_meta f1 = sc_meta (sc_reset f)" .
  have d: "sc_body_length_digit_size f1 = 10" using f1(4) sc_reset_ok(3) [of f] by (simp add: sc_meta_def)
  obtain f2 where "sc_add_body_length_placeholder f1 = Some f2" "sc_inv f2"
    "sc_get_buffer_view f2 = sc_get_buffer_view f1 @ ''9='' @ replicate 10 CHR ''0'' @ [SOH]"
    "sc_body_length_offset f2 = length (sc_get_buffer_view f1) + 2" "sc_body_length_digit_size f2 = 10"
    using sc_placeholder_ok [OF f1(2) d] .
  with f1 show ?thesis by (intro that [of f1 f2]) (simp_all add: open_msg_def)
qed

lemma stamp_trailer_ok:
  assumes "open_msg ver (enc_fields fs) f" "length (enc_fields fs) < 10 ^ 10"
  obtains f' where "stamp_trailer f = Some f'" "sc_inv f'" "sc_get_buffer_view f' = fix_wire ver fs"
proof -
  let ?pre = "enc_field (field 8 ver) @ ''9=''"
  have "sc_inv f" "sc_get_buffer_view f = ?pre @ replicate 10 CHR ''0'' @ SOH # enc_fields fs"
    "sc_body_length_digit_size f = 10" "sc_body_length_offset f = length ?pre"
    using assms(1) by (simp_all add: open_msg_def)
  from sc_insert_body_length_ok [OF this(1,2) _ this(3,4) assms(2)] obtain f1 where
    f1: "sc_insert_body_length f = Some f1" "sc_inv f1" "sc_get_buffer_view f1 = ?pre @ to_chars (length (enc_fields fs)) @ SOH # enc_fields fs"
    by auto
  obtain f2 where "sc_insert_checksum f1 = Some f2" "sc_inv f2"
    "sc_get_buffer_view f2 = sc_get_buffer_view f1 @ trailer (sc_get_buffer_view f1)"
    using sc_insert_checksum_ok [OF f1(2)] .
  moreover have "sc_get_buffer_view f1 = enc_fields (fix_fields ver fs)"
    using f1(3) by (simp add: fix_fields_def enc_fields_Cons enc_field_def to_chars.simps [of 9])
  ultimately show ?thesis using f1(1) by (intro that [of f2]) (simp_all add: stamp_trailer_def fix_wire_def)
qed

definition header_fields :: "SessionParameters \<Rightarrow> string \<Rightarrow> SeqNum \<Rightarrow> GenericMessage" where
  "header_fields params type n =
     [field 35 type, field 34 (to_chars_int (sint n)), field 49 (sender_comp_id params),
      field 56 (target_comp_id params), field 52 now_fix]"

definition header_rest :: "SessionParameters \<Rightarrow> string \<Rightarrow> SeqNum \<Rightarrow> fscratch \<Rightarrow> fscratch option" where
  "header_rest params type n f2 =
     do { f3 \<leftarrow> sc_add_field 35 type f2;
          f4 \<leftarrow> sc_add_field_int 34 (sint n) f3;
          f5 \<leftarrow> sc_add_field 49 (sender_comp_id params) f4;
          f6 \<leftarrow> sc_add_field 56 (target_comp_id params) f5;
          sc_add_field 52 now_fix f6 }"

lemma header_rest_enc: "sc.appends (enc_fields (header_fields params type n)) (header_rest params type n)"
proof -
  have "header_rest params type n = (\<lambda>f. sc_add_field 35 type f \<bind> (\<lambda>f. sc_add_field_int 34 (sint n) f \<bind>
      (\<lambda>f. sc_add_field 49 (sender_comp_id params) f \<bind> (\<lambda>f. sc_add_field 56 (target_comp_id params) f \<bind> sc_add_field 52 now_fix))))"
    by (rule ext) (simp add: header_rest_def)
  moreover have "sc.appends (enc_field (field 35 type) @ enc_field (field 34 (to_chars_int (sint n))) @
      enc_field (field 49 (sender_comp_id params)) @ enc_field (field 56 (target_comp_id params)) @ enc_field (field 52 now_fix)) \<dots>"
    by (intro sc.appends_bind add_field_numeral add_field_int_numeral)
  ultimately show ?thesis by (simp add: header_fields_def enc_fields_Cons)
qed

lemma stamp_header_ok:
  assumes "sc_inv f"
  obtains f' where "stamp_header params type (sc_reset f) sp = Some (f', update_out (next_out sp + 1) sp)"
    "open_msg (fix_version params) (enc_fields (header_fields params type (next_out sp))) f'"
proof -
  obtain f1 f2 where f: "sc_add_field 8 (fix_version params) (sc_reset f) = Some f1" "sc_add_body_length_placeholder f1 = Some f2"
    "open_msg (fix_version params) [] f2"
    using open_msg_start [OF assms] .
  from open_msg_append [OF f(3) header_rest_enc] obtain f' where
    "header_rest params type (next_out sp) f2 = Some f'"
    "open_msg (fix_version params) (enc_fields (header_fields params type (next_out sp))) f'"
    by (metis append_Nil)
  then show ?thesis
    using f(1,2) by (intro that [of f']) (auto simp: stamp_header_def header_rest_def bind_eq_Some_conv)
qed

text \<open>Every builder is header, body fields, trailer.\<close>

lemma build_ok:
  assumes "sc_inv f" "sc.appends (enc_fields fs) g"
    and "length (enc_fields (header_fields params type (next_out sp) @ fs)) < 10 ^ 10"
  obtains f1 f2 f3 where "stamp_header params type (sc_reset f) sp = Some (f1, update_out (next_out sp + 1) sp)"
    "g f1 = Some f2" "stamp_trailer f2 = Some f3" "sc_inv f3"
    "sc_get_buffer_view f3 = fix_wire (fix_version params) (header_fields params type (next_out sp) @ fs)"
proof -
  obtain f1 where f1: "stamp_header params type (sc_reset f) sp = Some (f1, update_out (next_out sp + 1) sp)"
    "open_msg (fix_version params) (enc_fields (header_fields params type (next_out sp))) f1"
    using stamp_header_ok [OF assms(1)] .
  obtain f2 where f2: "g f1 = Some f2"
    "open_msg (fix_version params) (enc_fields (header_fields params type (next_out sp) @ fs)) f2"
    using open_msg_append [OF f1(2) assms(2)] by (metis enc_fields_append)
  obtain f3 where "stamp_trailer f2 = Some f3" "sc_inv f3"
    "sc_get_buffer_view f3 = fix_wire (fix_version params) (header_fields params type (next_out sp) @ fs)"
    using stamp_trailer_ok [OF f2(2) assms(3)] .
  with f1(1) f2(1) show ?thesis using that by blast
qed

section \<open>All builders at once\<close>

text \<open>The messages a session sends with a sequence number of its own, and their body fields.\<close>

datatype OutMsg =
  Out_Logon int bool
  | Out_Heartbeat string
  | Out_TestRequest string
  | Out_ResendRequest SeqNum SeqNum
  | Out_SequenceReset SeqNum bool
  | Out_Logout string
  | Out_Reject SeqNum nat Tag string
  | Out_Custom string
  | Out_App GenericMessage string

fun build :: "OutMsg \<Rightarrow> SessionParameters \<Rightarrow> fscratch \<Rightarrow> SeqProvider \<Rightarrow> built" where
  "build (Out_Logon hb echo) params f sp = logon params hb echo f sp"
| "build (Out_Heartbeat tid) params f sp = heart_beat params tid f sp"
| "build (Out_TestRequest tid) params f sp = test_request params tid f sp"
| "build (Out_ResendRequest b e) params f sp = resend_request params b e f sp"
| "build (Out_SequenceReset n gap) params f sp = sequence_reset params n gap f sp"
| "build (Out_Logout txt) params f sp = logout params txt f sp"
| "build (Out_Reject n reason tag txt) params f sp = reject params n reason tag txt f sp"
| "build (Out_Custom payload) params f sp = custom_message params payload f sp"
| "build (Out_App msg ty) params f sp = from_app params msg ty f sp"

fun out_type :: "OutMsg \<Rightarrow> string" where
  "out_type (Out_Logon hb echo) = ''A''"
| "out_type (Out_Heartbeat tid) = ''0''"
| "out_type (Out_TestRequest tid) = ''1''"
| "out_type (Out_ResendRequest b e) = ''2''"
| "out_type (Out_SequenceReset n gap) = ''4''"
| "out_type (Out_Logout txt) = ''5''"
| "out_type (Out_Reject n reason tag txt) = ''3''"
| "out_type (Out_Custom payload) = ''cu''"
| "out_type (Out_App msg ty) = ty"

fun out_body :: "SessionParameters \<Rightarrow> OutMsg \<Rightarrow> GenericMessage" where
  "out_body params (Out_Logon hb echo) =
     [field 98 (to_chars_int (encrypt_method params)), field 141 (if echo then ''Y'' else ''N''), field 108 (to_chars_int hb)]"
| "out_body params (Out_Heartbeat tid) = (if tid \<noteq> [] then [field 112 tid] else [])"
| "out_body params (Out_TestRequest tid) = [field 112 tid]"
| "out_body params (Out_ResendRequest b e) = [field 7 (to_chars_int (sint b)), field 16 (to_chars_int (sint e))]"
| "out_body params (Out_SequenceReset n gap) = (if gap then [field 123 ''Y''] else []) @ [field 36 (to_chars_int (sint n))]"
| "out_body params (Out_Logout txt) = (if txt \<noteq> [] then [field 58 txt] else [])"
| "out_body params (Out_Reject n reason tag txt) =
     [field 45 (to_chars_int (sint n))] @ (if tag \<noteq> 0 then [field 371 (to_chars tag)] else []) @
     [field 373 (to_chars reason)] @ (if txt \<noteq> [] then [field 58 txt] else [])"
| "out_body params (Out_Custom payload) = [field 9250 payload]"
| "out_body params (Out_App msg ty) = msg"

definition out_fields :: "SessionParameters \<Rightarrow> SeqNum \<Rightarrow> OutMsg \<Rightarrow> GenericMessage" where
  "out_fields params n msg = header_fields params (out_type msg) n @ out_body params msg"

lemma appends_if: "(b \<Longrightarrow> sc.appends (enc_fields fs) g) \<Longrightarrow> sc.appends (enc_fields (if b then fs else [])) (if b then g else Some)"
  by simp

lemma appends_field: "sc.appends (enc_fields [field (numeral k) v]) (sc_add_field (numeral k) v)"
  and appends_field_int: "sc.appends (enc_fields [field (numeral k) (to_chars_int i)]) (sc_add_field_int (numeral k) i)"
  using add_field_numeral [of k v] add_field_int_numeral [of k i] by (simp_all add: enc_fields_Cons)

lemma appends_fields_bind:
  "sc.appends (enc_fields xs) f \<Longrightarrow> sc.appends (enc_fields ys) g \<Longrightarrow> sc.appends (enc_fields (xs @ ys)) (\<lambda>s. f s \<bind> g)"
  by (simp add: enc_fields_append sc.appends_bind)

text \<open>What a builder writes between header and trailer.\<close>

fun body_writer :: "SessionParameters \<Rightarrow> OutMsg \<Rightarrow> fscratch \<Rightarrow> fscratch option" where
  "body_writer params (Out_Logon hb echo) = (\<lambda>f. sc_add_field_int 98 (encrypt_method params) f \<bind>
     (\<lambda>f. sc_add_field 141 (if echo then ''Y'' else ''N'') f \<bind> sc_add_field_int 108 hb))"
| "body_writer params (Out_Heartbeat tid) = (if tid \<noteq> [] then sc_add_field 112 tid else Some)"
| "body_writer params (Out_TestRequest tid) = sc_add_field 112 tid"
| "body_writer params (Out_ResendRequest b e) = (\<lambda>f. sc_add_field_int 7 (sint b) f \<bind> sc_add_field_int 16 (sint e))"
| "body_writer params (Out_SequenceReset n gap) = (\<lambda>f. (if gap then sc_add_field 123 ''Y'' else Some) f \<bind> sc_add_field_int 36 (sint n))"
| "body_writer params (Out_Logout txt) = (if txt \<noteq> [] then sc_add_field 58 txt else Some)"
| "body_writer params (Out_Reject n reason tag txt) = (\<lambda>f. sc_add_field_int 45 (sint n) f \<bind>
     (\<lambda>f. (if tag \<noteq> 0 then sc_add_field_int 371 (int tag) else Some) f \<bind>
     (\<lambda>f. sc_add_field_int 373 (int reason) f \<bind> (if txt \<noteq> [] then sc_add_field 58 txt else Some))))"
| "body_writer params (Out_Custom payload) = sc_add_field 9250 payload"
| "body_writer params (Out_App msg ty) = add_fields msg"

lemma body_writer_enc: "sc.appends (enc_fields (out_body params msg)) (body_writer params msg)"
proof (cases msg)
  case (Out_Logon hb echo)
  have "sc.appends (enc_fields ([field 98 (to_chars_int (encrypt_method params))] @ [field 141 (if echo then ''Y'' else ''N'')] @
      [field 108 (to_chars_int hb)])) (body_writer params msg)"
    unfolding Out_Logon body_writer.simps by (intro appends_fields_bind appends_field appends_field_int)
  then show ?thesis by (simp add: Out_Logon)
next
  case (Out_ResendRequest b e)
  have "sc.appends (enc_fields ([field 7 (to_chars_int (sint b))] @ [field 16 (to_chars_int (sint e))])) (body_writer params msg)"
    unfolding Out_ResendRequest body_writer.simps by (intro appends_fields_bind appends_field_int)
  then show ?thesis by (simp add: Out_ResendRequest)
next
  case (Out_Reject n reason rt tx)
  have t: "sc.appends (enc_fields [field 371 (to_chars rt)]) (sc_add_field_int 371 (int rt))"
    "sc.appends (enc_fields [field 373 (to_chars reason)]) (sc_add_field_int 373 (int reason))"
    using appends_field_int [of _ "int rt"] appends_field_int [of _ "int reason"] by simp_all
  show ?thesis
    unfolding Out_Reject body_writer.simps out_body.simps
    by (intro appends_fields_bind appends_if appends_field appends_field_int t)
next
  case (Out_SequenceReset n gap)
  show ?thesis
    unfolding Out_SequenceReset body_writer.simps out_body.simps
    by (intro appends_fields_bind appends_if appends_field appends_field_int)
qed (simp_all add: appends_field add_fields_enc del: One_nat_def)

lemma build_writer:
  "build msg params f sp =
     do { (f1, sp') \<leftarrow> stamp_header params (out_type msg) (sc_reset f) sp;
          f2 \<leftarrow> body_writer params msg f1;
          f3 \<leftarrow> stamp_trailer f2;
          Some (sc_get_buffer_view f3, f3, sp') }"
  by (cases msg)
     (simp_all add: logon_def heart_beat_def test_request_def resend_request_def sequence_reset_def logout_def
        reject_def custom_message_def from_app_def if_distrib [where f = "\<lambda>g. g _"] cong: if_cong)

lemma build_wire:
  assumes "sc_inv f" "length (enc_fields (out_fields params (next_out sp) msg)) < 10 ^ 10"
  shows "\<exists>f'. build msg params f sp =
      Some (fix_wire (fix_version params) (out_fields params (next_out sp) msg), f', update_out (next_out sp + 1) sp) \<and> sc_inv f'"
proof -
  obtain f1 f2 f3 where "stamp_header params (out_type msg) (sc_reset f) sp = Some (f1, update_out (next_out sp + 1) sp)"
    "body_writer params msg f1 = Some f2" "stamp_trailer f2 = Some f3" "sc_inv f3"
    "sc_get_buffer_view f3 = fix_wire (fix_version params) (header_fields params (out_type msg) (next_out sp) @ out_body params msg)"
    using build_ok [OF assms(1) body_writer_enc assms(2) [unfolded out_fields_def]] .
  then show ?thesis by (simp add: build_writer out_fields_def)
qed

section \<open>Regenerating a stored message\<close>

abbreviation msg_start :: "string \<Rightarrow> nat" where
  "msg_start version \<equiv> length (enc_field (field 8 version)) + 13"

lemma open_msg_position: "open_msg ver b f \<Longrightarrow> sc_position f = msg_start ver + length b"
  using sc_view_position [of f] by (simp add: open_msg_def)

lemma open_msg_edit:
  assumes "open_msg ver (x @ y @ z) f" "length y' = length y"
  shows "\<exists>f'. sc_edit_window (msg_start ver + length x) (length y) y' f = Some f' \<and> open_msg ver (x @ y' @ z) f'"
proof -
  define pre where "pre = enc_field (field 8 ver) @ ''9='' @ replicate 10 CHR ''0'' @ [SOH]"
  have pre: "length pre = msg_start ver" by (simp add: pre_def)
  have p: "sc_position f = length pre + length (x @ y @ z)" using open_msg_position [OF assms(1)] pre by simp
  have inv: "sc_inv f" and view: "sc_get_buffer_view f = pre @ x @ y @ z"
    using assms(1) by (simp_all add: open_msg_def pre_def)
  define rest where "rest = drop (sc_position f) (sc_buffer f)"
  have "sc_buffer f = take (sc_position f) (sc_buffer f) @ rest" by (simp add: rest_def)
  then have buf: "sc_buffer f = (pre @ x) @ y @ z @ rest"
    using view by (simp add: sc_get_buffer_view_def slice_def)
  have cap: "length (sc_buffer f) \<le> sc_buffer_size f" using inv by (simp add: sc_inv_def)
  have w: "memcpy (sc_buffer_size f) (length (pre @ x)) y' (sc_buffer f) = Some ((pre @ x) @ y' @ z @ rest)"
    using cap assms(2) by (simp add: buf)
  define f' where "f' = f\<lparr>sc_buffer := (pre @ x) @ y' @ z @ rest\<rparr>"
  have "sc_edit_window (msg_start ver + length x) (length y) y' f = Some f'"
    using w p assms(2) pre by (simp add: sc_edit_window_def f'_def del: memcpy_eq_Some)
  moreover have "sc_get_buffer_view f' = pre @ x @ y' @ z"
    using p assms(2) by (simp add: f'_def sc_get_buffer_view_def slice_def)
  moreover have "sc_inv f'" using inv assms(2) by (simp add: f'_def sc_inv_def buf)
  ultimately show ?thesis using assms(1) by (simp add: open_msg_def pre_def f'_def)
qed

lemma version_shape: "enc_field (field 8 DEFAULT_FIX_VERSION) = ''8=FIX.4.4'' @ [SOH]"
  by (simp add: enc_field_def DEFAULT_FIX_VERSION_def to_chars.simps)

abbreviation body_start :: "GenericMessage \<Rightarrow> nat" where
  "body_start fs \<equiv> 13 + length (to_chars (length (enc_fields fs)))"

lemma fix_wire_split:
  "fix_wire DEFAULT_FIX_VERSION fs = ''8=FIX.4.4'' @ SOH # ''9='' @ to_chars (length (enc_fields fs)) @ SOH # enc_fields fs @
     trailer (enc_fields (fix_fields DEFAULT_FIX_VERSION fs))"
  by (simp add: fix_wire_def fix_fields_def enc_fields_Cons version_shape) (simp add: enc_field_def to_chars.simps [of 9])

lemma get_msg_body_offset_wire: "get_msg_body_offset (fix_wire DEFAULT_FIX_VERSION fs) = body_start fs"
proof -
  let ?w = "fix_wire DEFAULT_FIX_VERSION fs" and ?n = "to_chars (length (enc_fields fs))"
  have "sv_find ?w ''9='' 0 = Some 10"
    by (simp add: sv_find_def fix_wire_split starts_with_def)
  moreover have "?w = (''8=FIX.4.4'' @ [SOH]) @ (''9='' @ ?n) @ SOH # (enc_fields fs @ trailer (enc_fields (fix_fields DEFAULT_FIX_VERSION fs)))"
    by (simp add: fix_wire_split)
  then have "sv_find_char ?w SOH 10 = Some (length (''8=FIX.4.4'' @ [SOH]) + length (''9='' @ ?n))"
    by (rule sv_find_char_at) simp_all
  ultimately show ?thesis by (simp add: get_msg_body_offset_def)
qed

lemma get_msg_body_wire: "get_msg_body (fix_wire DEFAULT_FIX_VERSION fs) = enc_fields fs"
proof -
  let ?w = "fix_wire DEFAULT_FIX_VERSION fs" and ?e = "enc_fields (fix_fields DEFAULT_FIX_VERSION fs)"
  have c: "checksum_of ?e < 1000" by (rule less_trans [OF checksum_of_less]) simp
  obtain x y z where xyz: "pad3 (checksum_of ?e) = [x, y, z]" "is_digit x" "is_digit y" "is_digit z"
    using pad3_digits [OF c] by (auto simp: pad3_def)
  have rf: "sv_rfind ?w ''10='' = Some (length ?e)"
    using rfind_trailer [OF xyz(2-4), of ?e] by (simp add: fix_wire_def trailer_def xyz(1))
  have le: "length ?e = body_start fs + length (enc_fields fs)"
    by (simp add: fix_fields_def enc_fields_Cons version_shape) (simp add: enc_field_def to_chars.simps [of 9])
  have w: "?w = (''8=FIX.4.4'' @ SOH # ''9='' @ to_chars (length (enc_fields fs)) @ [SOH]) @ enc_fields fs @ trailer ?e"
    by (simp add: fix_wire_split)
  have "slice (body_start fs) (length (enc_fields fs)) ?w = enc_fields fs"
    by (subst w, rule slice_exact) simp_all
  then show ?thesis using rf le by (simp add: get_msg_body_def get_msg_body_offset_wire Let_def)
qed

lemma to_i32_id: "n < 2 ^ 31 \<Longrightarrow> to_i32 n = int n"
  by (simp add: to_i32_def signed_of_nat signed_take_bit_int_eq_self)

lemma length_literal_tags [simp]: "length (to_chars 52) = 2" "length (to_chars 43) = 2" "length (to_chars 122) = 3"
  by (simp_all add: to_chars.simps)

lemma index_of_wire:
  assumes fs: "fs = A @ field 52 t # B" "52 \<notin> gf_tag ` set B" "10 \<notin> gf_tag ` set fs" "43 \<notin> gf_tag ` set fs" "122 \<notin> gf_tag ` set fs"
    and soh: "\<forall>f \<in> set fs. SOH \<notin> set (gf_value f)" and small: "length (fix_wire DEFAULT_FIX_VERSION fs) < 2 ^ 31" "length t < 2 ^ 16"
    and idx: "create_message_index (fix_wire DEFAULT_FIX_VERSION fs) off = Some idx"
  shows "mi_off_52 idx = int (body_start fs + length (enc_fields A) + 3)" "mi_len_52 idx = length t"
    "mi_off_43 idx = -1" "mi_off_122 idx = -1"
proof -
  let ?h = "[field 8 DEFAULT_FIX_VERSION, field 9 (to_chars (length (enc_fields fs)))]"
  let ?ffs = "(?h @ A) @ field 52 t # B" and ?e = "empty_index off (to_u32 (length (fix_wire DEFAULT_FIX_VERSION fs)))"
  have ff: "fix_fields DEFAULT_FIX_VERSION fs = ?ffs" using fs(1) by (simp add: fix_fields_def)
  have "index_fields 0 (fix_fields DEFAULT_FIX_VERSION fs) ?e = create_message_index (fix_wire DEFAULT_FIX_VERSION fs) off"
    unfolding fix_wire_def
    by (rule create_message_index_wire [symmetric])
       (use fs(3) soh in \<open>auto simp: fix_fields_def DEFAULT_FIX_VERSION_def\<close>)
  then have ix: "index_fields 0 ?ffs ?e = Some idx" using idx ff by simp
  have no10: "10 \<notin> gf_tag ` set ?ffs" using fs(1,3) by simp
  have hl: "length (enc_fields (?h @ A)) = body_start fs + length (enc_fields A)"
    by (simp add: enc_fields_Cons enc_fields_append version_shape) (simp add: enc_field_def to_chars.simps [of 9])
  have "length (enc_fields (?h @ A)) + 3 < 2 ^ 31"
    using small(1) unfolding hl by (simp add: fix_wire_split fs(1) enc_fields_append enc_fields_Cons enc_field_def)
  then show "mi_off_52 idx = int (body_start fs + length (enc_fields A) + 3)" "mi_len_52 idx = length t"
    using index_fields_tag(2) [OF ix no10] fs(2) small(2) hl by (simp_all add: to_i32_id to_u16_def)
  have "idx_frame (gf_tag ` set ?ffs) ?e idx" by (rule index_fields_frame [OF ix])
  then show "mi_off_43 idx = -1" "mi_off_122 idx = -1"
    using fs(1,4,5) by (simp_all add: idx_frame_def empty_index_def)
qed

text \<open>The bytes at the place of the sending time.\<close>

lemma sending_time_at:
  assumes fs: "fs = A @ field 52 t # B"
  shows "sv_substr (fix_wire DEFAULT_FIX_VERSION fs) (int (body_start fs + length (enc_fields A) + 3)) (length t) = Some t"
proof -
  define q where "q = ''8=FIX.4.4'' @ SOH # ''9='' @ to_chars (length (enc_fields fs)) @ SOH # enc_fields A @ ''52=''"
  have "enc_fields fs = (enc_fields A @ ''52='') @ t @ SOH # enc_fields B"
    by (simp add: fs enc_fields_append enc_fields_Cons) (simp add: enc_field_def to_chars.simps [of 52] to_chars.simps [of 5])
  then have w: "fix_wire DEFAULT_FIX_VERSION fs = q @ t @ (SOH # enc_fields B @ trailer (enc_fields (fix_fields DEFAULT_FIX_VERSION fs)))"
    by (simp add: fix_wire_split q_def)
  have ql: "length q = body_start fs + length (enc_fields A) + 3" by (simp add: q_def)
  have "slice (length q) (length t) (fix_wire DEFAULT_FIX_VERSION fs) = t" unfolding w by (rule slice_exact) simp_all
  moreover have "length q \<le> length (fix_wire DEFAULT_FIX_VERSION fs)" unfolding w by simp
  ultimately show ?thesis unfolding ql [symmetric] by (simp only: sv_substr_def nat_int of_nat_0_le_iff) simp
qed

lemma regenerate_wire:
  assumes fs: "fs = A @ field 52 t # B" "52 \<notin> gf_tag ` set B" "10 \<notin> gf_tag ` set fs" "43 \<notin> gf_tag ` set fs" "122 \<notin> gf_tag ` set fs"
    and soh: "\<forall>f \<in> set fs. SOH \<notin> set (gf_value f)" and small: "length (fix_wire DEFAULT_FIX_VERSION fs) < 2 ^ 31"
    and t: "length t = length now_fix" and ver: "fix_version params = DEFAULT_FIX_VERSION" and inv: "sc_inv f"
    and idx: "create_message_index (fix_wire DEFAULT_FIX_VERSION fs) off = Some idx"
  shows "\<exists>f'. regenerate_message params (fix_wire DEFAULT_FIX_VERSION fs) idx f sp =
     Some (fix_wire DEFAULT_FIX_VERSION (A @ field 52 now_fix # B @ [field 43 ''Y'', field 122 t]), f', sp) \<and> sc_inv f'"
proof -
  let ?v = "DEFAULT_FIX_VERSION" and ?w = "fix_wire DEFAULT_FIX_VERSION fs"
  let ?fs' = "A @ field 52 now_fix # B @ [field 43 ''Y'', field 122 t]"
  have "length t < 2 ^ 16" using t by (simp add: now_fix_def)
  note I = index_of_wire [OF fs soh small this idx]
  obtain f1 f2 where f2: "sc_add_field 8 ?v (sc_reset f) = Some f1" "sc_add_body_length_placeholder f1 = Some f2" "open_msg ?v [] f2"
    using open_msg_start [OF inv] .
  obtain f3 where f3: "sc_add_string (enc_fields fs) f2 = Some f3" "open_msg ?v (enc_fields fs) f3"
    using open_msg_append [OF f2(3) sc.appends_put] by (metis append_Nil)
  obtain f4 where f4: "sc_add_field 43 ''Y'' f3 = Some f4" "open_msg ?v (enc_fields fs @ enc_field (field 43 ''Y'')) f4"
    using open_msg_append [OF f3(2) add_field_numeral] .
  obtain f5 where f5: "sc_add_field 122 t f4 = Some f5" "open_msg ?v ((enc_fields fs @ enc_field (field 43 ''Y'')) @ enc_field (field 122 t)) f5"
    using open_msg_append [OF f4(2) add_field_numeral] .
  let ?x = "enc_fields A @ ''52=''" and ?z = "SOH # enc_fields (B @ [field 43 ''Y'', field 122 t])"
  have body: "(enc_fields fs @ enc_field (field 43 ''Y'')) @ enc_field (field 122 t) = ?x @ t @ ?z"
    "enc_fields ?fs' = ?x @ now_fix @ ?z"
    by (simp_all add: fs(1) enc_fields_append enc_fields_Cons) (simp_all add: enc_field_def to_chars.simps [of 52] to_chars.simps [of 5])
  obtain f6 where f6: "sc_edit_window (msg_start ?v + length ?x) (length t) now_fix f5 = Some f6" "open_msg ?v (enc_fields ?fs') f6"
    using open_msg_edit [of ?v ?x t ?z f5 now_fix] f5(2) t unfolding body by auto
  have "length (enc_fields ?fs') < 10 ^ 10"
    using small t by (simp add: fix_wire_split fs(1) enc_fields_append enc_fields_Cons enc_field_def now_fix_def)
  then obtain f7 where f7: "stamp_trailer f6 = Some f7" "sc_inv f7" "sc_get_buffer_view f7 = fix_wire ?v ?fs'"
    using stamp_trailer_ok [OF f6(2)] by blast
  have sub: "sv_substr ?w (mi_off_52 idx) (mi_len_52 idx) = Some t"
    using sending_time_at [OF fs(1)] I(1,2) by simp
  have edit: "edit_at (int (sc_position f2) + mi_off_52 idx - int (get_msg_body_offset ?w)) (mi_len_52 idx) now_fix f5 = Some f6"
  proof -
    have "int (sc_position f2) + mi_off_52 idx - int (get_msg_body_offset ?w) = int (msg_start ?v + length ?x)"
      using open_msg_position [OF f2(3)] I(1) by (simp add: get_msg_body_offset_wire)
    then show ?thesis using f6(1) I(2) by (simp only: edit_at_def nat_int) simp
  qed
  have "regenerate_message params ?w idx f sp = Some (sc_get_buffer_view f7, f7, sp)"
    using f2(1,2) f3(1) f4(1) f5(1) sub edit f7(1) I(3,4)
    by (simp add: regenerate_message_def ver get_msg_body_wire Let_def)
  with f7 show ?thesis by simp
qed

section \<open>The scratch stays usable\<close>

text \<open>
  Whatever a builder is asked to write, and whatever message is regenerated, the scratch it leaves behind lies within its
  capacity: a message that cannot be built is a fault, but none spoils the buffer.
\<close>

definition sc_keeps :: "(fscratch \<Rightarrow> fscratch option) \<Rightarrow> bool" where
  "sc_keeps g \<longleftrightarrow> (\<forall>f f'. sc_inv f \<longrightarrow> g f = Some f' \<longrightarrow> sc_inv f')"

definition builder_keeps :: "(fscratch \<Rightarrow> SeqProvider \<Rightarrow> built) \<Rightarrow> bool" where
  "builder_keeps b \<longleftrightarrow> (\<forall>f sp w f' sp'. sc_inv f \<longrightarrow> b f sp = Some (w, f', sp') \<longrightarrow> sc_inv f')"

lemma sc_keepsD: "sc_keeps g \<Longrightarrow> g f = Some f' \<Longrightarrow> sc_inv f \<Longrightarrow> sc_inv f'"
  by (simp add: sc_keeps_def)

lemma appends_keeps: "sc.appends x g \<Longrightarrow> sc_keeps g"
  unfolding sc_keeps_def using sc.appendsD by (metis option.inject)

lemma sc_keeps_placeholder: "sc_keeps sc_add_body_length_placeholder"
proof -
  have off: "sc_inv (f\<lparr>sc_body_length_offset := n\<rparr>) = sc_inv f" for f n by (simp add: sc_inv_def)
  show ?thesis
    unfolding sc_keeps_def sc_add_body_length_placeholder_def
    by (auto simp: bind_eq_Some_conv Let_def off dest!: sc_keepsD [OF appends_keeps [OF sc_add_int_ok]]
        sc_keepsD [OF appends_keeps [OF sc_add_equal_sign_ok]] sc_keepsD [OF appends_keeps [OF sc_add_zeros_ok]]
        sc_keepsD [OF appends_keeps [OF sc_add_soh_ok]])
qed

lemma sc_keeps_body_length: "sc_keeps sc_insert_body_length"
proof (unfold sc_keeps_def, intro allI impI)
  fix f f' assume f: "sc_inv f" "sc_insert_body_length f = Some f'"
  let ?off = "sc_body_length_offset f" and ?old = "sc_body_length_digit_size f" and ?p = "sc_position f"
  obtain d b1 b2 where le: "?off + ?old + 1 \<le> ?p" and m1: "memcpy (sc_buffer_size f) ?off d (sc_buffer f) = Some b1"
    and m2: "memcpy (sc_buffer_size f) (?off + length d) (slice (?off + ?old) (?p - (?off + ?old)) b1) b1 = Some b2"
    and f': "f' = f\<lparr>sc_buffer := b2, sc_position := ?p + length d - ?old, sc_body_length_digit_size := length d\<rparr>"
    using f(2) by (auto simp: sc_insert_body_length_def sc_compute_body_length_def bind_eq_Some_conv Let_def)
  note M1 = memcpy_SomeD [OF m1] and M2 = memcpy_SomeD [OF m2]
  have inv: "?p \<le> length (sc_buffer f)" "length (sc_buffer f) \<le> sc_buffer_size f" using f(1) by (simp_all add: sc_inv_def)
  have b1: "length (sc_buffer f) \<le> length b1" "length b1 \<le> sc_buffer_size f" using M1 inv(2) by auto
  then have "length (slice (?off + ?old) (?p - (?off + ?old)) b1) = ?p - (?off + ?old)" using inv(1) by simp
  then have "?p + length d - ?old \<le> length b2" "length b2 \<le> sc_buffer_size f" using M2 b1(2) le by auto
  then show "sc_inv f'" by (simp add: f' sc_inv_def)
qed

lemma sc_keeps_trailer: "sc_keeps stamp_trailer"
  unfolding sc_keeps_def stamp_trailer_def
  by (auto simp: bind_eq_Some_conv dest!: sc_keepsD [OF sc_keeps_body_length] elim: sc_insert_checksum_ok)

lemma sc_keeps_edit: "sc_keeps (edit_at off n d)"
  unfolding sc_keeps_def edit_at_def sc_edit_window_def
  by (auto simp: bind_eq_Some_conv sc_inv_def dest!: memcpy_SomeD)

lemmas sc_keeps_parts = sc_keepsD [OF sc_keeps_placeholder] sc_keepsD [OF sc_keeps_trailer] sc_keepsD [OF sc_keeps_edit]
  sc_keepsD [OF appends_keeps [OF sc_add_field_ok]] sc_keepsD [OF appends_keeps [OF sc_add_field_int_ok]]
  sc_keepsD [OF appends_keeps [OF sc.appends_put]]

lemma build_keeps: "builder_keeps (build msg params)"
proof (unfold builder_keeps_def, intro allI impI)
  fix f sp w f' sp' assume f: "sc_inv f" "build msg params f sp = Some (w, f', sp')"
  then obtain f1 f2 where "stamp_header params (out_type msg) (sc_reset f) sp = Some (f1, sp')" "body_writer params msg f1 = Some f2"
    and f': "stamp_trailer f2 = Some f'"
    by (auto simp: build_writer bind_eq_Some_conv)
  moreover obtain f0 where "stamp_header params (out_type msg) (sc_reset f) sp = Some (f0, update_out (next_out sp + 1) sp)" "sc_inv f0"
    using stamp_header_ok [OF f(1)] by (metis open_msg_def)
  ultimately have "sc_inv f2" using sc_keepsD [OF appends_keeps [OF body_writer_enc]] by auto
  with f' show "sc_inv f'" by (rule sc_keepsD [OF sc_keeps_trailer])
qed

lemma built_keeps: "(\<And>f sp. b f sp = build msg params f sp) \<Longrightarrow> builder_keeps b"
  using build_keeps [of msg params] unfolding builder_keeps_def by metis

lemma builders_keep [simp]:
  "builder_keeps (logon params hb echo)" "builder_keeps (heart_beat params tid)" "builder_keeps (test_request params tid)"
  "builder_keeps (resend_request params n m)" "builder_keeps (sequence_reset params n gap)" "builder_keeps (logout params txt)"
  "builder_keeps (reject params n reason tag txt)" "builder_keeps (custom_message params txt)" "builder_keeps (from_app params msg txt)"
  by (rule built_keeps, rule build.simps [symmetric])+

lemma gap_fill_keeps [simp]: "builder_keeps (sequence_reset_gap_fill params n m)"
  unfolding builder_keeps_def sequence_reset_gap_fill_def
  by (clarsimp simp: bind_eq_Some_conv) (drule sc_reset_ok(1), (drule (1) sc_keeps_parts)+, assumption)

lemma regenerate_keeps [simp]: "builder_keeps (regenerate_message params w idx)"
  unfolding builder_keeps_def regenerate_message_def Let_def
  by (cases "mi_off_43 idx = - 1"; cases "mi_off_122 idx = - 1")
     (clarsimp simp: bind_eq_Some_conv, drule sc_reset_ok(1), (drule (1) sc_keeps_parts)+, assumption)+

text \<open>
  C22: Every builder of the factory. For each kind of outgoing message, and whatever the scratch
  held before, the builder returns bytes that are exactly the wire form of its fields: begin
  string, the body length in decimal digits without padding, message type, the next outgoing
  sequence number, comp ids, sending time, the body fields in the order of the code, and the
  checksum as three digits; the outgoing number advances by one and the scratch stays usable.\<close>

theorem build_correct:
  assumes "sc_inv f" "length (enc_fields (out_fields params (next_out sp) msg)) < 10 ^ 10"
  shows "\<exists>f'. build msg params f sp =
      Some (fix_wire (fix_version params) (out_fields params (next_out sp) msg), f', update_out (next_out sp + 1) sp) \<and> sc_inv f'"
  using assms by (rule build_wire)

theorem build_correct_witness:
  "\<exists>f'. build (Out_Logon 30 True) default_params sc_new sp_new =
      Some (fix_wire (fix_version default_params) (out_fields default_params (next_out sp_new) (Out_Logon 30 True)), f',
        update_out (next_out sp_new + 1) sp_new) \<and> sc_inv f'"
  by (rule build_correct)
     (simp_all add: out_fields_def header_fields_def enc_fields_def enc_field_def default_params_def sp_new_def next_out_def
        now_fix_def to_chars.simps to_chars_int_def)

end
