(* ===== verification/Recovery_Cache.thy ===== *)
theory Recovery_Cache
  imports Message_Model
begin

text \<open>
  \<open>RecoveryCache\<close> (include/fix/core/RecoveryCache.hpp, src/RecoveryCache.cpp): the messages
  that arrive ahead of a gap, kept by sequence number in a window of 512 slots behind the first
  missing number. Sequence numbers are 64-bit words; the slots are the bounds of the message in
  one byte buffer, the bounds \<open>{0, 0}\<close> mark an empty slot; the buffer is reused once the cache
  is empty. The array of slots always has 512 entries, so a slot index in the window is in range.
\<close>

record MessageBounds =
  mb_offset :: nat
  mb_size :: nat

definition rc_initial_capacity :: nat where
  "rc_initial_capacity = 1024 * 64"

definition rc_min_capacity_growth :: nat where
  "rc_min_capacity_growth = 1024 * 32"

definition rc_window :: nat where
  "rc_window = 512"

definition KEmpty :: MessageBounds where
  "KEmpty = \<lparr>mb_offset = 0, mb_size = 0\<rparr>"

record rcache =
  rc_slots :: "MessageBounds list"
  rc_base_offset :: SeqNum
  rc_data :: string
  rc_buff_capacity :: nat
  rc_buff_size :: nat
  rc_size :: nat

definition rc_new :: rcache where
  "rc_new = \<lparr>rc_slots = replicate rc_window KEmpty, rc_base_offset = 0, rc_data = [],
     rc_buff_capacity = rc_initial_capacity, rc_buff_size = 0, rc_size = 0\<rparr>"

definition rc_empty :: "rcache \<Rightarrow> bool" where
  "rc_empty c \<longleftrightarrow> rc_size c = 0"

definition rc_in_window :: "SeqNum \<Rightarrow> rcache \<Rightarrow> bool" where
  "rc_in_window seqnum c \<longleftrightarrow>
     (if seqnum < rc_base_offset c then False else unat (seqnum - rc_base_offset c) < rc_window)"

definition rc_slot_index :: "SeqNum \<Rightarrow> rcache \<Rightarrow> nat" where
  "rc_slot_index seqnum c = unat (seqnum - rc_base_offset c) mod 2 ^ 16"

definition rc_contains :: "SeqNum \<Rightarrow> rcache \<Rightarrow> bool" where
  "rc_contains seqnum c \<longleftrightarrow> rc_in_window seqnum c \<and> rc_slots c ! rc_slot_index seqnum c \<noteq> KEmpty"

definition rc_reset :: "rcache \<Rightarrow> rcache" where
  "rc_reset c = c\<lparr>rc_buff_size := 0, rc_base_offset := 0, rc_size := 0, rc_slots := replicate rc_window KEmpty\<rparr>"

definition rc_start :: "SeqNum \<Rightarrow> rcache \<Rightarrow> rcache" where
  "rc_start seqnum c = (rc_reset c)\<lparr>rc_base_offset := seqnum\<rparr>"

definition rc_grow_buffer :: "nat \<Rightarrow> rcache \<Rightarrow> rcache option" where
  "rc_grow_buffer extra_capacity c =
     (let new_capacity = rc_buff_capacity c + extra_capacity in
      do { new_data \<leftarrow> memcpy new_capacity 0 (slice 0 (rc_buff_size c) (rc_data c)) [];
           Some (c\<lparr>rc_data := new_data, rc_buff_capacity := new_capacity\<rparr>) })"

definition rc_insert_message :: "string \<Rightarrow> rcache \<Rightarrow> (MessageBounds \<times> rcache) option" where
  "rc_insert_message msg_wire c =
     do { assert_that (length msg_wire > 0);
          c1 \<leftarrow> (if rc_buff_size c + length msg_wire > rc_buff_capacity c
                 then rc_grow_buffer (max (rc_buff_size c + length msg_wire - rc_buff_capacity c) rc_min_capacity_growth) c
                 else Some c);
          d \<leftarrow> memcpy (rc_buff_capacity c1) (rc_buff_size c1) msg_wire (rc_data c1);
          Some (\<lparr>mb_offset = rc_buff_size c1, mb_size = length msg_wire\<rparr>,
                c1\<lparr>rc_data := d, rc_buff_size := rc_buff_size c1 + length msg_wire\<rparr>) }"

definition rc_insert :: "SeqNum \<Rightarrow> string \<Rightarrow> rcache \<Rightarrow> rcache option" where
  "rc_insert seqnum msg_wire c =
     do { assert_that (rc_in_window seqnum c);
          assert_that (\<not> rc_contains seqnum c);
          (bounds, c1) \<leftarrow> rc_insert_message msg_wire c;
          Some (c1\<lparr>rc_slots := (rc_slots c1)[rc_slot_index seqnum c1 := bounds], rc_size := (rc_size c1 + 1) mod 2 ^ 16\<rparr>) }"

definition rc_get :: "SeqNum \<Rightarrow> rcache \<Rightarrow> string option" where
  "rc_get seqnum c =
     do { assert_that (rc_contains seqnum c);
          let b = rc_slots c ! rc_slot_index seqnum c;
          Some (slice (mb_offset b) (mb_size b) (rc_data c)) }"

definition rc_consume :: "SeqNum \<Rightarrow> rcache \<Rightarrow> rcache option" where
  "rc_consume seqnum c =
     do { assert_that (rc_contains seqnum c);
          let c1 = c\<lparr>rc_slots := (rc_slots c)[rc_slot_index seqnum c := KEmpty], rc_size := rc_size c - 1\<rparr>;
          Some (if rc_size c1 = 0 then c1\<lparr>rc_buff_size := 0\<rparr> else c1) }"

section \<open>Invariant and abstraction\<close>

definition rc_used :: "MessageBounds list \<Rightarrow> nat" where
  "rc_used bs = length (filter (\<lambda>b. b \<noteq> KEmpty) bs)"

definition rc_inv :: "rcache \<Rightarrow> bool" where
  "rc_inv c \<longleftrightarrow> length (rc_slots c) = rc_window \<and>
     rc_buff_size c \<le> length (rc_data c) \<and> length (rc_data c) \<le> rc_buff_capacity c \<and>
     rc_size c = rc_used (rc_slots c) \<and>
     (\<forall>b \<in> set (rc_slots c). b \<noteq> KEmpty \<longrightarrow> 0 < mb_size b \<and> mb_offset b + mb_size b \<le> rc_buff_size c)"

definition rc_lookup :: "rcache \<Rightarrow> SeqNum \<Rightarrow> string option" where
  "rc_lookup c seqnum =
     (if rc_contains seqnum c
      then Some (slice (mb_offset (rc_slots c ! rc_slot_index seqnum c)) (mb_size (rc_slots c ! rc_slot_index seqnum c)) (rc_data c))
      else None)"

lemma rc_slot_index_in: "rc_in_window s c \<Longrightarrow> rc_slot_index s c = unat (s - rc_base_offset c) \<and> rc_slot_index s c < rc_window"
  by (simp add: rc_in_window_def rc_slot_index_def rc_window_def split: if_splits)

lemma rc_slot_index_inj:
  "rc_in_window s c \<Longrightarrow> rc_in_window t c \<Longrightarrow> rc_slot_index s c = rc_slot_index t c \<Longrightarrow> s = t"
  using rc_slot_index_in [of s c] rc_slot_index_in [of t c]
  by (metis diff_add_cancel word_unat_eq_iff)

lemma rc_new_inv: "rc_inv rc_new"
  by (simp add: rc_inv_def rc_new_def rc_used_def)

lemma rc_start_ok:
  assumes "rc_inv c"
  shows "rc_inv (rc_start s c)" "rc_lookup (rc_start s c) t = None" "rc_base_offset (rc_start s c) = s" "rc_empty (rc_start s c)"
proof -
  show "rc_inv (rc_start s c)" using assms by (auto simp: rc_inv_def rc_start_def rc_reset_def rc_used_def)
  show "rc_lookup (rc_start s c) t = None"
    using rc_slot_index_in [of t "rc_start s c"]
    by (auto simp: rc_lookup_def rc_contains_def rc_start_def rc_reset_def)
  show "rc_base_offset (rc_start s c) = s" "rc_empty (rc_start s c)"
    by (simp_all add: rc_start_def rc_reset_def rc_empty_def)
qed

lemma rc_reset_inv: "rc_inv c \<Longrightarrow> rc_inv (rc_reset c)"
  by (auto simp: rc_inv_def rc_reset_def rc_used_def)

lemma rc_used_update:
  assumes "i < length bs"
  shows "bs ! i = KEmpty \<Longrightarrow> b \<noteq> KEmpty \<Longrightarrow> rc_used (bs[i := b]) = rc_used bs + 1"
    and "bs ! i \<noteq> KEmpty \<Longrightarrow> rc_used (bs[i := KEmpty]) + 1 = rc_used bs"
proof -
  have split: "bs = take i bs @ bs ! i # drop (Suc i) bs" using id_take_nth_drop [OF assms] .
  have upd: "bs[i := x] = take i bs @ x # drop (Suc i) bs" for x using upd_conv_take_nth_drop [OF assms] .
  show "rc_used (bs[i := b]) = rc_used bs + 1" if "bs ! i = KEmpty" "b \<noteq> KEmpty"
    using that by (subst (2) split) (simp add: upd rc_used_def)
  show "rc_used (bs[i := KEmpty]) + 1 = rc_used bs" if "bs ! i \<noteq> KEmpty"
    using that by (subst (2) split) (simp add: upd rc_used_def)
qed

lemma rc_insert_message_ok:
  assumes "rc_inv c" "w \<noteq> []"
  obtains c' where "rc_insert_message w c = Some (\<lparr>mb_offset = rc_buff_size c, mb_size = length w\<rparr>, c')"
    "rc_slots c' = rc_slots c" "rc_base_offset c' = rc_base_offset c" "rc_size c' = rc_size c"
    "rc_buff_size c' = rc_buff_size c + length w" "rc_buff_size c' \<le> length (rc_data c')" "length (rc_data c') \<le> rc_buff_capacity c'"
    "slice (rc_buff_size c) (length w) (rc_data c') = w"
    "take (rc_buff_size c) (rc_data c') = take (rc_buff_size c) (rc_data c)"
proof -
  have I: "rc_buff_size c \<le> length (rc_data c)" "length (rc_data c) \<le> rc_buff_capacity c" using assms(1) by (simp_all add: rc_inv_def)
  obtain c1 where c1: "(if rc_buff_size c + length w > rc_buff_capacity c
       then rc_grow_buffer (max (rc_buff_size c + length w - rc_buff_capacity c) rc_min_capacity_growth) c else Some c) = Some c1"
    "rc_slots c1 = rc_slots c" "rc_base_offset c1 = rc_base_offset c" "rc_size c1 = rc_size c" "rc_buff_size c1 = rc_buff_size c"
    "take (rc_buff_size c) (rc_data c1) = take (rc_buff_size c) (rc_data c)" "rc_buff_size c \<le> length (rc_data c1)"
    "length (rc_data c1) \<le> rc_buff_capacity c1" "rc_buff_size c + length w \<le> rc_buff_capacity c1"
  proof (cases "rc_buff_size c + length w > rc_buff_capacity c")
    case True
    let ?cap = "rc_buff_capacity c + max (rc_buff_size c + length w - rc_buff_capacity c) rc_min_capacity_growth"
    show ?thesis
      by (rule that [of "c\<lparr>rc_data := take (rc_buff_size c) (rc_data c), rc_buff_capacity := ?cap\<rparr>"])
         (use True I in \<open>simp_all add: rc_grow_buffer_def Let_def slice_def\<close>)
  next
    case False
    then show ?thesis using I by (intro that [of c]) simp_all
  qed
  define d where "d = take (rc_buff_size c) (rc_data c) @ w @ drop (rc_buff_size c + length w) (rc_data c1)"
  have d: "memcpy (rc_buff_capacity c1) (rc_buff_size c1) w (rc_data c1) = Some d"
    using c1(5-9) by (simp add: d_def)
  define c' where "c' = c1\<lparr>rc_data := d, rc_buff_size := rc_buff_size c + length w\<rparr>"
  show ?thesis
  proof (rule that [of c'])
    show "rc_insert_message w c = Some (\<lparr>mb_offset = rc_buff_size c, mb_size = length w\<rparr>, c')"
      using c1(1,5) d assms(2) by (simp add: rc_insert_message_def c'_def)
    show "length (rc_data c') \<le> rc_buff_capacity c'" using c1(7-9) I by (simp add: c'_def d_def)
  qed (use c1 I in \<open>simp_all add: c'_def d_def\<close>)
qed

lemma rc_index_cong:
  assumes "rc_base_offset c' = rc_base_offset c"
  shows "rc_in_window t c' = rc_in_window t c" "rc_slot_index t c' = rc_slot_index t c"
  using assms by (simp_all add: rc_in_window_def rc_slot_index_def)

lemma rc_contains_lookup: "rc_contains s c \<longleftrightarrow> rc_lookup c s \<noteq> None"
  by (simp add: rc_lookup_def)

lemma rc_get_lookup: "rc_get s c = rc_lookup c s"
  by (simp add: rc_get_def rc_lookup_def Let_def bind_assert_that)

lemma slice_of_take: "off + n \<le> k \<Longrightarrow> take k xs = take k ys \<Longrightarrow> slice off n xs = slice off n ys"
  by (metis slice_take)

text \<open>Filling the slot of one number, with bytes behind those in use, changes the entry of that number only.\<close>

lemma rc_lookup_filled:
  assumes inv: "rc_inv c" and win: "rc_in_window s c" and w: "w \<noteq> []"
    and base: "rc_base_offset c' = rc_base_offset c"
    and slots: "rc_slots c' = (rc_slots c)[rc_slot_index s c := \<lparr>mb_offset = rc_buff_size c, mb_size = length w\<rparr>]"
    and data: "slice (rc_buff_size c) (length w) (rc_data c') = w" "take (rc_buff_size c) (rc_data c') = take (rc_buff_size c) (rc_data c)"
  shows "rc_lookup c' = (rc_lookup c)(s \<mapsto> w)"
proof
  fix t
  let ?i = "rc_slot_index s c"
  have I: "length (rc_slots c) = rc_window"
    "\<forall>b \<in> set (rc_slots c). b \<noteq> KEmpty \<longrightarrow> 0 < mb_size b \<and> mb_offset b + mb_size b \<le> rc_buff_size c"
    using inv by (simp_all add: rc_inv_def)
  note idx = rc_index_cong [OF base]
  consider (new) "t = s" | (old) "t \<noteq> s" "rc_in_window t c" | (out) "t \<noteq> s" "\<not> rc_in_window t c" by blast
  then show "rc_lookup c' t = ((rc_lookup c)(s \<mapsto> w)) t"
  proof cases
    case new
    then show ?thesis
      using win w rc_slot_index_in [OF win] I(1) data(1) by (simp add: rc_lookup_def rc_contains_def idx slots KEmpty_def)
  next
    case old
    let ?bt = "rc_slots c ! rc_slot_index t c"
    have ne: "rc_slot_index t c \<noteq> ?i" using rc_slot_index_inj [of t c s] old win by blast
    have ti: "rc_slot_index t c < rc_window" using rc_slot_index_in old(2) by blast
    have "slice (mb_offset ?bt) (mb_size ?bt) (rc_data c') = slice (mb_offset ?bt) (mb_size ?bt) (rc_data c)" if "?bt \<noteq> KEmpty"
      using I ti that by (intro slice_of_take [OF _ data(2)]) simp
    with old ne show ?thesis by (simp add: rc_lookup_def rc_contains_def idx slots)
  next
    case out
    then show ?thesis by (simp add: rc_lookup_def rc_contains_def idx)
  qed
qed

lemma rc_insert_ok:
  assumes inv: "rc_inv c" and win: "rc_in_window s c" and new: "rc_lookup c s = None" and w: "w \<noteq> []"
  shows "\<exists>c'. rc_insert s w c = Some c' \<and> rc_inv c' \<and> rc_lookup c' = (rc_lookup c)(s \<mapsto> w) \<and>
           rc_base_offset c' = rc_base_offset c \<and> rc_size c' = rc_size c + 1"
proof -
  let ?i = "rc_slot_index s c"
  define b where "b = \<lparr>mb_offset = rc_buff_size c, mb_size = length w\<rparr>"
  obtain c1 where c1: "rc_insert_message w c = Some (b, c1)"
    "rc_slots c1 = rc_slots c" "rc_base_offset c1 = rc_base_offset c" "rc_size c1 = rc_size c"
    "rc_buff_size c1 = rc_buff_size c + length w" "rc_buff_size c1 \<le> length (rc_data c1)" "length (rc_data c1) \<le> rc_buff_capacity c1"
    "slice (rc_buff_size c) (length w) (rc_data c1) = w"
    "take (rc_buff_size c) (rc_data c1) = take (rc_buff_size c) (rc_data c)"
    using rc_insert_message_ok [OF inv w] unfolding b_def .
  have I: "length (rc_slots c) = rc_window" "rc_size c = rc_used (rc_slots c)"
    "\<forall>b \<in> set (rc_slots c). b \<noteq> KEmpty \<longrightarrow> 0 < mb_size b \<and> mb_offset b + mb_size b \<le> rc_buff_size c"
    using inv by (simp_all add: rc_inv_def)
  have i: "?i < rc_window" using rc_slot_index_in [OF win] by simp
  have si: "rc_slot_index t c1 = rc_slot_index t c" for t by (simp add: rc_slot_index_def c1(3))
  have wi: "rc_in_window t c1 = rc_in_window t c" for t by (simp add: rc_in_window_def c1(3))
  have bne: "b \<noteq> KEmpty" using w by (simp add: b_def KEmpty_def)
  have old: "rc_slots c ! ?i = KEmpty" using new win by (simp add: rc_lookup_def rc_contains_def split: if_splits)
  have used: "rc_used ((rc_slots c)[?i := b]) = rc_used (rc_slots c) + 1"
    using rc_used_update(1) [of ?i "rc_slots c" b] i I(1) old bne by simp
  have "rc_used ((rc_slots c)[?i := b]) \<le> rc_window"
    using length_filter_le [of "\<lambda>b. b \<noteq> KEmpty" "(rc_slots c)[?i := b]"] I(1) by (simp add: rc_used_def)
  then have sz: "(rc_size c + 1) mod 2 ^ 16 = rc_size c + 1" using used I(2) by (simp add: rc_window_def)
  define c' where "c' = c1\<lparr>rc_slots := (rc_slots c)[?i := b], rc_size := rc_size c + 1\<rparr>"
  have ins: "rc_insert s w c = Some c'"
    using c1 win new sz si by (simp add: rc_insert_def rc_contains_lookup c'_def del: One_nat_def)
  have inv': "rc_inv c'"
    unfolding rc_inv_def c'_def
    using I c1(5-7) used w set_update_subset_insert [of "rc_slots c" ?i b]
    by (auto simp: b_def dest!: subsetD)
  have base: "rc_base_offset c' = rc_base_offset c" and slots: "rc_slots c' = (rc_slots c)[?i := b]" and data: "rc_data c' = rc_data c1"
    by (simp_all add: c'_def c1(3))
  have "rc_lookup c' = (rc_lookup c)(s \<mapsto> w)"
    by (rule rc_lookup_filled [OF inv win w base slots [unfolded b_def]]) (use c1(8,9) in \<open>simp_all add: data b_def\<close>)
  then show ?thesis using ins inv' by (simp add: c'_def c1(3))
qed

lemma rc_consume_ok:
  assumes inv: "rc_inv c" and "rc_lookup c s \<noteq> None"
  shows "\<exists>c'. rc_consume s c = Some c' \<and> rc_inv c' \<and> rc_lookup c' = (rc_lookup c)(s := None) \<and>
           rc_base_offset c' = rc_base_offset c \<and> rc_size c' + 1 = rc_size c"
proof -
  let ?i = "rc_slot_index s c"
  have con: "rc_contains s c" using assms(2) by (simp add: rc_contains_lookup)
  then have win: "rc_in_window s c" and bi: "rc_slots c ! ?i \<noteq> KEmpty" by (simp_all add: rc_contains_def)
  have I: "length (rc_slots c) = rc_window" "rc_size c = rc_used (rc_slots c)"
    "\<forall>b \<in> set (rc_slots c). b \<noteq> KEmpty \<longrightarrow> 0 < mb_size b \<and> mb_offset b + mb_size b \<le> rc_buff_size c"
    using inv by (simp_all add: rc_inv_def)
  have i: "?i < length (rc_slots c)" using rc_slot_index_in [OF win] I(1) by simp
  define bs where "bs = (rc_slots c)[?i := KEmpty]"
  have used: "rc_used bs + 1 = rc_size c" using rc_used_update(2) [OF i bi] I(2) by (simp add: bs_def)
  define c' where "c' = (if rc_used bs = 0 then c\<lparr>rc_slots := bs, rc_size := rc_used bs, rc_buff_size := 0\<rparr> else c\<lparr>rc_slots := bs, rc_size := rc_used bs\<rparr>)"
  have sz1: "rc_size c - 1 = rc_used bs" using used by simp
  have cons: "rc_consume s c = Some c'"
    using con by (simp add: rc_consume_def Let_def bs_def [symmetric] sz1 [simplified] c'_def)
  have sub: "set bs \<subseteq> insert KEmpty (set (rc_slots c))" unfolding bs_def by (rule set_update_subset_insert)
  have none: "b = KEmpty" if "rc_used bs = 0" "b \<in> set bs" for b
    using that by (auto simp: rc_used_def filter_empty_conv)
  have f: "rc_slots c' = bs" "rc_size c' = rc_used bs" "rc_data c' = rc_data c" "rc_buff_capacity c' = rc_buff_capacity c"
    "rc_base_offset c' = rc_base_offset c" "rc_buff_size c' = (if rc_used bs = 0 then 0 else rc_buff_size c)"
    by (simp_all add: c'_def)
  have bnd: "\<forall>b \<in> set bs. b \<noteq> KEmpty \<longrightarrow> 0 < mb_size b \<and> mb_offset b + mb_size b \<le> rc_buff_size c'"
  proof (intro ballI impI)
    fix b assume b: "b \<in> set bs" "b \<noteq> KEmpty"
    then have "b \<in> set (rc_slots c)" "rc_used bs \<noteq> 0" using sub none by blast+
    then show "0 < mb_size b \<and> mb_offset b + mb_size b \<le> rc_buff_size c'" using I(3) b(2) f(6) by simp
  qed
  have inv': "rc_inv c'"
    using inv bnd f I(1) by (simp add: rc_inv_def bs_def)
  note idx = rc_index_cong [OF f(5)]
  have "rc_lookup c' t = ((rc_lookup c)(s := None)) t" for t
  proof (cases "rc_in_window t c \<and> t \<noteq> s")
    case True
    then have "rc_slot_index t c \<noteq> ?i" using rc_slot_index_inj [of t c s] win by blast
    with True show ?thesis by (simp add: rc_lookup_def rc_contains_def idx f(1,3) bs_def)
  next
    case False
    then show ?thesis using i by (cases "t = s") (simp_all add: rc_lookup_def rc_contains_def idx f(1,3) bs_def)
  qed
  then have "rc_lookup c' = (rc_lookup c)(s := None)" by (rule ext)
  then show ?thesis using cons inv' used f by simp
qed

section \<open>The interface of the session\<close>

text \<open>A use of a buffer with keys, and what it does to a plain map that refuses what the buffer must refuse.\<close>

datatype ('k, 'v) buffer_op = Put 'k 'v | Take 'k

fun run_op :: "('k \<Rightarrow> 'v \<Rightarrow> 's \<Rightarrow> 's option) \<Rightarrow> ('k \<Rightarrow> 's \<Rightarrow> 's option) \<Rightarrow> ('k, 'v) buffer_op \<Rightarrow> 's \<Rightarrow> 's option" where
  "run_op ins del (Put k v) s = ins k v s"
| "run_op ins del (Take k) s = del k s"

primrec run_ops :: "('k \<Rightarrow> 'v \<Rightarrow> 's \<Rightarrow> 's option) \<Rightarrow> ('k \<Rightarrow> 's \<Rightarrow> 's option) \<Rightarrow> ('k, 'v) buffer_op list \<Rightarrow> 's \<Rightarrow> 's option" where
  "run_ops ins del [] s = Some s"
| "run_ops ins del (p # ps) s = run_op ins del p s \<bind> run_ops ins del ps"

definition map_put :: "('k \<Rightarrow> bool) \<Rightarrow> ('v \<Rightarrow> bool) \<Rightarrow> 'k \<Rightarrow> 'v \<Rightarrow> ('k \<rightharpoonup> 'v) \<Rightarrow> ('k \<rightharpoonup> 'v) option" where
  "map_put accepted good k v m = (if accepted k \<and> m k = None \<and> good v then Some (m(k \<mapsto> v)) else None)"

definition map_take :: "'k \<Rightarrow> ('k \<rightharpoonup> 'v) \<Rightarrow> ('k \<rightharpoonup> 'v) option" where
  "map_take k m = (if m k \<noteq> None then Some (m(k := None)) else None)"

locale keyed_buffer =
  fixes ok :: "'s \<Rightarrow> bool" and lookup :: "'s \<Rightarrow> 'k \<Rightarrow> 'v option" and accepts :: "'s \<Rightarrow> 'k \<Rightarrow> bool" and good :: "'v \<Rightarrow> bool"
    and ins :: "'k \<Rightarrow> 'v \<Rightarrow> 's \<Rightarrow> 's option" and del :: "'k \<Rightarrow> 's \<Rightarrow> 's option"
  assumes ins_ok: "ok s \<Longrightarrow> accepts s k \<Longrightarrow> lookup s k = None \<Longrightarrow> good v \<Longrightarrow>
      \<exists>s'. ins k v s = Some s' \<and> ok s' \<and> lookup s' = (lookup s)(k \<mapsto> v) \<and> accepts s' = accepts s"
    and ins_refuses: "\<not> (accepts s k \<and> lookup s k = None \<and> good v) \<Longrightarrow> ins k v s = None"
    and del_ok: "ok s \<Longrightarrow> lookup s k \<noteq> None \<Longrightarrow>
      \<exists>s'. del k s = Some s' \<and> ok s' \<and> lookup s' = (lookup s)(k := None) \<and> accepts s' = accepts s"
    and del_refuses: "lookup s k = None \<Longrightarrow> del k s = None"
begin

definition stands_for :: "('k \<Rightarrow> bool) \<Rightarrow> 's \<Rightarrow> ('k \<rightharpoonup> 'v) \<Rightarrow> bool" where
  "stands_for accepted s m \<longleftrightarrow> ok s \<and> lookup s = m \<and> accepts s = accepted"

lemma run_op_refines:
  assumes "stands_for accepted s m"
  shows "rel_option (stands_for accepted) (run_op ins del p s) (run_op (map_put accepted good) map_take p m)"
proof (cases p)
  case (Put k v)
  then show ?thesis
    using assms ins_ok [of s k v] ins_refuses [of s k v] by (auto simp: stands_for_def map_put_def)
next
  case (Take k)
  then show ?thesis
    using assms del_ok [of s k] del_refuses [of s k] by (auto simp: stands_for_def map_take_def)
qed

lemma run_ops_refines:
  assumes "stands_for accepted s m"
  shows "rel_option (stands_for accepted) (run_ops ins del ps s) (run_ops (map_put accepted good) map_take ps m)"
  using assms
proof (induction ps arbitrary: s m)
  case (Cons p ps)
  show ?case
    using run_op_refines [OF Cons.prems, of p] Cons.IH by (cases rule: option.rel_cases) simp_all
qed simp

end

interpretation rc: keyed_buffer rc_inv rc_lookup "\<lambda>c s. rc_in_window s c" "\<lambda>w. w \<noteq> []" rc_insert rc_consume
proof
  fix c s and w :: string
  assume c: "rc_inv c"
  show "\<exists>c'. rc_insert s w c = Some c' \<and> rc_inv c' \<and> rc_lookup c' = (rc_lookup c)(s \<mapsto> w) \<and>
      (\<lambda>t. rc_in_window t c') = (\<lambda>t. rc_in_window t c)"
    if "rc_in_window s c" "rc_lookup c s = None" "w \<noteq> []"
    using rc_insert_ok [OF c that] by (auto simp: rc_in_window_def)
  show "\<exists>c'. rc_consume s c = Some c' \<and> rc_inv c' \<and> rc_lookup c' = (rc_lookup c)(s := None) \<and>
      (\<lambda>t. rc_in_window t c') = (\<lambda>t. rc_in_window t c)"
    if "rc_lookup c s \<noteq> None"
    using rc_consume_ok [OF c that] by (auto simp: rc_in_window_def)
next
  fix c s and w :: string
  show "rc_insert s w c = None" if "\<not> (rc_in_window s c \<and> rc_lookup c s = None \<and> w \<noteq> [])"
    using that by (auto simp: rc_insert_def rc_insert_message_def rc_contains_lookup bind_assert_that)
  show "rc_consume s c = None" if "rc_lookup c s = None"
    using that by (simp add: rc_consume_def rc_contains_lookup)
qed

text \<open>
  C14: The recovery cache is a finite map on its window. After \<open>start(base)\<close>, whatever the cache held before, take any
  sequence of insertions and removals in any order. The sequence runs through exactly when the same sequence is
  allowed on a map from the 512 numbers from \<open>base\<close> to messages: each insertion has a number of the window that is not in the map and a
  message that is not empty, each removal a number that is in it; otherwise an assertion fails. When it runs through, \<open>contains\<close>
  and \<open>get\<close> answer for every number exactly as the map does, byte for byte, also when the buffer had to grow.\<close>

theorem recovery_cache_correct:
  assumes "rc_inv c"
  shows "case run_ops (map_put (\<lambda>k. base \<le> k \<and> unat (k - base) < rc_window) (\<lambda>w. w \<noteq> [])) map_take ps Map.empty of
      None \<Rightarrow> run_ops rc_insert rc_consume ps (rc_start base c) = None
    | Some m \<Rightarrow> \<exists>c'. run_ops rc_insert rc_consume ps (rc_start base c) = Some c' \<and> rc_inv c' \<and>
        (\<forall>k. rc_contains k c' = (m k \<noteq> None) \<and> rc_get k c' = m k)"
proof -
  have "rc_lookup (rc_start base c) = Map.empty" using rc_start_ok(2) [OF assms] by auto
  moreover have "rc_in_window k (rc_start base c) \<longleftrightarrow> base \<le> k \<and> unat (k - base) < rc_window" for k
    using rc_start_ok(3) [OF assms, of base] by (auto simp: rc_in_window_def not_less)
  ultimately have "rc.stands_for (\<lambda>k. base \<le> k \<and> unat (k - base) < rc_window) (rc_start base c) Map.empty"
    using rc_start_ok(1) [OF assms] by (simp add: rc.stands_for_def)
  from rc.run_ops_refines [OF this, of ps] show ?thesis
    by (cases rule: option.rel_cases) (auto simp: rc.stands_for_def rc_contains_lookup rc_get_lookup)
qed

theorem recovery_cache_correct_witness:
  "\<exists>c'. run_ops rc_insert rc_consume [Put 12 ''b'', Put 11 ''a'', Take 12, Put 12 ''c''] (rc_start 10 rc_new) = Some c' \<and>
     rc_get 12 c' = Some ''c'' \<and> rc_get 11 c' = Some ''a'' \<and> rc_get 10 c' = None"
proof -
  have m: "run_ops (map_put (\<lambda>k :: SeqNum. 10 \<le> k \<and> unat (k - 10) < rc_window) (\<lambda>w :: string. w \<noteq> [])) map_take
      [Put 12 ''b'', Put 11 ''a'', Take 12, Put 12 ''c''] Map.empty = Some ([11 \<mapsto> ''a'', 12 \<mapsto> ''c''])"
    by (simp add: map_put_def map_take_def rc_window_def fun_eq_iff)
  show ?thesis
    using recovery_cache_correct [OF rc_new_inv, where base = 10 and ps = "[Put 12 ''b'', Put 11 ''a'', Take 12, Put 12 ''c'']"] unfolding m by auto
qed

text \<open>An insertion outside the window fails the \<open>assert\<close>, in front of a write outside the array of slots.\<close>

lemma rc_insert_outside_window: "\<not> rc_in_window s c \<Longrightarrow> rc_insert s w c = None"
  by (simp add: rc_insert_def)

end
