(* ===== verification/Arena.thy ===== *)
theory Arena
  imports Factory_Scratch
begin

text \<open>
  \<open>Arena\<close>, \<open>ArenaHandle\<close> (include/fix/core/Arena.hpp, src/Arena.cpp) and \<open>WireWriter\<close>
  (include/fix/core/WireWriter.hpp, src/WireWriter.cpp): sixteen blocks of eight kilobytes with a
  free list threaded through the free blocks, and a heap allocation when a request is too large
  or the arena is used up. A block holds either the link written by \<open>write_next\<close> or bytes
  written through a handle; reading a link where bytes are is a fault. A handle owns its block
  until it is destroyed or assigned; a moved-from handle has no source.
\<close>

datatype MemSourceType = MST_Arena | MST_Heap | MST_None

definition block_size :: nat where
  "block_size = 8 * 1024"

definition block_count :: nat where
  "block_count = 16"

definition arena_end :: nat where
  "arena_end = 2 ^ 32 - 1"

datatype block = Link nat | Data string

record arena =
  ar_blocks :: "block list"
  ar_free_index :: nat

text \<open>\<open>ah_heap\<close> is the initialised part of the memory behind a heap handle.\<close>

record ArenaHandle =
  ah_index :: nat
  ah_cap :: nat
  ah_source :: MemSourceType
  ah_heap :: string

definition handle_none :: ArenaHandle where
  "handle_none = \<lparr>ah_index = arena_end, ah_cap = 0, ah_source = MST_None, ah_heap = []\<rparr>"

definition write_next :: "nat \<Rightarrow> nat \<Rightarrow> arena \<Rightarrow> arena option" where
  "write_next idx next a =
     do { assert_that (idx < length (ar_blocks a)); Some (a\<lparr>ar_blocks := (ar_blocks a)[idx := Link next]\<rparr>) }"

definition read_next :: "nat \<Rightarrow> arena \<Rightarrow> nat option" where
  "read_next idx a = do { b \<leftarrow> array_get (ar_blocks a) idx; (case b of Link n \<Rightarrow> Some n | Data d \<Rightarrow> None) }"

primrec link_blocks :: "nat list \<Rightarrow> arena \<Rightarrow> arena option" where
  "link_blocks [] a = Some a"
| "link_blocks (i # is) a = do { a' \<leftarrow> write_next i (i + 1) a; link_blocks is a' }"

definition arena_new :: "arena option" where
  "arena_new =
     do { a \<leftarrow> link_blocks [0..<block_count] \<lparr>ar_blocks = replicate block_count (Data []), ar_free_index = 0\<rparr>;
          write_next (block_count - 1) arena_end a }"

definition arena_release :: "nat \<Rightarrow> arena \<Rightarrow> arena option" where
  "arena_release idx a =
     do { a' \<leftarrow> write_next idx (ar_free_index a) a; Some (a'\<lparr>ar_free_index := idx\<rparr>) }"

definition allocate_heap :: "nat \<Rightarrow> arena \<Rightarrow> (ArenaHandle \<times> arena) option" where
  "allocate_heap sz a = Some (\<lparr>ah_index = arena_end, ah_cap = sz, ah_source = MST_Heap, ah_heap = []\<rparr>, a)"

text \<open>The fresh block keeps its link bytes until they are overwritten; its contents do not count.\<close>

definition allocate_arena :: "arena \<Rightarrow> (ArenaHandle \<times> arena) option" where
  "allocate_arena a =
     do { let allocated_index = ar_free_index a;
          next \<leftarrow> read_next allocated_index a;
          Some (\<lparr>ah_index = allocated_index, ah_cap = block_size, ah_source = MST_Arena, ah_heap = []\<rparr>,
                a\<lparr>ar_free_index := next, ar_blocks := (ar_blocks a)[allocated_index := Data []]\<rparr>) }"

definition arena_allocate :: "nat \<Rightarrow> arena \<Rightarrow> (ArenaHandle \<times> arena) option" where
  "arena_allocate sz a =
     (if sz > block_size \<or> ar_free_index a = arena_end then allocate_heap sz a else allocate_arena a)"

text \<open>The destructor; freeing heap memory has no effect on the arena.\<close>

definition handle_destroy :: "ArenaHandle \<Rightarrow> arena \<Rightarrow> arena option" where
  "handle_destroy h a =
     (case ah_source h of MST_Heap \<Rightarrow> Some a | MST_Arena \<Rightarrow> arena_release (ah_index h) a | MST_None \<Rightarrow> Some a)"

text \<open>Move assignment \<open>h = std::move(other)\<close> from another handle: the new target, the moved-from source, the arena.\<close>

definition handle_assign :: "ArenaHandle \<Rightarrow> ArenaHandle \<Rightarrow> arena \<Rightarrow> (ArenaHandle \<times> ArenaHandle \<times> arena) option" where
  "handle_assign h other a = do { a' \<leftarrow> handle_destroy h a; Some (other, handle_none, a') }"

definition handle_bytes :: "ArenaHandle \<Rightarrow> arena \<Rightarrow> string option" where
  "handle_bytes h a =
     (case ah_source h of
        MST_Heap \<Rightarrow> Some (ah_heap h)
      | MST_Arena \<Rightarrow> do { b \<leftarrow> array_get (ar_blocks a) (ah_index h); (case b of Data d \<Rightarrow> Some d | Link n \<Rightarrow> None) }
      | MST_None \<Rightarrow> None)"

definition handle_write :: "nat \<Rightarrow> string \<Rightarrow> ArenaHandle \<Rightarrow> arena \<Rightarrow> (ArenaHandle \<times> arena) option" where
  "handle_write off xs h a =
     do { d \<leftarrow> handle_bytes h a;
          d' \<leftarrow> memcpy (ah_cap h) off xs d;
          (case ah_source h of
             MST_Heap \<Rightarrow> Some (h\<lparr>ah_heap := d'\<rparr>, a)
           | MST_Arena \<Rightarrow> Some (h, a\<lparr>ar_blocks := (ar_blocks a)[ah_index h := Data d']\<rparr>)
           | MST_None \<Rightarrow> None) }"

section \<open>WireWriter\<close>

record WireWriter =
  ww_handle :: ArenaHandle
  ww_size :: nat

definition ww_append :: "string \<Rightarrow> WireWriter \<times> arena \<Rightarrow> (WireWriter \<times> arena) option" where
  "ww_append xs wa =
     (case wa of (w, a) \<Rightarrow>
        do { (h, a') \<leftarrow> handle_write (ww_size w) xs (ww_handle w) a;
             Some (w\<lparr>ww_handle := h, ww_size := ww_size w + length xs\<rparr>, a') })"

definition ww_append_char :: "char \<Rightarrow> WireWriter \<times> arena \<Rightarrow> (WireWriter \<times> arena) option" where
  "ww_append_char c wa = ww_append [c] wa"

definition ww_append_eq :: "WireWriter \<times> arena \<Rightarrow> (WireWriter \<times> arena) option" where
  "ww_append_eq wa = ww_append_char CHR ''='' wa"

definition ww_append_soh :: "WireWriter \<times> arena \<Rightarrow> (WireWriter \<times> arena) option" where
  "ww_append_soh wa = ww_append_char SOH wa"

definition ww_append_int :: "int \<Rightarrow> WireWriter \<times> arena \<Rightarrow> (WireWriter \<times> arena) option" where
  "ww_append_int i wa = ww_append (to_chars_int i) wa"

definition from_arena :: "string \<Rightarrow> arena \<Rightarrow> (WireWriter \<times> arena) option" where
  "from_arena msg_wire a =
     do { (h, a1) \<leftarrow> arena_allocate (length msg_wire) a;
          ww_append msg_wire (\<lparr>ww_handle = h, ww_size = 0\<rparr>, a1) }"

definition ww_view :: "WireWriter \<Rightarrow> arena \<Rightarrow> string option" where
  "ww_view w a = do { d \<leftarrow> handle_bytes (ww_handle w) a; assert_that (ww_size w \<le> length d); Some (take (ww_size w) d) }"

definition ww_destroy :: "WireWriter \<Rightarrow> arena \<Rightarrow> arena option" where
  "ww_destroy w a = handle_destroy (ww_handle w) a"

section \<open>The free list\<close>

fun chain :: "block list \<Rightarrow> nat \<Rightarrow> nat list \<Rightarrow> bool" where
  "chain bs i [] \<longleftrightarrow> i = arena_end"
| "chain bs i (k # ks) \<longleftrightarrow> i = k \<and> k < length bs \<and> (\<exists>n. bs ! k = Link n \<and> chain bs n ks)"

text \<open>Every block is on the free list or owned by exactly one live handle.\<close>

definition arena_inv :: "arena \<Rightarrow> nat list \<Rightarrow> bool" where
  "arena_inv a live \<longleftrightarrow> length (ar_blocks a) = block_count \<and>
     (\<exists>free. chain (ar_blocks a) (ar_free_index a) free \<and> distinct (free @ live) \<and> set (free @ live) = {..<block_count}) \<and>
     (\<forall>i \<in> set live. \<exists>d. ar_blocks a ! i = Data d)"

lemma chain_update: "k \<notin> set ks \<Longrightarrow> chain (bs[k := b]) i ks = chain bs i ks"
  by (induction ks arbitrary: i) auto

definition live_of :: "ArenaHandle \<Rightarrow> nat list" where
  "live_of h = (if ah_source h = MST_Arena then [ah_index h] else [])"

lemma arena_allocate_ok:
  assumes "arena_inv a live"
  shows "\<exists>h a'. arena_allocate sz a = Some (h, a') \<and> sz \<le> ah_cap h \<and> ah_source h \<noteq> MST_None \<and>
     set (live_of h) \<inter> set live = {} \<and> arena_inv a' (live_of h @ live) \<and> handle_bytes h a' = Some [] \<and>
     (\<forall>i \<in> set live. ar_blocks a' ! i = ar_blocks a ! i)"
proof (cases "sz > block_size \<or> ar_free_index a = arena_end")
  case True
  then show ?thesis using assms by (simp add: arena_allocate_def allocate_heap_def live_of_def handle_bytes_def)
next
  case False
  from assms obtain free where f: "chain (ar_blocks a) (ar_free_index a) free" "distinct (free @ live)" "set (free @ live) = {..<block_count}"
    and len: "length (ar_blocks a) = block_count" and dat: "\<forall>i \<in> set live. \<exists>d. ar_blocks a ! i = Data d"
    by (auto simp: arena_inv_def)
  from f(1) False obtain k ks n where k: "free = k # ks" "ar_free_index a = k" "k < length (ar_blocks a)" "ar_blocks a ! k = Link n"
    "chain (ar_blocks a) n ks"
    by (cases free) auto
  define a' where "a' = a\<lparr>ar_free_index := n, ar_blocks := (ar_blocks a)[k := Data []]\<rparr>"
  define h where "h = \<lparr>ah_index = k, ah_cap = block_size, ah_source = MST_Arena, ah_heap = []\<rparr>"
  have al: "arena_allocate sz a = Some (h, a')"
    using False k by (simp add: arena_allocate_def allocate_arena_def read_next_def a'_def h_def Let_def)
  have kl: "k \<notin> set ks" "k \<notin> set live" using f(2) k(1) by auto
  have "chain (ar_blocks a') (ar_free_index a') ks" using k(5) kl(1) by (simp add: a'_def chain_update)
  moreover have "distinct (ks @ k # live)" "set (ks @ k # live) = {..<block_count}" using f k(1) by auto
  moreover have "\<forall>i \<in> set (k # live). \<exists>d. ar_blocks a' ! i = Data d" using dat k(3) kl by (auto simp: a'_def nth_list_update)
  ultimately have "arena_inv a' (k # live)" using len by (auto simp: arena_inv_def a'_def)
  moreover have "\<forall>i \<in> set live. ar_blocks a' ! i = ar_blocks a ! i"
    using kl(2) by (intro ballI) (simp add: a'_def, metis nth_list_update_neq)
  ultimately show ?thesis using al False k(3) kl by (simp add: h_def live_of_def handle_bytes_def a'_def)
qed

lemma handle_destroy_ok:
  assumes "arena_inv a (live_of h @ live)"
  shows "\<exists>a'. handle_destroy h a = Some a' \<and> arena_inv a' live \<and> (\<forall>i \<in> set live. ar_blocks a' ! i = ar_blocks a ! i)"
proof (cases "ah_source h")
  case MST_Arena
  let ?k = "ah_index h"
  from assms MST_Arena obtain free where f: "chain (ar_blocks a) (ar_free_index a) free" "distinct (free @ ?k # live)"
    "set (free @ ?k # live) = {..<block_count}"
    and len: "length (ar_blocks a) = block_count" and dat: "\<forall>i \<in> set live. \<exists>d. ar_blocks a ! i = Data d"
    by (auto simp: arena_inv_def live_of_def)
  have k: "?k < block_count" "?k \<notin> set free" "?k \<notin> set live" using f by auto
  define a' where "a' = a\<lparr>ar_blocks := (ar_blocks a)[?k := Link (ar_free_index a)], ar_free_index := ?k\<rparr>"
  have "handle_destroy h a = Some a'"
    using MST_Arena k len by (simp add: handle_destroy_def arena_release_def write_next_def a'_def)
  moreover have "chain (ar_blocks a') (ar_free_index a') (?k # free)"
    using f(1) k len by (simp add: a'_def chain_update)
  moreover have "distinct ((?k # free) @ live)" "set ((?k # free) @ live) = {..<block_count}" using f by auto
  moreover have same: "\<forall>i \<in> set live. ar_blocks a' ! i = ar_blocks a ! i"
    using k(3) by (intro ballI) (simp add: a'_def, metis nth_list_update_neq)
  ultimately have "arena_inv a' live"
    using len dat unfolding arena_inv_def by (intro conjI exI [of _ "?k # free"]) (auto simp: a'_def)
  with \<open>handle_destroy h a = Some a'\<close> same show ?thesis by blast
qed (use assms in \<open>simp_all add: handle_destroy_def live_of_def\<close>)

lemma arena_inv_move: "arena_inv a (xs @ ys @ zs) = arena_inv a (ys @ xs @ zs)"
proof -
  have "distinct (free @ xs @ ys @ zs) = distinct (free @ ys @ xs @ zs)" "set (free @ xs @ ys @ zs) = set (free @ ys @ xs @ zs)" for free
    by auto
  then show ?thesis unfolding arena_inv_def by (metis Un_left_commute set_append)
qed

lemma arena_new_ok: "\<exists>a. arena_new = Some a \<and> arena_inv a []"
proof -
  define bs where "bs = map Link [1..<block_count] @ [Link arena_end]"
  have new: "arena_new = Some \<lparr>ar_blocks = bs, ar_free_index = 0\<rparr>"
    by (simp add: arena_new_def block_count_def write_next_def bs_def upt_rec eval_nat_numeral)
  have "chain bs 0 [0..<block_count]"
    by (simp add: bs_def block_count_def upt_rec eval_nat_numeral)
  then show ?thesis
    using new by (auto simp: arena_inv_def bs_def block_count_def atLeast0LessThan intro!: exI [of _ "[0..<16]"])
qed

lemma handle_bytes_other:
  "(\<forall>i \<in> set (live_of h). ar_blocks a' ! i = ar_blocks a ! i) \<Longrightarrow> length (ar_blocks a') = length (ar_blocks a) \<Longrightarrow>
   handle_bytes h a' = handle_bytes h a"
  by (auto simp: handle_bytes_def live_of_def array_get_def split: MemSourceType.splits)

lemma arena_inv_length: "arena_inv a live \<Longrightarrow> length (ar_blocks a) = block_count"
  by (simp add: arena_inv_def)

lemma from_arena_ok:
  assumes "arena_inv a live"
  shows "\<exists>w a'. from_arena m a = Some (w, a') \<and> ww_view w a' = Some m \<and> ah_source (ww_handle w) \<noteq> MST_None \<and>
     arena_inv a' (live_of (ww_handle w) @ live) \<and> (\<forall>i \<in> set live. ar_blocks a' ! i = ar_blocks a ! i)"
proof -
  obtain h a1 where h: "arena_allocate (length m) a = Some (h, a1)" "length m \<le> ah_cap h" "ah_source h \<noteq> MST_None"
    "set (live_of h) \<inter> set live = {}" "arena_inv a1 (live_of h @ live)" "handle_bytes h a1 = Some []"
    "\<forall>i \<in> set live. ar_blocks a1 ! i = ar_blocks a ! i"
    using arena_allocate_ok [OF assms, of "length m"] by blast
  show ?thesis
  proof (cases "ah_source h")
    case MST_Heap
    have "from_arena m a = Some (\<lparr>ww_handle = h\<lparr>ah_heap := m\<rparr>, ww_size = length m\<rparr>, a1)"
      using h MST_Heap by (simp add: from_arena_def ww_append_def handle_write_def)
    with h MST_Heap show ?thesis by (simp add: ww_view_def handle_bytes_def live_of_def)
  next
    case MST_Arena
    let ?k = "ah_index h"
    define a2 where "a2 = a1\<lparr>ar_blocks := (ar_blocks a1)[?k := Data m]\<rparr>"
    have fa: "from_arena m a = Some (\<lparr>ww_handle = h, ww_size = length m\<rparr>, a2)"
      using h MST_Arena by (simp add: from_arena_def ww_append_def handle_write_def a2_def)
    from h(5) MST_Arena obtain free where f: "chain (ar_blocks a1) (ar_free_index a1) free" "distinct (free @ ?k # live)"
      "set (free @ ?k # live) = {..<block_count}" and len: "length (ar_blocks a1) = block_count"
      and dat: "\<forall>i \<in> set live. \<exists>d. ar_blocks a1 ! i = Data d"
      by (auto simp: arena_inv_def live_of_def)
    have k: "?k < block_count" "?k \<notin> set free" "?k \<notin> set live" using f by auto
    have same: "\<forall>i \<in> set live. ar_blocks a2 ! i = ar_blocks a1 ! i"
      using k(3) by (intro ballI) (simp add: a2_def, metis nth_list_update_neq)
    have "arena_inv a2 (?k # live)"
      unfolding arena_inv_def using f len dat k same by (auto simp: a2_def chain_update intro!: exI [of _ free])
    moreover have "ww_view \<lparr>ww_handle = h, ww_size = length m\<rparr> a2 = Some m"
      using MST_Arena k len by (simp add: ww_view_def handle_bytes_def a2_def)
    ultimately show ?thesis using fa h(3,7) same MST_Arena by (auto simp: live_of_def)
  qed (use h in simp)
qed

section \<open>Writers in flight\<close>

text \<open>All states of an arena and its live writers, each with the message it was made for.\<close>

inductive arena_reach :: "arena \<Rightarrow> (WireWriter \<times> string) list \<Rightarrow> bool" where
  reach_new: "arena_new = Some a \<Longrightarrow> arena_reach a []"
| reach_write: "arena_reach a ws \<Longrightarrow> from_arena m a = Some (w, a') \<Longrightarrow> arena_reach a' ((w, m) # ws)"
| reach_destroy: "arena_reach a (xs @ (w, m) # ys) \<Longrightarrow> ww_destroy w a = Some a' \<Longrightarrow> arena_reach a' (xs @ ys)"

definition live_blocks :: "(WireWriter \<times> string) list \<Rightarrow> nat list" where
  "live_blocks ws = concat (map (\<lambda>(w, m). live_of (ww_handle w)) ws)"

definition writers_ok :: "arena \<Rightarrow> (WireWriter \<times> string) list \<Rightarrow> bool" where
  "writers_ok a ws \<longleftrightarrow> arena_inv a (live_blocks ws) \<and> (\<forall>(w, m) \<in> set ws. ww_view w a = Some m)"

lemma live_of_subset: "(w, m) \<in> set ws \<Longrightarrow> set (live_of (ww_handle w)) \<subseteq> set (live_blocks ws)"
  by (auto simp: live_blocks_def)

lemma views_kept:
  assumes "\<forall>(w, m) \<in> set ws. ww_view w a = Some m" "\<forall>i \<in> set (live_blocks ws). ar_blocks a' ! i = ar_blocks a ! i"
    "length (ar_blocks a') = length (ar_blocks a)"
  shows "\<forall>(w, m) \<in> set ws. ww_view w a' = Some m"
proof (intro ballI, clarify)
  fix w m assume wm: "(w, m) \<in> set ws"
  then have "handle_bytes (ww_handle w) a' = handle_bytes (ww_handle w) a"
    using assms(2,3) live_of_subset [OF wm] by (intro handle_bytes_other) auto
  with assms(1) wm show "ww_view w a' = Some m" by (auto simp: ww_view_def)
qed

lemma writers_ok_write:
  assumes "writers_ok a ws"
  shows "\<exists>w a'. from_arena m a = Some (w, a') \<and> writers_ok a' ((w, m) # ws)"
proof -
  obtain w a' where w: "from_arena m a = Some (w, a')" "ww_view w a' = Some m"
    "arena_inv a' (live_of (ww_handle w) @ live_blocks ws)" "\<forall>i \<in> set (live_blocks ws). ar_blocks a' ! i = ar_blocks a ! i"
    using from_arena_ok [of a "live_blocks ws" m] assms by (auto simp: writers_ok_def)
  have "length (ar_blocks a') = length (ar_blocks a)"
    using w(3) assms by (simp add: writers_ok_def arena_inv_def)
  then show ?thesis
    using w assms views_kept [of ws a a'] by (auto simp: writers_ok_def live_blocks_def)
qed

lemma writers_ok_destroy:
  assumes "writers_ok a (xs @ (w, m) # ys)"
  shows "\<exists>a'. ww_destroy w a = Some a' \<and> writers_ok a' (xs @ ys)"
proof -
  have "arena_inv a (live_of (ww_handle w) @ live_blocks (xs @ ys))"
    using assms arena_inv_move [of a "live_blocks xs" "live_of (ww_handle w)" "live_blocks ys"]
    by (simp add: writers_ok_def live_blocks_def)
  then obtain a' where a': "handle_destroy (ww_handle w) a = Some a'" "arena_inv a' (live_blocks (xs @ ys))"
    "\<forall>i \<in> set (live_blocks (xs @ ys)). ar_blocks a' ! i = ar_blocks a ! i"
    using handle_destroy_ok by blast
  have "length (ar_blocks a') = length (ar_blocks a)" using a'(2) assms by (simp add: writers_ok_def arena_inv_def)
  then show ?thesis
    using a' assms views_kept [of "xs @ ys" a a'] by (auto simp: writers_ok_def ww_destroy_def)
qed

lemma reach_writers_ok: "arena_reach a ws \<Longrightarrow> writers_ok a ws"
proof (induction rule: arena_reach.induct)
  case (reach_new a)
  then have "arena_inv a []" using arena_new_ok by (metis option.inject)
  then show ?case by (simp add: writers_ok_def live_blocks_def)
next
  case (reach_write a ws m w a')
  then show ?case using writers_ok_write [of a ws m] by auto
next
  case (reach_destroy a xs w m ys a')
  then show ?case using writers_ok_destroy [of a xs w m ys] by auto
qed



end
