(* ===== verification/Network_Error.thy ===== *)
theory Network_Error
  imports Fix_Prelude
begin

text \<open>
  The classification of network errors (include/fix/error/Network.hpp). The error codes are the
  values of \<open>boost::asio::error\<close> and \<open>boost::system::errc\<close> that the code names, and one constructor for every other code.
  An \<open>error_code\<close> is an optional error; \<open>None\<close> is success.
\<close>

datatype asio_error =
  operation_aborted | eof | would_block | try_again | timed_out | not_connected | connection_reset
  | connection_aborted | broken_pipe | network_down | network_unreachable | host_unreachable
  | bad_descriptor | connection_refused | address_family_not_supported | already_connected
  | invalid_argument | host_not_found | host_not_found_try_again | service_not_found | no_recovery
  | address_in_use | too_many_files_open | too_many_files_open_in_system | no_buffer_space
  | other_error

type_synonym error_code = "asio_error option"

datatype RetryClass = Permanent | Transient | Canceled

definition classify_resolve_error :: "asio_error \<Rightarrow> RetryClass" where
  "classify_resolve_error ec =
     (if ec = operation_aborted then Canceled
      else if ec = host_not_found_try_again then Transient
      else if ec = host_not_found \<or> ec = service_not_found \<or> ec = no_recovery \<or> ec = invalid_argument then Permanent
      else Transient)"

definition classify_connect_error :: "asio_error \<Rightarrow> RetryClass" where
  "classify_connect_error ec =
     (if ec = operation_aborted then Canceled
      else if ec = connection_refused \<or> ec = timed_out \<or> ec = network_unreachable \<or> ec = host_unreachable \<or>
              ec = connection_reset then Transient
      else if ec = address_family_not_supported \<or> ec = already_connected \<or> ec = invalid_argument then Permanent
      else Transient)"

definition classify_readwrite_error :: "asio_error \<Rightarrow> RetryClass" where
  "classify_readwrite_error ec =
     (if ec = operation_aborted \<or> ec = eof then Canceled
      else if ec = would_block \<or> ec = try_again \<or> ec = timed_out then Transient
      else if ec = not_connected \<or> ec = connection_reset \<or> ec = connection_aborted \<or> ec = broken_pipe \<or>
              ec = network_down \<or> ec = network_unreachable \<or> ec = host_unreachable \<or> ec = bad_descriptor then Permanent
      else Transient)"

end
