(* ===== verification/Session.thy ===== *)
theory Session
  imports Framer_Refinement Validator Message_Factory Recovery_Cache Arena Network_Error
begin

text \<open>
  \<open>Fix::Session\<close> (include/fix/core/Session.hpp, src/Session.cpp). All members run on the strand
  of the session, so each completion handler or public call is one atomic step from one session
  record to the next; \<open>boost::asio::dispatch\<close> from a handler runs its function at once. What the
  session does to the outside (reads and writes started on the connection, timers, log lines,
  the reconnect and application callbacks) is appended to \<open>s_out\<close> in the order of the calls.
  \<open>conn_\<close> is whether the pointer is set; dereferencing it when it is not is a fault, as are a
  failed \<open>assert\<close> and the faults of the components. The parse context is overwritten by each
  parse and is not part of the state.
\<close>

datatype SessionState =
  AWAITING_LOGON | AWAITING_LOGOUT | LOGON_RECEIVED | LOGON_SENT | RECOVERING_RESEND | ACTIVE | DISCONNECTED

datatype StartMode = NORMAL | RECONNECT

datatype SessionTimer = Logon_Timer | Inbound_Timer | Heartbeat_Timer | Logout_Timer

datatype Effect =
  Async_Read
  | Async_Write string
  | Close_Conn
  | Timer_Start SessionTimer nat
  | Timer_Cancel SessionTimer
  | Reconnect_Call SessionID
  | App_Sink ValidMessageView SessionID
  | Log string

record PendingWrite =
  pw_data :: WireWriter
  pw_sent :: nat

record session =
  s_recovery_cache :: rcache
  s_arena :: arena
  s_params :: SessionParameters
  s_write_q :: "PendingWrite list"
  s_conn :: bool
  s_framer :: framer
  s_id :: SessionID
  s_store :: mstore
  s_state :: SessionState
  s_seq :: SeqProvider
  s_scratch :: fscratch
  s_validator :: Validator
  s_test_req_id :: "64 word"
  s_stopped :: bool
  s_write_inflight :: bool
  s_awaiting_test_request_response :: bool
  s_reconnecting :: bool
  s_role :: Role
  s_out :: "Effect list"

definition logon_response_timeout :: nat where
  "logon_response_timeout = 10"

definition logout_response_timeout :: nat where
  "logout_response_timeout = 30"

definition session_new :: "SessionID \<Rightarrow> Role \<Rightarrow> SessionParameters \<Rightarrow> session option" where
  "session_new session_id role params =
     do { a \<leftarrow> arena_new;
          Some \<lparr>s_recovery_cache = rc_new, s_arena = a, s_params = params, s_write_q = [], s_conn = False,
            s_framer = framer_new, s_id = session_id, s_store = ms_new, s_state = DISCONNECTED, s_seq = sp_new,
            s_scratch = sc_new, s_validator = \<lparr>v_results = vr_clear, v_scratch = []\<rparr>, s_test_req_id = 0,
            s_stopped = False, s_write_inflight = False, s_awaiting_test_request_response = False,
            s_reconnecting = False, s_role = role, s_out = []\<rparr> }"

definition emit :: "Effect list \<Rightarrow> session \<Rightarrow> session" where
  "emit es s = s\<lparr>s_out := s_out s @ es\<rparr>"

definition cancel_timers :: "session \<Rightarrow> session" where
  "cancel_timers s =
     emit [Timer_Cancel Logon_Timer, Timer_Cancel Inbound_Timer, Timer_Cancel Heartbeat_Timer, Timer_Cancel Logout_Timer] s"

text \<open>\<open>write_q_.clear()\<close>: the destructors give the blocks back to the arena.\<close>

primrec release_writes :: "PendingWrite list \<Rightarrow> arena \<Rightarrow> arena option" where
  "release_writes [] a = Some a"
| "release_writes (p # ps) a = do { a' \<leftarrow> ww_destroy (pw_data p) a; release_writes ps a' }"

definition clear_write_q :: "session \<Rightarrow> session option" where
  "clear_write_q s = do { a \<leftarrow> release_writes (s_write_q s) (s_arena s); Some (s\<lparr>s_write_q := [], s_arena := a\<rparr>) }"

section \<open>Stopping, writing\<close>

definition stop :: "session \<Rightarrow> session option" where
  "stop s =
     (if s_stopped s then Some s
      else let s1 = emit [Log ''Session stopping''] (s\<lparr>s_state := DISCONNECTED\<rparr>) in
        if \<not> s_conn s1 then clear_write_q (s1\<lparr>s_stopped := True, s_write_inflight := False\<rparr>)
        else let s2 = emit [Close_Conn] (cancel_timers (s1\<lparr>s_stopped := True\<rparr>)) in
          clear_write_q (s2\<lparr>s_write_inflight := False\<rparr>))"

definition do_write :: "session \<Rightarrow> session option" where
  "do_write s =
     (case s_write_q s of
        [] \<Rightarrow> Some (s\<lparr>s_write_inflight := False\<rparr>)
      | front # rest \<Rightarrow>
          if s_stopped s then Some s
          else do { v \<leftarrow> ww_view (pw_data front) (s_arena s);
                    assert_that (s_conn s);
                    Some (emit [Async_Write (drop (pw_sent front) v)] s) })"

definition send_bytes :: "WireWriter \<Rightarrow> session \<Rightarrow> session option" where
  "send_bytes w s =
     (let s1 = s\<lparr>s_write_q := s_write_q s @ [\<lparr>pw_data = w, pw_sent = 0\<rparr>]\<rparr> in
      if s_write_inflight s1 then Some s1 else do_write (s1\<lparr>s_write_inflight := True\<rparr>))"

definition schedule_heartbeat :: "session \<Rightarrow> session" where
  "schedule_heartbeat s =
     emit [Timer_Cancel Heartbeat_Timer, Timer_Start Heartbeat_Timer (unat (heart_beat_int (s_params s)))] s"

definition schedule_test_request_timeout :: "session \<Rightarrow> session" where
  "schedule_test_request_timeout s =
     emit [Timer_Cancel Inbound_Timer, Timer_Start Inbound_Timer (unat (heart_beat_int (s_params s)))] s"

definition schedule_logon_timeout :: "session \<Rightarrow> session" where
  "schedule_logon_timeout s = emit [Timer_Start Logon_Timer logon_response_timeout] s"

definition send_message :: "string \<Rightarrow> bool \<Rightarrow> session \<Rightarrow> session option" where
  "send_message msg_wire is_resend s =
     (if s_stopped s then Some s
      else do { (w, a) \<leftarrow> from_arena msg_wire (s_arena s);
                s1 \<leftarrow> send_bytes w (s\<lparr>s_arena := a\<rparr>);
                s2 \<leftarrow> (if \<not> is_resend
                       then do { st \<leftarrow> store_outbound_message msg_wire (s_store s1); Some (s1\<lparr>s_store := st\<rparr>) }
                       else Some s1);
                Some (if s_state s2 = ACTIVE \<or> s_state s2 = RECOVERING_RESEND then schedule_heartbeat s2 else s2) })"

text \<open>Calling the factory of the session; it shares the parameters and the sequence numbers.\<close>

definition with_factory :: "(SessionParameters \<Rightarrow> fscratch \<Rightarrow> SeqProvider \<Rightarrow> built) \<Rightarrow> session \<Rightarrow> (string \<times> session) option" where
  "with_factory b s =
     do { (wire, f, sp) \<leftarrow> b (s_params s) (s_scratch s) (s_seq s); Some (wire, s\<lparr>s_scratch := f, s_seq := sp\<rparr>) }"

definition send_logon :: "bool \<Rightarrow> session \<Rightarrow> session option" where
  "send_logon reset_seq_nums s =
     do { (wire, s1) \<leftarrow> with_factory (\<lambda>p. logon p (sint (heart_beat_int (s_params s))) reset_seq_nums) s; send_message wire False s1 }"

definition send_reject :: "SeqNum \<Rightarrow> nat \<Rightarrow> Tag \<Rightarrow> string \<Rightarrow> session \<Rightarrow> session option" where
  "send_reject ref_seq_num reason ref_tag info s =
     do { (wire, s1) \<leftarrow> with_factory (\<lambda>p. reject p ref_seq_num reason ref_tag info) s; send_message wire False s1 }"

definition send_logout :: "string \<Rightarrow> session \<Rightarrow> session option" where
  "send_logout reason s = do { (wire, s1) \<leftarrow> with_factory (\<lambda>p. logout p reason) s; send_message wire False s1 }"

definition send_heartbeat :: "string \<Rightarrow> session \<Rightarrow> session option" where
  "send_heartbeat testReqId s = do { (wire, s1) \<leftarrow> with_factory (\<lambda>p. heart_beat p testReqId) s; send_message wire False s1 }"

definition send_test_request :: "string \<Rightarrow> session \<Rightarrow> session option" where
  "send_test_request testReqId s = do { (wire, s1) \<leftarrow> with_factory (\<lambda>p. test_request p testReqId) s; send_message wire False s1 }"

definition send_resend_request :: "SeqNum \<Rightarrow> SeqNum \<Rightarrow> session \<Rightarrow> session option" where
  "send_resend_request beginSeqNo endSeqNo s =
     do { (wire, s1) \<leftarrow> with_factory (\<lambda>p. resend_request p beginSeqNo endSeqNo) s; send_message wire False s1 }"

definition send_custom :: "string \<Rightarrow> session \<Rightarrow> session option" where
  "send_custom payload s = do { (wire, s1) \<leftarrow> with_factory (\<lambda>p. custom_message p payload) s; send_message wire False s1 }"

definition send_sequence_reset :: "SeqNum \<Rightarrow> bool \<Rightarrow> session \<Rightarrow> session option" where
  "send_sequence_reset newSeqNo gapfill s =
     do { (wire, s1) \<leftarrow> with_factory (\<lambda>p. sequence_reset p newSeqNo gapfill) s; send_message wire False s1 }"

definition send_sequence_reset_gap_fill :: "SeqNum \<Rightarrow> SeqNum \<Rightarrow> session \<Rightarrow> session option" where
  "send_sequence_reset_gap_fill msgSeqNum newSeqNo s =
     do { (wire, s1) \<leftarrow> with_factory (\<lambda>p. sequence_reset_gap_fill p msgSeqNum newSeqNo) s; send_message wire True s1 }"

definition stop_with_logout :: "string \<Rightarrow> session \<Rightarrow> session option" where
  "stop_with_logout reason s =
     (if s_stopped s then Some s
      else do { s1 \<leftarrow> send_logout reason s;
                Some (emit [Timer_Start Logout_Timer logout_response_timeout]
                       ((emit [Log reason] s1)\<lparr>s_state := AWAITING_LOGOUT\<rparr>)) })"

definition do_read :: "session \<Rightarrow> session option" where
  "do_read s = (if s_stopped s then Some s else do { assert_that (s_conn s); Some (emit [Async_Read] s) })"

definition on_transport_down :: "session \<Rightarrow> session option" where
  "on_transport_down s =
     (if s_state s = DISCONNECTED \<or> s_stopped s then Some s
      else if s_reconnecting s then Some s
      else let s1 = emit [Log ''Transport connection lost''] (s\<lparr>s_reconnecting := True\<rparr>);
               s2 = (if s_conn s1 then (emit [Close_Conn] s1)\<lparr>s_conn := False\<rparr> else s1);
               s3 = (cancel_timers s2)\<lparr>s_state := DISCONNECTED, s_write_inflight := False\<rparr> in
        do { s4 \<leftarrow> clear_write_q s3;
             Some (emit [Reconnect_Call (s_id s4)]
                (s4\<lparr>s_recovery_cache := rc_reset (s_recovery_cache s4), s_framer := framer_reset (s_framer s4)\<rparr>)) })"

section \<open>Handlers of the administrative messages\<close>

definition readable_id :: "session \<Rightarrow> string" where
  "readable_id s =
     sender_comp_id (s_params s) @ ''<->'' @ target_comp_id (s_params s) @ '' ['' @ to_chars (sid (s_id s)) @ '']''"

definition validate_heartbeat_int :: "string \<Rightarrow> bool \<Rightarrow> session \<Rightarrow> bool \<times> session" where
  "validate_heartbeat_int incoming_value is_initiator s =
     (case from_chars_u (2 ^ 32 - 1) incoming_value 0 of
        (n, ec, v) \<Rightarrow>
          let incoming_hb_int = (of_nat v :: 32 word) in
          if is_initiator \<and> incoming_hb_int \<noteq> heart_beat_int (s_params s) then (False, s)
          else if incoming_hb_int < 10 \<or> incoming_hb_int > 120 then (False, s)
          else (True, s\<lparr>s_params := (s_params s)\<lparr>heart_beat_int := incoming_hb_int\<rparr>\<rparr>))"

definition is_app_message_type :: "string \<Rightarrow> bool" where
  "is_app_message_type msg_type \<longleftrightarrow>
     \<not> (msg_type = ''0'' \<or> msg_type = ''1'' \<or> msg_type = ''2'' \<or> msg_type = ''3'' \<or> msg_type = ''4'' \<or>
        msg_type = ''5'' \<or> msg_type = ''A'')"

text \<open>The end of \<open>handle_logon\<close>, reached on every path that accepts the logon.\<close>

definition become_active :: "session \<Rightarrow> session" where
  "become_active s = schedule_test_request_timeout (schedule_heartbeat ((emit [Timer_Cancel Logon_Timer] s)\<lparr>s_state := ACTIVE\<rparr>))"

definition handle_logon :: "ValidMessageView \<Rightarrow> session \<Rightarrow> session option" where
  "handle_logon message s =
     do { let s1 = emit [Log ''Logon received''] s;
          heart_bt_int \<leftarrow> find_field 108 (vm_message message);
          let (isvalid, s2) = validate_heartbeat_int heart_bt_int (s_role s1 = INITIATOR) s1;
          if \<not> isvalid then stop_with_logout ''Invalid HeartBtInt value'' s2
          else let reset_seq_nums = (find_field 141 (vm_message message) = Some ''Y'') in
            if s_role s2 = ACCEPTOR then
              let s3 = s2\<lparr>s_state := LOGON_RECEIVED\<rparr> in
              if reset_seq_nums \<and> \<not> acceptor_reset_on_logon (s_params s3)
              then stop_with_logout ''ResetSeqNumFlag=Y not allowed by configuration'' s3
              else do { let s4 = (if reset_seq_nums then s3\<lparr>s_seq := acceptor_reset (s_seq s3)\<rparr> else s3);
                        s5 \<leftarrow> send_logon reset_seq_nums s4;
                        Some (become_active (emit [Log ''Logon response sent''] s5)) }
            else if reset_seq_nums \<and> \<not> initiator_reset_on_logon (s_params s2)
              then stop_with_logout ''ResetSeqNumFlag=Y not allowed by configuration'' s2
              else Some (become_active s2) }"

definition handle_logout :: "ValidMessageView \<Rightarrow> session \<Rightarrow> session option" where
  "handle_logout message s =
     (let s1 = emit [Log ''Logout received''] s in
      if s_state s1 = AWAITING_LOGOUT then stop (emit [Timer_Cancel Logout_Timer] s1)
      else do { s2 \<leftarrow> send_logout ''Logout acknowledged'' s1; stop s2 })"

definition handle_heartbeat :: "ValidMessageView \<Rightarrow> session \<Rightarrow> session option" where
  "handle_heartbeat message s = Some (s\<lparr>s_awaiting_test_request_response := False\<rparr>)"

definition handle_test_request :: "ValidMessageView \<Rightarrow> session \<Rightarrow> session option" where
  "handle_test_request message s =
     do { test_req_id \<leftarrow> find_field 112 (vm_message message); send_heartbeat test_req_id s }"

text \<open>
  The loop of \<open>handle_resend_request\<close>. The index wraps around at the width of \<open>uint32_t\<close>, so in
  general the loop need not end.
\<close>

definition resend_action :: "ResendAction \<Rightarrow> session \<Rightarrow> session option" where
  "resend_action action s =
     (if ra_gap_fill action
      then send_sequence_reset_gap_fill (of_nat (ra_begin_seq_no action)) (of_nat (ra_end_seq_no action) + 1) s
      else do { msg_index \<leftarrow> get_message_index (ra_begin_seq_no action) (s_store s);
                wire \<leftarrow> get_message_wire msg_index (s_store s);
                (new_wire, s1) \<leftarrow> with_factory (\<lambda>p. regenerate_message p wire msg_index) s;
                send_message new_wire True s1 })"

partial_function (option) resend_loop :: "ResendStream \<Rightarrow> session \<Rightarrow> session option" where
  "resend_loop stream s =
     (if rs_has_next stream then
        do { (action, stream') \<leftarrow> rs_next stream; s1 \<leftarrow> resend_action action s; resend_loop stream' s1 }
      else Some s)"

definition handle_resend_request :: "ValidMessageView \<Rightarrow> session \<Rightarrow> session option" where
  "handle_resend_request msg s =
     do { start_seq_num \<leftarrow> find_field 7 (vm_message msg);
          end_seq_num \<leftarrow> find_field 16 (vm_message msg);
          let begin_seq_no = (of_nat (snd (snd (from_chars_u (2 ^ 32 - 1) start_seq_num 0))) :: 32 word);
          let end_seq_no = (of_nat (snd (snd (from_chars_u (2 ^ 32 - 1) end_seq_num 0))) :: 32 word);
          let end_seq_no = (if end_seq_no = 0 \<or> (ucast end_seq_no :: 64 word) \<ge> next_out (s_seq s)
                            then ucast (next_out (s_seq s)) - 1 else end_seq_no);
          resend_loop (get_resend_stream begin_seq_no end_seq_no (s_store s)) s }"

definition handle_sequence_reset :: "ValidMessageView \<Rightarrow> session \<Rightarrow> session option" where
  "handle_sequence_reset msg s =
     do { new_seq_no_value \<leftarrow> find_field 36 (vm_message msg);
          let gap_fill = (find_field 123 (vm_message msg) = Some ''Y'');
          let new_seq_no = (of_nat (snd (snd (from_chars_u (2 ^ 64 - 1) new_seq_no_value 0))) :: SeqNum);
          if new_seq_no < next_in (s_seq s) \<and> \<not> gap_fill then stop_with_logout ''NewSeqNo less than expected'' s
          else Some (s\<lparr>s_seq := update_in new_seq_no (s_seq s)\<rparr>) }"

text \<open>The iterator of \<open>RefSeqNum\<close> is dereferenced without a test.\<close>

definition handle_reject :: "ValidMessageView \<Rightarrow> session \<Rightarrow> session option" where
  "handle_reject message s =
     do { ref_seq_num \<leftarrow> find_field 45 (vm_message message);
          let reason = ''Received Reject message'' @ ''for MsgSeqNum '' @ ref_seq_num @
            (case find_field 372 (vm_message message) of Some t \<Rightarrow> '' of type '' @ t | None \<Rightarrow> []) @
            (case find_field 58 (vm_message message) of Some t \<Rightarrow> '': '' @ t | None \<Rightarrow> []);
          Some (emit [Log reason] s) }"

definition handle_custom :: "ValidMessageView \<Rightarrow> session \<Rightarrow> session option" where
  "handle_custom message s =
     (let payload = ''custom_response from'' @ readable_id s;
          rec_payload = (case find_field 9250 (vm_message message) of Some v \<Rightarrow> v | None \<Rightarrow> []) in
      if sv_find rec_payload ''custom_response'' 0 \<noteq> None then Some s else send_custom payload s)"

section \<open>Dispatch and recovery\<close>

text \<open>The last part of \<open>dispatch\<close>: the handler of the message type.\<close>

definition handle_message :: "string \<Rightarrow> ValidMessageView \<Rightarrow> session \<Rightarrow> session option" where
  "handle_message msg_type msg s =
     (if msg_type = ''A'' then handle_logon msg s
      else if msg_type = ''5'' then handle_logout msg s
      else if msg_type = ''0'' then handle_heartbeat msg s
      else if msg_type = ''1'' then handle_test_request msg s
      else if msg_type = ''2'' then handle_resend_request msg s
      else if msg_type = ''3'' then handle_reject msg s
      else if msg_type = ''4'' then handle_sequence_reset msg s
      else if msg_type = ''cu'' then handle_custom msg s
      else Some (emit [App_Sink (make_valid_message (vm_message msg)) (s_id s)] s))"

text \<open>The middle part: where the sequence number stands against the expected one.\<close>

definition out_of_sequence :: "SeqNum \<Rightarrow> string \<Rightarrow> session \<Rightarrow> string" where
  "out_of_sequence seq_num raw_msg s =
     ''Received MsgSeqNum '' @ to_chars (unat seq_num) @ '' but expected '' @ to_chars (unat (next_in (s_seq s))) @
     ''Message: '' @ raw_msg"

definition sequence_message :: "string \<Rightarrow> SeqNum \<Rightarrow> bool \<Rightarrow> ValidMessageView \<Rightarrow> string \<Rightarrow> session \<Rightarrow> session option" where
  "sequence_message msg_type seq_num is_dup msg raw_msg s =
     (if seq_num = next_in (s_seq s) then
        handle_message msg_type msg (s\<lparr>s_seq := update_in (seq_num + 1) (s_seq s)\<rparr>)
      else if seq_num > next_in (s_seq s) \<and> s_state s = RECOVERING_RESEND then
        (if \<not> rc_in_window seq_num (s_recovery_cache s) then stop_with_logout ''MsgSeqNum too high during recovery'' s
         else if \<not> rc_contains seq_num (s_recovery_cache s) then
           do { rc \<leftarrow> rc_insert seq_num raw_msg (s_recovery_cache s); Some (s\<lparr>s_recovery_cache := rc\<rparr>) }
         else Some s)
      else if seq_num > next_in (s_seq s) then
        do { let expected = next_in (s_seq s);
             s1 \<leftarrow> send_resend_request expected (seq_num - 1) s;
             let s2 = s1\<lparr>s_state := RECOVERING_RESEND, s_recovery_cache := rc_start expected (s_recovery_cache s1)\<rparr>;
             if \<not> rc_contains seq_num (s_recovery_cache s2) then
               do { rc \<leftarrow> rc_insert seq_num raw_msg (s_recovery_cache s2); Some (s2\<lparr>s_recovery_cache := rc\<rparr>) }
             else Some s2 }
      else if seq_num < next_in (s_seq s) \<and> is_dup then Some s
      else stop_with_logout (out_of_sequence seq_num raw_msg s) s)"

definition dispatch :: "GenericMessage \<Rightarrow> string \<Rightarrow> session \<Rightarrow> session option" where
  "dispatch message raw_msg s =
     (if s_stopped s then Some s
      else do {
        let msg = make_valid_message_view message;
        v \<leftarrow> validate_message msg (s_params s) (s_validator s);
        let s1 = s\<lparr>s_validator := v\<rparr>;
        let results = v_results v;
        if vr_severity results = Sev_Fatal then stop_with_logout ''Fatal validation error'' s1
        else case vr_errors results of
          e # _ \<Rightarrow> send_reject (msg_seq_num (vm_cache msg)) (validator_code (ve_code e)) (ve_tag e) (ve_info e) s1
        | [] \<Rightarrow>
            (case slots (vm_cache msg) Slot_MsgType of
               None \<Rightarrow> Some (emit [Log ''Validator passed but required fields missing''] s1)
             | Some msg_type \<Rightarrow>
                 if \<not> has_msg_seq_num (vm_cache msg)
                 then Some (emit [Log ''Validator passed but required fields missing''] s1)
                 else let s2 = (if s_state s1 = ACTIVE \<or> s_state s1 = RECOVERING_RESEND
                                then schedule_test_request_timeout s1 else s1);
                          is_dup = (slots (vm_cache msg) Slot_PossDupFlag = Some ''Y'') in
                   if s_state s2 \<noteq> ACTIVE \<and> s_state s2 \<noteq> RECOVERING_RESEND \<and> is_app_message_type msg_type
                   then stop_with_logout ''Cannot process app messages yet'' s2
                   else sequence_message msg_type (msg_seq_num (vm_cache msg)) is_dup msg raw_msg s2) })"

text \<open>
  The loop of \<open>drain_recovery_cache_\<close>; the flag of the result says that the function returned
  from inside the loop.
\<close>

partial_function (option) drain_loop :: "session \<Rightarrow> (bool \<times> session) option" where
  "drain_loop s =
     (let expected = next_in (s_seq s) in
      if rc_contains expected (s_recovery_cache s) then
        do { raw_msg \<leftarrow> rc_get expected (s_recovery_cache s);
             case parse raw_msg of (message, errs) \<Rightarrow>
               if errs = [] then
                 do { s1 \<leftarrow> dispatch message raw_msg s;
                      rc \<leftarrow> rc_consume expected (s_recovery_cache s1);
                      drain_loop (s1\<lparr>s_recovery_cache := rc\<rparr>) }
               else do { s1 \<leftarrow> send_logout ''Parse error during recovery'' s; s2 \<leftarrow> stop s1; Some (True, s2) } }
      else Some (False, s))"

definition drain_recovery_cache :: "session \<Rightarrow> session option" where
  "drain_recovery_cache s =
     (if rc_empty (s_recovery_cache s) \<or> s_state s \<noteq> RECOVERING_RESEND then Some s
      else do { (returned, s1) \<leftarrow> drain_loop s;
                Some (if \<not> returned \<and> rc_empty (s_recovery_cache s1) then s1\<lparr>s_state := ACTIVE\<rparr> else s1) })"

definition process_wire_message :: "string \<Rightarrow> session \<Rightarrow> session option" where
  "process_wire_message msg_wire s =
     (case parse msg_wire of (message, errs) \<Rightarrow>
        do { s1 \<leftarrow> (if errs = [] then dispatch message msg_wire s else stop_with_logout ''Parse error'' s);
             drain_recovery_cache s1 })"

section \<open>Completion handlers and public operations\<close>

partial_function (option) read_loop :: "session \<Rightarrow> session option" where
  "read_loop s =
     (if framer_has_message (s_framer s) then
        do { m \<leftarrow> framer_get_message (s_framer s);
             s1 \<leftarrow> process_wire_message m s;
             f \<leftarrow> framer_consume_message (s_framer s1);
             read_loop (s1\<lparr>s_framer := f\<rparr>) }
      else Some s)"

text \<open>
  The handlers of \<open>async_read_some\<close> and \<open>async_write_some\<close>. \<open>message ec\<close> is the text of the error
  code, which only reaches the log; \<open>data\<close> are the bytes that were read. Popping from an empty
  queue is a fault.
\<close>

definition on_read :: "(asio_error \<Rightarrow> string) \<Rightarrow> error_code \<Rightarrow> string \<Rightarrow> session \<Rightarrow> session option" where
  "on_read message ec data s =
     (if s_stopped s \<or> ec = Some operation_aborted then Some s
      else case ec of
        Some e \<Rightarrow>
          let s1 = emit [Log (''Read error: '' @ message e)] s in
          if classify_readwrite_error e = Transient then do_read s1 else on_transport_down s1
      | None \<Rightarrow>
          do { f \<leftarrow> framer_append data (s_framer s);
               s1 \<leftarrow> read_loop (s\<lparr>s_framer := f\<rparr>);
               do_read s1 })"

definition on_write :: "(asio_error \<Rightarrow> string) \<Rightarrow> error_code \<Rightarrow> nat \<Rightarrow> session \<Rightarrow> session option" where
  "on_write message ec n s =
     (if s_stopped s \<or> ec = Some operation_aborted then Some s
      else case ec of
        Some e \<Rightarrow>
          let s1 = emit [Log (''Write error: '' @ message e)] s in
          if classify_readwrite_error e = Transient then do_write s1 else on_transport_down s1
      | None \<Rightarrow>
          (case s_write_q s of
             [] \<Rightarrow> None
           | f # rest \<Rightarrow>
               let f1 = f\<lparr>pw_sent := pw_sent f + n\<rparr> in
               do { s1 \<leftarrow> (if pw_sent f1 \<ge> ww_size (pw_data f1)
                          then do { a \<leftarrow> ww_destroy (pw_data f1) (s_arena s); Some (s\<lparr>s_write_q := rest, s_arena := a\<rparr>) }
                          else Some (s\<lparr>s_write_q := f1 # rest\<rparr>));
                    do_write s1 }))"

definition start_normal :: "session \<Rightarrow> session option" where
  "start_normal s =
     (let s1 = emit [Log ''Session started''] s in
      if \<not> s_conn s1 then Some (emit [Log ''Cannot start session without a transport connection''] s1)
      else do {
        s2 \<leftarrow> do_read s1;
        if s_role s2 = INITIATOR then
          do { let s3 = (if initiator_reset_on_logon (s_params s2) then s2\<lparr>s_seq := sp_reset (s_seq s2)\<rparr> else s2);
               s4 \<leftarrow> send_logon (initiator_reset_on_logon (s_params s3)) s3;
               Some (schedule_logon_timeout ((emit [Log ''Logon sent''] s4)\<lparr>s_state := LOGON_SENT\<rparr>)) }
        else Some (schedule_logon_timeout (s2\<lparr>s_state := AWAITING_LOGON\<rparr>)) })"

definition start_after_reconnect :: "session \<Rightarrow> session option" where
  "start_after_reconnect s =
     (let s1 = emit [Log ''Session reconnecting''] s in
      if \<not> s_conn s1 then Some (emit [Log ''Reconnect start called without connection''] s1)
      else if s_stopped s1 then Some (emit [Log ''Reconnect ignored: session is stopped''] s1)
      else do {
        s2 \<leftarrow> clear_write_q (s1\<lparr>s_awaiting_test_request_response := False, s_reconnecting := False, s_test_req_id := 0\<rparr>);
        let s3 = s2\<lparr>s_write_inflight := False, s_recovery_cache := rc_reset (s_recovery_cache s2),
                     s_framer := framer_reset (s_framer s2)\<rparr>;
        s4 \<leftarrow> (if s_role s3 = INITIATOR
               then do { t \<leftarrow> send_logon False s3; Some (schedule_logon_timeout (t\<lparr>s_state := LOGON_SENT\<rparr>)) }
               else Some (schedule_logon_timeout (s3\<lparr>s_state := AWAITING_LOGON\<rparr>)));
        do_read s4 })"

definition start :: "StartMode \<Rightarrow> session \<Rightarrow> session option" where
  "start mode s = (if mode = NORMAL then start_normal s else start_after_reconnect s)"

definition set_connection :: "bool \<Rightarrow> session \<Rightarrow> session" where
  "set_connection conn s = s\<lparr>s_conn := conn\<rparr>"

definition send_from_app :: "GenericMessage \<Rightarrow> string \<Rightarrow> session \<Rightarrow> session option" where
  "send_from_app message msg_type s =
     (if s_stopped s then Some s
      else do { (wire, s1) \<leftarrow> with_factory (\<lambda>p. from_app p message (MsgType msg_type)) s; send_message wire False s1 })"

text \<open>The handlers of the timers; the one of the logon timer keeps the state it was started in.\<close>

definition on_logon_timer :: "SessionState \<Rightarrow> error_code \<Rightarrow> session \<Rightarrow> session option" where
  "on_logon_timer expected_state ec s =
     (if s_stopped s \<or> ec = Some operation_aborted then Some s
      else if ec \<noteq> None then Some (emit [Log ''Couldnt start logon timer''] s)
      else if s_state s = expected_state then stop (emit [Log ''Logon timer expired without receiving logon''] s)
      else Some s)"

definition on_heartbeat_timer :: "error_code \<Rightarrow> session \<Rightarrow> session option" where
  "on_heartbeat_timer ec s =
     (if s_stopped s \<or> ec = Some operation_aborted then Some s
      else if ec \<noteq> None then Some (emit [Log ''Couldnt start heartbeat timer''] s)
      else do { s1 \<leftarrow> send_heartbeat [] s; Some (schedule_heartbeat s1) })"

definition on_inbound_timer :: "error_code \<Rightarrow> session \<Rightarrow> session option" where
  "on_inbound_timer ec s =
     (if s_stopped s \<or> ec = Some operation_aborted then Some s
      else if ec \<noteq> None then Some (emit [Log ''Couldnt start inbound timer''] s)
      else if \<not> s_awaiting_test_request_response s then
        do { let testReqId = ''TESTREQ_'' @ to_chars (unat (s_test_req_id s));
             let s1 = emit [Log (''Inbound timeout expired, sent Test Request with ID: '' @ testReqId)]
               (s\<lparr>s_awaiting_test_request_response := True, s_test_req_id := s_test_req_id s + 1\<rparr>);
             s2 \<leftarrow> send_test_request testReqId s1;
             Some (schedule_test_request_timeout s2) }
      else stop_with_logout ''No response to Test Request'' (emit [Log ''No response to Test Request, stopping session''] s))"

definition on_logout_timer :: "error_code \<Rightarrow> session \<Rightarrow> session option" where
  "on_logout_timer ec s =
     (if s_stopped s \<or> ec = Some operation_aborted then Some s
      else if ec \<noteq> None then Some (emit [Log ''Couldnt start logout timer''] s)
      else stop (emit [Log ''Logout timer expired, stopping session''] s))"

section \<open>The session as a state machine\<close>

datatype Event =
  Start StartMode
  | Stop
  | Set_Connection bool
  | Send_From_App GenericMessage string
  | Read_Done error_code string
  | Write_Done error_code nat
  | Logon_Timeout SessionState error_code
  | Heartbeat_Timeout error_code
  | Inbound_Timeout error_code
  | Logout_Timeout error_code

fun session_step :: "(asio_error \<Rightarrow> string) \<Rightarrow> Event \<Rightarrow> session \<Rightarrow> session option" where
  "session_step message (Start mode) s = start mode s"
| "session_step message Stop s = stop s"
| "session_step message (Set_Connection conn) s = Some (set_connection conn s)"
| "session_step message (Send_From_App m t) s = send_from_app m t s"
| "session_step message (Read_Done ec data) s = on_read message ec data s"
| "session_step message (Write_Done ec n) s = on_write message ec n s"
| "session_step message (Logon_Timeout st ec) s = on_logon_timer st ec s"
| "session_step message (Heartbeat_Timeout ec) s = on_heartbeat_timer ec s"
| "session_step message (Inbound_Timeout ec) s = on_inbound_timer ec s"
| "session_step message (Logout_Timeout ec) s = on_logout_timer ec s"

inductive session_reach :: "(asio_error \<Rightarrow> string) \<Rightarrow> session \<Rightarrow> bool" for message where
  reach_start: "session_new session_id role params = Some s \<Longrightarrow> session_reach message s"
| reach_event: "session_reach message s \<Longrightarrow> session_step message e s = Some s' \<Longrightarrow> session_reach message s'"

end
