(* ===== verification/Session_Steps.thy ===== *)
theory Session_Steps
  imports Session
begin

text \<open>
  The steps of a session broken down into the few changes that touch what it shares with the
  outside: the write queue and the arena behind it, the connection, the stop flag, the recovery
  cache and the effects. The flag \<open>fr\<close> allows the framer to change, which only the read handler and
  the loss of the connection do, and only by the framer's own operations; the scratch of the factory changes only as its builders do. Every event of \<open>session_step\<close> is a sequence of these changes, so a
  property of all sessions is proved once per change.
\<close>

definition same_core :: "session \<Rightarrow> session \<Rightarrow> bool" where
  "same_core s t \<longleftrightarrow> s_arena t = s_arena s \<and> s_write_q t = s_write_q s \<and> s_conn t = s_conn s \<and>
     s_stopped t = s_stopped s \<and> s_write_inflight t = s_write_inflight s \<and> s_out t = s_out s \<and>
     s_recovery_cache t = s_recovery_cache s \<and> s_framer t = s_framer s \<and> s_role t = s_role s \<and> s_id t = s_id s"

fun quiet :: "Effect \<Rightarrow> bool" where
  "quiet (Log x) \<longleftrightarrow> True"
| "quiet (Timer_Start t n) \<longleftrightarrow> True"
| "quiet (Timer_Cancel t) \<longleftrightarrow> True"
| "quiet Close_Conn \<longleftrightarrow> True"
| "quiet _ \<longleftrightarrow> False"

inductive cache_step :: "rcache \<Rightarrow> rcache \<Rightarrow> bool" where
  "cache_step c (rc_start n c)"
| "cache_step c (rc_reset c)"
| "rc_insert n w c = Some c' \<Longrightarrow> cache_step c c'"
| "rc_consume n c = Some c' \<Longrightarrow> cache_step c c'"

inductive framer_step :: "framer \<Rightarrow> framer \<Rightarrow> bool" where
  "framer_append data f = Some g \<Longrightarrow> framer_step f g"
| "framer_consume_message f = Some g \<Longrightarrow> framer_step f g"
| "framer_step f (framer_reset f)"

inductive micro :: "bool \<Rightarrow> session \<Rightarrow> session \<Rightarrow> bool" for fr where
  m_book: "same_core s t \<Longrightarrow> sc_inv (s_scratch s) \<longrightarrow> sc_inv (s_scratch t) \<Longrightarrow> micro fr s t"
| m_quiet: "list_all quiet es \<Longrightarrow> micro fr s (emit es s)"
| m_reconnect: "\<not> s_stopped s \<Longrightarrow> i = s_id s \<Longrightarrow> micro fr s (emit [Reconnect_Call i] s)"
| m_read: "\<not> s_stopped s \<Longrightarrow> s_conn s \<Longrightarrow> micro fr s (emit [Async_Read] s)"
| m_send: "\<not> s_stopped s \<Longrightarrow> from_arena m (s_arena s) = Some (w, a) \<Longrightarrow> send_bytes w (s\<lparr>s_arena := a\<rparr>) = Some t \<Longrightarrow> micro fr s t"
| m_clear: "clear_write_q (s\<lparr>s_write_inflight := False\<rparr>) = Some t \<Longrightarrow> micro fr s t"
| m_stop: "clear_write_q (s\<lparr>s_stopped := True, s_write_inflight := False\<rparr>) = Some t \<Longrightarrow> micro fr s t"
| m_written: "\<not> s_stopped s \<Longrightarrow> on_write message None n s = Some t \<Longrightarrow> micro fr s t"
| m_write: "\<not> s_stopped s \<Longrightarrow> do_write s = Some t \<Longrightarrow> micro fr s t"
| m_conn: "fr \<Longrightarrow> micro fr s (s\<lparr>s_conn := b\<rparr>)"
| m_framer: "fr \<Longrightarrow> framer_step (s_framer s) f \<Longrightarrow> micro fr s (s\<lparr>s_framer := f\<rparr>)"
| m_cache: "cache_step (s_recovery_cache s) c \<Longrightarrow> micro fr s (s\<lparr>s_recovery_cache := c\<rparr>)"

abbreviation micros :: "bool \<Rightarrow> session \<Rightarrow> session \<Rightarrow> bool" where
  "micros fr \<equiv> (micro fr)\<^sup>*\<^sup>*"

section \<open>Rules that extend a sequence of changes\<close>

named_theorems micros_intro

lemma micros_refl [micros_intro]: "micros fr s s"
  by simp

lemma micros_snoc: "micros fr s t \<Longrightarrow> micro fr t u \<Longrightarrow> micros fr s u"
  by (rule rtranclp.rtrancl_into_rtrancl)

lemma micros_quiet [micros_intro]: "micros fr s t \<Longrightarrow> list_all quiet es \<Longrightarrow> micros fr s (emit es t)"
  by (erule micros_snoc) (rule m_quiet)

lemma micros_book [micros_intro]:
  assumes "micros fr s t"
  shows "micros fr s (t\<lparr>s_state := x1\<rparr>)" "micros fr s (t\<lparr>s_seq := x2\<rparr>)"
    "micros fr s (t\<lparr>s_params := x4\<rparr>)" "micros fr s (t\<lparr>s_validator := x5\<rparr>)" "micros fr s (t\<lparr>s_test_req_id := x6\<rparr>)"
    "micros fr s (t\<lparr>s_awaiting_test_request_response := x7\<rparr>)" "micros fr s (t\<lparr>s_reconnecting := x8\<rparr>)"
    "micros fr s (t\<lparr>s_store := x10\<rparr>)"
  by (rule micros_snoc [OF assms], rule m_book, simp add: same_core_def, simp)+

lemma micros_framer [micros_intro]: "micros True s t \<Longrightarrow> framer_step (s_framer t) f \<Longrightarrow> micros True s (t\<lparr>s_framer := f\<rparr>)"
  by (erule micros_snoc) (rule m_framer, simp)

lemma micros_cache [micros_intro]:
  "micros fr s t \<Longrightarrow> cache_step (s_recovery_cache t) c \<Longrightarrow> micros fr s (t\<lparr>s_recovery_cache := c\<rparr>)"
  by (erule micros_snoc) (rule m_cache)

lemma micros_conn [micros_intro]: "micros True s t \<Longrightarrow> micros True s (t\<lparr>s_conn := b\<rparr>)"
  by (erule micros_snoc) (rule m_conn, simp)

lemma micros_timers [micros_intro]:
  assumes "micros fr s t"
  shows "micros fr s (cancel_timers t)" "micros fr s (schedule_heartbeat t)" "micros fr s (schedule_test_request_timeout t)"
    "micros fr s (schedule_logon_timeout t)"
  unfolding cancel_timers_def schedule_heartbeat_def schedule_test_request_timeout_def schedule_logon_timeout_def
  by (intro micros_quiet [OF assms], simp)+

lemma emit_core [simp]:
  "s_arena (emit es s) = s_arena s" "s_write_q (emit es s) = s_write_q s" "s_conn (emit es s) = s_conn s"
  "s_stopped (emit es s) = s_stopped s" "s_write_inflight (emit es s) = s_write_inflight s"
  "s_recovery_cache (emit es s) = s_recovery_cache s" "s_out (emit es s) = s_out s @ es"
  "s_state (emit es s) = s_state s" "s_seq (emit es s) = s_seq s" "s_scratch (emit es s) = s_scratch s"
  "s_params (emit es s) = s_params s" "s_store (emit es s) = s_store s" "s_framer (emit es s) = s_framer s"
  "s_role (emit es s) = s_role s" "s_validator (emit es s) = s_validator s" "s_id (emit es s) = s_id s"
  by (simp_all add: emit_def)

lemma timers_core [simp]:
  "s_stopped (schedule_test_request_timeout s) = s_stopped s" "s_state (schedule_test_request_timeout s) = s_state s"
  "s_stopped (schedule_heartbeat s) = s_stopped s" "s_state (schedule_heartbeat s) = s_state s"
  "s_stopped (cancel_timers s) = s_stopped s" "s_stopped (schedule_logon_timeout s) = s_stopped s"
  by (simp_all add: schedule_test_request_timeout_def schedule_heartbeat_def cancel_timers_def schedule_logon_timeout_def)

section \<open>Every operation is a sequence of changes\<close>

lemma micros_clear: "clear_write_q (t\<lparr>s_write_inflight := False\<rparr>) = Some u \<Longrightarrow> micros fr s t \<Longrightarrow> micros fr s u"
  by (erule micros_snoc) (rule m_clear)

lemma micros_stop: "stop t = Some u \<Longrightarrow> micros fr s t \<Longrightarrow> micros fr s u"
proof (goal_cases)
  case 1
  show ?case
  proof (cases "s_stopped t")
    case True
    with 1 show ?thesis by (simp add: stop_def)
  next
    case False
    have fin: "micros fr s u" if "clear_write_q (v\<lparr>s_stopped := True, s_write_inflight := False\<rparr>) = Some u" "micros fr s v" for v
      using that(1) by (intro micros_snoc [OF that(2)] m_stop)
    let ?t1 = "emit [Log ''Session stopping''] (t\<lparr>s_state := DISCONNECTED\<rparr>)"
    have t1: "micros fr s ?t1" by (intro micros_intro 1) simp
    show ?thesis
    proof (cases "s_conn t")
      case True
      let ?t2 = "emit [Close_Conn] (cancel_timers ?t1)"
      have "micros fr s ?t2" by (intro micros_intro t1) simp
      moreover have "clear_write_q (?t2\<lparr>s_stopped := True, s_write_inflight := False\<rparr>) = Some u"
        using 1 False True by (cases t) (simp add: stop_def Let_def emit_def cancel_timers_def)
      ultimately show ?thesis by (rule fin [rotated])
    next
      case conn: False
      with 1 False show ?thesis by (intro fin [OF _ t1]) (simp add: stop_def Let_def)
    qed
  qed
qed

lemma micros_send_message: "send_message w r t = Some u \<Longrightarrow> micros fr s t \<Longrightarrow> micros fr s u"
proof (cases "s_stopped t")
  case False
  assume send: "send_message w r t = Some u" and st: "micros fr s t"
  from send False obtain ww a t1 t2 where t1: "from_arena w (s_arena t) = Some (ww, a)" "send_bytes ww (t\<lparr>s_arena := a\<rparr>) = Some t1"
    and t2: "(if \<not> r then do { st \<leftarrow> store_outbound_message w (s_store t1); Some (t1\<lparr>s_store := st\<rparr>) } else Some t1) = Some t2"
    and u: "u = (if s_state t2 = ACTIVE \<or> s_state t2 = RECOVERING_RESEND then schedule_heartbeat t2 else t2)"
    by (auto simp: send_message_def bind_eq_Some_conv)
  have "micros fr s t1" using t1 False by (intro micros_snoc [OF st] m_send)
  then have "micros fr s t2" using t2 by (auto simp: bind_eq_Some_conv split: if_splits intro: micros_intro)
  then show ?thesis unfolding u by (auto intro: micros_intro)
qed (simp add: send_message_def)

lemma micros_with_factory:
  assumes "with_factory b t = Some (w, u)" "builder_keeps (b (s_params t))" "micros fr s t"
  shows "micros fr s u"
proof -
  obtain f sp where b: "b (s_params t) (s_scratch t) (s_seq t) = Some (w, f, sp)" "u = t\<lparr>s_scratch := f, s_seq := sp\<rparr>"
    using assms(1) by (auto simp: with_factory_def bind_eq_Some_conv)
  have "sc_inv (s_scratch t) \<longrightarrow> sc_inv f" using b(1) assms(2) unfolding builder_keeps_def by blast
  then have "micro fr t u" by (intro m_book) (simp_all add: same_core_def b(2))
  then show ?thesis by (rule micros_snoc [OF assms(3)])
qed

lemma micros_send:
  assumes "micros fr s t"
  shows "send_logon b1 t = Some u \<Longrightarrow> micros fr s u" "send_reject n1 n2 n3 x1 t = Some u \<Longrightarrow> micros fr s u"
    "send_logout x2 t = Some u \<Longrightarrow> micros fr s u" "send_heartbeat x3 t = Some u \<Longrightarrow> micros fr s u"
    "send_test_request x4 t = Some u \<Longrightarrow> micros fr s u" "send_resend_request q1 q2 t = Some u \<Longrightarrow> micros fr s u"
    "send_custom x5 t = Some u \<Longrightarrow> micros fr s u" "send_sequence_reset q3 b2 t = Some u \<Longrightarrow> micros fr s u"
    "send_sequence_reset_gap_fill q4 q5 t = Some u \<Longrightarrow> micros fr s u"
  using assms
  unfolding send_logon_def send_reject_def send_logout_def send_heartbeat_def send_test_request_def
    send_resend_request_def send_custom_def send_sequence_reset_def send_sequence_reset_gap_fill_def
  by (auto simp: bind_eq_Some_conv dest: micros_with_factory micros_send_message)

lemma micros_do_read: "do_read t = Some u \<Longrightarrow> micros fr s t \<Longrightarrow> micros fr s u"
  by (auto simp: do_read_def bind_eq_Some_conv split: if_splits intro: micros_snoc m_read)

lemma micros_stop_with_logout: "stop_with_logout r t = Some u \<Longrightarrow> micros fr s t \<Longrightarrow> micros fr s u"
  by (auto simp: stop_with_logout_def bind_eq_Some_conv split: if_splits intro!: micros_intro dest: micros_send(3))

lemma micros_transport_down:
  assumes "on_transport_down t = Some u" "micros True s t"
  shows "micros True s u"
proof (cases "s_state t = DISCONNECTED \<or> s_stopped t \<or> s_reconnecting t")
  case True
  with assms show ?thesis by (auto simp: on_transport_down_def split: if_splits)
next
  case False
  define t1 where "t1 = emit [Log ''Transport connection lost''] (t\<lparr>s_reconnecting := True\<rparr>)"
  define t2 where "t2 = (if s_conn t1 then (emit [Close_Conn] t1)\<lparr>s_conn := False\<rparr> else t1)"
  define t3 where "t3 = (cancel_timers t2)\<lparr>s_state := DISCONNECTED\<rparr>"
  obtain t4 where t4: "clear_write_q (t3\<lparr>s_write_inflight := False\<rparr>) = Some t4"
    and u: "u = emit [Reconnect_Call (s_id t4)] (t4\<lparr>s_recovery_cache := rc_reset (s_recovery_cache t4), s_framer := framer_reset (s_framer t4)\<rparr>)"
    using assms(1) False
    by (auto simp: on_transport_down_def Let_def bind_eq_Some_conv t3_def simp flip: t1_def t2_def)
  have "micros True s t3" unfolding t3_def t2_def t1_def using assms(2) by (auto intro!: micros_intro)
  then have m4: "micros True s t4" using t4 by (rule micros_clear [rotated])
  have "\<not> s_stopped t4"
    using t4 False by (auto simp: clear_write_q_def bind_eq_Some_conv t3_def t2_def t1_def cancel_timers_def split: if_splits)
  moreover have "micros True s (t4\<lparr>s_recovery_cache := rc_reset (s_recovery_cache t4), s_framer := framer_reset (s_framer t4)\<rparr>)"
    using micros_framer [of s "t4\<lparr>s_recovery_cache := rc_reset (s_recovery_cache t4)\<rparr>" "framer_reset (s_framer t4)"]
      micros_cache [OF m4 cache_step.intros(2)] framer_step.intros(3) by simp
  ultimately show ?thesis unfolding u by (intro micros_snoc [OF _ m_reconnect]) simp_all
qed


lemmas micros_elim = micros_stop micros_send_message micros_with_factory micros_do_read micros_stop_with_logout
  micros_send [rotated]

lemma micros_validate_heartbeat_int: "validate_heartbeat_int x b t = (ok, u) \<Longrightarrow> micros fr s t \<Longrightarrow> micros fr s u"
  by (auto simp: validate_heartbeat_int_def Let_def split: if_splits prod.splits intro!: micros_intro)

lemma micros_become_active [micros_intro]: "micros fr s t \<Longrightarrow> micros fr s (become_active t)"
  unfolding become_active_def by (intro micros_intro) simp_all

lemma micros_handle_logon:
  assumes "handle_logon m t = Some u" "micros fr s t"
  shows "micros fr s u"
proof -
  obtain hb ok t2 where hb: "find_field 108 (vm_message m) = Some hb"
    and v: "validate_heartbeat_int hb (s_role t = INITIATOR) (emit [Log ''Logon received''] t) = (ok, t2)"
    using assms(1) by (force simp: handle_logon_def bind_eq_Some_conv)
  have t2: "micros fr s t2" using v assms(2) by (auto elim!: micros_validate_heartbeat_int intro!: micros_intro)
  from assms(1) show ?thesis
    unfolding handle_logon_def by (auto simp: hb v t2 Let_def bind_eq_Some_conv split: if_splits elim!: micros_elim intro!: micros_intro)
qed

lemma micros_handle_logout: "handle_logout m t = Some u \<Longrightarrow> micros fr s t \<Longrightarrow> micros fr s u"
  by (auto simp: handle_logout_def Let_def bind_eq_Some_conv split: if_splits elim!: micros_elim intro!: micros_intro)

lemma micros_resend_action: "resend_action a t = Some u \<Longrightarrow> micros fr s t \<Longrightarrow> micros fr s u"
  by (auto simp: resend_action_def bind_eq_Some_conv split: if_splits elim!: micros_elim)

lemma micros_resend_loop:
  assumes "resend_loop rs t = Some u" "micros fr s t"
  shows "micros fr s u"
  using assms
proof (induction rule: resend_loop.raw_induct [rotated, consumes 1, case_names step])
  case (step loop rs t u)
  show ?case
  proof (cases "rs_has_next rs")
    case True
    with step.hyps obtain a rs' t1 where "resend_action a t = Some t1" "loop rs' t1 = Some u"
      by (auto simp: bind_eq_Some_conv)
    then show ?thesis using step.prems step.IH micros_resend_action by blast
  qed (use step in simp)
qed


text \<open>
  The types of the registry all have a handler of their own, so the branch of \<open>dispatch\<close> that calls the application is never
  reached and \<open>micro\<close> has no change for it.
\<close>

lemma handled_types: "ms_type ` set message_schemas = {''A'', ''0'', ''1'', ''4'', ''5'', ''2'', ''3'', ''cu''}"
  by (simp add: message_schemas_def)

lemma micros_handle_message:
  assumes "handle_message ty m t = Some u" "micros fr s t" "ty \<in> ms_type ` set message_schemas"
  shows "micros fr s u"
proof -
  note h = micros_handle_logon micros_handle_logout micros_resend_loop
  have heart: "handle_heartbeat m t = Some u \<Longrightarrow> micros fr s u"
    using assms(2) by (auto simp: handle_heartbeat_def intro!: micros_intro)
  have test: "handle_test_request m t = Some u \<Longrightarrow> micros fr s u"
    using assms(2) by (auto simp: handle_test_request_def bind_eq_Some_conv elim!: micros_elim)
  have resend: "handle_resend_request m t = Some u \<Longrightarrow> micros fr s u"
    using assms(2) by (auto simp: handle_resend_request_def Let_def bind_eq_Some_conv elim!: micros_resend_loop)
  have rej: "handle_reject m t = Some u \<Longrightarrow> micros fr s u"
    using assms(2) by (auto simp: handle_reject_def bind_eq_Some_conv intro!: micros_intro)
  have reset: "handle_sequence_reset m t = Some u \<Longrightarrow> micros fr s u"
    using assms(2) by (auto simp: handle_sequence_reset_def Let_def bind_eq_Some_conv split: if_splits elim!: micros_elim intro!: micros_intro)
  have custom: "handle_custom m t = Some u \<Longrightarrow> micros fr s u"
    using assms(2) by (auto simp: handle_custom_def Let_def split: if_splits elim!: micros_elim)
  show ?thesis
    using assms(1,3) heart test resend rej reset custom h(1,2) [OF _ assms(2)]
    unfolding handle_message_def handled_types by (auto split: if_splits)
qed

lemma sequence_message_gap:
  assumes "next_in (s_seq t) < n" "s_state t \<noteq> RECOVERING_RESEND"
  shows "sequence_message ty n d m raw t =
     do { t1 \<leftarrow> send_resend_request (next_in (s_seq t)) (n - 1) t;
          let t2 = t1\<lparr>s_state := RECOVERING_RESEND, s_recovery_cache := rc_start (next_in (s_seq t)) (s_recovery_cache t1)\<rparr>;
          if \<not> rc_contains n (s_recovery_cache t2)
          then do { rc \<leftarrow> rc_insert n raw (s_recovery_cache t2); Some (t2\<lparr>s_recovery_cache := rc\<rparr>) }
          else Some t2 }"
proof -
  have "n \<noteq> next_in (s_seq t)" using assms(1) by auto
  with assms show ?thesis unfolding sequence_message_def Let_def by simp
qed

lemma micros_sequence_message:
  assumes "sequence_message ty n d m raw t = Some u" "micros fr s t" "ty \<in> ms_type ` set message_schemas"
  shows "micros fr s u"
proof -
  consider (expected) "n = next_in (s_seq t)" | (cached) "n > next_in (s_seq t)" "s_state t = RECOVERING_RESEND"
    | (gap) "n > next_in (s_seq t)" "s_state t \<noteq> RECOVERING_RESEND" | (old) "n < next_in (s_seq t)"
    by fastforce
  then show ?thesis
  proof cases
    case expected
    then show ?thesis
      using assms by (auto simp: sequence_message_def elim!: micros_handle_message intro!: micros_intro)
  next
    case cached
    then show ?thesis
      using assms by (auto simp: sequence_message_def bind_eq_Some_conv split: if_splits
          elim!: micros_elim intro!: micros_intro cache_step.intros(3))
  next
    case gap
    then obtain t1 where t1: "send_resend_request (next_in (s_seq t)) (n - 1) t = Some t1"
      using assms(1) by (auto simp: sequence_message_gap bind_eq_Some_conv)
    then have "micros fr s t1" using assms(2) by (rule micros_send(6) [rotated])
    define t2 where "t2 = t1\<lparr>s_state := RECOVERING_RESEND, s_recovery_cache := rc_start (next_in (s_seq t)) (s_recovery_cache t1)\<rparr>"
    have t2: "micros fr s t2" unfolding t2_def using \<open>micros fr s t1\<close> by (intro micros_intro) (auto intro: cache_step.intros)
    have "(if \<not> rc_contains n (s_recovery_cache t2)
        then do { rc \<leftarrow> rc_insert n raw (s_recovery_cache t2); Some (t2\<lparr>s_recovery_cache := rc\<rparr>) } else Some t2) = Some u"
      using gap t1 assms(1) unfolding t2_def by (simp add: sequence_message_gap Let_def)
    then show ?thesis
      using t2 by (auto simp: bind_eq_Some_conv split: if_splits intro: micros_cache cache_step.intros(3))
  next
    case old
    then show ?thesis
      using assms by (auto simp: sequence_message_def split: if_splits elim!: micros_elim)
  qed
qed


lemma micros_dispatch:
  assumes "dispatch m raw t = Some u" "micros fr s t"
  shows "micros fr s u"
proof (cases "s_stopped t")
  case False
  define msg where "msg = make_valid_message_view m"
  obtain v where v: "validate_message msg (s_params t) (s_validator t) = Some v"
    using assms(1) False by (auto simp: dispatch_def msg_def Let_def bind_eq_Some_conv)
  define t1 where "t1 = t\<lparr>s_validator := v\<rparr>"
  define t2 where "t2 = (if s_state t1 = ACTIVE \<or> s_state t1 = RECOVERING_RESEND then schedule_test_request_timeout t1 else t1)"
  have t1: "micros fr s t1" unfolding t1_def using assms(2) by (intro micros_intro)
  then have t2: "micros fr s t2" unfolding t2_def by (auto intro: micros_intro)
  have ty: "ty \<in> ms_type ` set message_schemas" if "slots (vm_cache msg) Slot_MsgType = Some ty" "vr_errors (v_results v) = []" for ty
    using validated_type [OF v that(2)] that(1) by auto
  show ?thesis
    using assms(1) False t1 t2 ty unfolding dispatch_def
    by (auto simp: v Let_def simp flip: msg_def t1_def t2_def split: if_splits list.splits option.splits
        elim!: micros_elim micros_sequence_message intro!: micros_intro)
qed (use assms in \<open>simp add: dispatch_def\<close>)

lemma micros_drain_loop:
  assumes "drain_loop t = Some ru" "micros fr s t"
  shows "micros fr s (snd ru)"
  using assms
proof (induction rule: drain_loop.raw_induct [rotated, consumes 1, case_names step])
  case (step loop t ru)
  let ?n = "next_in (s_seq t)"
  show ?case
  proof (cases "rc_contains ?n (s_recovery_cache t)")
    case True
    then obtain raw where raw: "rc_get ?n (s_recovery_cache t) = Some raw" by (simp add: rc_get_def Let_def)
    obtain m errs where p: "parse raw = (m, errs)" by fastforce
    show ?thesis
    proof (cases "errs = []")
      case ok: True
      with step.hyps True raw p obtain t1 rc where "dispatch m raw t = Some t1" "rc_consume ?n (s_recovery_cache t1) = Some rc"
        and rest: "loop (t1\<lparr>s_recovery_cache := rc\<rparr>) = Some ru"
        by (auto simp: Let_def bind_eq_Some_conv)
      then have "micros fr s (t1\<lparr>s_recovery_cache := rc\<rparr>)"
        using step.prems by (intro micros_cache cache_step.intros(4)) (auto elim: micros_dispatch)
      with rest show ?thesis by (rule step.IH)
    next
      case False
      with step.hyps step.prems True raw p show ?thesis
        by (auto simp: Let_def bind_eq_Some_conv elim!: micros_elim)
    qed
  qed (use step in \<open>auto simp: Let_def\<close>)
qed

lemma micros_drain: "drain_recovery_cache t = Some u \<Longrightarrow> micros fr s t \<Longrightarrow> micros fr s u"
  unfolding drain_recovery_cache_def
  by (auto simp: bind_eq_Some_conv split: if_splits dest!: micros_drain_loop [where s = s] intro: micros_intro)

lemma micros_process_wire_message:
  assumes "process_wire_message w t = Some u" "micros fr s t"
  shows "micros fr s u"
proof -
  obtain m errs where p: "parse w = (m, errs)" by fastforce
  show ?thesis
  proof (cases "errs = []")
    case True
    with assms(1) p obtain t1 where "dispatch m w t = Some t1" "drain_recovery_cache t1 = Some u"
      by (auto simp: process_wire_message_def bind_eq_Some_conv)
    then show ?thesis using assms(2) by (blast intro: micros_drain micros_dispatch)
  next
    case False
    with assms(1) p obtain t1 where "stop_with_logout ''Parse error'' t = Some t1" "drain_recovery_cache t1 = Some u"
      by (auto simp: process_wire_message_def bind_eq_Some_conv)
    then show ?thesis using assms(2) by (blast intro: micros_drain micros_stop_with_logout)
  qed
qed

lemma micros_read_loop:
  assumes "read_loop t = Some u" "micros True s t"
  shows "micros True s u"
  using assms
proof (induction rule: read_loop.raw_induct [rotated, consumes 1, case_names step])
  case (step loop t u)
  show ?case
  proof (cases "framer_has_message (s_framer t)")
    case True
    with step.hyps obtain w t1 f where "process_wire_message w t = Some t1" "framer_consume_message (s_framer t1) = Some f"
      "loop (t1\<lparr>s_framer := f\<rparr>) = Some u"
      by (auto simp: bind_eq_Some_conv)
    moreover from this(1,2) have "micros True s (t1\<lparr>s_framer := f\<rparr>)"
      using step.prems by (intro micros_framer framer_step.intros(2)) (rule micros_process_wire_message)
    ultimately show ?thesis using step.IH by blast
  qed (use step in simp)
qed


lemma micros_on_read: "on_read message ec d t = Some u \<Longrightarrow> micros True s t \<Longrightarrow> micros True s u"
  unfolding on_read_def
  by (auto simp: Let_def bind_eq_Some_conv split: if_splits option.splits
      elim!: micros_do_read micros_transport_down micros_read_loop intro!: micros_intro intro: framer_step.intros(1))

lemma micros_do_write: "do_write t = Some u \<Longrightarrow> micros True s t \<Longrightarrow> \<not> s_stopped t \<Longrightarrow> micros True s u"
  by (erule micros_snoc) (rule m_write)

lemma micros_on_write: "on_write message ec n t = Some u \<Longrightarrow> micros True s t \<Longrightarrow> micros True s u"
proof (cases "s_stopped t \<or> ec = Some operation_aborted")
  case False
  assume w: "on_write message ec n t = Some u" and st: "micros True s t"
  show ?thesis
  proof (cases ec)
    case None
    with w False show ?thesis by (intro micros_snoc [OF st m_written]) auto
  next
    case (Some e)
    let ?t = "emit [Log (''Write error: '' @ message e)] t"
    have "micros True s ?t" using st by (intro micros_intro) simp_all
    with w Some False show ?thesis
      by (auto simp: on_write_def Let_def split: if_splits elim!: micros_transport_down micros_do_write)
  qed
qed (simp add: on_write_def)

lemma micros_start_normal: "start_normal t = Some u \<Longrightarrow> micros True s t \<Longrightarrow> micros True s u"
  unfolding start_normal_def
  by (auto simp: Let_def bind_eq_Some_conv split: if_splits elim!: micros_elim intro!: micros_intro)

lemma micros_start_after_reconnect:
  assumes "start_after_reconnect t = Some u" "micros True s t"
  shows "micros True s u"
proof (cases "\<not> s_conn t \<or> s_stopped t")
  case True
  with assms show ?thesis by (auto simp: start_after_reconnect_def Let_def split: if_splits intro!: micros_intro)
next
  case False
  define t1 where "t1 = (emit [Log ''Session reconnecting''] t)\<lparr>s_awaiting_test_request_response := False, s_reconnecting := False, s_test_req_id := 0\<rparr>"
  obtain t2 where t2: "clear_write_q t1 = Some t2"
    using assms(1) False by (auto simp: start_after_reconnect_def Let_def bind_eq_Some_conv t1_def)
  define t3 where "t3 = t2\<lparr>s_write_inflight := False, s_recovery_cache := rc_reset (s_recovery_cache t2), s_framer := framer_reset (s_framer t2)\<rparr>"
  have "clear_write_q (t1\<lparr>s_write_inflight := False\<rparr>) = Some (t2\<lparr>s_write_inflight := False\<rparr>)"
    using t2 by (auto simp: clear_write_q_def bind_eq_Some_conv)
  moreover have "micros True s t1" unfolding t1_def using assms(2) by (intro micros_intro) simp_all
  ultimately have "micros True s (t2\<lparr>s_write_inflight := False\<rparr>)" by (rule micros_clear)
  then have "micros True s ((t2\<lparr>s_write_inflight := False\<rparr>)\<lparr>s_recovery_cache := rc_reset (s_recovery_cache (t2\<lparr>s_write_inflight := False\<rparr>)), s_framer := framer_reset (s_framer t2)\<rparr>)"
    by (intro micros_intro cache_step.intros) (simp_all add: framer_step.intros(3))
  then have t3: "micros True s t3" by (simp add: t3_def)
  obtain t4 where t4: "do_read t4 = Some u"
    "(if s_role t3 = INITIATOR then do { v \<leftarrow> send_logon False t3; Some (schedule_logon_timeout (v\<lparr>s_state := LOGON_SENT\<rparr>)) }
      else Some (schedule_logon_timeout (t3\<lparr>s_state := AWAITING_LOGON\<rparr>))) = Some t4"
    using assms(1) False t2 unfolding t3_def
    by (auto simp: start_after_reconnect_def Let_def bind_eq_Some_conv simp flip: t1_def)
  then have "micros True s t4"
    using t3 by (auto simp: bind_eq_Some_conv split: if_splits elim!: micros_elim intro!: micros_intro)
  with t4(1) show ?thesis by (rule micros_do_read)
qed

lemma session_step_micros: "session_step message e s = Some t \<Longrightarrow> micros True s t"
proof (cases e)
  case (Start mode)
  then show "session_step message e s = Some t \<Longrightarrow> micros True s t"
    by (auto simp: start_def split: if_splits elim!: micros_start_normal micros_start_after_reconnect)
next
  case (Read_Done ec d)
  then show "session_step message e s = Some t \<Longrightarrow> micros True s t" by (auto elim!: micros_on_read)
next
  case (Write_Done ec n)
  then show "session_step message e s = Some t \<Longrightarrow> micros True s t" by (auto elim!: micros_on_write)
qed (auto simp: set_connection_def send_from_app_def on_logon_timer_def on_heartbeat_timer_def on_inbound_timer_def
    on_logout_timer_def Let_def bind_eq_Some_conv split: if_splits elim!: micros_elim intro!: micros_intro)

end
