(* ===== verification/Session_Write.thy ===== *)
theory Session_Write
  imports Session_Steps
begin

text \<open>
  What holds of a session in every reachable state, whatever arrives on the connection and in
  which order its handlers run: the write queue owns its blocks of the arena, a write is in
  flight exactly when something is queued, the framer and the scratch of the factory keep their
  invariants, and a stopped session has nothing left to write and stays silent. On top of it, the bytes given to the connection are the messages sent, in order.
\<close>

section \<open>The invariant\<close>

definition queued :: "session \<Rightarrow> (WireWriter \<times> string) list" where
  "queued s = map (\<lambda>p. (pw_data p, the (ww_view (pw_data p) (s_arena s)))) (s_write_q s)"

definition session_inv :: "session \<Rightarrow> bool" where
  "session_inv s \<longleftrightarrow> writers_ok (s_arena s) (queued s) \<and> (s_stopped s \<longrightarrow> s_write_q s = []) \<and>
     (s_write_inflight s \<longleftrightarrow> s_write_q s \<noteq> []) \<and> rc_inv (s_recovery_cache s)"

lemma writers_ok_rotate: "writers_ok a (xs @ ys) \<longleftrightarrow> writers_ok a (ys @ xs)"
  using arena_inv_move [of a "live_blocks xs" "live_blocks ys" "[]"]
  by (auto simp: writers_ok_def live_blocks_def)

lemma map_queue_eq:
  "\<forall>(w, m) \<in> set ws. ww_view w a = Some m \<Longrightarrow> map fst ws = map pw_data q \<Longrightarrow>
   map (\<lambda>p. (pw_data p, the (ww_view (pw_data p) a))) q = ws"
  by (induction q arbitrary: ws) (auto simp: Cons_eq_map_conv)

lemma queued_eq: "writers_ok (s_arena s) ws \<Longrightarrow> map fst ws = map pw_data (s_write_q s) \<Longrightarrow> queued s = ws"
  unfolding queued_def by (intro map_queue_eq) (auto simp: writers_ok_def)

lemma queued_cong: "s_arena t = s_arena s \<Longrightarrow> s_write_q t = s_write_q s \<Longrightarrow> queued t = queued s"
  by (simp add: queued_def)

lemma map_fst_queued [simp]: "map fst (queued s) = map pw_data (s_write_q s)"
  by (simp add: queued_def)

lemma queued_Nil [simp]: "s_write_q s = [] \<Longrightarrow> queued s = []"
  by (simp add: queued_def)

lemma release_writes_ok:
  "writers_ok a ws \<Longrightarrow> map fst ws = map pw_data q \<Longrightarrow> \<exists>a'. release_writes q a = Some a' \<and> writers_ok a' []"
proof (induction q arbitrary: a ws)
  case (Cons p q)
  then obtain m ys where ws: "ws = (pw_data p, m) # ys" "map fst ys = map pw_data q"
    by (auto simp: map_eq_Cons_conv)
  obtain a' where "ww_destroy (pw_data p) a = Some a'" "writers_ok a' ys"
    using writers_ok_destroy [of a "[]" "pw_data p" m ys] Cons.prems(1) ws(1) by auto
  then show ?case using Cons.IH [of a' ys] ws(2) by simp
qed simp

lemma clear_write_q_ok:
  assumes "writers_ok (s_arena s) (queued s)"
  shows "\<exists>a. clear_write_q s = Some (s\<lparr>s_write_q := [], s_arena := a\<rparr>) \<and> writers_ok a []"
  using release_writes_ok [OF assms map_fst_queued] by (auto simp: clear_write_q_def)

section \<open>One change at a time\<close>

lemma queued_send:
  assumes "writers_ok (s_arena s) (queued s)" "from_arena m (s_arena s) = Some (w, a)"
    "s_arena t = a" "s_write_q t = s_write_q s @ [\<lparr>pw_data = w, pw_sent = 0\<rparr>]"
  shows "queued t = queued s @ [(w, m)]" "writers_ok (s_arena t) (queued t)"
proof -
  have "writers_ok a ((w, m) # queued s)" using writers_ok_write [OF assms(1), of m] assms(2) by auto
  then have ok: "writers_ok a (queued s @ [(w, m)])" using writers_ok_rotate [of a "[(w, m)]"] by simp
  then show "queued t = queued s @ [(w, m)]" using assms(3,4) by (intro queued_eq) simp_all
  with ok assms(3) show "writers_ok (s_arena t) (queued t)" by simp
qed

lemma do_write_ok:
  assumes "writers_ok (s_arena s) (queued s)" "\<not> s_stopped s" "s_conn s" "s_write_q s = p # ps"
  obtains v where "ww_view (pw_data p) (s_arena s) = Some v" "do_write s = Some (emit [Async_Write (drop (pw_sent p) v)] s)"
    "length v = ww_size (pw_data p)"
proof -
  obtain v where v: "ww_view (pw_data p) (s_arena s) = Some v"
    using assms(1,4) by (fastforce simp: writers_ok_def queued_def)
  then have "length v = ww_size (pw_data p)" by (auto simp: ww_view_def bind_eq_Some_conv)
  with v show ?thesis using assms by (intro that [of v]) (simp_all add: do_write_def)
qed

lemma do_write_frame:
  assumes "do_write s = Some t"
  shows "s_arena t = s_arena s \<and> s_write_q t = s_write_q s \<and> s_stopped t = s_stopped s \<and> s_conn t = s_conn s \<and>
    s_recovery_cache t = s_recovery_cache s \<and> s_write_inflight t = (s_write_q s \<noteq> [] \<and> s_write_inflight s)"
  using assms by (auto simp: do_write_def bind_eq_Some_conv split: list.splits if_splits)

lemma send_bytes_frame:
  assumes "send_bytes w s = Some t"
  shows "s_arena t = s_arena s \<and> s_write_q t = s_write_q s @ [\<lparr>pw_data = w, pw_sent = 0\<rparr>] \<and> s_stopped t = s_stopped s \<and> s_conn t = s_conn s \<and>
    s_recovery_cache t = s_recovery_cache s \<and> s_write_inflight t"
  using assms by (auto simp: send_bytes_def Let_def split: if_splits dest!: do_write_frame)

lemma on_write_cases:
  assumes inv: "writers_ok (s_arena s) (queued s)" and "\<not> s_stopped s" and q: "s_write_q s = p # ps"
  obtains (popped) a where "pw_sent p + n \<ge> ww_size (pw_data p)" "writers_ok a (tl (queued s))"
      "on_write message None n s = do_write (s\<lparr>s_write_q := ps, s_arena := a\<rparr>)"
    | (kept) "pw_sent p + n < ww_size (pw_data p)"
      "on_write message None n s = do_write (s\<lparr>s_write_q := p\<lparr>pw_sent := pw_sent p + n\<rparr> # ps\<rparr>)"
proof (cases "pw_sent p + n \<ge> ww_size (pw_data p)")
  case True
  obtain m where qs: "queued s = (pw_data p, m) # tl (queued s)" using q by (simp add: queued_def)
  then obtain a where "ww_destroy (pw_data p) (s_arena s) = Some a" "writers_ok a (tl (queued s))"
    using writers_ok_destroy [of "s_arena s" "[]" "pw_data p" m "tl (queued s)"] inv by auto
  with True show ?thesis using assms(2) q by (intro popped [of a]) (simp_all add: on_write_def Let_def)
next
  case False
  then show ?thesis using assms(2) q by (intro kept) (simp_all add: on_write_def Let_def)
qed

lemma queued_tail: "s_write_q s = p # ps \<Longrightarrow> map fst (tl (queued s)) = map pw_data ps"
  by (simp add: queued_def comp_def)

lemma cache_step_inv: "cache_step c c' \<Longrightarrow> rc_inv c \<Longrightarrow> rc_inv c'"
proof (induction rule: cache_step.induct)
  case (3 n w c c')
  then have "rc_in_window n c" "\<not> rc_contains n c" "w \<noteq> []"
    by (auto simp: rc_insert_def rc_insert_message_def bind_eq_Some_conv)
  with 3 show ?case using rc_insert_ok [of c n w] by (auto simp: rc_contains_lookup)
next
  case (4 n c c')
  then have "rc_lookup c n \<noteq> None" by (auto simp: rc_consume_def bind_eq_Some_conv rc_contains_lookup)
  with 4 show ?case using rc_consume_ok [of c n] by auto
qed (simp_all add: rc_start_ok rc_reset_inv)

lemma session_inv_cong:
  assumes "same_core s t" "session_inv s"
  shows "session_inv t"
  using assms queued_cong [of t s] by (auto simp: session_inv_def same_core_def)

lemma session_inv_cleared:
  assumes "session_inv s" "clear_write_q (s\<lparr>s_stopped := b, s_write_inflight := False\<rparr>) = Some t"
  shows "session_inv t"
  using clear_write_q_ok [of "s\<lparr>s_stopped := b, s_write_inflight := False\<rparr>"] assms
  by (auto simp: session_inv_def queued_def)

lemma session_inv_written:
  assumes inv: "session_inv s" "\<not> s_stopped s" and w: "on_write message None n s = Some t"
  shows "session_inv t"
proof -
  have ok: "writers_ok (s_arena s) (queued s)" using inv by (simp add: session_inv_def)
  obtain p ps where q: "s_write_q s = p # ps" using w inv(2) by (auto simp: on_write_def split: list.splits)
  show ?thesis
    using ok inv(2) q
  proof (cases rule: on_write_cases [where n = n and message = message])
    case (popped a)
    let ?s = "s\<lparr>s_write_q := ps, s_arena := a\<rparr>"
    have "queued ?s = tl (queued s)" using popped(2) queued_tail [OF q] by (intro queued_eq) simp_all
    moreover have "s_write_inflight s" using inv(1) q by (simp add: session_inv_def)
    ultimately show ?thesis
      using do_write_frame [of ?s t] w popped(2,3) inv queued_cong [of t ?s] by (auto simp: session_inv_def)
  next
    case kept
    let ?s = "s\<lparr>s_write_q := p\<lparr>pw_sent := pw_sent p + n\<rparr> # ps\<rparr>"
    have "queued ?s = queued s" using q by (simp add: queued_def)
    then show ?thesis
      using do_write_frame [of ?s t] w kept(2) inv q queued_cong [of t ?s] by (auto simp: session_inv_def)
  qed
qed

lemma session_inv_micro: "micro fr s t \<Longrightarrow> session_inv s \<Longrightarrow> session_inv t"
proof (induction rule: micro.induct)
  case (m_book s t)
  from session_inv_cong [OF m_book(1,3)] show ?case .
next
  case (m_send s m w a t)
  note f = send_bytes_frame [OF m_send(3)]
  have "writers_ok (s_arena t) (queued t)"
    using m_send(1,2,4) f by (intro queued_send(2) [of s m w a t]) (simp_all add: session_inv_def)
  with f m_send(1,4) show ?case by (simp add: session_inv_def)
next
  case (m_clear s t)
  then show ?case using session_inv_cleared [of s "s_stopped s" t] by simp
next
  case (m_stop s t)
  then show ?case using session_inv_cleared [of s True t] by simp
next
  case (m_written s message n t)
  then show ?case using session_inv_written by blast
next
  case (m_write s t)
  then show ?case using do_write_frame [of s t] queued_cong [of t s] by (auto simp: session_inv_def)
next
  case (m_cache s c)
  then show ?case by (auto simp: session_inv_def queued_def intro: cache_step_inv)
qed (auto simp: session_inv_def queued_def)

lemma micros_lift:
  assumes "micros fr s t" "P s" and "\<And>s t. micro fr s t \<Longrightarrow> P s \<Longrightarrow> P t"
  shows "P t"
  using assms(1,2) by (induction rule: rtranclp_induct) (auto intro: assms(3))

lemma session_new_inv: "\<exists>s. session_new session_id role params = Some s \<and> session_inv s"
proof -
  obtain a where a: "arena_new = Some a" "arena_inv a []" using arena_new_ok by blast
  show ?thesis
    unfolding session_new_def a(1) using a(2)
    by (simp add: session_inv_def writers_ok_def live_blocks_def queued_def rc_new_inv)
qed

lemma session_reach_inv: "session_reach message s \<Longrightarrow> session_inv s"
proof (induction rule: session_reach.induct)
  case (reach_start session_id role params s)
  then show ?case using session_new_inv [of session_id role params] by auto
next
  case (reach_event s e t)
  then show ?case using session_inv_micro by (blast intro: micros_lift dest: session_step_micros)
qed

section \<open>The framer and the scratch of the factory\<close>

text \<open>
  The framer always is what it becomes on some stream of bytes with the messages found in it, and
  the scratch of the factory lies within its capacity.
\<close>

definition parts_inv :: "session \<Rightarrow> bool" where
  "parts_inv s \<longleftrightarrow> sc_inv (s_scratch s) \<and> (\<exists>S W. framer_inv S W (s_framer s))"

lemma framer_reset_inv: "framer_inv S W f \<Longrightarrow> framer_inv [] [] (framer_reset f)"
  by (auto simp: framer_inv_def framer_base_def scan_ok_def ctx_ok_def framer_pos_def framer_reset_def fresh_context_def
      lb_reset_ok ring_clear_inv)

lemma framer_front_total:
  assumes "framer_inv S W f" "framer_has_message f"
  obtains m g where "framer_get_message f = Some m" "framer_consume_message f = Some g" "framer_inv S W g"
proof -
  obtain w ws where q: "ring_list (fr_completed f) = w # ws"
    using assms(2) by (metis framer_has_message_def length_ring_list list.exhaust list.size(3) less_irrefl)
  then show ?thesis using framer_front_ok [OF assms(1) q] that by blast
qed

lemma framer_step_inv: "framer_step f g \<Longrightarrow> framer_inv S W f \<Longrightarrow> \<exists>S W. framer_inv S W g"
proof (induction rule: framer_step.induct)
  case (1 data f g)
  then show ?case using framer_append_ok [of S W f data] by auto
next
  case (2 f g)
  then have "framer_has_message f" by (auto simp: framer_consume_message_def bind_eq_Some_conv)
  with 2 show ?case by (metis framer_front_total option.inject)
next
  case (3 f)
  then show ?case using framer_reset_inv by blast
qed

lemma do_write_parts: "do_write s = Some t \<Longrightarrow> s_scratch t = s_scratch s \<and> s_framer t = s_framer s"
  by (auto simp: do_write_def bind_eq_Some_conv split: list.splits if_splits)

lemma parts_inv_cong: "s_scratch t = s_scratch s \<Longrightarrow> s_framer t = s_framer s \<Longrightarrow> parts_inv t = parts_inv s"
  by (simp add: parts_inv_def)

lemma parts_inv_micro: "micro fr s t \<Longrightarrow> parts_inv s \<Longrightarrow> parts_inv t"
proof (induction rule: micro.induct)
  case (m_book s t)
  then show ?case by (simp add: parts_inv_def same_core_def)
next
  case (m_send s m w a t)
  then have "s_scratch t = s_scratch s \<and> s_framer t = s_framer s"
    by (auto simp: send_bytes_def Let_def split: if_splits dest!: do_write_parts)
  with m_send(4) show ?case by (simp add: parts_inv_def)
next
  case (m_clear s t)
  then have "s_scratch t = s_scratch s \<and> s_framer t = s_framer s" by (auto simp: clear_write_q_def bind_eq_Some_conv)
  with m_clear(2) show ?case by (simp add: parts_inv_def)
next
  case (m_stop s t)
  then have "s_scratch t = s_scratch s \<and> s_framer t = s_framer s" by (auto simp: clear_write_q_def bind_eq_Some_conv)
  with m_stop(2) show ?case by (simp add: parts_inv_def)
next
  case (m_written s message n t)
  then have "s_scratch t = s_scratch s \<and> s_framer t = s_framer s"
    by (auto simp: on_write_def Let_def bind_eq_Some_conv split: list.splits if_splits dest!: do_write_parts)
  with m_written(3) show ?case by (simp add: parts_inv_def)
next
  case (m_write s t)
  then show ?case using do_write_parts [of s t] by (simp add: parts_inv_def)
next
  case (m_framer s f)
  then obtain S W where "framer_inv S W (s_framer s)" by (auto simp: parts_inv_def)
  with m_framer show ?case using framer_step_inv [of "s_framer s" f S W] by (simp add: parts_inv_def)
qed (simp_all add: parts_inv_def)

lemma session_reach_parts: "session_reach message s \<Longrightarrow> parts_inv s"
proof (induction rule: session_reach.induct)
  case (reach_start session_id role params s)
  then have "s_scratch s = sc_new" "s_framer s = framer_new" by (auto simp: session_new_def bind_eq_Some_conv)
  then show ?case using framer_new_inv sc_new_inv unfolding parts_inv_def by auto
next
  case (reach_event s e t)
  then show ?case using parts_inv_micro by (blast intro: micros_lift dest: session_step_micros)
qed

section \<open>A stopped session\<close>

definition loud :: "session \<Rightarrow> Effect list" where
  "loud s = filter (\<lambda>e. \<not> quiet e) (s_out s)"

lemma stopped_micro:
  assumes "micro fr s t" "s_stopped s"
  shows "s_stopped t \<and> loud t = loud s"
  using assms
proof (induction rule: micro.induct)
  case (m_quiet es s)
  then show ?case by (auto simp: loud_def list_all_iff filter_empty_conv)
qed (auto simp: loud_def same_core_def clear_write_q_def bind_eq_Some_conv)

lemma stopped_step:
  assumes "session_step message e s = Some t" "s_stopped s"
  shows "s_stopped t \<and> loud t = loud s"
proof -
  have "micros True s t" using assms(1) by (rule session_step_micros)
  then show ?thesis using assms(2)
    by (induction rule: rtranclp_induct) (auto dest: stopped_micro)
qed

lemma stop_ok:
  assumes "session_inv s"
  shows "\<exists>t. stop s = Some t \<and> session_inv t \<and> s_stopped t"
proof (cases "s_stopped s")
  case False
  have clr: "\<exists>u. clear_write_q u0 = Some u \<and> s_stopped u" if "s_arena u0 = s_arena s" "s_write_q u0 = s_write_q s" "s_stopped u0" for u0
  proof -
    have "writers_ok (s_arena u0) (queued u0)"
      using assms that queued_cong [of u0 s] by (simp add: session_inv_def)
    then show ?thesis using clear_write_q_ok [of u0] that(3) by auto
  qed
  have "\<exists>t. stop s = Some t \<and> s_stopped t"
    using False by (cases "s_conn s") (auto simp: stop_def Let_def cancel_timers_def intro!: clr)
  then obtain t where t: "stop s = Some t" "s_stopped t" by blast
  moreover have "session_inv t"
    using micros_stop [OF t(1) micros_refl] assms by (rule micros_lift) (rule session_inv_micro)
  ultimately show ?thesis by blast
qed (use assms in \<open>simp add: stop_def\<close>)

section \<open>The bytes on the connection\<close>

definition pw_rest :: "arena \<Rightarrow> PendingWrite \<Rightarrow> string" where
  "pw_rest a p = drop (pw_sent p) (the (ww_view (pw_data p) a))"

definition pending :: "session \<Rightarrow> string" where
  "pending s = concat (map (pw_rest (s_arena s)) (s_write_q s))"

text \<open>The write on the connection that has not completed: the last one that was started.\<close>

fun written_by :: "Effect \<Rightarrow> string list" where
  "written_by (Async_Write b) = [b]"
| "written_by _ = []"

definition outstanding :: "session \<Rightarrow> string option" where
  "outstanding s =
     (if s_write_inflight s
      then (case concat (map written_by (rev (s_out s))) of b # _ \<Rightarrow> Some b | [] \<Rightarrow> None) else None)"

inductive wire_run :: "(asio_error \<Rightarrow> string) \<Rightarrow> string \<Rightarrow> string \<Rightarrow> session \<Rightarrow> bool" for message where
  run_idle: "session_inv s \<Longrightarrow> \<not> s_stopped s \<Longrightarrow> s_conn s \<Longrightarrow> s_write_q s = [] \<Longrightarrow> wire_run message [] [] s"
| run_send: "wire_run message sent accepted s \<Longrightarrow> send_message w r s = Some t \<Longrightarrow> wire_run message (sent @ w) accepted t"
| run_written: "wire_run message sent accepted s \<Longrightarrow> outstanding s = Some b \<Longrightarrow> n \<le> length b \<Longrightarrow>
    on_write message None n s = Some t \<Longrightarrow> wire_run message sent (accepted @ take n b) t"
| run_retry: "wire_run message sent accepted s \<Longrightarrow> outstanding s = Some b \<Longrightarrow> classify_readwrite_error e = Transient \<Longrightarrow>
    on_write message (Some e) n s = Some t \<Longrightarrow> wire_run message sent accepted t"

text \<open>What holds along such a run, over the messages still queued.\<close>

definition run_inv :: "string \<Rightarrow> string \<Rightarrow> session \<Rightarrow> bool" where
  "run_inv sent accepted s \<longleftrightarrow> session_inv s \<and> \<not> s_stopped s \<and> s_conn s \<and> sent = accepted @ pending s \<and>
     (case s_write_q s of [] \<Rightarrow> True | p # ps \<Rightarrow> outstanding s = Some (pw_rest (s_arena s) p))"

lemma written_by_quiet: "quiet e \<Longrightarrow> written_by e = []"
  by (cases e) simp_all

lemma outstanding_emit [simp]:
  "outstanding (emit [Async_Write b] s) = (if s_write_inflight s then Some b else None)"
  "list_all quiet es \<Longrightarrow> outstanding (emit es s) = outstanding s"
proof -
  show "outstanding (emit [Async_Write b] s) = (if s_write_inflight s then Some b else None)" by (simp add: outstanding_def)
  assume "list_all quiet es"
  then have none: "concat (map written_by (rev es)) = []"
    by (auto simp: list_all_iff written_by_quiet)
  show "outstanding (emit es s) = outstanding s" by (simp only: outstanding_def emit_core rev_append map_append concat_append none append_Nil)
qed

lemma pending_send:
  assumes inv: "session_inv s" "\<not> s_stopped s" and "from_arena m (s_arena s) = Some (w, a)" "send_bytes w (s\<lparr>s_arena := a\<rparr>) = Some t"
  shows "pending t = pending s @ m" "s_write_q s = p # ps \<Longrightarrow> pw_rest (s_arena t) p = pw_rest (s_arena s) p"
proof -
  have f: "s_arena t = a" "s_write_q t = s_write_q s @ [\<lparr>pw_data = w, pw_sent = 0\<rparr>]"
    using send_bytes_frame [OF assms(4)] by simp_all
  have ok: "writers_ok (s_arena s) (queued s)" using inv(1) by (simp add: session_inv_def)
  have view: "ww_view w a = Some m" "\<forall>p \<in> set (s_write_q s). ww_view (pw_data p) a = ww_view (pw_data p) (s_arena s)"
    using queued_send [OF ok assms(3) f] f ok unfolding writers_ok_def queued_def by fastforce+
  then have rest: "\<forall>p \<in> set (s_write_q s). pw_rest a p = pw_rest (s_arena s) p" by (simp add: pw_rest_def)
  then have old: "concat (map (pw_rest a) (s_write_q s)) = concat (map (pw_rest (s_arena s)) (s_write_q s))"
    by (metis (no_types, lifting) map_cong)
  have new: "pw_rest a \<lparr>pw_data = w, pw_sent = 0\<rparr> = m" using view(1) by (simp add: pw_rest_def)
  show "pending t = pending s @ m" by (simp add: pending_def f old new)
  show "s_write_q s = p # ps \<Longrightarrow> pw_rest (s_arena t) p = pw_rest (s_arena s) p" using rest f by simp
qed


lemma send_message_cases:
  assumes "send_message w r s = Some t" "\<not> s_stopped s"
  obtains ww a t1 where "from_arena w (s_arena s) = Some (ww, a)" "send_bytes ww (s\<lparr>s_arena := a\<rparr>) = Some t1"
    "s_arena t = s_arena t1" "s_write_q t = s_write_q t1" "s_conn t = s_conn t1" "s_stopped t = s_stopped t1"
    "s_write_inflight t = s_write_inflight t1" "s_recovery_cache t = s_recovery_cache t1" "outstanding t = outstanding t1"
proof -
  from assms obtain ww a t1 t2 where t1: "from_arena w (s_arena s) = Some (ww, a)" "send_bytes ww (s\<lparr>s_arena := a\<rparr>) = Some t1"
    and t2: "(if \<not> r then do { st \<leftarrow> store_outbound_message w (s_store t1); Some (t1\<lparr>s_store := st\<rparr>) } else Some t1) = Some t2"
    and t: "t = (if s_state t2 = ACTIVE \<or> s_state t2 = RECOVERING_RESEND then schedule_heartbeat t2 else t2)"
    by (auto simp: send_message_def bind_eq_Some_conv)
  have "same_core t1 t2" "outstanding t2 = outstanding t1"
    using t2 by (auto simp: bind_eq_Some_conv same_core_def outstanding_def split: if_splits)
  then show ?thesis
    using t by (intro that [OF t1]) (auto simp: same_core_def schedule_heartbeat_def)
qed

lemma run_inv_send:
  assumes run: "run_inv sent accepted s" and send: "send_message w r s = Some t"
  shows "run_inv (sent @ w) accepted t"
proof -
  have inv: "session_inv s" "\<not> s_stopped s" "s_conn s" using run by (simp_all add: run_inv_def)
  have inv_t: "session_inv t"
    using micros_send_message [OF send micros_refl] inv(1) by (rule micros_lift) (rule session_inv_micro)
  obtain ww a t1 where t1: "from_arena w (s_arena s) = Some (ww, a)" "send_bytes ww (s\<lparr>s_arena := a\<rparr>) = Some t1"
    and eq: "s_arena t = s_arena t1" "s_write_q t = s_write_q t1" "s_conn t = s_conn t1" "s_stopped t = s_stopped t1"
      "s_write_inflight t = s_write_inflight t1" "outstanding t = outstanding t1"
    using send_message_cases [OF send inv(2)] by metis
  note f = send_bytes_frame [OF t1(2)] and pend = pending_send [OF inv(1,2) t1]
  have "pending t = pending s @ w" using pend(1) eq by (simp add: pending_def)
  moreover have "outstanding t = Some (pw_rest (s_arena t) (hd (s_write_q t)))"
  proof (cases "s_write_q s")
    case Nil
    then have idle: "\<not> s_write_inflight s" using inv(1) by (simp add: session_inv_def)
    let ?s = "s\<lparr>s_arena := a, s_write_q := [\<lparr>pw_data = ww, pw_sent = 0\<rparr>], s_write_inflight := True\<rparr>"
    have "do_write ?s = Some t1" using t1(2) Nil idle by (simp add: send_bytes_def Let_def)
    then show ?thesis
      using f eq inv Nil by (auto simp: do_write_def bind_eq_Some_conv pw_rest_def)
  next
    case (Cons p ps)
    then have "t1 = s\<lparr>s_arena := a, s_write_q := s_write_q s @ [\<lparr>pw_data = ww, pw_sent = 0\<rparr>]\<rparr>"
      using t1(2) inv(1) by (simp add: send_bytes_def Let_def session_inv_def)
    then have "outstanding t1 = outstanding s" by (simp add: outstanding_def)
    with run Cons f eq pend(2) [OF Cons] show ?thesis by (simp add: run_inv_def)
  qed
  ultimately show ?thesis using run inv_t f eq by (auto simp: run_inv_def split: list.splits)
qed


lemma pw_rest_views:
  assumes "\<forall>(w, m) \<in> set ws. ww_view w a = Some m" "\<forall>(w, m) \<in> set ws. ww_view w b = Some m" "map fst ws = map pw_data q"
  shows "map (pw_rest a) q = map (pw_rest b) q"
proof -
  have "map (\<lambda>p. (pw_data p, the (ww_view (pw_data p) a))) q = map (\<lambda>p. (pw_data p, the (ww_view (pw_data p) b))) q"
    using map_queue_eq [OF assms(1,3)] map_queue_eq [OF assms(2,3)] by simp
  then show ?thesis by (auto simp: pw_rest_def)
qed

text \<open>What \<open>do_write\<close> does after a completion: the write for the front of the queue is started.\<close>

lemma do_write_run:
  assumes "writers_ok (s_arena s) (queued s)" "\<not> s_stopped s" "s_conn s" "s_write_inflight s"
  shows "\<exists>t. do_write s = Some t \<and> pending t = pending s \<and> \<not> s_stopped t \<and> s_conn t \<and>
     (case s_write_q t of [] \<Rightarrow> True | p # ps \<Rightarrow> outstanding t = Some (pw_rest (s_arena t) p))"
proof (cases "s_write_q s")
  case Nil
  with assms show ?thesis by (simp add: do_write_def pending_def)
next
  case (Cons p ps)
  then obtain v where "ww_view (pw_data p) (s_arena s) = Some v" "do_write s = Some (emit [Async_Write (drop (pw_sent p) v)] s)"
    using do_write_ok [OF assms(1-3)] by metis
  then show ?thesis using assms Cons by (simp add: pending_def pw_rest_def)
qed

lemma run_inv_written:
  assumes run: "run_inv sent accepted s" and b: "outstanding s = Some b" "n \<le> length b"
  shows "\<exists>t. on_write message None n s = Some t \<and> run_inv sent (accepted @ take n b) t"
proof -
  have inv: "session_inv s" "\<not> s_stopped s" "s_conn s" and ok: "writers_ok (s_arena s) (queued s)"
    using run by (simp_all add: run_inv_def session_inv_def)
  have infl: "s_write_inflight s" using b(1) by (auto simp: outstanding_def split: if_splits)
  then obtain p ps where q: "s_write_q s = p # ps" using inv(1) by (cases "s_write_q s") (simp_all add: session_inv_def)
  obtain v where v: "ww_view (pw_data p) (s_arena s) = Some v" "length v = ww_size (pw_data p)"
    using do_write_ok [OF ok inv(2,3) q] .
  have bv: "b = drop (pw_sent p) v" using run q v(1) b(1) by (simp add: run_inv_def pw_rest_def)
  let ?rest = "concat (map (pw_rest (s_arena s)) ps)"
  have sent: "sent = accepted @ b @ ?rest" using run q v(1) bv by (simp add: run_inv_def pending_def pw_rest_def)
  have "\<exists>s1. on_write message None n s = do_write s1 \<and> writers_ok (s_arena s1) (queued s1) \<and> pending s1 = drop n b @ ?rest \<and>
      \<not> s_stopped s1 \<and> s_conn s1 \<and> s_write_inflight s1"
    using ok inv(2) q
  proof (cases rule: on_write_cases [where n = n and message = message])
    case (popped a)
    let ?s = "s\<lparr>s_write_q := ps, s_arena := a\<rparr>"
    have qs: "queued ?s = tl (queued s)" using popped(2) queued_tail [OF q] by (intro queued_eq) simp_all
    have "queued s \<noteq> []" using q by (simp add: queued_def)
    have rest: "map (pw_rest a) ps = map (pw_rest (s_arena s)) ps"
      using popped(2) ok queued_tail [OF q] \<open>queued s \<noteq> []\<close>
      by (intro pw_rest_views [where ws = "tl (queued s)"]) (auto simp: writers_ok_def dest!: list.set_sel(2) [rotated])
    have "pending ?s = drop n b @ ?rest" using popped(1) v(2) bv rest by (simp add: pending_def del: map_eq_conv)
    then show ?thesis
      using popped(2,3) qs inv infl by (intro exI [of _ ?s]) simp
  next
    case kept
    let ?s = "s\<lparr>s_write_q := p\<lparr>pw_sent := pw_sent p + n\<rparr> # ps\<rparr>"
    have "queued ?s = queued s" using q by (simp add: queued_def)
    then show ?thesis
      using kept(2) ok inv infl v(1) bv by (intro exI [of _ ?s]) (simp add: pending_def pw_rest_def add.commute)
  qed
  then obtain t where t: "on_write message None n s = Some t" "pending t = drop n b @ ?rest" "\<not> s_stopped t" "s_conn t"
    "case s_write_q t of [] \<Rightarrow> True | p # ps \<Rightarrow> outstanding t = Some (pw_rest (s_arena t) p)"
    using do_write_run by metis
  have "session_inv t" using session_inv_written [OF inv(1,2) t(1)] .
  with t sent show ?thesis by (simp add: run_inv_def)
qed

lemma run_inv_retry:
  assumes run: "run_inv sent accepted s" and b: "outstanding s = Some b" "classify_readwrite_error e = Transient"
  shows "\<exists>t. on_write message (Some e) n s = Some t \<and> run_inv sent accepted t"
proof -
  let ?s = "emit [Log (''Write error: '' @ message e)] s"
  have e: "e \<noteq> operation_aborted" using b(2) by (auto simp: classify_readwrite_error_def)
  have infl: "s_write_inflight s" using b(1) by (auto simp: outstanding_def split: if_splits)
  have w: "on_write message (Some e) n s = do_write ?s"
    using run b(2) e by (simp add: on_write_def run_inv_def Let_def)
  have "writers_ok (s_arena ?s) (queued ?s)"
    using run queued_cong [of ?s s] by (simp add: run_inv_def session_inv_def)
  then obtain t where t: "do_write ?s = Some t" "pending t = pending ?s" "\<not> s_stopped t" "s_conn t"
    "case s_write_q t of [] \<Rightarrow> True | p # ps \<Rightarrow> outstanding t = Some (pw_rest (s_arena t) p)"
    using do_write_run [of ?s] run infl by (auto simp: run_inv_def)
  have "session_inv t"
    using micros_on_write [of message "Some e" n s t s] w t(1) run
    by (intro micros_lift [of True s t session_inv]) (auto simp: run_inv_def session_inv_micro)
  moreover have "pending ?s = pending s" by (simp add: pending_def)
  ultimately show ?thesis using w t run by (simp add: run_inv_def)
qed

lemma wire_run_inv: "wire_run message sent accepted s \<Longrightarrow> run_inv sent accepted s"
proof (induction rule: wire_run.induct)
  case (run_idle s)
  then show ?case by (simp add: run_inv_def pending_def)
next
  case (run_send sent accepted s w r t)
  then show ?case using run_inv_send by blast
next
  case (run_written sent accepted s b n t)
  then show ?case using run_inv_written [of sent accepted s b n message] by auto
next
  case (run_retry sent accepted s b e n t)
  then show ?case using run_inv_retry [of sent accepted s b e message n] by auto
qed

section \<open>Properties\<close>

text \<open>
  C7: Invariant of every session. In every state a session can reach, whatever is read, written,
  timed out or requested and in whatever order, the messages waiting in the write queue read back
  from the arena, no block of the arena is lost or owned twice, a write is in flight exactly when
  the queue is not empty, the recovery cache is consistent, and a session that was stopped has
  nothing queued. The scratch of the factory lies within its capacity, and the framer satisfies the
  invariant of the framer for some stream and the messages found in it; so it takes any bytes, and
  a message it announces can be read and consumed. In each such state the session can be stopped;
  that never faults, and all blocks of the arena are free again afterwards.\<close>

theorem session_reachable_inv:
  assumes "session_reach message s"
  shows "session_inv s \<and> sc_inv (s_scratch s) \<and> (\<exists>S W. framer_inv S W (s_framer s)) \<and>
     (\<forall>data. \<exists>f. framer_append data (s_framer s) = Some f) \<and>
     (framer_has_message (s_framer s) \<longrightarrow> (\<exists>m f. framer_get_message (s_framer s) = Some m \<and> framer_consume_message (s_framer s) = Some f)) \<and>
     (\<exists>t. stop s = Some t \<and> s_stopped t \<and> s_write_q t = [] \<and> \<not> s_write_inflight t \<and> arena_inv (s_arena t) [])"
proof -
  have inv: "session_inv s" using session_reach_inv [OF assms] .
  obtain S W where parts: "sc_inv (s_scratch s)" "framer_inv S W (s_framer s)"
    using session_reach_parts [OF assms] by (auto simp: parts_inv_def)
  obtain t where t: "stop s = Some t" "session_inv t" "s_stopped t" using stop_ok [OF inv] by blast
  then have "arena_inv (s_arena t) []" by (auto simp: session_inv_def writers_ok_def live_blocks_def)
  moreover have "\<exists>f. framer_append data (s_framer s) = Some f" for data using framer_append_ok [OF parts(2)] by blast
  moreover have "\<exists>m f. framer_get_message (s_framer s) = Some m \<and> framer_consume_message (s_framer s) = Some f"
    if "framer_has_message (s_framer s)" using framer_front_total [OF parts(2) that] by metis
  ultimately show ?thesis using inv parts t by (auto simp: session_inv_def)
qed

theorem session_reachable_inv_witness:
  "\<exists>s. session_reach (\<lambda>_. []) s \<and> session_inv s \<and> sc_inv (s_scratch s) \<and> (\<exists>S W. framer_inv S W (s_framer s)) \<and>
     (\<exists>t. stop s = Some t \<and> s_stopped t)"
proof -
  obtain s where "session_new \<lparr>storage_index = 0, sid = 1\<rparr> INITIATOR default_params = Some s" using session_new_inv by blast
  then have "session_reach (\<lambda>_. []) s" by (rule reach_start)
  with session_reachable_inv [OF this] show ?thesis by blast
qed

text \<open>
  C20: A stopped session is final. Once the stop flag is set no event clears it, and no event makes
  the session read or write on its connection, ask for a reconnect or pass a message to the
  application: the only effects of later events are log lines, timers and closing the connection.\<close>

theorem stopped_session_silent:
  assumes "session_step message e s = Some t" "s_stopped s"
  shows "s_stopped t \<and> filter (\<lambda>f. \<not> quiet f) (s_out t) = filter (\<lambda>f. \<not> quiet f) (s_out s)"
  using stopped_step [OF assms] by (simp add: loud_def)

theorem stopped_session_silent_witness:
  "\<exists>s t u. session_new \<lparr>storage_index = 0, sid = 1\<rparr> INITIATOR default_params = Some s \<and> stop s = Some t \<and>
     session_step (\<lambda>_. []) (Start NORMAL) t = Some u \<and> s_stopped u"
proof -
  obtain s where s: "session_new \<lparr>storage_index = 0, sid = 1\<rparr> INITIATOR default_params = Some s" "session_inv s"
    using session_new_inv by blast
  obtain t where t: "stop s = Some t" "s_stopped t" using stop_ok [OF s(2)] by blast
  have "\<not> s_conn s" using s(1) by (auto simp: session_new_def bind_eq_Some_conv)
  then have "\<not> s_conn t" using t(1) by (auto simp: stop_def Let_def clear_write_q_def bind_eq_Some_conv split: if_splits)
  then obtain u where u: "session_step (\<lambda>_. []) (Start NORMAL) t = Some u" by (simp add: start_def start_normal_def Let_def)
  with s(1) t stopped_session_silent [OF u t(2)] show ?thesis by blast
qed

text \<open>
  C4: The connection carries the messages, whole and in order. While messages are sent and the
  connection accepts any number of bytes per write, including none, or fails transiently, the
  bytes it has accepted followed by the bytes still queued are exactly the messages sent, in the
  order they were sent. The bytes offered next continue where the accepted ones ended, every
  completion can be handled, and once no write is in flight everything was delivered.\<close>

theorem write_stream_correct:
  assumes "wire_run message sent accepted s"
  shows "sent = accepted @ pending s \<and> (\<not> s_write_inflight s \<longrightarrow> accepted = sent) \<and>
     (s_write_inflight s \<longrightarrow> (\<exists>b rest. outstanding s = Some b \<and> sent = accepted @ b @ rest \<and>
        (\<forall>n \<le> length b. \<exists>t. on_write message None n s = Some t)))"
proof -
  note run = wire_run_inv [OF assms]
  show ?thesis
  proof (cases "s_write_q s")
    case Nil
    with run show ?thesis by (simp add: run_inv_def session_inv_def pending_def)
  next
    case (Cons p ps)
    let ?b = "pw_rest (s_arena s) p"
    have "outstanding s = Some ?b" "pending s = ?b @ concat (map (pw_rest (s_arena s)) ps)"
      using run Cons by (simp_all add: run_inv_def pending_def)
    moreover have "\<exists>t. on_write message None n s = Some t" if "n \<le> length ?b" for n
      using run_inv_written [OF run calculation(1) that] by blast
    ultimately show ?thesis using run Cons by (auto simp: run_inv_def session_inv_def)
  qed
qed


lemma send_bytes_total:
  assumes "session_inv s" "\<not> s_stopped s" "s_conn s"
  shows "\<exists>w a t. from_arena m (s_arena s) = Some (w, a) \<and> send_bytes w (s\<lparr>s_arena := a\<rparr>) = Some t"
proof -
  have ok: "writers_ok (s_arena s) (queued s)" using assms(1) by (simp add: session_inv_def)
  then obtain w a where w: "from_arena m (s_arena s) = Some (w, a)" using writers_ok_write [OF ok, of m] by blast
  let ?p = "\<lparr>pw_data = w, pw_sent = 0\<rparr>"
  let ?s = "s\<lparr>s_arena := a, s_write_q := s_write_q s @ [?p], s_write_inflight := True\<rparr>"
  have "writers_ok (s_arena ?s) (queued ?s)" using queued_send(2) [OF ok w, of ?s] by simp
  then have "\<exists>t. do_write ?s = Some t" using do_write_run [of ?s] assms(2,3) by auto
  then show ?thesis using w by (auto simp: send_bytes_def Let_def)
qed

lemma send_message_resend:
  assumes "session_inv s" "\<not> s_stopped s" "s_conn s"
  shows "\<exists>t. send_message w True s = Some t"
  using send_bytes_total [OF assms, of w] assms(2) by (auto simp: send_message_def)

text \<open>A message sent on an idle connection, of which the connection accepts the first \<open>n\<close> bytes.\<close>

lemma write_once:
  assumes "n \<le> length w"
  shows "\<exists>s. wire_run message w (take n w) s"
proof -
  obtain s where s: "session_new \<lparr>storage_index = 0, sid = 1\<rparr> INITIATOR default_params = Some s" "session_inv s"
    using session_new_inv by blast
  let ?s = "s\<lparr>s_conn := True\<rparr>"
  have st: "\<not> s_stopped ?s" "s_conn ?s" "s_write_q ?s = []" "session_inv ?s"
    using s session_inv_micro [OF m_conn [OF TrueI] s(2), of True] by (auto simp: session_new_def bind_eq_Some_conv)
  then have "wire_run message [] [] ?s" by (intro run_idle)
  moreover obtain t where t: "send_message w True ?s = Some t" using send_message_resend [OF st(4,1,2)] by blast
  ultimately have r: "wire_run message ([] @ w) [] t" by (rule run_send)
  obtain w1 a t1 where "send_bytes w1 (?s\<lparr>s_arena := a\<rparr>) = Some t1" "s_write_q t = s_write_q t1"
    using send_message_cases [OF t st(1)] by metis
  then obtain p where q: "s_write_q t = [p]" using send_bytes_frame st(3) by fastforce
  have inv: "run_inv w [] t" using wire_run_inv [OF r] by simp
  then have out: "outstanding t = Some w" using q by (simp add: run_inv_def pending_def)
  then obtain u where "on_write message None n t = Some u" using run_inv_written [OF inv out, of n] assms by auto
  with r out assms have "wire_run message ([] @ w) ([] @ take n w) u" by (intro run_written) simp_all
  then show ?thesis by auto
qed

theorem write_stream_correct_witness:
  "\<exists>s. wire_run (\<lambda>_. []) ''hello'' ''he'' s \<and> pending s = ''llo''"
proof -
  obtain s where w: "wire_run (\<lambda>_. []) ''hello'' ''he'' s" using write_once [of 2 "''hello''"] by auto
  with write_stream_correct [OF w] show ?thesis by auto
qed

end
