(* ===== verification/Interop.thy ===== *)
theory Interop
  imports Framer_Refinement Validator Message_Factory
begin

text \<open>
  From one session to the other: the bytes that the message factory of one side emits, cut into
  chunks by the transport, come out of the framer of the other side as the same messages, parse
  to the fields that were written, and pass the validator of the peer session.
\<close>

section \<open>Framing of built messages\<close>

lemma enc_begin_string: "enc_field (field 8 DEFAULT_FIX_VERSION) = Fix_First_Field"
  by (simp add: enc_field_def Fix_First_Field_def DEFAULT_FIX_VERSION_def to_chars.simps)

lemma fix_wire_shape:
  "fix_wire DEFAULT_FIX_VERSION fs = Fix_First_Field @ ''9='' @ to_chars (length (enc_fields fs)) @ SOH # enc_fields fs @
     trailer (enc_fields (fix_fields DEFAULT_FIX_VERSION fs))"
proof -
  have "enc_field (field 9 v) = ''9='' @ v @ [SOH]" for v by (simp add: enc_field_def to_chars.simps)
  then show ?thesis by (simp add: fix_wire_def fix_fields_def enc_fields_Cons enc_begin_string)
qed

lemma frames_fix_wire:
  assumes "length (enc_fields fs) \<le> MAX_MESSAGE_SIZE" and w: "w = fix_wire DEFAULT_FIX_VERSION fs"
  shows "frames (P @ w @ T) (length P) = \<lparr>w_begin = length P, w_end = length P + length w\<rparr> # frames (P @ w @ T) (length P + length w)"
proof -
  let ?S = "P @ w @ T" and ?n = "length (enc_fields fs)" and ?tr = "trailer (enc_fields (fix_fields DEFAULT_FIX_VERSION fs))"
  have "starts_with Fix_First_Field (drop (length P) ?S)"
    by (simp add: w fix_wire_shape starts_with_def)
  then have nb: "next_begin ?S (length P) = Some (length P)" by (rule next_begin_self) simp
  have s: "drop (length P + length Fix_First_Field) ?S = CHR ''9'' # CHR ''='' # to_chars ?n @ SOH # enc_fields fs @ ?tr @ T"
    by (simp add: w fix_wire_shape)
  have fi: "find_index (\<lambda>c. c = SOH) (to_chars ?n @ SOH # enc_fields fs @ ?tr @ T) = Some (length (to_chars ?n))"
    by (rule find_index_first) auto
  have "?n \<le> 2 ^ 64 - 1" using assms(1) by (simp add: MAX_MESSAGE_SIZE_def)
  then have fc: "from_chars_whole (2 ^ 64 - 1) (to_chars ?n) = Some ?n" by (rule from_chars_whole_to_chars)
  have len: "length P + length w = length P + length Fix_First_Field + 2 + length (to_chars ?n) + 1 + ?n + 7"
    by (simp add: w fix_wire_shape)
  have hd: "header_at ?S (length P) = Header (length P + length w)"
    unfolding header_at_def Let_def s len using fi fc assms(1) by (simp del: length_Fix_First_Field)
  show ?thesis using nb hd by (subst frames.simps) simp
qed

lemma frames_fix_wires:
  assumes "\<forall>fs \<in> set fss. length (enc_fields fs) \<le> MAX_MESSAGE_SIZE"
  shows "messages_of (P @ concat (map (fix_wire DEFAULT_FIX_VERSION) fss)) (frames (P @ concat (map (fix_wire DEFAULT_FIX_VERSION) fss)) (length P)) =
    map (fix_wire DEFAULT_FIX_VERSION) fss"
  using assms
proof (induction fss arbitrary: P)
  case Nil
  then show ?case using frames_end [of P] by (simp add: messages_of_def)
next
  case (Cons fs fss)
  let ?w = "fix_wire DEFAULT_FIX_VERSION fs" and ?T = "concat (map (fix_wire DEFAULT_FIX_VERSION) fss)"
  have "frames (P @ ?w @ ?T) (length P) = \<lparr>w_begin = length P, w_end = length P + length ?w\<rparr> # frames (P @ ?w @ ?T) (length P + length ?w)"
    using Cons.prems by (intro frames_fix_wire) simp_all
  moreover have "messages_of ((P @ ?w) @ ?T) (frames ((P @ ?w) @ ?T) (length (P @ ?w))) = map (fix_wire DEFAULT_FIX_VERSION) fss"
    using Cons.prems by (intro Cons.IH) simp
  ultimately show ?case by (simp add: messages_of_def)
qed

lemma frames_prefix: "\<exists>ws. frames (S @ T) p = frames S p @ ws"
proof (induction S p rule: frames.induct)
  case (1 S p)
  show ?case
  proof (cases "next_begin S p")
    case None
    then show ?thesis by (simp add: frames.simps [of S p])
  next
    case (Some b)
    show ?thesis
    proof (cases "header_at S b")
      case Incomplete
      with Some show ?thesis by (simp add: frames.simps [of S p])
    next
      case Malformed
      then show ?thesis
        using "1.IH"(1) [OF Some Malformed] frames_malformed [OF Some Malformed, of T] Some by (simp add: frames.simps [of S p])
    next
      case (Header e)
      then show ?thesis
        using "1.IH"(2) [OF Some Header] frames_header [OF Some Header, of T] Some
        by (cases "e \<le> length S") (auto simp: frames.simps [of S p])
    qed
  qed
qed

text \<open>A stream with fewer than 1024 messages has fewer in each chunk.\<close>

lemma few_frames:
  assumes "length (frames (concat cs) 0) < 1024"
  shows "length (frames (concat (take (Suc k) cs)) 0) < length (frames (concat (take k cs)) 0) + 1024"
proof -
  obtain ws where "frames (concat cs) 0 = frames (concat (take (Suc k) cs)) 0 @ ws"
    using frames_prefix [of "concat (take (Suc k) cs)" "concat (drop (Suc k) cs)" 0] by (auto simp flip: concat_append)
  then show ?thesis using assms by simp
qed

lemma few_wires:
  assumes "\<forall>fs \<in> set fss. length (enc_fields fs) \<le> MAX_MESSAGE_SIZE" "length fss < 1024"
    and "S = concat (map (fix_wire DEFAULT_FIX_VERSION) fss)"
  shows "messages_of S (frames S 0) = map (fix_wire DEFAULT_FIX_VERSION) fss" "length (frames S 0) < 1024"
proof -
  show m: "messages_of S (frames S 0) = map (fix_wire DEFAULT_FIX_VERSION) fss"
    using frames_fix_wires [OF assms(1), of "[]"] assms(3) by simp
  show "length (frames S 0) < 1024" using arg_cong [OF m, of length] assms(2) by (simp add: messages_of_def)
qed

section \<open>The peer accepts what the factory builds\<close>

text \<open>Texts that may stand in a field, and the messages that carry only such texts.\<close>

definition text_ok :: "string \<Rightarrow> bool" where
  "text_ok s \<longleftrightarrow> s \<noteq> [] \<and> SOH \<notin> set s"

fun out_ok :: "OutMsg \<Rightarrow> bool" where
  "out_ok (Out_Heartbeat tid) \<longleftrightarrow> SOH \<notin> set tid"
| "out_ok (Out_TestRequest tid) \<longleftrightarrow> text_ok tid"
| "out_ok (Out_Logout txt) \<longleftrightarrow> SOH \<notin> set txt"
| "out_ok (Out_Reject n reason tag txt) \<longleftrightarrow> SOH \<notin> set txt"
| "out_ok (Out_Custom payload) \<longleftrightarrow> text_ok payload"
| "out_ok (Out_App msg ty) \<longleftrightarrow> False"
| "out_ok _ \<longleftrightarrow> True"

definition params_ok :: "SessionParameters \<Rightarrow> bool" where
  "params_ok params \<longleftrightarrow> fix_version params = DEFAULT_FIX_VERSION \<and> text_ok (sender_comp_id params) \<and> text_ok (target_comp_id params)"

definition peer_of :: "SessionParameters \<Rightarrow> SessionParameters \<Rightarrow> bool" where
  "peer_of params peer \<longleftrightarrow> sender_comp_id peer = target_comp_id params \<and> target_comp_id peer = sender_comp_id params"

lemma to_chars_int_ok [simp]: "to_chars_int i \<noteq> []" "SOH \<notin> set (to_chars_int i)" "is_int_type (to_chars_int i)"
proof -
  show "to_chars_int i \<noteq> []" "SOH \<notin> set (to_chars_int i)" by (simp_all add: to_chars_int_def)
  show "is_int_type (to_chars_int i)"
  proof (cases "i < 0")
    case True
    have "list_all is_digit (to_chars n)" for n using to_chars_digits by (auto simp: list_all_iff)
    with True show ?thesis by (simp add: to_chars_int_def is_int_type_def Suc_le_eq)
  next
    case False
    then show ?thesis by (simp add: to_chars_int_def)
  qed
qed

lemma text_ok_simps [simp]: "text_ok (to_chars n)" "text_ok (to_chars_int i)" "text_ok now_fix" "text_ok DEFAULT_FIX_VERSION"
  "text_ok ''Y''" "text_ok ''N''"
  by (simp_all add: text_ok_def now_fix_def DEFAULT_FIX_VERSION_def)

lemma field_ok_iff: "field_ok (field t v) \<longleftrightarrow> t < 10 ^ 7 \<and> text_ok v"
  by (auto simp: field_ok_def text_ok_def)

lemma is_int_pad3: "n < 1000 \<Longrightarrow> is_int_type (pad3 n)"
proof -
  assume n: "n < 1000"
  have d: "\<forall>c \<in> set (pad3 n). is_digit c" by (rule pad3_digits [OF n])
  have ne: "pad3 n \<noteq> []" by (simp add: pad3_def)
  then have "is_digit (pad3 n ! 0)" using d by simp
  then have "pad3 n ! 0 \<noteq> CHR ''+''" "pad3 n ! 0 \<noteq> CHR ''-''" by auto
  with d ne show ?thesis by (simp add: is_int_type_def list_all_iff)
qed

lemma out_fields_ok:
  assumes "params_ok params" "out_ok msg"
  shows "\<forall>f \<in> set (fix_fields (fix_version params) (out_fields params n msg)). field_ok f"
proof -
  have t: "text_ok (out_type msg)" using assms(2) by (cases msg) (simp_all add: text_ok_def)
  have "\<forall>f \<in> set (out_body params msg). field_ok f"
    using assms(2) by (cases msg) (auto simp: field_ok_iff text_ok_def)
  with t assms(1) show ?thesis
    by (simp add: fix_fields_def out_fields_def header_fields_def params_ok_def field_ok_iff ball_Un)
qed

definition parsed_fields :: "SessionParameters \<Rightarrow> SeqNum \<Rightarrow> OutMsg \<Rightarrow> GenericMessage" where
  "parsed_fields params n msg = fix_fields (fix_version params) (out_fields params n msg) @
     [field 10 (pad3 (checksum_of (enc_fields (fix_fields (fix_version params) (out_fields params n msg)))))]"

lemma parse_fix_wire:
  assumes "params_ok params" "out_ok msg"
  shows "parse (fix_wire (fix_version params) (out_fields params n msg)) = (parsed_fields params n msg, [])"
  unfolding fix_wire_def parsed_fields_def by (rule parse_wire [OF out_fields_ok [OF assms]])

lemma find_field_append:
  "find_field t (xs @ ys) = (case find_field t xs of Some v \<Rightarrow> Some v | None \<Rightarrow> find_field t ys)"
  by (induction xs) (auto simp: find_field_def)

lemma find_field_None: "t \<notin> gf_tag ` set fs \<Longrightarrow> find_field t fs = None"
  using find_field_Some_iff_tag [of t fs] by auto

lemma find_field_Cons: "find_field t (f # fs) = (if gf_tag f = t then Some (gf_value f) else find_field t fs)"
  by (simp add: find_field_def)

lemma body_tags_apart:
  "s \<in> set message_schemas \<Longrightarrow> fs_tag ` set (ms_body s) \<inter> fs_tag ` set (StandardHeaderSchema @ TrailerSchema) = {}"
  by (auto simp: message_schemas_def schema_defs)

definition wrap :: "string \<Rightarrow> string \<Rightarrow> string \<Rightarrow> string \<Rightarrow> string \<Rightarrow> string \<Rightarrow> GenericMessage \<Rightarrow> string \<Rightarrow> GenericMessage" where
  "wrap l mt n sdr tgt tm body c =
     [field 8 DEFAULT_FIX_VERSION, field 9 l, field 35 mt, field 34 n, field 49 sdr, field 56 tgt, field 52 tm] @ body @ [field 10 c]"

lemma wrap_valid:
  assumes s: "s \<in> set message_schemas" "ms_type s = mt"
    and body: "gf_tag ` set body \<subseteq> fs_tag ` set (ms_body s)" "distinct (map gf_tag body)" "list_all (field_conforms body) (ms_body s)"
    and ints: "is_int_type l" "is_int_type n" "is_int_type c"
    and peer: "target_comp_id peer = sdr" "sender_comp_id peer = tgt"
  shows "valid_message peer (wrap l mt n sdr tgt tm body c)"
proof -
  let ?m = "wrap l mt n sdr tgt tm body c"
  let ?HT = "fs_tag ` set (StandardHeaderSchema @ TrailerSchema)"
  have apart: "gf_tag ` set body \<inter> ?HT = {}" using body(1) body_tags_apart [OF s(1)] by blast
  then have nb: "t \<notin> gf_tag ` set body" if "t \<in> ?HT" for t using that by blast
  have out: "find_field t ?m = find_field t (wrap l mt n sdr tgt tm [] c)" if "t \<in> ?HT" for t
    using find_field_None [OF nb [OF that]] by (simp add: wrap_def find_field_Cons find_field_append split: option.splits)
  have tags: "{8, 9, 35, 34, 49, 56, 52, 10} \<subseteq> ?HT" by (simp add: schema_defs)
  have hdr: "list_all (field_conforms ?m) (StandardHeaderSchema @ TrailerSchema)"
  proof -
    have "list_all (field_conforms (wrap l mt n sdr tgt tm [] c)) (StandardHeaderSchema @ TrailerSchema)"
      using ints by (simp add: schema_defs wrap_def field_conforms_def find_field_Cons) (simp add: find_field_def)
    then show ?thesis using out by (simp add: list_all_iff field_conforms_def ball_Un image_Un)
  qed
  have nts: "t \<notin> gf_tag ` set body" if "t \<in> {8, 9, 35, 34, 49, 56, 52, 10}" for t
    using nb subsetD [OF tags that] by simp
  have bod: "list_all (field_conforms ?m) (ms_body s)"
  proof -
    have "find_field (fs_tag fs) ?m = find_field (fs_tag fs) body" if fs: "fs \<in> set (ms_body s)" for fs
    proof -
      have "fs_tag fs \<notin> {8, 9, 35, 34, 49, 56, 52, 10}"
        using body_tags_apart [OF s(1)] subsetD [OF tags, of "fs_tag fs"] imageI [OF fs, of fs_tag] by blast
      then show ?thesis
        by (simp add: wrap_def find_field_Cons find_field_append find_field_None split: option.splits)
    qed
    with body(3) show ?thesis by (simp add: list_all_iff field_conforms_def)
  qed
  have dist: "distinct (map gf_tag ?m)"
    using body(2) nts by (simp add: wrap_def)
  have known: "gf_tag ` set ?m \<subseteq> fs_tag ` set (StandardHeaderSchema @ ms_body s @ TrailerSchema)"
  proof -
    have "gf_tag ` set ?m = {8, 9, 35, 34, 49, 56, 52, 10} \<union> gf_tag ` set body" by (auto simp: wrap_def)
    also have "\<dots> \<subseteq> ?HT \<union> fs_tag ` set (ms_body s)" by (rule Un_mono [OF tags body(1)])
    also have "\<dots> = fs_tag ` set (StandardHeaderSchema @ ms_body s @ TrailerSchema)" by (simp add: image_Un Un_ac)
    finally show ?thesis .
  qed
  have ff: "find_field 35 ?m = Some (ms_type s)" "find_field 49 ?m = Some (target_comp_id peer)" "find_field 56 ?m = Some (sender_comp_id peer)"
    using s(2) peer by (simp_all add: wrap_def find_field_Cons)
  have hv: "header_values_ok ?m (ms_type s)" using ints s(2) by (simp add: header_values_ok_def wrap_def)
  show ?thesis
    unfolding valid_message_def using s(1) hv ff dist known hdr bod by (intro bexI [of _ s]) simp_all
qed

fun out_schema :: "OutMsg \<Rightarrow> FieldSchema list" where
  "out_schema (Out_Logon hb echo) = LogonSchema"
| "out_schema (Out_Heartbeat tid) = HeartbeatSchema"
| "out_schema (Out_TestRequest tid) = TestRequestSchema"
| "out_schema (Out_ResendRequest b e) = ResendRequestSchema"
| "out_schema (Out_SequenceReset n gap) = SequenceResetSchema"
| "out_schema (Out_Logout txt) = LogoutSchema"
| "out_schema (Out_Reject n reason tag txt) = RejectSchema"
| "out_schema (Out_Custom payload) = CustomSchema"
| "out_schema (Out_App msg ty) = []"

lemma out_schema_registered: "out_ok msg \<Longrightarrow> make_schema (out_type msg) (out_schema msg) \<in> set message_schemas"
  by (cases msg) (simp_all add: message_schemas_def)

lemma out_body_conforms:
  assumes "out_ok msg"
  shows "gf_tag ` set (out_body params msg) \<subseteq> fs_tag ` set (out_schema msg)" "distinct (map gf_tag (out_body params msg))"
    "list_all (field_conforms (out_body params msg)) (out_schema msg)"
proof -
  have yn: "is_boolean_type ''Y''" "is_boolean_type ''N''" by (simp_all add: is_boolean_type_def)
  show "gf_tag ` set (out_body params msg) \<subseteq> fs_tag ` set (out_schema msg)"
    using assms by (cases msg) (auto simp: schema_defs split: if_splits)
  show "distinct (map gf_tag (out_body params msg))"
    using assms by (cases msg) simp_all
  show "list_all (field_conforms (out_body params msg)) (out_schema msg)"
    using assms yn by (cases msg) (simp_all add: schema_defs field_conforms_def find_field_def)
qed

lemma parsed_fields_valid:
  assumes "params_ok params" "peer_of params peer" "out_ok msg"
  shows "valid_message peer (parsed_fields params n msg)" "no_group_fields (parsed_fields params n msg)"
proof -
  define c where "c = pad3 (checksum_of (enc_fields (fix_fields (fix_version params) (out_fields params n msg))))"
  define l where "l = to_chars (length (enc_fields (out_fields params n msg)))"
  have ints: "is_int_type c" "is_int_type l"
    unfolding c_def l_def by (rule is_int_pad3, rule less_trans [OF checksum_of_less]) simp_all
  have pf: "parsed_fields params n msg =
      wrap l (out_type msg) (to_chars_int (sint n)) (sender_comp_id params) (target_comp_id params) now_fix (out_body params msg) c"
    using assms(1)
    by (simp add: parsed_fields_def c_def l_def fix_fields_def out_fields_def header_fields_def params_ok_def wrap_def)
  show "valid_message peer (parsed_fields params n msg)"
    unfolding pf using wrap_valid [OF out_schema_registered [OF assms(3)]] out_body_conforms [OF assms(3), of params] ints
      assms(2) [unfolded peer_of_def] by simp
  have "627 \<notin> fs_tag ` set (out_schema msg)" using assms(3) by (cases msg) (simp_all add: schema_defs)
  moreover have "384 \<notin> gf_tag ` set (out_body params msg)" using assms(3) by (cases msg) (auto split: if_splits)
  ultimately show "no_group_fields (parsed_fields params n msg)"
    unfolding pf using out_body_conforms(1) [OF assms(3), of params] by (auto simp: no_group_fields_def wrap_def)
qed

text \<open>
  C12: Interoperability of factory, parser and validator. Whatever administrative or custom message
  (application messages are excluded) a session with FIX.4.4 and comp ids that are neither empty nor contain SOH builds
  from texts free of SOH, the test request id and the custom payload not empty, with any sequence number and a
  body below 10^10 bytes, the builder returns (it never
  overruns its scratch) and advances the outgoing number by one; its bytes parse without error to
  the standard header, the body of that message and the trailer; and the validator of the peer
  session, whose comp ids are the swapped ones, accepts the result.\<close>

theorem peer_accepts_built_message:
  assumes "params_ok params" "peer_of params peer" "out_ok msg" "sc_inv f"
    and "length (enc_fields (out_fields params (next_out sp) msg)) < 10 ^ 10"
  shows "\<exists>w f' fs v'. build msg params f sp = Some (w, f', update_out (next_out sp + 1) sp) \<and> sc_inv f' \<and>
           parse w = (fs, []) \<and> find_field 35 fs = Some (out_type msg) \<and>
           find_field 34 fs = Some (to_chars_int (sint (next_out sp))) \<and> set (out_body params msg) \<subseteq> set fs \<and>
           validate_message (make_valid_message_view fs) peer v = Some v' \<and> vr_errors (v_results v') = []"
proof -
  let ?fs = "parsed_fields params (next_out sp) msg"
  obtain f' where "build msg params f sp =
      Some (fix_wire (fix_version params) (out_fields params (next_out sp) msg), f', update_out (next_out sp + 1) sp)" "sc_inv f'"
    using build_wire [OF assms(4,5)] by blast
  moreover note parse_fix_wire [OF assms(1,3), of "next_out sp"]
  moreover have "find_field 35 ?fs = Some (out_type msg)" "find_field 34 ?fs = Some (to_chars_int (sint (next_out sp)))"
    "set (out_body params msg) \<subseteq> set ?fs"
    by (auto simp: parsed_fields_def fix_fields_def out_fields_def header_fields_def find_field_def)
  moreover obtain v' where "validate_message (make_valid_message_view ?fs) peer v = Some v'" "v_errors v' = []"
    using validate_message_spec [OF parsed_fields_valid(2) [OF assms(1-3)]] parsed_fields_valid(1) [OF assms(1-3)] by blast
  ultimately show ?thesis by blast
qed

definition sample_peer :: SessionParameters where
  "sample_peer = default_params\<lparr>sender_comp_id := ''test_target'', target_comp_id := ''test_sender''\<rparr>"

theorem peer_accepts_built_message_witness:
  "\<exists>w f' fs v'. build (Out_TestRequest ''ping'') default_params sc_new sp_new = Some (w, f', update_out (next_out sp_new + 1) sp_new) \<and> sc_inv f' \<and>
     parse w = (fs, []) \<and> find_field 35 fs = Some (out_type (Out_TestRequest ''ping'')) \<and>
     find_field 34 fs = Some (to_chars_int (sint (next_out sp_new))) \<and> set (out_body default_params (Out_TestRequest ''ping'')) \<subseteq> set fs \<and>
     validate_message (make_valid_message_view fs) sample_peer \<lparr>v_results = vr_clear, v_scratch = []\<rparr> = Some v' \<and> vr_errors (v_results v') = []"
proof (rule peer_accepts_built_message)
  show "params_ok default_params" by (simp add: params_ok_def default_params_def text_ok_def DEFAULT_FIX_VERSION_def)
  show "peer_of default_params sample_peer" by (simp add: peer_of_def sample_peer_def default_params_def)
  show "out_ok (Out_TestRequest ''ping'')" by (simp add: text_ok_def)
  show "sc_inv sc_new" by simp
  show "length (enc_fields (out_fields default_params (next_out sp_new) (Out_TestRequest ''ping''))) < 10 ^ 10"
    by (simp add: out_fields_def header_fields_def enc_fields_def enc_field_def default_params_def sp_new_def next_out_def
        now_fix_def to_chars.simps to_chars_int_def)
qed

end
