(* ===== verification/Session_Protocol.thy ===== *)
theory Session_Protocol
  imports Session_Write Interop
begin

text \<open>
  The protocol a session speaks with its peer: what it sends and stores for each message that
  arrives in sequence, what it does with a message ahead of or behind the expected number, how a
  gap closes.
\<close>

section \<open>Sending\<close>

definition send_built :: "OutMsg \<Rightarrow> session \<Rightarrow> session option" where
  "send_built msg s = do { (wire, s1) \<leftarrow> with_factory (build msg) s; send_message wire False s1 }"

lemma send_built:
  "send_logon r s = send_built (Out_Logon (sint (heart_beat_int (s_params s))) r) s"
  "send_reject n1 n2 n3 x1 s = send_built (Out_Reject n1 n2 n3 x1) s"
  "send_logout x2 s = send_built (Out_Logout x2) s"
  "send_heartbeat x3 s = send_built (Out_Heartbeat x3) s"
  "send_test_request x4 s = send_built (Out_TestRequest x4) s"
  "send_resend_request q1 q2 s = send_built (Out_ResendRequest q1 q2) s"
  "send_custom x5 s = send_built (Out_Custom x5) s"
  "send_sequence_reset q3 b2 s = send_built (Out_SequenceReset q3 b2) s"
  by (simp_all add: send_built_def with_factory_def send_logon_def send_reject_def send_logout_def send_heartbeat_def
      send_test_request_def send_resend_request_def send_custom_def send_sequence_reset_def)

definition out_wire :: "SessionParameters \<Rightarrow> SeqNum \<Rightarrow> OutMsg \<Rightarrow> string" where
  "out_wire params n msg = fix_wire (fix_version params) (out_fields params n msg)"

text \<open>
  A connected session whose store holds exactly the messages \<open>ws\<close> it has sent under the numbers
  1, 2, 3, \<open>\<dots>\<close>, and which will use the next number.
\<close>

definition ready :: "string list \<Rightarrow> session \<Rightarrow> bool" where
  "ready ws s \<longleftrightarrow> session_inv s \<and> \<not> s_stopped s \<and> s_conn s \<and> sc_inv (s_scratch s) \<and> ms_inv ws (s_store s) \<and>
     next_out (s_seq s) = of_nat (length ws + 1) \<and> params_ok (s_params s)"

text \<open>The part of the session that sending a message leaves alone.\<close>

definition unsent :: "session \<Rightarrow> session \<Rightarrow> bool" where
  "unsent s t \<longleftrightarrow> s_params t = s_params s \<and> s_state t = s_state s \<and> s_recovery_cache t = s_recovery_cache s \<and>
     s_framer t = s_framer s \<and> s_role t = s_role s \<and> s_id t = s_id s \<and> next_in (s_seq t) = next_in (s_seq s)"

lemma do_write_shape: "do_write s = Some t \<Longrightarrow> \<exists>b out. t = s\<lparr>s_write_inflight := b, s_out := out\<rparr>"
  by (cases s) (auto simp: do_write_def bind_eq_Some_conv emit_def split: list.splits if_splits)

lemma send_bytes_shape:
  assumes "send_bytes w s = Some t"
  shows "\<exists>b out. t = s\<lparr>s_write_q := s_write_q s @ [\<lparr>pw_data = w, pw_sent = 0\<rparr>], s_write_inflight := b, s_out := out\<rparr>"
proof (cases "s_write_inflight s")
  case True
  with assms have "t = s\<lparr>s_write_q := s_write_q s @ [\<lparr>pw_data = w, pw_sent = 0\<rparr>]\<rparr>" by (simp add: send_bytes_def Let_def)
  then show ?thesis
    by (intro exI [of _ "s_write_inflight s"] exI [of _ "s_out s"] session.equality) simp_all
next
  case False
  with assms show ?thesis by (cases s) (auto simp: send_bytes_def Let_def dest!: do_write_shape)
qed

lemma send_message_shape:
  assumes "send_message w r s = Some t" "\<not> s_stopped s"
  shows "\<exists>a q b out st. t = s\<lparr>s_arena := a, s_write_q := q, s_write_inflight := b, s_store := st, s_out := out\<rparr> \<and>
     (if r then st = s_store s else store_outbound_message w (s_store s) = Some st)"
proof -
  from assms obtain ww a t1 t2 where t1: "send_bytes ww (s\<lparr>s_arena := a\<rparr>) = Some t1"
    and t2: "(if \<not> r then do { st \<leftarrow> store_outbound_message w (s_store t1); Some (t1\<lparr>s_store := st\<rparr>) } else Some t1) = Some t2"
    and t: "t = (if s_state t2 = ACTIVE \<or> s_state t2 = RECOVERING_RESEND then schedule_heartbeat t2 else t2)"
    by (auto simp: send_message_def bind_eq_Some_conv)
  obtain q b out where sh: "t1 = s\<lparr>s_arena := a, s_write_q := q, s_write_inflight := b, s_out := out\<rparr>"
    using send_bytes_shape [OF t1] by auto
  then obtain st where st: "t2 = s\<lparr>s_arena := a, s_write_q := q, s_write_inflight := b, s_store := st, s_out := out\<rparr>"
    "if r then st = s_store s else store_outbound_message w (s_store s) = Some st"
    using t2 by (cases s) (auto simp: bind_eq_Some_conv split: if_splits)
  then show ?thesis
    unfolding t schedule_heartbeat_def emit_def by (cases s) auto
qed

lemma send_message_total:
  assumes "session_inv s" "\<not> s_stopped s" "s_conn s" "store_outbound_message w (s_store s) = Some st"
  shows "\<exists>t. send_message w False s = Some t"
proof -
  obtain ww a t1 where t1: "from_arena w (s_arena s) = Some (ww, a)" "send_bytes ww (s\<lparr>s_arena := a\<rparr>) = Some t1"
    using send_bytes_total [OF assms(1-3)] by blast
  moreover have "s_store t1 = s_store s" using send_bytes_shape [OF t1(2)] by auto
  ultimately show ?thesis using assms(2,4) by (simp add: send_message_def)
qed


lemma sint_small: "unat (n :: SeqNum) < 2 ^ 63 \<Longrightarrow> sint n = int (unat n)"
proof -
  assume n: "unat n < 2 ^ 63"
  have u: "uint n = int (unat n)" by simp
  with n have "uint n < 2 ^ 63" by (metis of_nat_less_iff of_nat_numeral of_nat_power)
  moreover have "- (2 ^ 63) \<le> uint n" by (rule order_trans [OF _ uint_ge_0]) simp
  ultimately have "signed_take_bit 63 (uint n) = uint n" by (intro signed_take_bit_int_eq_self)
  moreover have "sint n = signed_take_bit 63 (uint n)" by (simp only: sint_uint) simp
  ultimately show ?thesis using u by (simp only:)
qed

lemma to_chars_int_word: "unat (n :: SeqNum) < 2 ^ 63 \<Longrightarrow> to_chars_int (sint n) = to_chars (unat n)"
  by (simp only: to_chars_int_def sint_small) simp

lemma out_wire_numbered:
  assumes "params_ok params" "out_ok msg" "n < 2 ^ 63"
  shows "numbered_wire n (out_wire params (of_nat n) msg)"
proof -
  let ?fs = "fix_fields (fix_version params) (out_fields params (of_nat n) msg)"
  define peer where "peer = params\<lparr>sender_comp_id := target_comp_id params, target_comp_id := sender_comp_id params\<rparr>"
  have "peer_of params peer" by (simp add: peer_of_def peer_def)
  then have "distinct (map gf_tag (parsed_fields params (of_nat n) msg))"
    using parsed_fields_valid(1) [OF assms(1) _ assms(2)] by (auto simp: valid_message_def)
  then have "distinct (map gf_tag ?fs)" "10 \<notin> gf_tag ` set ?fs" by (auto simp: parsed_fields_def)
  moreover have "\<forall>f \<in> set ?fs. SOH \<notin> set (gf_value f)"
    using out_fields_ok [OF assms(1,2)] by (auto simp: field_ok_def)
  moreover have "find_field 34 ?fs = Some (to_chars n)"
  proof -
    have "unat (of_nat n :: SeqNum) = n" using assms(3) by (simp add: unat_of_nat take_bit_nat_eq_self)
    then show ?thesis using to_chars_int_word [of "of_nat n"] assms(3)
      by (simp add: fix_fields_def out_fields_def header_fields_def find_field_def)
  qed
  ultimately show ?thesis
    unfolding numbered_wire_def out_wire_def fix_wire_def by (intro exI [of _ ?fs]) simp
qed

lemma send_built_ok:
  assumes s: "ready ws s" and msg: "out_ok msg"
    and w: "w = out_wire (s_params s) (of_nat (length ws + 1)) msg" and fits: "ms_room ws w" "length ws < 2 ^ 31"
  shows "\<exists>t. send_built msg s = Some t \<and> ready (ws @ [w]) t \<and> unsent s t \<and> pending t = pending s @ w"
proof -
  let ?n = "length ws + 1"
  have S: "session_inv s" "\<not> s_stopped s" "s_conn s" "sc_inv (s_scratch s)" "ms_inv ws (s_store s)"
    "next_out (s_seq s) = of_nat ?n" "params_ok (s_params s)"
    using s by (simp_all add: ready_def)
  have "length (enc_fields (out_fields (s_params s) (of_nat ?n) msg)) < 10 ^ 10"
    using fits(1) by (simp add: w out_wire_def fix_wire_def fix_fields_def enc_fields_Cons ms_room_def)
  then obtain f' where b: "build msg (s_params s) (s_scratch s) (s_seq s) = Some (w, f', update_out (of_nat ?n + 1) (s_seq s))" "sc_inv f'"
    using build_wire [OF S(4), of "s_params s" "s_seq s" msg] S(6) by (auto simp: w out_wire_def)
  define s1 where "s1 = s\<lparr>s_scratch := f', s_seq := update_out (of_nat ?n + 1) (s_seq s)\<rparr>"
  have same: "same_core s s1" by (simp add: same_core_def s1_def)
  have inv1: "session_inv s1" using session_inv_cong [OF same S(1)] .
  have "\<exists>idx. create_message_index w (length (concat ws)) = Some idx \<and> mi_seq idx = ?n"
    unfolding w using fits(2) by (intro numbered_wire_index out_wire_numbered S(7) msg) simp_all
  then have "ms_admissible ws w" using fits(1) by (simp add: ms_admissible_def)
  then obtain st where st: "store_outbound_message w (s_store s) = Some st" "ms_inv (ws @ [w]) st"
    using store_outbound_message_ok [OF S(5)] by blast
  obtain t where t: "send_message w False s1 = Some t"
    using send_message_total [OF inv1, of w st] S(2,3) st(1) by (auto simp: s1_def)
  obtain a q b' out where sh: "t = s1\<lparr>s_arena := a, s_write_q := q, s_write_inflight := b', s_store := st, s_out := out\<rparr>"
    using send_message_shape [OF t] S(2) st(1) by (auto simp: s1_def)
  have "session_inv t"
    using micros_send_message [OF t micros_refl] inv1 by (rule micros_lift [where fr = True]) (rule session_inv_micro)
  then have "ready (ws @ [w]) t"
    using S b(2) st(2) by (simp add: ready_def sh s1_def next_out_def update_out_def add.commute)
  moreover have "unsent s t" by (simp add: unsent_def sh s1_def next_in_def update_out_def)
  moreover have "pending t = pending s @ w"
  proof -
    obtain ww c t1 where t1: "from_arena w (s_arena s1) = Some (ww, c)" "send_bytes ww (s1\<lparr>s_arena := c\<rparr>) = Some t1"
      "s_arena t = s_arena t1" "s_write_q t = s_write_q t1"
      using S(2) by (auto simp: s1_def intro: send_message_cases [OF t])
    have "pending t1 = pending s1 @ w" using pending_send(1) [OF inv1 _ t1(1,2)] S(2) by (simp add: s1_def)
    then show ?thesis using t1(3,4) by (simp add: pending_def s1_def)
  qed
  moreover have "send_built msg s = Some t" using b(1) t by (simp add: send_built_def with_factory_def s1_def)
  ultimately show ?thesis by blast
qed

end
