(* ===== verification/Session_Recovery.thy ===== *)
theory Session_Recovery
  imports Session_Protocol
begin

text \<open>
  Incoming messages: the place of a valid message in the sequence decides what \<open>dispatch\<close> does with
  it, messages ahead of a gap wait in the recovery cache, and closing the gap delivers them in order.
\<close>

section \<open>A valid message reaches its place in the sequence\<close>

text \<open>What \<open>dispatch\<close> does before it looks at the sequence number.\<close>

definition touch :: "Validator \<Rightarrow> session \<Rightarrow> session" where
  "touch v s = (let s1 = s\<lparr>s_validator := v\<rparr> in
     if s_state s1 = ACTIVE \<or> s_state s1 = RECOVERING_RESEND then schedule_test_request_timeout s1 else s1)"

definition running :: "session \<Rightarrow> bool" where
  "running s \<longleftrightarrow> s_state s = ACTIVE \<or> s_state s = RECOVERING_RESEND"

lemma touch_keeps [simp]:
  "s_params (touch v s) = s_params s" "s_state (touch v s) = s_state s" "s_recovery_cache (touch v s) = s_recovery_cache s"
  "s_framer (touch v s) = s_framer s" "s_role (touch v s) = s_role s" "s_id (touch v s) = s_id s" "s_seq (touch v s) = s_seq s"
  "s_stopped (touch v s) = s_stopped s" "s_conn (touch v s) = s_conn s" "s_write_q (touch v s) = s_write_q s"
  "s_arena (touch v s) = s_arena s" "s_store (touch v s) = s_store s" "s_scratch (touch v s) = s_scratch s"
  "s_write_inflight (touch v s) = s_write_inflight s" "loud (touch v s) = loud s"
  "s_awaiting_test_request_response (touch v s) = s_awaiting_test_request_response s"
  by (simp_all add: touch_def Let_def schedule_test_request_timeout_def emit_def loud_def)

lemma validate_valid:
  assumes "valid_message params m" "no_group_fields m"
  shows "\<exists>v'. validate_message (make_valid_message_view m) params v = Some v' \<and> v_errors v' = [] \<and> v_severity v' \<noteq> Sev_Fatal"
proof -
  let ?m = "make_valid_message_view m"
  obtain s where s: "s \<in> set message_schemas" "header_values_ok m (ms_type s)" "slots (vm_cache ?m) Slot_MsgType = Some (ms_type s)"
    "header_slots_ok (slots (vm_cache ?m)) params"
    using valid_messageD [OF assms(1)] .
  obtain v' where "validate_message ?m params v = Some v'" "v_errors v' = []"
    using validate_message_spec [OF assms(2)] assms(1) by blast
  moreover have "vm_message ?m = m" by (simp add: make_valid_message_view_def)
  then have "\<not> fatal_header ?m (ms_type s) params" using s by (simp add: fatal_header_def header_values_ok_def)
  with s(3) have "v_severity v' \<noteq> Sev_Fatal" using validate_message_returns [of ?m params v] calculation(1) by auto
  ultimately show ?thesis by blast
qed

lemma dispatch_valid:
  assumes "\<not> s_stopped s" and m: "valid_message (s_params s) m" "no_group_fields m"
    and f: "find_field 35 m = Some ty" "find_field 34 m = Some (to_chars k)" "k < 2 ^ 64"
    and run: "running s \<or> \<not> is_app_message_type ty"
  shows "\<exists>v. dispatch m raw s = sequence_message ty (of_nat k) (find_field 43 m = Some ''Y'') (make_valid_message_view m) raw (touch v s)"
proof -
  let ?m = "make_valid_message_view m"
  have d: "distinct (map gf_tag m)" using m(1) by (auto simp: valid_message_def)
  obtain v where v: "validate_message ?m (s_params s) (s_validator s) = Some v" "v_errors v = []" "v_severity v \<noteq> Sev_Fatal"
    using validate_valid [OF m] by blast
  have "from_chars_whole (2 ^ 64 - 1) (to_chars k) = Some k" using f(3) by (intro from_chars_whole_to_chars) simp
  then have n: "has_msg_seq_num (vm_cache ?m)" "msg_seq_num (vm_cache ?m) = of_nat k"
    using seq_num_fold_cache [OF d f(2)] by (simp_all add: make_valid_message_view_def)
  have sl: "slots (vm_cache ?m) Slot_MsgType = Some ty" "slots (vm_cache ?m) Slot_PossDupFlag = find_field 43 m"
    using f(1) d by (simp_all add: view_slots find_field_rev)
  show ?thesis
    using assms(1) v n sl run by (intro exI [of _ v]) (auto simp: dispatch_def Let_def touch_def running_def)
qed

lemma ready_touch: "ready ws s \<Longrightarrow> ready ws (touch v s)"
  using queued_cong [of "touch v s" s] by (simp add: ready_def session_inv_def)

lemma pending_cong: "s_arena t = s_arena s \<Longrightarrow> s_write_q t = s_write_q s \<Longrightarrow> pending t = pending s"
  by (simp add: pending_def)

lemma unsent_trans: "unsent s t \<Longrightarrow> unsent t u \<Longrightarrow> unsent s u"
  by (simp add: unsent_def)

lemma unsent_touch [simp]: "unsent s (touch v s)"
  by (simp add: unsent_def)

lemma pending_touch [simp]: "pending (touch v s) = pending s"
  by (rule pending_cong) simp_all

section \<open>Messages out of sequence\<close>

lemma sequence_old_dup: "n < next_in (s_seq s) \<Longrightarrow> sequence_message ty n True m raw s = Some s"
  by (auto simp: sequence_message_def)

lemma sequence_old: "n < next_in (s_seq s) \<Longrightarrow> sequence_message ty n False m raw s = stop_with_logout (out_of_sequence n raw s) s"
  by (auto simp: sequence_message_def)

lemma sequence_expected:
  "sequence_message ty (next_in (s_seq s)) d m raw s = handle_message ty m (s\<lparr>s_seq := update_in (next_in (s_seq s) + 1) (s_seq s)\<rparr>)"
  by (simp add: sequence_message_def)

lemma sequence_ahead:
  assumes "next_in (s_seq s) < n" "s_state s = RECOVERING_RESEND" "rc_inv (s_recovery_cache s)" "raw \<noteq> []"
    "rc_in_window n (s_recovery_cache s)" "rc_lookup (s_recovery_cache s) n = None"
  shows "\<exists>c. sequence_message ty n d m raw s = Some (s\<lparr>s_recovery_cache := c\<rparr>) \<and> rc_inv c \<and>
     rc_lookup c = (rc_lookup (s_recovery_cache s))(n \<mapsto> raw) \<and> rc_base_offset c = rc_base_offset (s_recovery_cache s) \<and>
     rc_size c = rc_size (s_recovery_cache s) + 1"
proof -
  have "n \<noteq> next_in (s_seq s)" using assms(1) by auto
  with rc_insert_ok [OF assms(3,5,6,4)] assms show ?thesis by (auto simp: sequence_message_def rc_contains_lookup)
qed

lemma sequence_ahead_again:
  assumes "next_in (s_seq s) < n" "s_state s = RECOVERING_RESEND" "rc_lookup (s_recovery_cache s) n \<noteq> None"
  shows "sequence_message ty n d m raw s = Some s"
proof -
  have "n \<noteq> next_in (s_seq s)" using assms(1) by auto
  moreover have "rc_in_window n (s_recovery_cache s)" using assms(3) by (auto simp: rc_lookup_def rc_contains_def split: if_splits)
  ultimately show ?thesis using assms by (simp add: sequence_message_def rc_contains_lookup)
qed

lemma sequence_ahead_far:
  assumes "next_in (s_seq s) < n" "s_state s = RECOVERING_RESEND" "\<not> rc_in_window n (s_recovery_cache s)"
  shows "sequence_message ty n d m raw s = stop_with_logout ''MsgSeqNum too high during recovery'' s"
proof -
  have "n \<noteq> next_in (s_seq s)" using assms(1) by auto
  with assms show ?thesis by (simp add: sequence_message_def)
qed

lemma ready_update:
  assumes "ready ws s" "rc_inv c"
  shows "ready ws (s\<lparr>s_state := x, s_recovery_cache := c\<rparr>)"
  using assms queued_cong [of "s\<lparr>s_state := x, s_recovery_cache := c\<rparr>" s] by (simp add: ready_def session_inv_def)

lemma sequence_gap_ok:
  assumes s: "ready ws s" "s_state s \<noteq> RECOVERING_RESEND" and e: "e = next_in (s_seq s)" "e < n" "unat (n - e) < rc_window"
    and raw: "raw \<noteq> []" and w: "w = out_wire (s_params s) (of_nat (length ws + 1)) (Out_ResendRequest e (n - 1))"
    and fits: "ms_room ws w" "length ws < 2 ^ 31"
  shows "\<exists>t c. sequence_message ty n d m raw s = Some t \<and> ready (ws @ [w]) t \<and> s_state t = RECOVERING_RESEND \<and>
     s_recovery_cache t = c \<and> rc_inv c \<and> rc_lookup c = [n \<mapsto> raw] \<and> rc_base_offset c = e \<and> rc_size c = 1 \<and>
     next_in (s_seq t) = e \<and> pending t = pending s @ w \<and> s_params t = s_params s \<and> s_framer t = s_framer s \<and> s_role t = s_role s \<and> s_id t = s_id s"
proof -
  obtain t1 where t1: "send_built (Out_ResendRequest e (n - 1)) s = Some t1" "ready (ws @ [w]) t1" "unsent s t1" "pending t1 = pending s @ w"
    using send_built_ok [OF s(1) _ w fits] by auto
  define c0 where "c0 = rc_start e (s_recovery_cache t1)"
  have "rc_inv (s_recovery_cache t1)" using t1(2) by (simp add: ready_def session_inv_def)
  note c0 = rc_start_ok [OF this, of e, folded c0_def]
  have win: "rc_in_window n c0" using e(2,3) c0(3) by (auto simp: rc_in_window_def)
  obtain c where c: "rc_insert n raw c0 = Some c" "rc_inv c" "rc_lookup c = (rc_lookup c0)(n \<mapsto> raw)" "rc_base_offset c = rc_base_offset c0"
    "rc_size c = rc_size c0 + 1"
    using rc_insert_ok [OF c0(1) win c0(2) raw] by blast
  have "rc_lookup c0 = Map.empty" using c0(2) by auto
  with c have lk: "rc_lookup c = [n \<mapsto> raw]" by simp
  let ?t = "t1\<lparr>s_state := RECOVERING_RESEND, s_recovery_cache := c\<rparr>"
  have "sequence_message ty n d m raw s = Some ?t"
    using sequence_message_gap [of s n ty d m raw] s(2) e(1,2) t1(1) c0(2) [of n, unfolded c0_def] c(1) [unfolded c0_def]
    by (simp add: send_built Let_def rc_contains_lookup)
  moreover have "ready (ws @ [w]) ?t" using ready_update [OF t1(2) c(2)] .
  moreover have "pending ?t = pending s @ w" using t1(4) pending_cong [of ?t t1] by simp
  ultimately show ?thesis using t1(3) e(1) c(2,4,5) lk c0(3,4) by (simp add: unsent_def rc_empty_def)
qed

text \<open>Without a check of the window the first message of a gap can lie outside of it.\<close>

lemma sequence_gap_far:
  assumes "s_state s \<noteq> RECOVERING_RESEND" "next_in (s_seq s) < n" "rc_window \<le> unat (n - next_in (s_seq s))"
  shows "sequence_message ty n d m raw s = None"
proof -
  have far: "\<not> rc_in_window n (rc_start (next_in (s_seq s)) c)" for c
    using assms(3) by (simp add: rc_in_window_def rc_start_def)
  then have "rc_insert n raw (rc_start (next_in (s_seq s)) c) = None" for c by (simp add: rc_insert_def assert_that_def)
  with far show ?thesis
    using assms by (simp add: sequence_message_gap Let_def rc_contains_def bind_eq_None_conv)
qed

section \<open>Messages in sequence\<close>

text \<open>The messages a running session answers without changing its state, and the answers.\<close>

fun plain_msg :: "OutMsg \<Rightarrow> bool" where
  "plain_msg (Out_Heartbeat tid) \<longleftrightarrow> True"
| "plain_msg (Out_TestRequest tid) \<longleftrightarrow> True"
| "plain_msg (Out_Reject n reason rt info) \<longleftrightarrow> True"
| "plain_msg (Out_Custom payload) \<longleftrightarrow> True"
| "plain_msg _ \<longleftrightarrow> False"

fun answer :: "string \<Rightarrow> OutMsg \<Rightarrow> OutMsg list" where
  "answer me (Out_TestRequest tid) = [Out_Heartbeat tid]"
| "answer me (Out_Custom payload) =
     (if sv_find payload ''custom_response'' 0 = None then [Out_Custom (''custom_response from'' @ me)] else [])"
| "answer me _ = []"

text \<open>The store after sending a list of messages.\<close>

fun sent_log :: "SessionParameters \<Rightarrow> string list \<Rightarrow> OutMsg list \<Rightarrow> string list" where
  "sent_log params ws [] = ws"
| "sent_log params ws (m # ms) = sent_log params (ws @ [out_wire params (of_nat (length ws + 1)) m]) ms"

definition log_fits :: "string list \<Rightarrow> bool" where
  "log_fits ws \<longleftrightarrow> length (concat ws) + min_blob_buffer_grow_size < 2 ^ 32 \<and> length ws < 2 ^ 31"

lemma parsed_field:
  "find_field 35 (parsed_fields pp n msg) = Some (out_type msg)"
  "find_field 34 (parsed_fields pp n msg) = Some (to_chars_int (sint n))"
  "t \<notin> {8, 9, 35, 34, 49, 56, 52, 10} \<Longrightarrow> find_field t (parsed_fields pp n msg) = find_field t (out_body pp msg)"
  by (simp_all add: parsed_fields_def fix_fields_def out_fields_def header_fields_def find_field_Cons find_field_append split: option.splits)
     (simp add: find_field_def)


lemma sent_log_prefix: "\<exists>vs. sent_log params ws ms = ws @ vs \<and> length vs = length ms"
proof (induction ms arbitrary: ws)
  case (Cons m ms)
  show ?case using Cons [of "ws @ [out_wire params (of_nat (length ws + 1)) m]"] by auto
qed simp

lemma log_fits_prefix: "log_fits (ws @ vs) \<Longrightarrow> log_fits ws"
  by (auto simp: log_fits_def)

lemma log_fits_room: "log_fits (ws @ [w]) \<Longrightarrow> ms_room ws w \<and> length ws < 2 ^ 31"
  by (simp add: log_fits_def ms_room_def)

lemma sent_log_append: "sent_log params ws (xs @ ys) = sent_log params (sent_log params ws xs) ys"
  by (induction xs arbitrary: ws) simp_all

lemma send_one:
  assumes "ready ws s" "out_ok msg" "log_fits (sent_log (s_params s) ws [msg])"
  shows "\<exists>t. send_built msg s = Some t \<and> ready (sent_log (s_params s) ws [msg]) t \<and> unsent s t"
  using send_built_ok [OF assms(1,2) refl] log_fits_room assms(3) by fastforce

lemma answer_ok: "plain_msg msg \<Longrightarrow> out_ok msg \<Longrightarrow> SOH \<notin> set me \<Longrightarrow> \<forall>a \<in> set (answer me msg). out_ok a"
  by (cases msg) (auto simp: text_ok_def)

lemma ready_seq: "ready ws s \<Longrightarrow> ready ws (s\<lparr>s_seq := update_in n (s_seq s)\<rparr>)"
  using queued_cong [of "s\<lparr>s_seq := update_in n (s_seq s)\<rparr>" s] by (simp add: ready_def session_inv_def update_in_def next_out_def)

lemma readable_no_soh: "params_ok (s_params s) \<Longrightarrow> SOH \<notin> set (readable_id s)"
  by (auto simp: readable_id_def params_ok_def text_ok_def)

lemma handle_plain:
  assumes s: "ready ws s" and msg: "plain_msg msg" "out_ok msg"
    and fits: "log_fits (sent_log (s_params s) ws (answer (readable_id s) msg))"
  shows "\<exists>t. handle_message (out_type msg) (make_valid_message_view (parsed_fields pp n msg)) s = Some t \<and>
     ready (sent_log (s_params s) ws (answer (readable_id s) msg)) t \<and> unsent s t"
proof -
  let ?m = "make_valid_message_view (parsed_fields pp n msg)"
  have vm: "vm_message ?m = parsed_fields pp n msg" by (simp add: make_valid_message_view_def)
  have p: "params_ok (s_params s)" using s by (simp add: ready_def)
  show ?thesis
  proof (cases msg)
    case (Out_Heartbeat tid)
    let ?t = "s\<lparr>s_awaiting_test_request_response := False\<rparr>"
    have "ready ws ?t" using s queued_cong [of ?t s] by (simp add: ready_def session_inv_def)
    then show ?thesis by (simp add: Out_Heartbeat handle_message_def handle_heartbeat_def unsent_def)
  next
    case (Out_TestRequest tid)
    then obtain t where "send_built (Out_Heartbeat tid) s = Some t" "ready (sent_log (s_params s) ws [Out_Heartbeat tid]) t" "unsent s t"
      using send_one [OF s, of "Out_Heartbeat tid"] fits msg(2) by (auto simp: text_ok_def)
    then show ?thesis
      by (simp add: Out_TestRequest handle_message_def handle_test_request_def vm [unfolded Out_TestRequest] parsed_field send_built find_field_Cons)
  next
    case (Out_Reject r1 r2 r3 r4)
    let ?t = "\<lambda>x. emit [Log x] s"
    have "ready ws (?t x)" for x using s queued_cong [of "?t x" s] by (simp add: ready_def session_inv_def)
    then show ?thesis
      by (simp add: Out_Reject handle_message_def handle_reject_def vm [unfolded Out_Reject] parsed_field find_field_Cons unsent_def)
  next
    case (Out_Custom payload)
    let ?a = "''custom_response from'' @ readable_id s"
    show ?thesis
    proof (cases "sv_find payload ''custom_response'' 0")
      case None
      have "out_ok (Out_Custom ?a)" using readable_no_soh [OF p] by (simp add: text_ok_def)
      then obtain t where "send_built (Out_Custom ?a) s = Some t" "ready (sent_log (s_params s) ws [Out_Custom ?a]) t" "unsent s t"
        using send_one [OF s, of "Out_Custom ?a"] fits Out_Custom None by auto
      then show ?thesis
        by (simp add: Out_Custom None handle_message_def handle_custom_def vm [unfolded Out_Custom] parsed_field send_built find_field_Cons Let_def)
    next
      case (Some i)
      then show ?thesis using s
        by (simp add: Out_Custom handle_message_def handle_custom_def vm [unfolded Out_Custom] parsed_field find_field_Cons unsent_def)
    qed
  qed (use msg in simp_all)
qed


definition advance :: "session \<Rightarrow> session" where
  "advance s = s\<lparr>s_seq := update_in (next_in (s_seq s) + 1) (s_seq s)\<rparr>"

lemma advance_simps [simp]:
  "next_in (s_seq (advance s)) = next_in (s_seq s) + 1" "s_params (advance s) = s_params s" "s_state (advance s) = s_state s"
  "s_recovery_cache (advance s) = s_recovery_cache s" "s_framer (advance s) = s_framer s" "s_role (advance s) = s_role s"
  "s_id (advance s) = s_id s"
  by (simp_all add: advance_def update_in_def next_in_def)

lemma parsed_seq: "unat n < 2 ^ 63 \<Longrightarrow> find_field 34 (parsed_fields pp n msg) = Some (to_chars (unat n))"
  by (simp add: parsed_field to_chars_int_word)

lemma dispatch_peer:
  assumes "\<not> s_stopped s" and peer: "params_ok pp" "peer_of pp (s_params s)" and msg: "out_ok msg"
    and n: "unat n < 2 ^ 63" and run: "running s \<or> \<not> is_app_message_type (out_type msg)"
  shows "\<exists>v. dispatch (parsed_fields pp n msg) raw s =
     sequence_message (out_type msg) n False (make_valid_message_view (parsed_fields pp n msg)) raw (touch v s)"
proof -
  have "find_field 43 (out_body pp msg) = None"
    using msg by (cases msg) (auto simp: find_field_def split: if_splits)
  then have "find_field 43 (parsed_fields pp n msg) = None" by (simp add: parsed_field)
  moreover have "unat n < 2 ^ 64" using n by simp
  ultimately show ?thesis
    using dispatch_valid [OF assms(1) parsed_fields_valid [OF peer msg] parsed_field(1) parsed_seq [OF n] _ run, of raw] by simp
qed

lemma deliver:
  assumes s: "ready ws s" "running s" and peer: "params_ok pp" "peer_of pp (s_params s)" and msg: "plain_msg msg" "out_ok msg"
    and n: "n = next_in (s_seq s)" "unat n < 2 ^ 63"
    and fits: "log_fits (sent_log (s_params s) ws (answer (readable_id s) msg))"
  shows "\<exists>t. dispatch (parsed_fields pp n msg) raw s = Some t \<and>
     ready (sent_log (s_params s) ws (answer (readable_id s) msg)) t \<and> unsent (advance s) t"
proof -
  have "\<not> s_stopped s" using s(1) by (simp add: ready_def)
  then obtain v where v: "dispatch (parsed_fields pp n msg) raw s =
      sequence_message (out_type msg) n False (make_valid_message_view (parsed_fields pp n msg)) raw (touch v s)"
    using dispatch_peer [OF _ peer msg(2) n(2)] s(2) by blast
  let ?s = "(touch v s)\<lparr>s_seq := update_in (n + 1) (s_seq (touch v s))\<rparr>"
  have rdy: "ready ws ?s" using ready_seq [OF ready_touch [OF s(1)]] .
  have me: "readable_id ?s = readable_id s" by (simp add: readable_id_def)
  obtain t where t: "handle_message (out_type msg) (make_valid_message_view (parsed_fields pp n msg)) ?s = Some t"
    "ready (sent_log (s_params s) ws (answer (readable_id s) msg)) t" "unsent ?s t"
    using handle_plain [OF rdy msg, of pp n] fits me by auto
  moreover have "dispatch (parsed_fields pp n msg) raw s = Some t"
    using t(1) sequence_expected [of "out_type msg" "touch v s"] n(1) unfolding v by simp
  moreover have "unsent (advance s) t" using t(3) n(1) by (simp add: unsent_def advance_def)
  ultimately show ?thesis by blast
qed


section \<open>Draining the cache\<close>

lemma out_wire_parse: "params_ok pp \<Longrightarrow> out_ok msg \<Longrightarrow> parse (out_wire pp n msg) = (parsed_fields pp n msg, [])"
  unfolding out_wire_def by (rule parse_fix_wire)

lemma out_wire_nonempty: "out_wire pp n msg \<noteq> []"
  by (simp add: out_wire_def fix_wire_def trailer_def)

lemma running_unsent: "unsent s t \<Longrightarrow> running t = running s"
  by (simp add: unsent_def running_def)

lemma readable_unsent: "unsent s t \<Longrightarrow> readable_id t = readable_id s"
  by (simp add: unsent_def readable_id_def)

lemma ready_cache: "ready ws s \<Longrightarrow> rc_inv c \<Longrightarrow> ready ws (s\<lparr>s_recovery_cache := c\<rparr>)"
  using ready_update [of ws s c "s_state s"] by simp

definition answers :: "string \<Rightarrow> OutMsg list \<Rightarrow> OutMsg list" where
  "answers me ms = concat (map (answer me) ms)"

lemma drain_loop_ok:
  assumes "ready ws s" "running s" "params_ok pp" "peer_of pp (s_params s)" "\<forall>m \<in> set ms. plain_msg m \<and> out_ok m"
    and "e = next_in (s_seq s)" "unat e + length ms < 2 ^ 63"
    and "\<forall>j < length ms. rc_lookup (s_recovery_cache s) (e + of_nat j) = Some (out_wire pp (e + of_nat j) (ms ! j))"
    and "rc_lookup (s_recovery_cache s) (e + of_nat (length ms)) = None"
    and "log_fits (sent_log (s_params s) ws (answers (readable_id s) ms))"
  shows "\<exists>t. drain_loop s = Some (False, t) \<and> ready (sent_log (s_params s) ws (answers (readable_id s) ms)) t \<and>
     next_in (s_seq t) = e + of_nat (length ms) \<and> rc_size (s_recovery_cache t) + length ms = rc_size (s_recovery_cache s) \<and>
     s_state t = s_state s \<and> s_params t = s_params s \<and> s_framer t = s_framer s \<and> s_role t = s_role s \<and> s_id t = s_id s"
  using assms
proof (induction ms arbitrary: ws s e)
  case Nil
  then have "drain_loop s = Some (False, s)" by (subst drain_loop.simps) (simp add: rc_contains_lookup)
  with Nil show ?case by (simp add: answers_def)
next
  case (Cons m ms)
  let ?raw = "out_wire pp e m" and ?c = "s_recovery_cache s" and ?ws = "sent_log (s_params s) ws (answer (readable_id s) m)"
  have lk: "rc_lookup ?c e = Some ?raw" using Cons.prems(8) by (force dest: spec [where x = 0])
  have all: "sent_log (s_params s) ws (answers (readable_id s) (m # ms)) = sent_log (s_params s) ?ws (answers (readable_id s) ms)"
    by (simp add: answers_def sent_log_append)
  then have fits: "log_fits ?ws" using Cons.prems(10) sent_log_prefix log_fits_prefix by metis
  have m: "plain_msg m" "out_ok m" and e63: "unat e < 2 ^ 63" using Cons.prems(5,7) by auto
  obtain t1 where t1: "dispatch (parsed_fields pp e m) ?raw s = Some t1" "ready ?ws t1" "unsent (advance s) t1"
    using deliver [OF Cons.prems(1-4) m Cons.prems(6) e63 fits, of ?raw] by blast
  have c1: "s_recovery_cache t1 = ?c" and n1: "next_in (s_seq t1) = e + 1" using t1(3) Cons.prems(6) by (simp_all add: unsent_def)
  have "rc_inv ?c" using Cons.prems(1) by (simp add: ready_def session_inv_def)
  then obtain c where c: "rc_consume e ?c = Some c" "rc_inv c" "rc_lookup c = (rc_lookup ?c)(e := None)" "rc_size c + 1 = rc_size ?c"
    using rc_consume_ok [of ?c e] lk by auto
  let ?t = "t1\<lparr>s_recovery_cache := c\<rparr>"
  have step: "drain_loop s = drain_loop ?t"
    using lk t1(1) c(1) Cons.prems(3,6) m(2) c1
    by (subst drain_loop.simps) (simp add: rc_contains_lookup rc_get_lookup out_wire_parse)
  have keep: "s_params ?t = s_params s" "s_state ?t = s_state s" "s_framer ?t = s_framer s" "s_role ?t = s_role s" "s_id ?t = s_id s"
    "readable_id ?t = readable_id s" "running ?t"
    using t1(3) Cons.prems(2) by (simp_all add: unsent_def readable_id_def running_def)
  have small: "unat (e + 1) = unat e + 1" using Cons.prems(7) by (simp add: unat_word_ariths)
  have ne: "e + 1 + of_nat j \<noteq> e" if "j \<le> length ms" for j
  proof
    assume "e + 1 + of_nat j = e"
    then have "of_nat (Suc j) = (0 :: SeqNum)" by (simp add: add.assoc)
    moreover have "unat (of_nat (Suc j) :: SeqNum) = Suc j"
      unfolding unat_of_nat using that Cons.prems(7) by (intro mod_less) simp
    ultimately show False by (metis nat.distinct(1) unat_0)
  qed
  have "\<exists>t. drain_loop ?t = Some (False, t) \<and> ready (sent_log (s_params ?t) ?ws (answers (readable_id ?t) ms)) t \<and>
     next_in (s_seq t) = e + 1 + of_nat (length ms) \<and> rc_size (s_recovery_cache t) + length ms = rc_size (s_recovery_cache ?t) \<and>
     s_state t = s_state ?t \<and> s_params t = s_params ?t \<and> s_framer t = s_framer ?t \<and> s_role t = s_role ?t \<and> s_id t = s_id ?t"
  proof (rule Cons.IH)
    show "ready ?ws ?t" using ready_cache [OF t1(2) c(2)] .
    show "\<forall>j < length ms. rc_lookup (s_recovery_cache ?t) (e + 1 + of_nat j) = Some (out_wire pp (e + 1 + of_nat j) (ms ! j))"
    proof (intro allI impI)
      fix j assume j: "j < length ms"
      then have "rc_lookup ?c (e + of_nat (Suc j)) = Some (out_wire pp (e + of_nat (Suc j)) (ms ! j))"
        using Cons.prems(8) by (auto dest: spec [where x = "Suc j"])
      then show "rc_lookup (s_recovery_cache ?t) (e + 1 + of_nat j) = Some (out_wire pp (e + 1 + of_nat j) (ms ! j))"
        using c(3) ne [of j] j by (simp add: ac_simps)
    qed
    show "rc_lookup (s_recovery_cache ?t) (e + 1 + of_nat (length ms)) = None"
      using c(3) Cons.prems(9) by (simp add: ac_simps)
  qed (use Cons.prems keep n1 small all in simp_all)
  with step all keep c(4) show ?case by (auto simp: ac_simps)
qed


section \<open>Closing a gap\<close>

primrec receive :: "string list \<Rightarrow> session \<Rightarrow> session option" where
  "receive [] s = Some s"
| "receive (w # ws) s = do { s1 \<leftarrow> process_wire_message w s; receive ws s1 }"

lemma receive_append: "receive (xs @ ys) s = receive xs s \<bind> receive ys"
  by (induction xs arbitrary: s) simp_all

lemma seq_offset: "unat (e :: SeqNum) + j < 2 ^ 63 \<Longrightarrow> unat (e + of_nat j) = unat e + j"
proof -
  assume small: "unat e + j < 2 ^ 63"
  then have j: "unat (of_nat j :: SeqNum) = j" unfolding unat_of_nat by (intro mod_less) simp
  have "unat e + unat (of_nat j :: SeqNum) < 2 ^ LENGTH(64)" using small unfolding j by simp
  then show ?thesis using j unat_add_lem [of e "of_nat j"] by metis
qed

lemma seq_offset_inj:
  assumes "unat (e :: SeqNum) + i < 2 ^ 63" "unat e + j < 2 ^ 63" "e + of_nat i = e + of_nat j"
  shows "i = j"
proof -
  have "unat e + i = unat e + j" using seq_offset [OF assms(1)] seq_offset [OF assms(2)] unfolding assms(3) by (rule trans [OF sym])
  then show ?thesis by (rule add_left_imp_eq)
qed

lemma process_parsed:
  assumes "params_ok pp" "out_ok msg" "dispatch (parsed_fields pp n msg) (out_wire pp n msg) s = Some t"
  shows "process_wire_message (out_wire pp n msg) s = drain_recovery_cache t"
  using assms by (simp add: process_wire_message_def out_wire_parse)

lemma drain_waits:
  assumes "rc_lookup (s_recovery_cache s) (next_in (s_seq s)) = None" "\<not> rc_empty (s_recovery_cache s)"
  shows "drain_recovery_cache s = Some s"
proof -
  have "drain_loop s = Some (False, s)" using assms(1) by (subst drain_loop.simps) (simp add: rc_contains_lookup)
  with assms(2) show ?thesis by (simp add: drain_recovery_cache_def)
qed

text \<open>The state between the first message ahead of the gap and the one that closes it.\<close>

definition waiting :: "SessionParameters \<Rightarrow> SeqNum \<Rightarrow> OutMsg list \<Rightarrow> nat set \<Rightarrow> string list \<Rightarrow> session \<Rightarrow> session \<Rightarrow> bool" where
  "waiting pp e ms A ws s0 s \<longleftrightarrow> ready ws s \<and> s_state s = RECOVERING_RESEND \<and> next_in (s_seq s) = e \<and>
     s_params s = s_params s0 \<and> s_framer s = s_framer s0 \<and> s_role s = s_role s0 \<and> s_id s = s_id s0 \<and>
     rc_base_offset (s_recovery_cache s) = e \<and> rc_size (s_recovery_cache s) = card A \<and>
     (\<forall>j \<le> length ms. rc_lookup (s_recovery_cache s) (e + of_nat j) = (if j \<in> A then Some (out_wire pp (e + of_nat j) (ms ! j)) else None))"

lemma waiting_lookup:
  "waiting pp e ms A ws s0 s \<Longrightarrow> j \<le> length ms \<Longrightarrow>
   rc_lookup (s_recovery_cache s) (e + of_nat j) = (if j \<in> A then Some (out_wire pp (e + of_nat j) (ms ! j)) else None)"
  unfolding waiting_def by blast

lemma process_ahead:
  assumes w: "waiting pp e ms A ws s0 s" and peer: "params_ok pp" "peer_of pp (s_params s0)"
    and ms: "\<forall>m \<in> set ms. plain_msg m \<and> out_ok m" and e: "unat e + length ms < 2 ^ 63" "length ms \<le> rc_window"
    and A: "A \<subseteq> {1..<length ms}" "j \<in> {1..<length ms}" "j \<notin> A"
  shows "\<exists>t. process_wire_message (out_wire pp (e + of_nat j) (ms ! j)) s = Some t \<and> waiting pp e ms (insert j A) ws s0 t"
proof -
  let ?n = "e + of_nat j" and ?m = "ms ! j"
  let ?raw = "out_wire pp ?n ?m"
  have S: "ready ws s" "s_state s = RECOVERING_RESEND" "next_in (s_seq s) = e" "rc_base_offset (s_recovery_cache s) = e"
    using w by (simp_all add: waiting_def)
  have n: "unat ?n = unat e + j" using e(1) A(2) by (intro seq_offset) simp
  have om: "out_ok ?m" using ms A(2) by simp
  have win: "rc_in_window ?n (s_recovery_cache s)"
    using e(2) A(2) n S(4) by (simp add: rc_in_window_def word_less_nat_alt unat_of_nat rc_window_def)
  obtain v where v: "dispatch (parsed_fields pp ?n ?m) ?raw s =
      sequence_message (out_type ?m) ?n False (make_valid_message_view (parsed_fields pp ?n ?m)) ?raw (touch v s)"
    using dispatch_peer [of s pp ?m ?n] S(1,2) peer om e(1) A(2) n w by (auto simp: ready_def running_def waiting_def)
  have none: "rc_lookup (s_recovery_cache (touch v s)) ?n = None" using w A(2,3) by (simp add: waiting_def)
  have ahead: "next_in (s_seq (touch v s)) < ?n" using n A(2) S(3) by (simp add: word_less_nat_alt)
  have inv: "rc_inv (s_recovery_cache (touch v s))" using S(1) by (simp add: ready_def session_inv_def)
  have size: "rc_size (s_recovery_cache s) = card A" using w by (simp add: waiting_def)
  obtain c where c: "dispatch (parsed_fields pp ?n ?m) ?raw s = Some ((touch v s)\<lparr>s_recovery_cache := c\<rparr>)" "rc_inv c"
    "rc_lookup c = (rc_lookup (s_recovery_cache s))(?n \<mapsto> ?raw)" "rc_base_offset c = e" "rc_size c = card A + 1"
    using sequence_ahead [where ty = "out_type ?m" and d = False and m = "make_valid_message_view (parsed_fields pp ?n ?m)",
        OF ahead _ inv out_wire_nonempty [of pp ?n ?m] _ none] S(2,4) win size unfolding v by auto
  let ?t = "(touch v s)\<lparr>s_recovery_cache := c\<rparr>"
  have inj: "e + of_nat i = ?n \<longleftrightarrow> i = j" if "i \<le> length ms" for i
    using seq_offset_inj [of e i j] e(1) A(2) that by auto
  have "waiting pp e ms (insert j A) ws s0 ?t"
    using w c(3-5) A inj ready_cache [OF ready_touch [OF S(1)] c(2)] finite_subset [OF A(1)]
    by (simp add: waiting_def)
  moreover have "rc_lookup (s_recovery_cache s) e = None" using waiting_lookup [OF w, of 0] A(1) by auto
  then have "drain_recovery_cache ?t = Some ?t"
    using c(3,5) S(3) A(2) inj [of 0] by (intro drain_waits) (simp_all add: rc_empty_def)
  ultimately show ?thesis using process_parsed [OF peer(1) om c(1)] by auto
qed

lemma receive_ahead:
  assumes "waiting pp e ms A ws s0 s" "params_ok pp" "peer_of pp (s_params s0)"
    and "\<forall>m \<in> set ms. plain_msg m \<and> out_ok m" "unat e + length ms < 2 ^ 63" "length ms \<le> rc_window"
    and "A \<subseteq> {1..<length ms}" "set ns \<subseteq> {1..<length ms}" "distinct ns" "set ns \<inter> A = {}"
  shows "\<exists>t. receive (map (\<lambda>j. out_wire pp (e + of_nat j) (ms ! j)) ns) s = Some t \<and> waiting pp e ms (A \<union> set ns) ws s0 t"
  using assms
proof (induction ns arbitrary: A s)
  case (Cons j ns)
  obtain s1 where s1: "process_wire_message (out_wire pp (e + of_nat j) (ms ! j)) s = Some s1" "waiting pp e ms (insert j A) ws s0 s1"
    using process_ahead [OF Cons.prems(1-7), of j] Cons.prems(8-10) by auto
  obtain t where t: "receive (map (\<lambda>j. out_wire pp (e + of_nat j) (ms ! j)) ns) s1 = Some t" "waiting pp e ms (insert j A \<union> set ns) ws s0 t"
    using Cons.IH [OF s1(2) Cons.prems(2-6)] Cons.prems(7-10) by auto
  with s1(1) show ?case by simp
qed simp


lemma process_gap:
  assumes s: "ready ws s" "s_state s = ACTIVE" and peer: "params_ok pp" "peer_of pp (s_params s)"
    and ms: "\<forall>m \<in> set ms. plain_msg m \<and> out_ok m" and e: "e = next_in (s_seq s)" "unat e + length ms < 2 ^ 63" "length ms \<le> rc_window"
    and j: "j \<in> {1..<length ms}" and ws': "ws' = sent_log (s_params s) ws [Out_ResendRequest e (e + of_nat j - 1)]" "log_fits ws'"
  shows "\<exists>t. process_wire_message (out_wire pp (e + of_nat j) (ms ! j)) s = Some t \<and> waiting pp e ms {j} ws' s t"
proof -
  let ?n = "e + of_nat j" and ?m = "ms ! j"
  let ?raw = "out_wire pp ?n ?m"
  have n: "unat ?n = unat e + j" using e(2) j by (intro seq_offset) simp
  have om: "out_ok ?m" using ms j by simp
  obtain v where v: "dispatch (parsed_fields pp ?n ?m) ?raw s =
      sequence_message (out_type ?m) ?n False (make_valid_message_view (parsed_fields pp ?n ?m)) ?raw (touch v s)"
    using dispatch_peer [of s pp ?m ?n] s peer om e(2) j n by (auto simp: ready_def running_def)
  define w where "w = out_wire (s_params s) (of_nat (length ws + 1)) (Out_ResendRequest e (?n - 1))"
  have w': "ws' = ws @ [w]" using ws'(1) by (simp add: w_def)
  have room: "ms_room ws w" "length ws < 2 ^ 31" using log_fits_room ws'(2) unfolding w' by auto
  have "unat (?n - e) < rc_window" using j e(3) by (simp add: unat_of_nat rc_window_def)
  moreover have "e < ?n" using n j by (simp add: word_less_nat_alt)
  ultimately obtain t c where t: "dispatch (parsed_fields pp ?n ?m) ?raw s = Some t" "ready ws' t" "s_state t = RECOVERING_RESEND"
    "s_recovery_cache t = c" "rc_inv c" "rc_lookup c = [?n \<mapsto> ?raw]" "rc_base_offset c = e" "rc_size c = 1" "next_in (s_seq t) = e"
    "s_params t = s_params s" "s_framer t = s_framer s" "s_role t = s_role s" "s_id t = s_id s"
    using sequence_gap_ok [where s = "touch v s" and e = e and n = ?n and w = w and raw = ?raw and ty = "out_type ?m" and d = False
        and m = "make_valid_message_view (parsed_fields pp ?n ?m)", OF ready_touch [OF s(1)]] e(1) s(2) room out_wire_nonempty
    unfolding v w' w_def by auto
  have inj: "e + of_nat i = ?n \<longleftrightarrow> i = j" if "i \<le> length ms" for i
    using seq_offset_inj [of e i j] e(2) j that by auto
  have "waiting pp e ms {j} ws' s t" using t inj j by (simp add: waiting_def)
  moreover have "drain_recovery_cache t = Some t"
    using t(4,6,8,9) inj [of 0] j by (intro drain_waits) (auto simp: rc_empty_def)
  ultimately show ?thesis using process_parsed [OF peer(1) om t(1)] by auto
qed

text \<open>When exactly the messages \<open>ms\<close> are held, from the expected number on, all of them are handled and the recovery is over.\<close>

lemma drain_closes:
  assumes s: "ready ws s" "s_state s = RECOVERING_RESEND" and peer: "params_ok pp" "peer_of pp (s_params s)"
    and ms: "\<forall>m \<in> set ms. plain_msg m \<and> out_ok m" "ms \<noteq> []"
    and e: "e = next_in (s_seq s)" "unat e + length ms < 2 ^ 63"
    and held: "\<forall>j < length ms. rc_lookup (s_recovery_cache s) (e + of_nat j) = Some (out_wire pp (e + of_nat j) (ms ! j))"
      "rc_lookup (s_recovery_cache s) (e + of_nat (length ms)) = None" "rc_size (s_recovery_cache s) = length ms"
    and ws': "ws' = sent_log (s_params s) ws (answers (readable_id s) ms)" "log_fits ws'"
  shows "\<exists>t. drain_recovery_cache s = Some t \<and> s_state t = ACTIVE \<and> next_in (s_seq t) = e + of_nat (length ms) \<and>
     rc_empty (s_recovery_cache t) \<and> ready ws' t"
proof -
  have "running s" using s(2) by (simp add: running_def)
  then obtain t where t: "drain_loop s = Some (False, t)" "ready ws' t" "next_in (s_seq t) = e + of_nat (length ms)"
    "rc_size (s_recovery_cache t) + length ms = rc_size (s_recovery_cache s)"
    using drain_loop_ok [OF s(1) _ peer ms(1) e held(1,2)] ws' by blast
  have empty: "rc_empty (s_recovery_cache t)" using t(4) held(3) by (simp add: rc_empty_def)
  have "\<not> rc_empty (s_recovery_cache s)" using held(3) ms(2) by (simp add: rc_empty_def)
  then have "drain_recovery_cache s = Some (t\<lparr>s_state := ACTIVE\<rparr>)" using t(1) empty s(2) by (simp add: drain_recovery_cache_def)
  moreover have "rc_inv (s_recovery_cache t)" using t(2) by (simp add: ready_def session_inv_def)
  from ready_update [OF t(2) this, of ACTIVE] have "ready ws' (t\<lparr>s_state := ACTIVE\<rparr>)" by simp
  ultimately show ?thesis using t(3) empty by (intro exI [of _ "t\<lparr>s_state := ACTIVE\<rparr>"]) simp
qed

lemma process_closing:
  assumes w: "waiting pp e (m # ms) {1..<length (m # ms)} ws s0 s" and peer: "params_ok pp" "peer_of pp (s_params s0)"
    and ms: "\<forall>x \<in> set (m # ms). plain_msg x \<and> out_ok x" and e: "unat e + length (m # ms) < 2 ^ 63" "ms \<noteq> []"
    and fits: "log_fits (sent_log (s_params s0) ws (answers (readable_id s0) (m # ms)))"
  shows "\<exists>t. process_wire_message (out_wire pp e m) s = Some t \<and> s_state t = ACTIVE \<and> next_in (s_seq t) = e + of_nat (length (m # ms)) \<and>
     rc_empty (s_recovery_cache t) \<and> ready (sent_log (s_params s0) ws (answers (readable_id s0) (m # ms))) t"
proof -
  let ?ws = "sent_log (s_params s0) ws (answer (readable_id s0) m)"
  have S: "ready ws s" "s_state s = RECOVERING_RESEND" "next_in (s_seq s) = e" "s_params s = s_params s0" "readable_id s = readable_id s0"
    "rc_size (s_recovery_cache s) = length ms"
    using w by (simp_all add: waiting_def readable_id_def)
  note lk = waiting_lookup [OF w]
  have all: "sent_log (s_params s0) ws (answers (readable_id s0) (m # ms)) = sent_log (s_params s0) ?ws (answers (readable_id s0) ms)"
    by (simp add: answers_def sent_log_append)
  have "log_fits ?ws" using fits sent_log_prefix [of "s_params s0" ?ws] log_fits_prefix unfolding all by metis
  then have fit: "log_fits (sent_log (s_params s) ws (answer (readable_id s) m))" unfolding S(4,5) .
  have po: "peer_of pp (s_params s)" using peer(2) unfolding S(4) .
  have m: "running s" "plain_msg m" "out_ok m" "unat e < 2 ^ 63" using S(2) ms e(1) by (simp_all add: running_def)
  obtain t1 where t1: "dispatch (parsed_fields pp e m) (out_wire pp e m) s = Some t1" "ready ?ws t1" "unsent (advance s) t1"
    using deliver [OF S(1) m(1) peer(1) po m(2,3) S(3) [symmetric] m(4) fit, of "out_wire pp e m"] unfolding S(4,5) by blast
  have k: "s_params t1 = s_params s0" "s_state t1 = RECOVERING_RESEND" "next_in (s_seq t1) = e + 1" "readable_id t1 = readable_id s0"
    "s_recovery_cache t1 = s_recovery_cache s" "running t1"
    using t1(3) S by (simp_all add: unsent_def readable_id_def running_def)
  have "unat e + 1 < 2 ^ 63" using e(1) by simp
  then have e1: "unat (e + 1) = unat e + 1" using seq_offset [of e 1] by (simp only: of_nat_1)
  have "\<exists>t. drain_recovery_cache t1 = Some t \<and> s_state t = ACTIVE \<and> next_in (s_seq t) = e + 1 + of_nat (length ms) \<and>
     rc_empty (s_recovery_cache t) \<and> ready (sent_log (s_params s0) ws (answers (readable_id s0) (m # ms))) t"
  proof (rule drain_closes [OF t1(2) k(2) peer(1)])
    show "\<forall>j < length ms. rc_lookup (s_recovery_cache t1) (e + 1 + of_nat j) = Some (out_wire pp (e + 1 + of_nat j) (ms ! j))"
    proof (intro allI impI)
      fix j assume "j < length ms"
      then show "rc_lookup (s_recovery_cache t1) (e + 1 + of_nat j) = Some (out_wire pp (e + 1 + of_nat j) (ms ! j))"
        using lk [of "Suc j"] k(5) by (simp add: ac_simps)
    qed
    show "rc_lookup (s_recovery_cache t1) (e + 1 + of_nat (length ms)) = None"
      using lk [of "length (m # ms)"] k(5) by (simp add: ac_simps)
    show "unat (e + 1) + length ms < 2 ^ 63" using e(1) unfolding e1 by simp
    show "sent_log (s_params s0) ws (answers (readable_id s0) (m # ms)) = sent_log (s_params t1) ?ws (answers (readable_id t1) ms)"
      unfolding all k ..
  qed (use ms peer k e(2) S(6) fits in simp_all)
  then show ?thesis using process_parsed [OF peer(1) _ t1(1)] ms by (simp add: ac_simps)
qed

text \<open>
  C2: A gap closes. An active session expects number \<open>e\<close>, but the messages \<open>e+1\<close> to \<open>e+k\<close> of the
  peer arrive first, in any order, and the message \<open>e\<close> only after them (\<open>k\<close> at most 511). Then the
  session asks once for the missing range, holds the early messages back, and when \<open>e\<close> arrives it
  processes all of them: every handler returns, the answers go out (and into the store, under
  consecutive numbers) in the order of the sequence numbers of the messages they answer, not in the
  order of arrival, each exactly once, and the session is active again, expects \<open>e+k+1\<close>, and its
  cache is empty.\<close>

theorem gap_recovery_correct:
  assumes "ready ws s" "s_state s = ACTIVE" "params_ok pp" "peer_of pp (s_params s)" "\<forall>x \<in> set ms. plain_msg x \<and> out_ok x"
    and "e = next_in (s_seq s)" "unat e + length ms < 2 ^ 63" "length ms \<le> rc_window"
    and "distinct (j # ns)" "set (j # ns) = {1..<length ms}"
    and "ws' = sent_log (s_params s) ws (Out_ResendRequest e (e + of_nat j - 1) # answers (readable_id s) ms)" "log_fits ws'"
  shows "\<exists>t. receive (map (\<lambda>i. out_wire pp (e + of_nat i) (ms ! i)) (j # ns @ [0])) s = Some t \<and>
     s_state t = ACTIVE \<and> next_in (s_seq t) = e + of_nat (length ms) \<and> rc_empty (s_recovery_cache t) \<and> ready ws' t"
proof -
  let ?w = "\<lambda>i. out_wire pp (e + of_nat i) (ms ! i)"
  let ?ws = "sent_log (s_params s) ws [Out_ResendRequest e (e + of_nat j - 1)]"
  have j: "j \<in> {1..<length ms}" using assms(10) by auto
  then obtain m ms' where ms': "ms = m # ms'" "ms' \<noteq> []" by (cases ms; cases "tl ms") auto
  have all: "ws' = sent_log (s_params s) ?ws (answers (readable_id s) ms)" using assms(11) by simp
  then have "log_fits ?ws" using assms(12) sent_log_prefix log_fits_prefix by metis
  then obtain s1 where s1: "process_wire_message (?w j) s = Some s1" "waiting pp e ms {j} ?ws s s1"
    using process_gap [OF assms(1-8) j refl] by blast
  obtain s2 where s2: "receive (map ?w ns) s1 = Some s2" "waiting pp e ms ({j} \<union> set ns) ?ws s s2"
    using receive_ahead [OF s1(2) assms(3-5,7,8), of ns] j assms(9,10) by auto
  have "waiting pp e (m # ms') {1..<length (m # ms')} ?ws s s2" using s2(2) assms(10) ms'(1) by simp
  then obtain t where "process_wire_message (out_wire pp e m) s2 = Some t" "s_state t = ACTIVE"
    "next_in (s_seq t) = e + of_nat (length ms)" "rc_empty (s_recovery_cache t)" "ready ws' t"
    using process_closing [of pp e m ms' ?ws s s2] assms(3-5,7,12) ms' all by auto
  with s1(1) s2(1) ms'(1) show ?thesis by (simp add: receive_append)
qed

end
