(* ===== verification/Session_Theorems.thy ===== *)
theory Session_Theorems
  imports Session_Recovery
begin

text \<open>
  The rules of sequencing of a session and its answer to a message in sequence, stated over the
  handlers of the model; witnesses for them and for the recovery from a gap.
\<close>

section \<open>Sample sessions\<close>

lemma fresh_session:
  obtains s where "session_new session_id role params = Some s" "session_inv s" "\<not> s_stopped s" "\<not> s_conn s" "s_scratch s = sc_new"
    "s_store s = ms_new" "s_seq s = sp_new" "s_params s = params" "s_state s = DISCONNECTED" "s_role s = role" "s_framer s = framer_new"
    "s_write_q s = []" "s_out s = []" "s_id s = session_id" "s_validator s = \<lparr>v_results = vr_clear, v_scratch = []\<rparr>"
proof -
  obtain s where s: "session_new session_id role params = Some s" "session_inv s" using session_new_inv by blast
  then show ?thesis by (intro that [of s]) (auto simp: session_new_def bind_eq_Some_conv)
qed

lemma ready_connected:
  assumes "session_new session_id role params = Some s" "params_ok params"
  shows "ready [] (s\<lparr>s_conn := True, s_state := x\<rparr>)"
proof -
  obtain t where t: "session_new session_id role params = Some t" "session_inv t" "\<not> s_stopped t" "s_scratch t = sc_new"
    "s_store t = ms_new" "s_seq t = sp_new" "s_params t = params"
    using fresh_session [of session_id role params] .
  then have "t = s" using assms(1) by simp
  with t assms(2) queued_cong [of "s\<lparr>s_conn := True, s_state := x\<rparr>" s] show ?thesis
    by (simp add: ready_def session_inv_def ms_new_inv sp_new_def next_out_def)
qed

lemma default_params_ok [simp]: "params_ok default_params" "params_ok sample_peer" "peer_of sample_peer default_params" "peer_of default_params sample_peer"
  by (simp_all add: params_ok_def default_params_def text_ok_def DEFAULT_FIX_VERSION_def sample_peer_def peer_of_def)

lemma length_out_wire:
  "length (out_wire params n msg) = length (enc_field (field 8 (fix_version params))) +
     length (enc_field (field 9 (to_chars (length (enc_fields (out_fields params n msg)))))) + length (enc_fields (out_fields params n msg)) + 7"
  by (simp add: out_wire_def fix_wire_def fix_fields_def enc_fields_Cons)

theorem gap_recovery_correct_witness:
  "\<exists>s t ws'. ready [] s \<and> s_state s = ACTIVE \<and> next_in (s_seq s) = 1 \<and>
     receive [out_wire sample_peer 2 (Out_TestRequest ''b''), out_wire sample_peer 1 (Out_Heartbeat ''a'')] s = Some t \<and>
     s_state t = ACTIVE \<and> next_in (s_seq t) = 3 \<and> ready ws' t \<and> length ws' = 2"
proof -
  obtain s0 where s0: "session_new \<lparr>storage_index = 0, sid = 1\<rparr> INITIATOR default_params = Some s0" "s_seq s0 = sp_new" "s_params s0 = default_params"
    using fresh_session [of "\<lparr>storage_index = 0, sid = 1\<rparr>" INITIATOR default_params] .
  define s where "s = s0\<lparr>s_conn := True, s_state := ACTIVE\<rparr>"
  have rdy: "ready [] s" unfolding s_def by (rule ready_connected [OF s0(1)]) simp
  have p: "s_params s = default_params" and e: "1 = next_in (s_seq s)" using s0(2,3) by (simp_all add: s_def sp_new_def next_in_def)
  define ws' where "ws' = sent_log (s_params s) [] (Out_ResendRequest 1 (1 + of_nat 1 - 1) # answers (readable_id s) [Out_Heartbeat ''a'', Out_TestRequest ''b''])"
  have ws': "ws' = [out_wire default_params 1 (Out_ResendRequest 1 1), out_wire default_params 2 (Out_Heartbeat ''b'')]"
    by (simp add: ws'_def answers_def p)
  have fits: "log_fits ws'"
    unfolding ws' log_fits_def
    by (simp add: length_out_wire out_fields_def header_fields_def enc_fields_def enc_field_def default_params_def now_fix_def
        to_chars.simps to_chars_int_def min_blob_buffer_grow_size_def)
  have "\<exists>t. receive (map (\<lambda>i. out_wire sample_peer (1 + of_nat i) ([Out_Heartbeat ''a'', Out_TestRequest ''b''] ! i)) (1 # [] @ [0])) s = Some t \<and>
     s_state t = ACTIVE \<and> next_in (s_seq t) = 1 + of_nat (length [Out_Heartbeat ''a'', Out_TestRequest ''b'']) \<and> rc_empty (s_recovery_cache t) \<and> ready ws' t"
    by (rule gap_recovery_correct [OF rdy _ _ _ _ e _ _ _ _ ws'_def fits])
       (use p in \<open>auto simp: s_def rc_window_def text_ok_def\<close>)
  then obtain t where "receive [out_wire sample_peer 2 (Out_TestRequest ''b''), out_wire sample_peer 1 (Out_Heartbeat ''a'')] s = Some t"
    "s_state t = ACTIVE" "next_in (s_seq t) = 3" "ready ws' t" by auto
  moreover have "length ws' = 2" by (simp add: ws')
  ultimately show ?thesis using rdy e by (intro exI [of _ s] exI [of _ t] exI [of _ ws']) (simp add: s_def)
qed

section \<open>Messages ahead of and behind the expected number\<close>

text \<open>
  Messages out of sequence while recovering, and repeated messages. For a session that runs
  (active, or recovering from a gap) and a valid message whose number is not the expected one:
  a message behind it that is marked as possible duplicate is dropped; one ahead of it during a
  recovery is put into the cache under its number, or ignored when its number is there already. In
  all three cases \<open>dispatch\<close> returns, nothing is sent, nothing reaches the application, and
  the expected number, the state and the rest of the cache stay as they are.\<close>

lemma out_of_sequence_held:
  assumes s: "session_inv s" "\<not> s_stopped s" "running s"
    and m: "valid_message (s_params s) m" "no_group_fields m" "find_field 35 m = Some ty" "find_field 34 m = Some (to_chars k)" "k < 2 ^ 64"
    and n: "n = of_nat k" "raw \<noteq> []"
    and cases: "n < next_in (s_seq s) \<and> find_field 43 m = Some ''Y'' \<or>
       next_in (s_seq s) < n \<and> s_state s = RECOVERING_RESEND \<and> rc_in_window n (s_recovery_cache s)"
  shows "\<exists>t. dispatch m raw s = Some t \<and> s_seq t = s_seq s \<and> s_state t = s_state s \<and> s_store t = s_store s \<and>
     s_write_q t = s_write_q s \<and> filter (\<lambda>x. \<not> quiet x) (s_out t) = filter (\<lambda>x. \<not> quiet x) (s_out s) \<and>
     rc_inv (s_recovery_cache t) \<and> rc_lookup (s_recovery_cache t) =
       (if next_in (s_seq s) < n \<and> rc_lookup (s_recovery_cache s) n = None
        then (rc_lookup (s_recovery_cache s))(n \<mapsto> raw) else rc_lookup (s_recovery_cache s))"
proof -
  have rc: "rc_inv (s_recovery_cache s)" using s(1) by (simp add: session_inv_def)
  obtain v where v: "dispatch m raw s = sequence_message ty n (find_field 43 m = Some ''Y'') (make_valid_message_view m) raw (touch v s)"
    using dispatch_valid [OF s(2) m, of raw] s(3) n(1) by blast
  have loud: "filter (\<lambda>x. \<not> quiet x) (s_out (touch v s)) = filter (\<lambda>x. \<not> quiet x) (s_out s)"
    using touch_keeps(15) [of v s] by (simp add: loud_def)
  consider (dup) "n < next_in (s_seq s)" "find_field 43 m = Some ''Y''"
    | (again) "next_in (s_seq s) < n" "s_state s = RECOVERING_RESEND" "rc_lookup (s_recovery_cache s) n \<noteq> None"
    | (new) "next_in (s_seq s) < n" "s_state s = RECOVERING_RESEND" "rc_in_window n (s_recovery_cache s)" "rc_lookup (s_recovery_cache s) n = None"
    using cases by blast
  then show ?thesis
  proof cases
    case dup
    then have "dispatch m raw s = Some (touch v s)" unfolding v using sequence_old_dup [of n "touch v s"] by simp
    moreover have "\<not> next_in (s_seq s) < n" using dup(1) by simp
    ultimately show ?thesis using rc loud by simp
  next
    case again
    then have "dispatch m raw s = Some (touch v s)" unfolding v by (intro sequence_ahead_again) simp_all
    then show ?thesis using rc loud again by auto
  next
    case new
    then obtain c where "dispatch m raw s = Some ((touch v s)\<lparr>s_recovery_cache := c\<rparr>)" "rc_inv c"
      "rc_lookup c = (rc_lookup (s_recovery_cache s))(n \<mapsto> raw)"
      unfolding v using sequence_ahead [of "touch v s" n raw] rc n(2) by fastforce
    then show ?thesis using loud new by simp
  qed
qed

text \<open>
  C27: The first message of a gap that lies 512 or more numbers ahead. An active session that gets a
  valid message so far ahead of the expected number has no defined behaviour: the message is
  inserted into the recovery cache without the test of its window that the code makes during a
  recovery, so the assertion of \<open>RecoveryCache::insert\<close> fails (and without assertions the slot
  array is left).\<close>

theorem gap_beyond_window_faults:
  assumes "\<not> s_stopped s" "s_state s = ACTIVE"
    and "valid_message (s_params s) m" "no_group_fields m" "find_field 35 m = Some ty" "find_field 34 m = Some (to_chars k)" "k < 2 ^ 64"
    and "next_in (s_seq s) < of_nat k" "rc_window \<le> unat (of_nat k - next_in (s_seq s))"
  shows "dispatch m raw s = None"
proof -
  obtain v where v: "dispatch m raw s = sequence_message ty (of_nat k) (find_field 43 m = Some ''Y'') (make_valid_message_view m) raw (touch v s)"
    using dispatch_valid [OF assms(1,3-7), of raw] assms(2) by (auto simp: running_def)
  show ?thesis unfolding v by (rule sequence_gap_far) (use assms in simp_all)
qed

text \<open>
  C28: A message in sequence. An active session gets the message it expects, one of the kinds it
  answers without changing its state (heartbeat, test request, reject, custom message) as the
  factory of its peer builds it from texts free of SOH, with a number below 2^63. Parsing, validation and the handler all return; the expected
  number advances by exactly one; a test request is answered by a heartbeat with its id and a
  custom message by one response, anything else by nothing; each answer is stored under the next
  outgoing number.\<close>

theorem in_sequence_answered:
  assumes s: "ready ws s" "s_state s = ACTIVE" and peer: "params_ok pp" "peer_of pp (s_params s)" and msg: "plain_msg msg" "out_ok msg"
    and n: "n = next_in (s_seq s)" "unat n < 2 ^ 63"
    and fits: "log_fits (sent_log (s_params s) ws (answer (readable_id s) msg))"
  shows "\<exists>t. process_wire_message (out_wire pp n msg) s = Some t \<and> next_in (s_seq t) = n + 1 \<and> s_state t = ACTIVE \<and>
     s_params t = s_params s \<and> ready (sent_log (s_params s) ws (answer (readable_id s) msg)) t"
proof -
  have "running s" using s(2) by (simp add: running_def)
  then obtain t where t: "dispatch (parsed_fields pp n msg) (out_wire pp n msg) s = Some t"
    "ready (sent_log (s_params s) ws (answer (readable_id s) msg)) t" "unsent (advance s) t"
    using deliver [OF s(1) _ peer msg n fits] by blast
  then have "drain_recovery_cache t = Some t" using s(2) by (simp add: unsent_def drain_recovery_cache_def)
  then show ?thesis using process_parsed [OF peer(1) msg(2) t(1)] t(2,3) n(1) s(2) by (auto simp: unsent_def)
qed


lemma sample_session:
  obtains s where "ready [] s" "s_state s = x" "s_params s = default_params" "next_in (s_seq s) = 1" "s_recovery_cache s = rc_new" "s_conn s"
proof -
  obtain s0 where s0: "session_new \<lparr>storage_index = 0, sid = 1\<rparr> INITIATOR default_params = Some s0" "s_seq s0 = sp_new" "s_params s0 = default_params"
    using fresh_session [of "\<lparr>storage_index = 0, sid = 1\<rparr>" INITIATOR default_params] .
  have "ready [] (s0\<lparr>s_conn := True, s_state := x\<rparr>)" by (rule ready_connected [OF s0(1)]) simp
  moreover have "s_recovery_cache s0 = rc_new" using s0(1) by (auto simp: session_new_def bind_eq_Some_conv)
  ultimately show ?thesis
    using s0(2,3) by (intro that [of "s0\<lparr>s_conn := True, s_state := x\<rparr>"]) (simp_all add: sp_new_def next_in_def)
qed

lemma sample_message:
  assumes "unat n < 2 ^ 63"
  shows "valid_message default_params (parsed_fields sample_peer n (Out_Heartbeat ''a''))" "no_group_fields (parsed_fields sample_peer n (Out_Heartbeat ''a''))"
    "find_field 35 (parsed_fields sample_peer n (Out_Heartbeat ''a'')) = Some ''0''"
    "find_field 34 (parsed_fields sample_peer n (Out_Heartbeat ''a'')) = Some (to_chars (unat n))"
  using parsed_fields_valid [of sample_peer default_params "Out_Heartbeat ''a''" n] parsed_seq [OF assms]
  by (simp_all add: parsed_field)

theorem gap_beyond_window_faults_witness:
  "\<exists>s. s_state s = ACTIVE \<and> next_in (s_seq s) = 1 \<and> dispatch (parsed_fields sample_peer 600 (Out_Heartbeat ''a'')) ''raw'' s = None"
proof -
  obtain s where s: "ready [] s" "s_state s = ACTIVE" "s_params s = default_params" "next_in (s_seq s) = 1" "s_recovery_cache s = rc_new"
    using sample_session [of ACTIVE] .
  note m = sample_message [of 600]
  have "dispatch (parsed_fields sample_peer 600 (Out_Heartbeat ''a'')) ''raw'' s = None"
  proof (rule gap_beyond_window_faults)
    show "find_field 34 (parsed_fields sample_peer 600 (Out_Heartbeat ''a'')) = Some (to_chars 600)" using m(4) by simp
    show "\<not> s_stopped s" using s(1) by (simp add: ready_def)
  qed (use m s in \<open>simp_all add: rc_window_def\<close>)
  with s show ?thesis by blast
qed

theorem in_sequence_answered_witness:
  "\<exists>s t ws. s_state s = ACTIVE \<and> next_in (s_seq s) = 1 \<and> process_wire_message (out_wire sample_peer 1 (Out_TestRequest ''b'')) s = Some t \<and>
     next_in (s_seq t) = 2 \<and> ready [out_wire default_params 1 (Out_Heartbeat ''b'')] t"
proof -
  obtain s where s: "ready [] s" "s_state s = ACTIVE" "s_params s = default_params" "next_in (s_seq s) = 1"
    using sample_session [of ACTIVE] .
  have "log_fits [out_wire default_params 1 (Out_Heartbeat ''b'')]"
    by (simp add: log_fits_def length_out_wire out_fields_def header_fields_def enc_fields_def enc_field_def default_params_def now_fix_def
        to_chars.simps to_chars_int_def min_blob_buffer_grow_size_def)
  then have fits: "log_fits (sent_log (s_params s) [] (answer (readable_id s) (Out_TestRequest ''b'')))" by (simp add: s(3))
  have "\<exists>t. process_wire_message (out_wire sample_peer 1 (Out_TestRequest ''b'')) s = Some t \<and> next_in (s_seq t) = 1 + 1 \<and> s_state t = ACTIVE \<and>
     s_params t = s_params s \<and> ready (sent_log (s_params s) [] (answer (readable_id s) (Out_TestRequest ''b''))) t"
    by (rule in_sequence_answered [OF s(1,2) _ _ _ _ _ _ fits]) (use s in \<open>simp_all add: text_ok_def\<close>)
  with s show ?thesis by auto
qed

end
