(* ===== verification/Session_Handshake.thy ===== *)
theory Session_Handshake
  imports Session_Theorems
begin

text \<open>
  The logon handshake of an initiator and an acceptor: both sessions are started on a connection,
  the logon of the initiator reaches the acceptor through its read handler, the answer comes back
  the same way, and both sides are active with the same numbers.
\<close>

section \<open>One message through the read handler\<close>

lemma micro_framer: "micro False s t \<Longrightarrow> s_framer t = s_framer s \<and> s_role t = s_role s"
proof (induction rule: micro.induct)
  case (m_send s m w a t)
  then show ?case using send_bytes_shape [of w "s\<lparr>s_arena := a\<rparr>" t] by auto
next
  case (m_written s message n t)
  then show ?case
    by (auto simp: on_write_def Let_def bind_eq_Some_conv split: list.splits if_splits dest!: do_write_shape)
next
  case (m_write s t)
  then show ?case using do_write_shape [of s t] by auto
qed (auto simp: same_core_def clear_write_q_def bind_eq_Some_conv)

lemma process_framer:
  assumes "process_wire_message w s = Some t"
  shows "s_framer t = s_framer s \<and> s_role t = s_role s"
proof -
  have "micros False s t" using assms by (rule micros_process_wire_message) (rule micros_refl)
  then show ?thesis by (induction rule: rtranclp_induct) (auto dest: micro_framer)
qed

lemma drain_n_length: "drain_n g c n q = Some (ms, q') \<Longrightarrow> length ms = n"
  by (induction n arbitrary: q ms q') (auto simp: bind_eq_Some_conv)

lemma framer_one:
  assumes "length (enc_fields fs) \<le> MAX_MESSAGE_SIZE" and w: "w = fix_wire DEFAULT_FIX_VERSION fs"
  obtains f1 f2 where "framer_append w framer_new = Some f1" "framer_has_message f1" "framer_get_message f1 = Some w"
    "framer_consume_message f1 = Some f2" "\<not> framer_has_message f2"
proof -
  have nil: "frames [] 0 = []" using frames_end [of "[]"] by simp
  have msgs: "messages_of w (frames w 0) = [w]" using frames_fix_wires [of "[fs]" "[]"] assms by simp
  have one: "length (frames w 0) = 1" using arg_cong [OF msgs, of length] by (simp add: messages_of_def)
  have inv: "framer_inv [] (frames [] 0) framer_new" using framer_new_inv nil by simp
  have few: "length (frames ([] @ w) 0) < length (frames [] 0) + 1024" using one nil by simp
  have e: "ring_list (fr_completed framer_new) = []" "r_capacity (fr_completed framer_new) = 1024"
    by (simp_all add: framer_new_def ring_new_def ring_list_def)
  obtain f1 f2 ms where f: "framer_append w framer_new = Some f1"
    "drain_n framer_get_message framer_consume_message (r_size (fr_completed f1)) f1 = Some (ms, f2)"
    "ring_list (fr_completed f2) = []" "messages_of w (frames w 0) = messages_of [] (frames [] 0) @ ms"
    using framer_feed_step [OF inv e few, unfolded append_Nil] by blast
  then have ms: "ms = [w]" using msgs nil by (simp add: messages_of_def)
  have sz: "r_size (fr_completed f1) = Suc 0" using drain_n_length [OF f(2)] ms by simp
  then have "framer_get_message f1 = Some w" "framer_consume_message f1 = Some f2"
    using f(2) ms by (auto simp: bind_eq_Some_conv)
  moreover have "framer_has_message f1" using sz by (simp add: framer_has_message_def)
  moreover have "\<not> framer_has_message f2"
    using arg_cong [OF f(3), of length] by (simp add: framer_has_message_def)
  ultimately show ?thesis using f(1) by (intro that)
qed


text \<open>A whole message read by a session whose framer is empty.\<close>

lemma on_read_one:
  assumes s: "\<not> s_stopped s" "s_framer s = framer_new"
    and w: "w = fix_wire DEFAULT_FIX_VERSION fs" "length (enc_fields fs) \<le> MAX_MESSAGE_SIZE"
    and p: "\<And>f. \<exists>t. process_wire_message w (s\<lparr>s_framer := f\<rparr>) = Some t \<and> \<not> s_stopped t \<and> s_conn t \<and> P t"
    and P: "\<And>t f. P t \<Longrightarrow> P (emit [Async_Read] (t\<lparr>s_framer := f\<rparr>))"
  shows "\<exists>t. on_read message None w s = Some t \<and> P t"
proof -
  obtain f1 f2 where f: "framer_append w framer_new = Some f1" "framer_has_message f1" "framer_get_message f1 = Some w"
    "framer_consume_message f1 = Some f2" "\<not> framer_has_message f2"
    using framer_one [OF w(2,1)] .
  obtain t where t: "process_wire_message w (s\<lparr>s_framer := f1\<rparr>) = Some t" "\<not> s_stopped t" "s_conn t" "P t" using p by blast
  have ft: "s_framer t = f1" using process_framer [OF t(1)] by simp
  have "read_loop (t\<lparr>s_framer := f2\<rparr>) = Some (t\<lparr>s_framer := f2\<rparr>)" using f(5) by (subst read_loop.simps) simp
  then have "read_loop (s\<lparr>s_framer := f1\<rparr>) = Some (t\<lparr>s_framer := f2\<rparr>)"
    using f(2,3,4) t(1) ft by (subst read_loop.simps) simp
  then have "on_read message None w s = Some (emit [Async_Read] (t\<lparr>s_framer := f2\<rparr>))"
    using s f(1) t(2,3) by (simp add: on_read_def do_read_def)
  with P [OF t(4)] show ?thesis by blast
qed


section \<open>Accepting a logon\<close>

lemma ready_frame:
  assumes "ready ws s" "s_arena t = s_arena s" "s_write_q t = s_write_q s" "s_stopped t = s_stopped s" "s_conn t = s_conn s"
    "s_write_inflight t = s_write_inflight s" "s_recovery_cache t = s_recovery_cache s" "s_scratch t = s_scratch s" "s_store t = s_store s"
    "next_out (s_seq t) = next_out (s_seq s)" "params_ok (s_params t)"
  shows "ready ws t"
  using assms queued_cong [of t s] by (simp add: ready_def session_inv_def)

lemma heartbeat_accepted:
  assumes "10 \<le> hb" "hb \<le> 120" "b \<longrightarrow> hb = heart_beat_int (s_params s)"
  shows "validate_heartbeat_int (to_chars_int (sint hb)) b s = (True, s\<lparr>s_params := (s_params s)\<lparr>heart_beat_int := hb\<rparr>\<rparr>)"
proof -
  have u: "unat hb \<le> 120" using assms(2) by (simp add: word_le_nat_alt)
  have "sint hb = int (unat hb)"
  proof -
    have "uint hb \<le> 120" using assms(2) by (simp add: word_le_def)
    then have "signed_take_bit 31 (uint hb) = uint hb" by (intro signed_take_bit_int_eq_self) (auto intro: order_trans [OF _ uint_ge_0])
    then show ?thesis by (simp add: sint_uint)
  qed
  then have tc: "to_chars_int (sint hb) = to_chars (unat hb)" by (simp add: to_chars_int_def)
  have k: "from_chars_u (2 ^ 32 - 1) (to_chars (unat hb)) 0 = (length (to_chars (unat hb)), Errc_ok, unat hb)"
    using u by (intro from_chars_u_to_chars) simp
  show ?thesis unfolding validate_heartbeat_int_def tc k using assms by (simp add: Let_def not_less)
qed


abbreviation logon_msg :: "32 word \<Rightarrow> bool \<Rightarrow> OutMsg" where
  "logon_msg hb r \<equiv> Out_Logon (sint hb) r"

lemma logon_fields:
  "find_field 108 (parsed_fields pp n (logon_msg hb r)) = Some (to_chars_int (sint hb))"
  "find_field 141 (parsed_fields pp n (logon_msg hb r)) = Some (if r then ''Y'' else ''N'')"
  by (simp_all add: parsed_field find_field_Cons)

lemma become_active_ready:
  assumes "ready ws s"
  shows "ready ws (become_active s)" "s_state (become_active s) = ACTIVE" "s_seq (become_active s) = s_seq s"
    "pending (become_active s) = pending s" "s_params (become_active s) = s_params s"
  using assms ready_frame [of ws s "become_active s"] pending_cong [of "become_active s" s]
  by (simp_all add: become_active_def schedule_test_request_timeout_def schedule_heartbeat_def emit_def ready_def)

text \<open>The logon of the peer at the first number, handled by a session that has sent \<open>ws\<close>.\<close>

lemma logon_dispatch:
  assumes s: "\<not> s_stopped s" "next_in (s_seq s) = 1" and peer: "params_ok pp" "peer_of pp (s_params s)"
  shows "\<exists>v. dispatch (parsed_fields pp 1 (logon_msg hb r)) raw s =
     handle_logon (make_valid_message_view (parsed_fields pp 1 (logon_msg hb r))) (advance (touch v s))"
proof -
  obtain v where v: "dispatch (parsed_fields pp 1 (logon_msg hb r)) raw s =
     sequence_message ''A'' 1 False (make_valid_message_view (parsed_fields pp 1 (logon_msg hb r))) raw (touch v s)"
    using dispatch_peer [OF s(1) peer, of "logon_msg hb r" 1 raw] by (auto simp: is_app_message_type_def)
  show ?thesis
    using sequence_expected [of "''A''" "touch v s"] s(2) unfolding v
    by (intro exI [of _ v]) (simp add: handle_message_def advance_def)
qed

lemma accept_logon:
  assumes s: "ready [] s" "s_role s = ACCEPTOR" "s_state s = AWAITING_LOGON" "next_in (s_seq s) = 1"
    and peer: "params_ok pp" "peer_of pp (s_params s)" and hb: "10 \<le> hb" "hb \<le> 120" and r: "r \<longrightarrow> acceptor_reset_on_logon (s_params s)"
    and w: "w = out_wire ((s_params s)\<lparr>heart_beat_int := hb\<rparr>) 1 (logon_msg hb r)" "log_fits [w]"
  shows "\<exists>t. process_wire_message (out_wire pp 1 (logon_msg hb r)) s = Some t \<and> s_state t = ACTIVE \<and> ready [w] t \<and>
     next_in (s_seq t) = 2 \<and> pending t = pending s @ w \<and> heart_beat_int (s_params t) = hb"
proof -
  let ?m = "parsed_fields pp 1 (logon_msg hb r)"
  have "\<not> s_stopped s" using s(1) by (simp add: ready_def)
  then obtain v where v: "dispatch ?m (out_wire pp 1 (logon_msg hb r)) s = handle_logon (make_valid_message_view ?m) (advance (touch v s))"
    using logon_dispatch [OF _ s(4) peer] by blast
  define s1 where "s1 = emit [Log ''Logon received''] (advance (touch v s))"
  define s2 where "s2 = s1\<lparr>s_params := (s_params s1)\<lparr>heart_beat_int := hb\<rparr>\<rparr>"
  define s3 where "s3 = s2\<lparr>s_state := LOGON_RECEIVED\<rparr>"
  define s4 where "s4 = (if r then s3\<lparr>s_seq := acceptor_reset (s_seq s3)\<rparr> else s3)"
  have vhb: "validate_heartbeat_int (to_chars_int (sint hb)) (s_role s1 = INITIATOR) s1 = (True, s2)"
    using heartbeat_accepted [OF hb, of "s_role s1 = INITIATOR" s1] s(2) by (simp add: s1_def s2_def)
  have p4: "s_params s4 = (s_params s)\<lparr>heart_beat_int := hb\<rparr>" by (simp add: s4_def s3_def s2_def s1_def)
  have r4: "ready [] s4"
    using s(1) by (intro ready_frame [OF s(1)])
      (simp_all add: s4_def s3_def s2_def s1_def advance_def ready_def params_ok_def next_out_def acceptor_reset_def update_in_def)
  have n4: "next_in (s_seq s4) = 2" using s(4) by (simp add: s4_def s3_def s2_def s1_def next_in_def acceptor_reset_def advance_def update_in_def)
  have pend4: "pending s4 = pending s" by (rule pending_cong) (simp_all add: s4_def s3_def s2_def s1_def advance_def)
  have room: "ms_room [] w" using log_fits_room [of "[]" w] w(2) by simp
  obtain s5 where s5: "send_built (logon_msg hb r) s4 = Some s5" "ready [w] s5" "unsent s4 s5" "pending s5 = pending s4 @ w"
    using send_built_ok [OF r4, of "logon_msg hb r" w] w(1) p4 room by auto
  define s6 where "s6 = emit [Log ''Logon response sent''] s5"
  have r6: "ready [w] s6" using s5(2) by (intro ready_frame [OF s5(2)]) (simp_all add: s6_def ready_def)
  let ?t = "become_active s6"
  have "handle_logon (make_valid_message_view ?m) (advance (touch v s)) = Some ?t"
  proof -
    have "s_role s2 = ACCEPTOR" "acceptor_reset_on_logon (s_params s3) = acceptor_reset_on_logon (s_params s)"
      using s(2) by (simp_all add: s3_def s2_def s1_def)
    moreover have "send_logon r s4 = Some s5" using s5(1) p4 by (simp add: send_built)
    moreover have "vm_message (make_valid_message_view ?m) = ?m" by (simp add: make_valid_message_view_def)
    ultimately show ?thesis
      unfolding handle_logon_def Let_def s1_def [symmetric] using r
      by (simp add: logon_fields vhb flip: s3_def s4_def s6_def) (auto simp: s4_def s6_def)
  qed
  moreover have "drain_recovery_cache ?t = Some ?t" using become_active_ready(2) [OF r6] by (simp add: drain_recovery_cache_def)
  ultimately have "process_wire_message (out_wire pp 1 (logon_msg hb r)) s = Some ?t"
    using process_parsed [OF peer(1) _ v [THEN trans]] by simp
  moreover have "next_in (s_seq s6) = 2" using s5(3) n4 by (simp add: s6_def unsent_def)
  moreover have "pending s6 = pending s @ w" using s5(4) pend4 pending_cong [of s6 s5] by (simp add: s6_def)
  moreover have "heart_beat_int (s_params s6) = hb" using s5(3) p4 by (simp add: s6_def unsent_def)
  ultimately show ?thesis using become_active_ready [OF r6] by simp
qed


lemma initiator_logon:
  assumes s: "ready ws s" "s_role s = INITIATOR" "next_in (s_seq s) = 1"
    and peer: "params_ok pp" "peer_of pp (s_params s)" and hb: "10 \<le> hb" "hb \<le> 120" "heart_beat_int (s_params s) = hb"
    and r: "r \<longrightarrow> initiator_reset_on_logon (s_params s)"
  shows "\<exists>t. process_wire_message (out_wire pp 1 (logon_msg hb r)) s = Some t \<and> s_state t = ACTIVE \<and> ready ws t \<and>
     next_in (s_seq t) = 2 \<and> heart_beat_int (s_params t) = hb"
proof -
  let ?m = "parsed_fields pp 1 (logon_msg hb r)"
  have "\<not> s_stopped s" using s(1) by (simp add: ready_def)
  then obtain v where v: "dispatch ?m (out_wire pp 1 (logon_msg hb r)) s = handle_logon (make_valid_message_view ?m) (advance (touch v s))"
    using logon_dispatch [OF _ s(3) peer] by blast
  define s1 where "s1 = emit [Log ''Logon received''] (advance (touch v s))"
  define s2 where "s2 = s1\<lparr>s_params := (s_params s1)\<lparr>heart_beat_int := hb\<rparr>\<rparr>"
  have vhb: "validate_heartbeat_int (to_chars_int (sint hb)) (s_role s1 = INITIATOR) s1 = (True, s2)"
    using heartbeat_accepted [OF hb(1,2), of "s_role s1 = INITIATOR" s1] hb(3) by (simp add: s1_def s2_def)
  have r2: "ready ws s2"
    using s(1) by (intro ready_frame [OF s(1)]) (simp_all add: s2_def s1_def advance_def ready_def params_ok_def next_out_def update_in_def)
  let ?t = "become_active s2"
  have "handle_logon (make_valid_message_view ?m) (advance (touch v s)) = Some ?t"
  proof -
    have "s_role s2 = INITIATOR" "initiator_reset_on_logon (s_params s2) = initiator_reset_on_logon (s_params s)"
      using s(2) by (simp_all add: s2_def s1_def)
    moreover have "vm_message (make_valid_message_view ?m) = ?m" by (simp add: make_valid_message_view_def)
    ultimately show ?thesis
      unfolding handle_logon_def Let_def s1_def [symmetric] using r by (simp add: logon_fields vhb)
  qed
  moreover have "drain_recovery_cache ?t = Some ?t" using become_active_ready(2) [OF r2] by (simp add: drain_recovery_cache_def)
  ultimately have "process_wire_message (out_wire pp 1 (logon_msg hb r)) s = Some ?t"
    using process_parsed [OF peer(1) _ v [THEN trans]] by simp
  moreover have "next_in (s_seq s2) = 2" "heart_beat_int (s_params s2) = hb" using s(3) by (simp_all add: s2_def s1_def)
  ultimately show ?thesis using become_active_ready [OF r2] by simp
qed

section \<open>Starting\<close>

lemma start_initiator:
  assumes new: "session_new session_id INITIATOR params = Some s0" and p: "params_ok params"
    and w: "w = out_wire params 1 (logon_msg (heart_beat_int params) (initiator_reset_on_logon params))" "log_fits [w]"
  shows "\<exists>t. start NORMAL (set_connection True s0) = Some t \<and> s_state t = LOGON_SENT \<and> ready [w] t \<and> pending t = w \<and>
     next_in (s_seq t) = 1 \<and> s_params t = params \<and> s_role t = INITIATOR \<and> s_framer t = framer_new"
proof -
  let ?r = "initiator_reset_on_logon params"
  obtain f: "s_seq s0 = sp_new" "s_params s0 = params" "s_role s0 = INITIATOR" "s_framer s0 = framer_new" "s_state s0 = DISCONNECTED"
      "\<not> s_stopped s0" "s_write_q s0 = []"
    using fresh_session [of session_id INITIATOR params] new by (metis option.inject)
  define s1 where "s1 = emit [Async_Read] (emit [Log ''Session started''] (s0\<lparr>s_conn := True\<rparr>))"
  define s2 where "s2 = (if ?r then s1\<lparr>s_seq := sp_reset (s_seq s1)\<rparr> else s1)"
  have "ready [] (s0\<lparr>s_conn := True\<rparr>)" using ready_connected [OF new p, of "s_state s0"] by simp
  then have r2: "ready [] s2"
    by (rule ready_frame) (use f p in \<open>simp_all add: s2_def s1_def sp_reset_def sp_new_def next_out_def\<close>)
  have room: "ms_room [] w" using log_fits_room [of "[]" w] w(2) by simp
  have p2: "s_params s2 = params" by (simp add: s2_def s1_def f)
  obtain s3 where s3: "send_built (logon_msg (heart_beat_int params) ?r) s2 = Some s3" "ready [w] s3" "unsent s2 s3" "pending s3 = pending s2 @ w"
    using send_built_ok [OF r2, of "logon_msg (heart_beat_int params) ?r" w] w(1) p2 room by auto
  let ?t = "schedule_logon_timeout ((emit [Log ''Logon sent''] s3)\<lparr>s_state := LOGON_SENT\<rparr>)"
  have "start NORMAL (set_connection True s0) = Some ?t"
  proof -
    have "do_read (emit [Log ''Session started''] (s0\<lparr>s_conn := True\<rparr>)) = Some s1" "s_role s1 = INITIATOR" "s_params s1 = params"
      by (simp_all add: do_read_def s1_def f)
    then show ?thesis
      using s3(1) unfolding s2_def start_def start_normal_def set_connection_def Let_def
      by (cases ?r) (simp_all add: send_built)
  qed
  moreover have "ready [w] ?t"
    using s3(2) by (intro ready_frame [OF s3(2)]) (simp_all add: schedule_logon_timeout_def ready_def)
  moreover have "pending ?t = w"
    using s3(4) pending_cong [of ?t s3] f by (simp add: schedule_logon_timeout_def pending_def s2_def s1_def)
  moreover have "next_in (s_seq ?t) = 1" "s_params ?t = params" "s_role ?t = INITIATOR" "s_framer ?t = framer_new" "s_state ?t = LOGON_SENT"
    using s3(3) f by (simp_all add: schedule_logon_timeout_def unsent_def s2_def s1_def sp_reset_def sp_new_def next_in_def)
  ultimately show ?thesis by blast
qed

lemma start_acceptor:
  assumes new: "session_new session_id ACCEPTOR params = Some s0" and p: "params_ok params"
  shows "\<exists>t. start NORMAL (set_connection True s0) = Some t \<and> s_state t = AWAITING_LOGON \<and> ready [] t \<and> pending t = [] \<and>
     next_in (s_seq t) = 1 \<and> s_params t = params \<and> s_role t = ACCEPTOR \<and> s_framer t = framer_new"
proof -
  obtain f: "s_seq s0 = sp_new" "s_params s0 = params" "s_role s0 = ACCEPTOR" "s_framer s0 = framer_new" "\<not> s_stopped s0" "s_write_q s0 = []"
    using fresh_session [of session_id ACCEPTOR params] new by (metis option.inject)
  let ?t = "schedule_logon_timeout ((emit [Async_Read] (emit [Log ''Session started''] (s0\<lparr>s_conn := True\<rparr>)))\<lparr>s_state := AWAITING_LOGON\<rparr>)"
  have "start NORMAL (set_connection True s0) = Some ?t"
    using f by (simp add: start_def start_normal_def set_connection_def Let_def do_read_def)
  moreover have "ready [] ?t"
    by (rule ready_frame [OF ready_connected [OF new p, of AWAITING_LOGON]]) (simp_all add: schedule_logon_timeout_def f p)
  ultimately show ?thesis using f by (simp add: schedule_logon_timeout_def pending_def sp_new_def next_in_def)
qed


section \<open>The handshake\<close>

lemma body_size: "length (fix_wire v fs) \<le> MAX_MESSAGE_SIZE \<Longrightarrow> length (enc_fields fs) \<le> MAX_MESSAGE_SIZE"
  by (simp add: fix_wire_def fix_fields_def enc_fields_Cons)

lemma reading_keeps:
  "ready ws t \<Longrightarrow> ready ws (emit [Async_Read] (t\<lparr>s_framer := f\<rparr>))"
  "pending (emit [Async_Read] (t\<lparr>s_framer := f\<rparr>)) = pending t"
proof -
  show "ready ws (emit [Async_Read] (t\<lparr>s_framer := f\<rparr>))" if "ready ws t"
    by (rule ready_frame [OF that]) (use that in \<open>simp_all add: ready_def\<close>)
qed (rule pending_cong, simp_all)

lemma handshake_completes:
  assumes p: "params_ok pi" "params_ok pa" "peer_of pi pa" and hb: "heart_beat_int pi = hb" "10 \<le> hb" "hb \<le> 120"
    and r: "initiator_reset_on_logon pi = r" "r \<longrightarrow> acceptor_reset_on_logon pa"
    and w1: "w1 = out_wire pi 1 (Out_Logon (sint hb) r)" "log_fits [w1]"
    and w2: "w2 = out_wire (pa\<lparr>heart_beat_int := hb\<rparr>) 1 (Out_Logon (sint hb) r)" "log_fits [w2]"
    and small: "length w1 \<le> MAX_MESSAGE_SIZE" "length w2 \<le> MAX_MESSAGE_SIZE"
  shows "\<exists>i0 a0 i1 a1 a2 i2. session_new id1 INITIATOR pi = Some i0 \<and> session_new id2 ACCEPTOR pa = Some a0 \<and>
     start NORMAL (set_connection True i0) = Some i1 \<and> start NORMAL (set_connection True a0) = Some a1 \<and> pending i1 = w1 \<and>
     on_read message None w1 a1 = Some a2 \<and> pending a2 = w2 \<and> on_read message None w2 i1 = Some i2 \<and>
     s_state a2 = ACTIVE \<and> s_state i2 = ACTIVE \<and> ready [w2] a2 \<and> ready [w1] i2 \<and>
     next_in (s_seq a2) = 2 \<and> next_in (s_seq i2) = 2 \<and> next_out (s_seq a2) = 2 \<and> next_out (s_seq i2) = 2 \<and>
     heart_beat_int (s_params a2) = hb \<and> heart_beat_int (s_params i2) = hb"
proof -
  let ?pa = "pa\<lparr>heart_beat_int := hb\<rparr>"
  have q: "params_ok ?pa" "peer_of ?pa pi" using p by (simp_all add: params_ok_def peer_of_def)
  obtain i0 a0 where new: "session_new id1 INITIATOR pi = Some i0" "session_new id2 ACCEPTOR pa = Some a0"
    using session_new_inv by blast
  obtain i1 where i1: "start NORMAL (set_connection True i0) = Some i1" "ready [w1] i1" "pending i1 = w1" "next_in (s_seq i1) = 1"
    "s_params i1 = pi" "s_role i1 = INITIATOR" "s_framer i1 = framer_new"
    using start_initiator [OF new(1) p(1), of w1] w1 hb(1) r(1) by auto
  obtain a1 where a1: "start NORMAL (set_connection True a0) = Some a1" "s_state a1 = AWAITING_LOGON" "ready [] a1" "pending a1 = []"
    "next_in (s_seq a1) = 1" "s_params a1 = pa" "s_role a1 = ACCEPTOR" "s_framer a1 = framer_new"
    using start_acceptor [OF new(2) p(2)] by blast
  define Pa where "Pa = (\<lambda>t. s_state t = ACTIVE \<and> ready [w2] t \<and> next_in (s_seq t) = 2 \<and> pending t = w2 \<and> heart_beat_int (s_params t) = hb)"
  define Pi where "Pi = (\<lambda>t. s_state t = ACTIVE \<and> ready [w1] t \<and> next_in (s_seq t) = 2 \<and> heart_beat_int (s_params t) = hb)"
  have keepP: "Pa t \<Longrightarrow> Pa (emit [Async_Read] (t\<lparr>s_framer := f\<rparr>))" "Pi t \<Longrightarrow> Pi (emit [Async_Read] (t\<lparr>s_framer := f\<rparr>))" for t f
    using reading_keeps by (simp_all add: Pa_def Pi_def)
  have f1: "w1 = fix_wire DEFAULT_FIX_VERSION (out_fields pi 1 (Out_Logon (sint hb) r))"
    and f2: "w2 = fix_wire DEFAULT_FIX_VERSION (out_fields ?pa 1 (Out_Logon (sint hb) r))"
    using w1(1) w2(1) p(1,2) by (simp_all add: out_wire_def params_ok_def)
  have nst: "\<not> s_stopped a1" "\<not> s_stopped i1" using a1(3) i1(2) by (simp_all add: ready_def)
  have proc1: "\<exists>t. process_wire_message w1 (a1\<lparr>s_framer := f\<rparr>) = Some t \<and> \<not> s_stopped t \<and> s_conn t \<and> Pa t" for f
  proof -
    have ra: "ready [] (a1\<lparr>s_framer := f\<rparr>)" by (rule ready_frame [OF a1(3)]) (use a1(6) p(2) in simp_all)
    show ?thesis
      using accept_logon [OF ra _ _ _ p(1) _ hb(2,3), of r w2] a1 p(3) r w1(1) w2 by (auto simp: Pa_def ready_def pending_def)
  qed
  obtain a2 where a2: "on_read message None w1 a1 = Some a2" "Pa a2"
    using on_read_one [OF nst(1) a1(8) f1 body_size [OF small(1) [unfolded f1]] proc1 keepP(1)] by blast
  have proc2: "\<exists>t. process_wire_message w2 (i1\<lparr>s_framer := f\<rparr>) = Some t \<and> \<not> s_stopped t \<and> s_conn t \<and> Pi t" for f
  proof -
    have ri: "ready [w1] (i1\<lparr>s_framer := f\<rparr>)" by (rule ready_frame [OF i1(2)]) (use i1(5) p(1) in simp_all)
    show ?thesis
      using initiator_logon [OF ri _ _ q(1) _ hb(2,3), of r] i1 q(2) r(1) hb(1) w2(1) by (auto simp: Pi_def ready_def)
  qed
  obtain i2 where i2: "on_read message None w2 i1 = Some i2" "Pi i2"
    using on_read_one [OF nst(2) i1(7) f2 body_size [OF small(2) [unfolded f2]] proc2 keepP(2)] by blast
  have "next_out (s_seq a2) = 2" "next_out (s_seq i2) = 2" using a2(2) i2(2) by (simp_all add: Pa_def Pi_def ready_def)
  then show ?thesis
    using new i1(1,3) a1(1) a2 i2 unfolding Pa_def Pi_def by blast
qed

text \<open>
  C3: The logon handshake completes. Take an initiator and an acceptor with mirrored comp ids, a
  heartbeat interval between 10 and 120 seconds, and an acceptor that allows the sequence reset
  if the initiator asks for one. Started on a connection, the initiator writes one logon message;
  when its bytes reach the read handler of the acceptor, that session answers with a logon and is
  active; when the bytes of the answer reach the read handler of the initiator, it is active too.
  No step faults, both sides then expect number 2 and will send number 2, both have stored exactly the
  logon they sent, and they agree on the heartbeat interval of the initiator.\<close>

theorem logon_handshake:
  assumes p: "params_ok pi" "params_ok pa" "peer_of pi pa" and hb: "heart_beat_int pi = hb" "10 \<le> hb" "hb \<le> 120"
    and r: "initiator_reset_on_logon pi = r" "r \<longrightarrow> acceptor_reset_on_logon pa"
    and w1: "w1 = out_wire pi 1 (Out_Logon (sint hb) r)" "log_fits [w1]"
    and w2: "w2 = out_wire (pa\<lparr>heart_beat_int := hb\<rparr>) 1 (Out_Logon (sint hb) r)" "log_fits [w2]"
    and small: "length w1 \<le> MAX_MESSAGE_SIZE" "length w2 \<le> MAX_MESSAGE_SIZE"
  shows "\<exists>i0 a0 i1 a1 a2 i2. session_new id1 INITIATOR pi = Some i0 \<and> session_new id2 ACCEPTOR pa = Some a0 \<and>
     start NORMAL (set_connection True i0) = Some i1 \<and> start NORMAL (set_connection True a0) = Some a1 \<and> pending i1 = w1 \<and>
     on_read message None w1 a1 = Some a2 \<and> pending a2 = w2 \<and> on_read message None w2 i1 = Some i2 \<and>
     s_state a2 = ACTIVE \<and> s_state i2 = ACTIVE \<and> ready [w2] a2 \<and> ready [w1] i2 \<and>
     next_in (s_seq a2) = 2 \<and> next_in (s_seq i2) = 2 \<and> next_out (s_seq a2) = 2 \<and> next_out (s_seq i2) = 2 \<and>
     heart_beat_int (s_params a2) = hb \<and> heart_beat_int (s_params i2) = hb"
  using assms by (rule handshake_completes)

lemma logon_sizes:
  "log_fits [out_wire default_params 1 (Out_Logon 30 False)]" "length (out_wire default_params 1 (Out_Logon 30 False)) \<le> MAX_MESSAGE_SIZE"
  "log_fits [out_wire (sample_peer\<lparr>heart_beat_int := 30\<rparr>) 1 (Out_Logon 30 False)]"
  "length (out_wire (sample_peer\<lparr>heart_beat_int := 30\<rparr>) 1 (Out_Logon 30 False)) \<le> MAX_MESSAGE_SIZE"
  by (simp_all add: log_fits_def length_out_wire out_fields_def header_fields_def enc_fields_def enc_field_def default_params_def sample_peer_def
      now_fix_def to_chars.simps to_chars_int_def min_blob_buffer_grow_size_def MAX_MESSAGE_SIZE_def)

theorem logon_handshake_witness:
  "\<exists>i0 a0 i1 a1 a2 i2. session_new \<lparr>storage_index = 0, sid = 1\<rparr> INITIATOR default_params = Some i0 \<and>
     session_new \<lparr>storage_index = 1, sid = 2\<rparr> ACCEPTOR sample_peer = Some a0 \<and>
     start NORMAL (set_connection True i0) = Some i1 \<and> start NORMAL (set_connection True a0) = Some a1 \<and>
     on_read (\<lambda>_. []) None (pending i1) a1 = Some a2 \<and> on_read (\<lambda>_. []) None (pending a2) i1 = Some i2 \<and>
     s_state a2 = ACTIVE \<and> s_state i2 = ACTIVE"
proof -
  have p: "params_ok default_params" "params_ok sample_peer" "peer_of default_params sample_peer" by simp_all
  have hb: "heart_beat_int default_params = 30" "10 \<le> (30 :: 32 word)" "(30 :: 32 word) \<le> 120"
    "initiator_reset_on_logon default_params = False" "False \<longrightarrow> acceptor_reset_on_logon sample_peer" "sint (30 :: 32 word) = 30"
    by (simp_all add: default_params_def)
  note hs = logon_handshake [OF p hb(1-5) refl _ refl, of "\<lparr>storage_index = 0, sid = 1\<rparr>" "\<lparr>storage_index = 1, sid = 2\<rparr>" "\<lambda>_. []", unfolded hb(6), OF logon_sizes(1,3,2,4)]
  then obtain i0 a0 i1 a1 a2 i2 where "session_new \<lparr>storage_index = 0, sid = 1\<rparr> INITIATOR default_params = Some i0"
    "session_new \<lparr>storage_index = 1, sid = 2\<rparr> ACCEPTOR sample_peer = Some a0"
    "start NORMAL (set_connection True i0) = Some i1" "start NORMAL (set_connection True a0) = Some a1"
    "on_read (\<lambda>_. []) None (pending i1) a1 = Some a2" "on_read (\<lambda>_. []) None (pending a2) i1 = Some i2"
    "s_state a2 = ACTIVE" "s_state i2 = ACTIVE"
    by (elim exE conjE) simp
  then show ?thesis
    by (intro exI conjI)
qed

end
