(* ===== verification/Session_Resend.thy ===== *)
theory Session_Resend
  imports Session_Handshake
begin

text \<open>
  The answer to a resend request (\<open>handle_resend_request\<close> of src/Session.cpp), and what the session that asked makes
  of it: the messages of the range come again, marked as possible duplicates, with a gap fill in place of
  each run of administrative messages.
\<close>

section \<open>Messages sent again\<close>

text \<open>A message with PossDupFlag and OrigSendingTime; a gap fill is such a sequence reset.\<close>

definition dup_fields :: "SessionParameters \<Rightarrow> SeqNum \<Rightarrow> OutMsg \<Rightarrow> GenericMessage" where
  "dup_fields params n msg = out_fields params n msg @ [field 43 ''Y'', field 122 now_fix]"

definition dup_wire :: "SessionParameters \<Rightarrow> SeqNum \<Rightarrow> OutMsg \<Rightarrow> string" where
  "dup_wire params n msg = fix_wire (fix_version params) (dup_fields params n msg)"

lemma gap_fill_wire:
  assumes "sc_inv f" "length (enc_fields (dup_fields params n (Out_SequenceReset m True))) < 10 ^ 10"
  shows "\<exists>f'. sequence_reset_gap_fill params n m f sp = Some (dup_wire params n (Out_SequenceReset m True), f', sp) \<and> sc_inv f'"
proof -
  let ?v = "fix_version params"
  let ?fs = "[field 123 ''Y''] @ [field 36 (to_chars_int (sint m))] @ [field 43 ''Y''] @ [field 122 now_fix]"
  define g where "g = (\<lambda>f. sc_add_field 123 ''Y'' f \<bind> (\<lambda>f. sc_add_field_int 36 (sint m) f \<bind> (\<lambda>f. sc_add_field 43 ''Y'' f \<bind> sc_add_field 122 now_fix)))"
  have g: "sc.appends (enc_fields ?fs) g"
    unfolding g_def by (intro appends_fields_bind appends_field appends_field_int)
  obtain f1 f2 where f2: "sc_add_field 8 ?v (sc_reset f) = Some f1" "sc_add_body_length_placeholder f1 = Some f2" "open_msg ?v [] f2"
    using open_msg_start [OF assms(1)] .
  obtain f7 where f7: "header_rest params ''4'' n f2 = Some f7" "open_msg ?v (enc_fields (header_fields params ''4'' n)) f7"
    using open_msg_append [OF f2(3) header_rest_enc] by (metis append_Nil)
  have all: "dup_fields params n (Out_SequenceReset m True) = header_fields params ''4'' n @ ?fs"
    by (simp add: dup_fields_def out_fields_def)
  obtain f11 where f11: "g f7 = Some f11" "open_msg ?v (enc_fields (dup_fields params n (Out_SequenceReset m True))) f11"
    using open_msg_append [OF f7(2) g] unfolding all enc_fields_append by blast
  obtain f12 where f12: "stamp_trailer f11 = Some f12" "sc_inv f12" "sc_get_buffer_view f12 = dup_wire params n (Out_SequenceReset m True)"
    using stamp_trailer_ok [OF f11(2) assms(2)] unfolding dup_wire_def .
  then show ?thesis
    using f2(1,2) f7(1) f11(1) by (auto simp: sequence_reset_gap_fill_def header_rest_def g_def bind_eq_Some_conv)
qed

lemma regenerated_wire:
  assumes p: "params_ok params" and msg: "out_ok msg" and inv: "sc_inv f" and small: "length (out_wire params n msg) < 2 ^ 31"
    and idx: "create_message_index (out_wire params n msg) off = Some idx"
  shows "\<exists>f'. regenerate_message params (out_wire params n msg) idx f sp = Some (dup_wire params n msg, f', sp) \<and> sc_inv f'"
proof -
  let ?A = "[field 35 (out_type msg), field 34 (to_chars_int (sint n)), field 49 (sender_comp_id params), field 56 (target_comp_id params)]"
  have v: "fix_version params = DEFAULT_FIX_VERSION" using p by (simp add: params_ok_def)
  have fs: "out_fields params n msg = ?A @ field 52 now_fix # out_body params msg" by (simp add: out_fields_def header_fields_def)
  have body: "gf_tag ` set (out_body params msg) \<inter> {52, 10, 43, 122} = {}"
    using msg by (cases msg) auto
  have "\<exists>f'. regenerate_message params (fix_wire DEFAULT_FIX_VERSION (out_fields params n msg)) idx f sp =
     Some (fix_wire DEFAULT_FIX_VERSION (?A @ field 52 now_fix # out_body params msg @ [field 43 ''Y'', field 122 now_fix]), f', sp) \<and> sc_inv f'"
  proof (rule regenerate_wire [OF fs])
    show "\<forall>f \<in> set (out_fields params n msg). SOH \<notin> set (gf_value f)"
      using out_fields_ok [OF p msg, of n] by (auto simp: field_ok_def fix_fields_def)
  qed (use body v inv small idx in \<open>auto simp: fs out_wire_def\<close>)
  then show ?thesis by (simp add: out_wire_def dup_wire_def dup_fields_def v fs)
qed


section \<open>Sending without storing\<close>

lemma send_again_ok:
  assumes s: "ready ws s" and b: "b (s_params s) (s_scratch s) (s_seq s) = Some (w, f', s_seq s)" "sc_inv f'"
  shows "\<exists>t. do { (wire, s1) \<leftarrow> with_factory b s; send_message wire True s1 } = Some t \<and> ready ws t \<and> unsent s t \<and> pending t = pending s @ w"
proof -
  have S: "session_inv s" "\<not> s_stopped s" "s_conn s" "ms_inv ws (s_store s)" "next_out (s_seq s) = of_nat (length ws + 1)" "params_ok (s_params s)"
    using s by (simp_all add: ready_def)
  define s1 where "s1 = s\<lparr>s_scratch := f', s_seq := s_seq s\<rparr>"
  have same: "same_core s s1" by (simp add: same_core_def s1_def)
  have inv1: "session_inv s1" using session_inv_cong [OF same S(1)] .
  have live: "\<not> s_stopped s1" "s_conn s1" using S(2,3) by (simp_all add: s1_def)
  obtain ww a t1 where t1: "from_arena w (s_arena s1) = Some (ww, a)" "send_bytes ww (s1\<lparr>s_arena := a\<rparr>) = Some t1"
    using send_bytes_total [OF inv1 live] by blast
  then obtain t where t: "send_message w True s1 = Some t" using live(1) by (simp add: send_message_def)
  obtain a' q b' out where sh: "t = s1\<lparr>s_arena := a', s_write_q := q, s_write_inflight := b', s_store := s_store s1, s_out := out\<rparr>"
    using send_message_shape [OF t live(1)] by auto
  have "session_inv t"
    using micros_send_message [OF t micros_refl] inv1 by (rule micros_lift [where fr = True]) (rule session_inv_micro)
  then have "ready ws t" using S b(2) by (simp add: ready_def sh s1_def)
  moreover have "unsent s t" by (simp add: unsent_def sh s1_def)
  moreover have "pending t = pending s @ w"
  proof -
    obtain ww c t1 where t1: "from_arena w (s_arena s1) = Some (ww, c)" "send_bytes ww (s1\<lparr>s_arena := c\<rparr>) = Some t1"
      "s_arena t = s_arena t1" "s_write_q t = s_write_q t1"
      by (rule send_message_cases [OF t live(1)])
    have "pending t1 = pending s1 @ w" by (rule pending_send(1) [OF inv1 live(1) t1(1,2)])
    then show ?thesis using t1(3,4) by (simp add: pending_def s1_def)
  qed
  moreover have "do { (wire, s1) \<leftarrow> with_factory b s; send_message wire True s1 } = Some t"
    using b(1) t by (simp add: with_factory_def s1_def)
  ultimately show ?thesis by blast
qed

section \<open>The stored history\<close>

text \<open>The wires of a session that has sent the messages \<open>ms\<close>, in its store.\<close>

lemma sent_log_nth:
  assumes "i < length ms"
  shows "sent_log params ws ms ! (length ws + i) = out_wire params (of_nat (length ws + i + 1)) (ms ! i)"
  using assms
proof (induction ms arbitrary: ws i)
  case (Cons m ms)
  show ?case
  proof (cases i)
    case 0
    then show ?thesis using sent_log_prefix [of params "ws @ [out_wire params (of_nat (length ws + 1)) m]" ms] by (auto simp: nth_append)
  next
    case (Suc j)
    then show ?thesis using Cons.IH [of j "ws @ [out_wire params (of_nat (length ws + 1)) m]"] Cons.prems by simp
  qed
qed simp

lemma length_sent_log [simp]: "length (sent_log params ws ms) = length ws + length ms"
  using sent_log_prefix [of params ws ms] by auto

definition history :: "OutMsg list \<Rightarrow> session \<Rightarrow> bool" where
  "history ms s \<longleftrightarrow> ready (sent_log (s_params s) [] ms) s \<and> (\<forall>m \<in> set ms. out_ok m) \<and>
     log_fits (sent_log (s_params s) [] ms) \<and> (\<forall>w \<in> set (sent_log (s_params s) [] ms). length w < 2 ^ 31)"

lemma history_unsent:
  "history ms s \<Longrightarrow> ready (sent_log (s_params s) [] ms) t \<Longrightarrow> s_params t = s_params s \<Longrightarrow> history ms t"
  by (simp add: history_def)

lemma out_wire_type:
  assumes p: "params_ok params" "out_ok msg" and idx: "create_message_index (out_wire params n msg) off = Some idx"
  shows "mi_msg_type idx = out_type msg"
proof -
  let ?v = "fix_version params"
  let ?B = "tl (out_fields params n msg)"
  let ?l = "to_chars (length (enc_fields (out_fields params n msg)))"
  let ?e = "empty_index off (to_u32 (length (out_wire params n msg)))"
  have fs: "fix_fields ?v (out_fields params n msg) = [field 8 ?v, field 9 ?l] @ field 35 (out_type msg) # ?B"
    by (simp add: fix_fields_def out_fields_def header_fields_def)
  have body: "gf_tag ` set (out_body params msg) \<inter> {35, 10} = {}" using p(2) by (cases msg) auto
  then have tags: "10 \<notin> gf_tag ` set (fix_fields ?v (out_fields params n msg))" "35 \<notin> gf_tag ` set ?B"
    by (auto simp: fix_fields_def out_fields_def header_fields_def)
  have soh: "\<forall>f \<in> set (fix_fields ?v (out_fields params n msg)). SOH \<notin> set (gf_value f)"
    using out_fields_ok [OF p, of n] by (auto simp: field_ok_def)
  have "index_fields 0 (fix_fields ?v (out_fields params n msg)) ?e = Some idx"
    using idx create_message_index_wire [OF tags(1) soh, of off] by (simp add: out_wire_def fix_wire_def)
  then have "mi_msg_type idx = take 2 (out_type msg)"
    using index_fields_tag(3) [of 0 "[field 8 ?v, field 9 ?l]" "field 35 (out_type msg)" ?B] tags unfolding fs by auto
  moreover have "length (out_type msg) \<le> 2" using p(2) by (cases msg) simp_all
  ultimately show ?thesis by simp
qed

lemma history_index:
  assumes "history ms s" "i < length ms"
  shows "\<exists>idx. get_message_index (i + 1) (s_store s) = Some idx \<and>
     get_message_wire idx (s_store s) = Some (out_wire (s_params s) (of_nat (i + 1)) (ms ! i)) \<and>
     create_message_index (out_wire (s_params s) (of_nat (i + 1)) (ms ! i)) (mi_off idx) = Some idx \<and>
     ms_outbound_index (s_store s) ! i = idx \<and> mi_msg_type idx = out_type (ms ! i)"
proof -
  let ?ws = "sent_log (s_params s) [] ms" and ?w = "out_wire (s_params s) (of_nat (i + 1)) (ms ! i)"
  have h: "ms_inv ?ws (s_store s)" "params_ok (s_params s)" "out_ok (ms ! i)" "length (concat ?ws) < 2 ^ 32" "i < length ?ws"
    using assms by (simp_all add: history_def ready_def log_fits_def)
  have nth: "?ws ! i = ?w" using sent_log_nth [OF assms(2), of "s_params s" "[]"] by simp
  let ?idx = "ms_outbound_index (s_store s) ! i"
  have len: "length (ms_outbound_index (s_store s)) = length ms" and
    c: "create_message_index ?w (length (concat (take i ?ws))) = Some ?idx"
    using h(1,5) nth by (auto simp: ms_inv_def)
  have get: "get_message_index (i + 1) (s_store s) = Some ?idx" using len assms(2) by (simp add: get_message_index_def)
  moreover have "get_message_wire ?idx (s_store s) = Some ?w" using ms_fetch [OF h(1,5,4)] get nth by simp
  moreover have "mi_off ?idx = length (concat (take i ?ws))"
    using index_loop_location [OF c [unfolded create_message_index_def]] by (simp add: empty_index_def)
  ultimately show ?thesis using c out_wire_type [OF h(2,3) c] by auto
qed


section \<open>The loop of the handler\<close>

definition action_msg :: "OutMsg list \<Rightarrow> ResendAction \<Rightarrow> OutMsg" where
  "action_msg ms a = (if ra_gap_fill a then Out_SequenceReset (of_nat (ra_end_seq_no a) + 1) True else ms ! (ra_begin_seq_no a - 1))"

definition action_wire :: "SessionParameters \<Rightarrow> OutMsg list \<Rightarrow> ResendAction \<Rightarrow> string" where
  "action_wire params ms a = dup_wire params (of_nat (ra_begin_seq_no a)) (action_msg ms a)"

text \<open>An action covers messages of the history: a run of administrative ones, or one that is not.\<close>

definition action_covers :: "OutMsg list \<Rightarrow> ResendAction \<Rightarrow> bool" where
  "action_covers ms a \<longleftrightarrow> 0 < ra_begin_seq_no a \<and> ra_begin_seq_no a \<le> ra_end_seq_no a \<and> ra_end_seq_no a \<le> length ms \<and>
     (if ra_gap_fill a then \<forall>i \<in> {ra_begin_seq_no a..ra_end_seq_no a}. no_resend (out_type (ms ! (i - 1)))
      else ra_end_seq_no a = ra_begin_seq_no a \<and> \<not> no_resend (out_type (ms ! (ra_begin_seq_no a - 1))))"

lemma length_seq_num: "length (to_chars_int (sint (n :: SeqNum))) \<le> 20"
proof -
  have "- (2 ^ 63) \<le> sint n" "sint n < 2 ^ 63" using sint_greater_eq [of n] sint_less [of n] by simp_all
  then have "nat \<bar>sint n\<bar> < 10 ^ 19" by simp
  then have "length (to_chars (nat \<bar>sint n\<bar>)) \<le> 19" by (rule length_to_chars_le) simp
  then show ?thesis by (auto simp: to_chars_int_def split: if_splits)
qed

lemma history_ids:
  assumes "history ms s" "ms \<noteq> []"
  shows "length (sender_comp_id (s_params s)) + length (target_comp_id (s_params s)) < 2 ^ 31"
proof -
  have "out_wire (s_params s) 1 (ms ! 0) \<in> set (sent_log (s_params s) [] ms)"
    using sent_log_nth [of 0 ms "s_params s" "[]"] assms(2) by (metis One_nat_def add.right_neutral add_0 length_greater_0_conv length_sent_log list.size(3) nth_mem of_nat_1)
  then have "length (out_wire (s_params s) 1 (ms ! 0)) < 2 ^ 31" using assms(1) by (auto simp: history_def)
  then show ?thesis
    by (simp add: out_wire_def fix_wire_def fix_fields_def out_fields_def header_fields_def enc_fields_Cons enc_field_def)
qed

lemma gap_fill_small:
  assumes "length (sender_comp_id params) + length (target_comp_id params) < 2 ^ 31"
  shows "length (enc_fields (dup_fields params n (Out_SequenceReset m True))) < 10 ^ 10"
  using assms length_seq_num [of n] length_seq_num [of m]
  by (simp add: dup_fields_def out_fields_def header_fields_def enc_fields_Cons enc_field_def now_fix_def to_chars.simps)

lemma resend_action_ok:
  assumes s: "history ms s" and a: "action_covers ms a"
  shows "\<exists>t. resend_action a s = Some t \<and> history ms t \<and> unsent s t \<and> pending t = pending s @ action_wire (s_params s) ms a"
proof -
  let ?n = "of_nat (ra_begin_seq_no a) :: SeqNum" and ?p = "s_params s"
  have rdy: "ready (sent_log ?p [] ms) s" and sc: "sc_inv (s_scratch s)" and p: "params_ok ?p"
    using s by (simp_all add: history_def ready_def)
  have "\<exists>t. resend_action a s = Some t \<and> ready (sent_log ?p [] ms) t \<and> unsent s t \<and> pending t = pending s @ action_wire ?p ms a"
  proof (cases "ra_gap_fill a")
    case True
    let ?m = "of_nat (ra_end_seq_no a) + 1 :: SeqNum"
    have "ms \<noteq> []" using a by (auto simp: action_covers_def)
    from gap_fill_small [OF history_ids [OF s this]] obtain f' where
      "sequence_reset_gap_fill ?p ?n ?m (s_scratch s) (s_seq s) = Some (dup_wire ?p ?n (Out_SequenceReset ?m True), f', s_seq s)" "sc_inv f'"
      using gap_fill_wire [OF sc] by blast
    then show ?thesis
      using send_again_ok [OF rdy, of "\<lambda>p. sequence_reset_gap_fill p ?n ?m"] True
      by (simp add: resend_action_def send_sequence_reset_gap_fill_def action_wire_def action_msg_def)
  next
    case False
    let ?i = "ra_begin_seq_no a - 1"
    let ?w = "out_wire ?p ?n (ms ! ?i)"
    have i: "?i < length ms" "?i + 1 = ra_begin_seq_no a" using a by (auto simp: action_covers_def)
    obtain idx where idx: "get_message_index (ra_begin_seq_no a) (s_store s) = Some idx" "get_message_wire idx (s_store s) = Some ?w"
      "create_message_index ?w (mi_off idx) = Some idx"
      using history_index [OF s i(1)] unfolding i(2) by blast
    have "?w = sent_log ?p [] ms ! ?i" using sent_log_nth [OF i(1), of ?p "[]"] i(2) by simp
    then have "length ?w < 2 ^ 31" using s i(1) by (simp add: history_def)
    moreover have "out_ok (ms ! ?i)" using s i(1) by (simp add: history_def)
    ultimately obtain f' where "regenerate_message ?p ?w idx (s_scratch s) (s_seq s) = Some (dup_wire ?p ?n (ms ! ?i), f', s_seq s)" "sc_inv f'"
      using regenerated_wire [OF p _ sc _ idx(3)] by blast
    then show ?thesis
      using send_again_ok [OF rdy, of "\<lambda>p. regenerate_message p ?w idx"] False idx(1,2)
      by (simp add: resend_action_def action_wire_def action_msg_def)
  qed
  then show ?thesis using history_unsent [OF s] by (auto simp: unsent_def)
qed

primrec resend_all :: "ResendAction list \<Rightarrow> session \<Rightarrow> session option" where
  "resend_all [] s = Some s"
| "resend_all (a # as) s = resend_action a s \<bind> resend_all as"

lemma resend_all_ok:
  assumes "history ms s" "list_all (action_covers ms) as"
  shows "\<exists>t. resend_all as s = Some t \<and> history ms t \<and> unsent s t \<and> pending t = pending s @ concat (map (action_wire (s_params s) ms) as)"
  using assms
proof (induction as arbitrary: s)
  case Nil
  then show ?case by (simp add: unsent_def)
next
  case (Cons a as)
  obtain s1 where s1: "resend_action a s = Some s1" "history ms s1" "unsent s s1" "pending s1 = pending s @ action_wire (s_params s) ms a"
    using resend_action_ok [OF Cons.prems(1)] Cons.prems(2) by auto
  obtain t where t: "resend_all as s1 = Some t" "history ms t" "unsent s1 t" "pending t = pending s1 @ concat (map (action_wire (s_params s1) ms) as)"
    using Cons.IH [OF s1(2)] Cons.prems(2) by auto
  have "s_params s1 = s_params s" using s1(3) by (simp add: unsent_def)
  then show ?case using s1 t unsent_trans [OF s1(3) t(3)] by simp
qed

text \<open>The loop runs through the actions of the stream; sending does not change the index it reads.\<close>

lemma resend_loop_all:
  assumes "0 < c" "c \<le> e + 1" "e \<le> length index" "length index + 1 < 2 ^ 32"
    and "rs = \<lparr>rs_outbound_index = index, rs_current_index = of_nat c, rs_end_seq_no = of_nat e\<rparr>"
  shows "\<exists>as. resend_loop rs s = resend_all as s \<and> concat (map action_range as) = [c..<e + 1] \<and> list_all (action_ok index) as"
  using assms
proof (induction "e + 1 - c" arbitrary: c s rs rule: less_induct)
  case less
  let ?rs = "\<lambda>c. \<lparr>rs_outbound_index = index, rs_current_index = of_nat c, rs_end_seq_no = of_nat e\<rparr>"
  have has: "rs_has_next (?rs c) \<longleftrightarrow> c \<le> e"
    using u32_le [of c e] less.prems by (simp add: rs_has_next_def)
  show ?case
  proof (cases "c \<le> e")
    case False
    then have "resend_loop rs s = resend_all [] s" using has less.prems(5) by (subst resend_loop.simps) simp
    then show ?thesis using False less.prems(2) by (intro exI [of _ "[]"]) simp
  next
    case True
    obtain a k where a: "rs_next (?rs c) = Some (a, ?rs k)" "c < k" "k \<le> e + 1" "action_ok index a" "action_range a = [c..<k]"
      using rs_next_ok [OF less.prems(1) True less.prems(3,4)] by blast
    have range: "[c..<k] @ [k..<e + 1] = [c..<e + 1]"
      using a(2,3) upt_add_eq_append [of c k "e + 1 - k"] by simp
    have step: "resend_loop rs s = resend_action a s \<bind> resend_loop (?rs k)"
      using has True a(1) less.prems(5) by (subst resend_loop.simps) simp
    show ?thesis
    proof (cases "resend_action a s")
      case None
      obtain as where "concat (map action_range as) = [k..<e + 1]" "list_all (action_ok index) as"
        using rs_actions_ok [OF _ a(3) less.prems(3,4)] a(2) by auto
      with None step a range show ?thesis by (intro exI [of _ "a # as"]) (simp del: upt_Suc)
    next
      case (Some s1)
      have "e + 1 - k < e + 1 - c" "0 < k" using a(2,3) True by linarith+
      from less.hyps [OF this a(3) less.prems(3,4) refl, of s1] obtain as where
        "resend_loop (?rs k) s1 = resend_all as s1" "concat (map action_range as) = [k..<e + 1]" "list_all (action_ok index) as"
        by blast
      with Some step a range show ?thesis by (intro exI [of _ "a # as"]) (simp del: upt_Suc)
    qed
  qed
qed


section \<open>A resend request is answered\<close>

text \<open>The last number of the answer: an open or too large end means all messages sent so far.\<close>

definition last_asked :: "OutMsg list \<Rightarrow> nat \<Rightarrow> nat" where
  "last_asked ms e = (if e = 0 \<or> length ms < e then length ms else e)"

lemma last_asked_le: "last_asked ms e \<le> length ms"
  by (simp add: last_asked_def)

lemma action_ok_covers:
  assumes "history ms s" "concat (map action_range as) = [b..<l + 1]" "0 < b" "l \<le> length ms"
    and "list_all (action_ok (ms_outbound_index (s_store s))) as"
  shows "list_all (action_covers ms) as"
proof (unfold list_all_iff, rule ballI)
  fix a assume a: "a \<in> set as"
  then have ok: "action_ok (ms_outbound_index (s_store s)) a" using assms(5) by (simp add: list_all_iff)
  have le: "ra_begin_seq_no a \<le> ra_end_seq_no a" using ok by (simp add: action_ok_def)
  have "set (action_range a) \<subseteq> set [b..<l + 1]" unfolding assms(2) [symmetric] using a by auto
  then have "{ra_begin_seq_no a..<ra_end_seq_no a + 1} \<subseteq> {b..<l + 1}" by (simp only: action_range_def set_upt)
  then have rg: "b \<le> ra_begin_seq_no a" "ra_end_seq_no a \<le> l" using le by auto
  have ty: "mi_msg_type (ms_outbound_index (s_store s) ! (i - 1)) = out_type (ms ! (i - 1))" if "0 < i" "i \<le> length ms" for i
    using history_index [OF assms(1), of "i - 1"] that by auto
  show "action_covers ms a"
    using ok le rg ty assms(3,4) by (auto simp: action_ok_def action_covers_def)
qed

lemma handle_resend_request_ok:
  assumes s: "history ms s" and f: "find_field 7 (vm_message m) = Some (to_chars b)" "find_field 16 (vm_message m) = Some (to_chars e)"
    and b: "0 < b" "b < 2 ^ 32" "e < 2 ^ 32"
  shows "\<exists>t as. handle_resend_request m s = Some t \<and> history ms t \<and> unsent s t \<and>
     pending t = pending s @ concat (map (action_wire (s_params s) ms) as) \<and>
     concat (map action_range as) = [b..<last_asked ms e + 1] \<and> list_all (action_covers ms) as"
proof -
  let ?l = "last_asked ms e" and ?index = "ms_outbound_index (s_store s)"
  have len: "length ?index = length ms" "length ms < 2 ^ 31" "next_out (s_seq s) = of_nat (length ms + 1)"
    using s by (simp_all add: history_def ready_def ms_inv_def log_fits_def)
  have nums: "snd (snd (from_chars_u (2 ^ 32 - 1) (to_chars b) 0)) = b" "snd (snd (from_chars_u (2 ^ 32 - 1) (to_chars e) 0)) = e"
    using b by (simp_all add: from_chars_u_to_chars)
  have z: "(of_nat e :: 32 word) = 0 \<longleftrightarrow> e = 0" using unat_u32 [OF b(3)] by (simp only: word_unat_eq_iff unat_0)
  have u: "unat (ucast (of_nat e :: 32 word) :: 64 word) = e" using unat_u32 [OF b(3)] b(3) by (simp add: unsigned_ucast_eq take_bit_nat_eq_self)
  have "unat (next_out (s_seq s)) = length ms + 1" unfolding len(3) unat_of_nat using len(2) by (intro mod_less) simp
  then have ge: "(ucast (of_nat e :: 32 word) :: 64 word) \<ge> next_out (s_seq s) \<longleftrightarrow> length ms < e"
    using u by (simp add: word_le_nat_alt Suc_le_eq)
  have "unat (ucast (next_out (s_seq s)) :: 32 word) = unat (of_nat (length ms + 1) :: 32 word)"
    using \<open>unat (next_out (s_seq s)) = length ms + 1\<close> unat_u32 [of "length ms + 1"] len(2)
    by (simp add: unsigned_ucast_eq take_bit_nat_eq_self del: of_nat_Suc of_nat_add)
  then have "(ucast (next_out (s_seq s)) :: 32 word) = of_nat (length ms + 1)" by (simp only: word_unat_eq_iff)
  then have "(ucast (next_out (s_seq s)) :: 32 word) - 1 = of_nat (length ms)" by simp
  then have h: "handle_resend_request m s = resend_loop (get_resend_stream (of_nat b) (of_nat ?l) (s_store s)) s"
    using f nums z ge by (simp add: handle_resend_request_def Let_def last_asked_def)
  have "\<exists>as. handle_resend_request m s = resend_all as s \<and> concat (map action_range as) = [b..<?l + 1] \<and> list_all (action_ok ?index) as"
  proof (cases "b \<le> ?l + 1")
    case True
    show ?thesis
      unfolding h using resend_loop_all [OF b(1) True _ _ refl, of ?index] last_asked_le [of ms e] len(1,2) by (simp add: get_resend_stream_def)
  next
    case False
    then have "\<not> (of_nat b :: 32 word) \<le> of_nat ?l" using u32_le [of b ?l] b(2) last_asked_le [of ms e] len(2) by simp
    then have "handle_resend_request m s = resend_all [] s"
      unfolding h by (subst resend_loop.simps) (simp add: get_resend_stream_def rs_has_next_def)
    then show ?thesis using False by (intro exI [of _ "[]"]) simp
  qed
  then obtain as where as: "handle_resend_request m s = resend_all as s" "concat (map action_range as) = [b..<?l + 1]" "list_all (action_ok ?index) as"
    by blast
  then have "list_all (action_covers ms) as" using action_ok_covers [OF s as(2) b(1) last_asked_le] by blast
  then obtain t where "resend_all as s = Some t \<and> history ms t \<and> unsent s t \<and> pending t = pending s @ concat (map (action_wire (s_params s) ms) as)"
    using resend_all_ok [OF s] by blast
  with as(1,2) \<open>list_all (action_covers ms) as\<close> show ?thesis by (intro exI [of _ t] exI [of _ as]) simp
qed

lemma history_dispatch: "history ms s \<Longrightarrow> history ms ((touch v s)\<lparr>s_seq := update_in n (s_seq (touch v s))\<rparr>)"
proof (rule history_unsent)
  assume "history ms s"
  then show "history ms s" .
  then have "ready (sent_log (s_params s) [] ms) (touch v s)" by (simp add: history_def ready_touch)
  then show "ready (sent_log (s_params s) [] ms) ((touch v s)\<lparr>s_seq := update_in n (s_seq (touch v s))\<rparr>)" by (rule ready_seq)
qed simp

lemma answer_resend_request:
  assumes s: "history ms s" "s_state s = ACTIVE" and peer: "params_ok pp" "peer_of pp (s_params s)"
    and n: "n = next_in (s_seq s)" "unat n < 2 ^ 63" and b: "0 < b" "b < 2 ^ 32" "e < 2 ^ 32"
  shows "\<exists>t as. process_wire_message (out_wire pp n (Out_ResendRequest (of_nat b) (of_nat e))) s = Some t \<and>
     history ms t \<and> s_state t = ACTIVE \<and> next_in (s_seq t) = n + 1 \<and> s_params t = s_params s \<and>
     pending t = pending s @ concat (map (action_wire (s_params s) ms) as) \<and>
     concat (map action_range as) = [b..<last_asked ms e + 1] \<and> list_all (action_covers ms) as"
proof -
  let ?msg = "Out_ResendRequest (of_nat b) (of_nat e)"
  let ?view = "make_valid_message_view (parsed_fields pp n ?msg)"
  have live: "\<not> s_stopped s" "running s" using s by (simp_all add: history_def ready_def running_def)
  have om: "out_ok ?msg" by simp
  obtain v where v: "dispatch (parsed_fields pp n ?msg) (out_wire pp n ?msg) s =
      sequence_message (out_type ?msg) n False ?view (out_wire pp n ?msg) (touch v s)"
    using dispatch_peer [OF live(1) peer om n(2), of "out_wire pp n ?msg"] live(2) by blast
  let ?s = "(touch v s)\<lparr>s_seq := update_in (n + 1) (s_seq (touch v s))\<rparr>"
  have small: "unat (of_nat b :: SeqNum) = b" "unat (of_nat e :: SeqNum) = e"
    using b by (simp_all add: unat_of_nat take_bit_nat_eq_self)
  have "find_field 7 (vm_message ?view) = Some (to_chars b)" "find_field 16 (vm_message ?view) = Some (to_chars e)"
    using to_chars_int_word [of "of_nat b"] to_chars_int_word [of "of_nat e"] small b
    by (simp_all add: make_valid_message_view_def parsed_field find_field_Cons)
  from handle_resend_request_ok [OF history_dispatch [OF s(1)] this b] obtain t as where
    t: "handle_resend_request ?view ?s = Some t" "history ms t" "unsent ?s t" "pending t = pending ?s @ concat (map (action_wire (s_params ?s) ms) as)"
      "concat (map action_range as) = [b..<last_asked ms e + 1]" "list_all (action_covers ms) as"
    by blast
  have "dispatch (parsed_fields pp n ?msg) (out_wire pp n ?msg) s = Some t"
    unfolding v using sequence_expected [of "''2''" "touch v s"] n(1) t(1) by (simp add: handle_message_def)
  moreover have st: "s_state t = ACTIVE" "next_in (s_seq t) = n + 1" "s_params t = s_params s"
    using t(3) s(2) by (simp_all add: unsent_def next_in_def update_in_def)
  then have "drain_recovery_cache t = Some t" by (simp add: drain_recovery_cache_def)
  ultimately have "process_wire_message (out_wire pp n ?msg) s = Some t" using process_parsed [OF peer(1) om] by simp
  moreover have "pending ?s = pending s" using pending_cong [of ?s "touch v s"] by simp
  ultimately show ?thesis using t st by auto
qed


text \<open>
  C6: Resend requests. An active session that has sent the messages \<open>ms\<close> (administrative and custom ones, stored under the numbers 1, 2,
  3, \<open>\<dots>\<close>) gets, in sequence, a request of its peer for the messages from \<open>b\<close> to \<open>e\<close>, where 0 or a number it has not used
  means all. The handler ends, the session stays active and expects the next number; its store, its outgoing number and all messages
  queued before stay as they are; and the bytes it queues are a list of actions that covers every number of the range once and in order: each
  application message comes again under its old number with PossDupFlag and the original sending time, and each gap fill
  stands for a run of administrative messages and points to the number after it.\<close>

theorem resend_request_answered:
  assumes "history ms s" "s_state s = ACTIVE" "params_ok pp" "peer_of pp (s_params s)"
    and "n = next_in (s_seq s)" "unat n < 2 ^ 63" "0 < b" "b < 2 ^ 32" "e < 2 ^ 32"
  shows "\<exists>t as. process_wire_message (out_wire pp n (Out_ResendRequest (of_nat b) (of_nat e))) s = Some t \<and>
     history ms t \<and> s_state t = ACTIVE \<and> next_in (s_seq t) = n + 1 \<and> s_params t = s_params s \<and>
     pending t = pending s @ concat (map (action_wire (s_params s) ms) as) \<and>
     concat (map action_range as) = [b..<last_asked ms e + 1] \<and> list_all (action_covers ms) as"
  using assms by (rule answer_resend_request)

section \<open>Sample history\<close>

lemma connected_session:
  assumes "params_ok params"
  obtains s where "ready [] s" "s_state s = ACTIVE" "s_params s = params" "next_in (s_seq s) = 1" "s_id s = \<lparr>storage_index = 0, sid = 1\<rparr>"
proof -
  obtain s0 where s0: "session_new \<lparr>storage_index = 0, sid = 1\<rparr> INITIATOR params = Some s0" "s_seq s0 = sp_new" "s_params s0 = params"
    "s_id s0 = \<lparr>storage_index = 0, sid = 1\<rparr>"
    using fresh_session [of "\<lparr>storage_index = 0, sid = 1\<rparr>" INITIATOR params] .
  have "ready [] (s0\<lparr>s_conn := True, s_state := ACTIVE\<rparr>)" by (rule ready_connected [OF s0(1) assms])
  then show ?thesis
    using s0(2-4) by (intro that [of "s0\<lparr>s_conn := True, s_state := ACTIVE\<rparr>"]) (simp_all add: sp_new_def next_in_def)
qed

lemma send_list:
  assumes "ready ws s" "\<forall>m \<in> set ms. out_ok m" "log_fits (sent_log (s_params s) ws ms)"
  shows "\<exists>t. ready (sent_log (s_params s) ws ms) t \<and> unsent s t"
  using assms
proof (induction ms arbitrary: ws s)
  case Nil
  then show ?case by (auto simp: unsent_def)
next
  case (Cons m ms)
  have "sent_log (s_params s) ws (m # ms) = sent_log (s_params s) (sent_log (s_params s) ws [m]) ms" by simp
  then have "log_fits (sent_log (s_params s) ws [m])" using Cons.prems(3) sent_log_prefix log_fits_prefix by metis
  then obtain s1 where s1: "ready (sent_log (s_params s) ws [m]) s1" "unsent s s1"
    using send_one [OF Cons.prems(1), of m] Cons.prems(2) by auto
  then have p: "s_params s1 = s_params s" by (simp add: unsent_def)
  show ?case using Cons.IH [OF s1(1)] Cons.prems(2,3) p unsent_trans [OF s1(2)] by auto
qed

definition sample_sent :: "OutMsg list" where
  "sample_sent = [Out_Heartbeat ''a'', Out_Custom ''x'', Out_TestRequest ''b'']"

lemma sample_history:
  obtains s where "history sample_sent s" "s_state s = ACTIVE" "s_params s = sample_peer" "next_in (s_seq s) = 1"
proof -
  obtain s0 where s0: "ready [] s0" "s_state s0 = ACTIVE" "s_params s0 = sample_peer" "next_in (s_seq s0) = 1"
    using connected_session [of sample_peer] by auto
  have ws: "sent_log sample_peer [] sample_sent =
      [out_wire sample_peer 1 (Out_Heartbeat ''a''), out_wire sample_peer 2 (Out_Custom ''x''), out_wire sample_peer 3 (Out_TestRequest ''b'')]"
    by (simp add: sample_sent_def)
  have fits: "log_fits (sent_log sample_peer [] sample_sent)" "\<forall>w \<in> set (sent_log sample_peer [] sample_sent). length w < 2 ^ 31"
    unfolding ws by (simp_all add: log_fits_def length_out_wire out_fields_def header_fields_def enc_fields_def enc_field_def default_params_def
        sample_peer_def now_fix_def to_chars.simps to_chars_int_def min_blob_buffer_grow_size_def)
  have ok: "\<forall>m \<in> set sample_sent. out_ok m" by (simp add: sample_sent_def text_ok_def)
  obtain t where t: "ready (sent_log sample_peer [] sample_sent) t" "unsent s0 t"
    using send_list [OF s0(1) ok] fits(1) s0(3) by auto
  then have "history sample_sent t" using fits ok s0(3) by (simp add: history_def unsent_def)
  with t(2) s0 show ?thesis by (intro that [of t]) (simp_all add: unsent_def)
qed

theorem resend_request_answered_witness:
  "\<exists>s t as. history sample_sent s \<and> process_wire_message (out_wire default_params 1 (Out_ResendRequest 1 0)) s = Some t \<and>
     next_in (s_seq t) = 2 \<and> pending t = pending s @ concat (map (action_wire sample_peer sample_sent) as) \<and> concat (map action_range as) = [1, 2, 3]"
proof -
  obtain s where s: "history sample_sent s" "s_state s = ACTIVE" "s_params s = sample_peer" "next_in (s_seq s) = 1"
    using sample_history .
  have p: "params_ok default_params" "peer_of default_params (s_params s)" "1 = next_in (s_seq s)" using s by simp_all
  have z: "0 < (1 :: nat)" "(1 :: nat) < 2 ^ 32" "(0 :: nat) < 2 ^ 32" by simp_all
  have "last_asked sample_sent 0 = 3" by (simp add: last_asked_def sample_sent_def)
  then have r: "[1..<last_asked sample_sent 0 + 1] = [1, 2, 3]" by (simp add: upt_rec)
  obtain t as where "process_wire_message (out_wire default_params 1 (Out_ResendRequest (of_nat 1) (of_nat 0))) s = Some t"
    "next_in (s_seq t) = 1 + 1" "pending t = pending s @ concat (map (action_wire (s_params s) sample_sent) as)"
    "concat (map action_range as) = [1..<last_asked sample_sent 0 + 1]"
    using resend_request_answered [OF s(1,2) p _ z] by auto
  with s r show ?thesis by auto
qed

end
