(* ===== verification/Session_Exchange.thy ===== *)
theory Session_Exchange
  imports Session_Resend
begin

text \<open>
  Two sessions after a loss: the side that misses messages asks for them, the other side answers, and the
  answer, with its duplicates and gap fills, brings the first side back.
\<close>

section \<open>A message sent again is valid for the peer\<close>

definition dup_parsed :: "SessionParameters \<Rightarrow> SeqNum \<Rightarrow> OutMsg \<Rightarrow> GenericMessage" where
  "dup_parsed params n msg = fix_fields (fix_version params) (dup_fields params n msg) @
     [field 10 (pad3 (checksum_of (enc_fields (fix_fields (fix_version params) (dup_fields params n msg)))))]"

lemma dup_wire_parse:
  assumes "params_ok params" "out_ok msg"
  shows "parse (dup_wire params n msg) = (dup_parsed params n msg, [])"
proof -
  have "\<forall>f \<in> set (fix_fields (fix_version params) (dup_fields params n msg)). field_ok f"
    using out_fields_ok [OF assms, of n] by (auto simp: fix_fields_def dup_fields_def field_ok_iff)
  then show ?thesis unfolding dup_wire_def fix_wire_def dup_parsed_def by (rule parse_wire)
qed

lemma dup_field:
  "find_field 35 (dup_parsed pp n msg) = Some (out_type msg)" "find_field 34 (dup_parsed pp n msg) = Some (to_chars_int (sint n))"
  "out_ok msg \<Longrightarrow> find_field 43 (dup_parsed pp n msg) = Some ''Y''"
  "t \<notin> {8, 9, 35, 34, 49, 56, 52, 43, 122, 10} \<Longrightarrow> find_field t (dup_parsed pp n msg) = find_field t (out_body pp msg)"
proof -
  show "find_field 35 (dup_parsed pp n msg) = Some (out_type msg)" "find_field 34 (dup_parsed pp n msg) = Some (to_chars_int (sint n))"
    by (simp_all add: dup_parsed_def dup_fields_def fix_fields_def out_fields_def header_fields_def find_field_Cons)
  show "find_field 43 (dup_parsed pp n msg) = Some ''Y''" if "out_ok msg"
  proof -
    have "find_field 43 (out_body pp msg) = None" using that by (cases msg) (auto simp: find_field_def split: if_splits)
    then show ?thesis
      by (simp add: dup_parsed_def dup_fields_def fix_fields_def out_fields_def header_fields_def find_field_Cons find_field_append)
  qed
  show "find_field t (dup_parsed pp n msg) = find_field t (out_body pp msg)" if "t \<notin> {8, 9, 35, 34, 49, 56, 52, 43, 122, 10}"
  proof -
    have "find_field t [] = None" for t by (simp add: find_field_def)
    with that show ?thesis
      by (simp add: dup_parsed_def dup_fields_def fix_fields_def out_fields_def header_fields_def find_field_Cons find_field_append
          split: option.splits)
  qed
qed

text \<open>The validator asks for the fields, not for their order behind the first three.\<close>

lemma wrap_dup_valid:
  assumes v: "valid_message peer (wrap l mt n sdr tgt tm body c)" and body: "43 \<notin> gf_tag ` set body" "122 \<notin> gf_tag ` set body"
  shows "valid_message peer (wrap l mt n sdr tgt tm (body @ [field 43 ''Y'', field 122 t]) c)" (is "valid_message peer ?m'")
proof -
  let ?m = "wrap l mt n sdr tgt tm body c"
  obtain s where s: "s \<in> set message_schemas" "header_values_ok ?m (ms_type s)" "find_field 35 ?m = Some (ms_type s)"
    "find_field 49 ?m = Some (target_comp_id peer)" "find_field 56 ?m = Some (sender_comp_id peer)" "distinct (map gf_tag ?m)"
    "gf_tag ` set ?m \<subseteq> fs_tag ` set (StandardHeaderSchema @ ms_body s @ TrailerSchema)"
    "list_all (field_conforms ?m) (StandardHeaderSchema @ ms_body s @ TrailerSchema)"
    using v by (auto simp: valid_message_def)
  have same: "find_field u ?m' = find_field u ?m" if "u \<notin> {43, 122}" for u
    using that by (simp add: wrap_def find_field_Cons find_field_append split: option.splits)
  have new: "find_field 43 ?m' = Some ''Y''" "find_field 122 ?m' = Some t"
    using find_field_None [OF body(1)] find_field_None [OF body(2)] by (simp_all add: wrap_def find_field_Cons find_field_append)
  have ht: "{43, 122} \<subseteq> fs_tag ` set (StandardHeaderSchema @ TrailerSchema)"
    "\<forall>fs \<in> set (StandardHeaderSchema @ TrailerSchema). fs_tag fs \<in> {43, 122} \<longrightarrow> fs_type fs = FT_STRING"
    by (simp_all add: schema_defs)
  have "field_conforms ?m' fs" if fs: "fs \<in> set (StandardHeaderSchema @ ms_body s @ TrailerSchema)" for fs
  proof (cases "fs_tag fs \<in> {43, 122}")
    case True
    then have "fs \<in> set (StandardHeaderSchema @ TrailerSchema)"
      using fs body_tags_apart [OF s(1)] ht(1) by auto
    then have "fs_type fs = FT_STRING" using ht(2) True by blast
    then show ?thesis using True new by (auto simp: field_conforms_def)
  next
    case False
    then show ?thesis using fs s(8) same [OF False] by (simp add: list_all_iff field_conforms_def)
  qed
  then have conf: "list_all (field_conforms ?m') (StandardHeaderSchema @ ms_body s @ TrailerSchema)" by (simp add: list_all_iff)
  have tags: "gf_tag ` set ?m' = gf_tag ` set ?m \<union> {43, 122}" by (auto simp: wrap_def)
  have known: "gf_tag ` set ?m' \<subseteq> fs_tag ` set (StandardHeaderSchema @ ms_body s @ TrailerSchema)"
    unfolding tags using s(7) ht(1) by (auto simp: image_Un)
  have dist: "distinct (map gf_tag ?m')" using s(6) body by (auto simp: wrap_def)
  have hv: "header_values_ok ?m' (ms_type s)" using s(2) by (simp add: header_values_ok_def wrap_def)
  show ?thesis
    unfolding valid_message_def using s(1,3-5) same hv dist known conf by (intro bexI [of _ s]) simp_all
qed

lemma dup_parsed_valid:
  assumes "params_ok params" "peer_of params peer" "out_ok msg"
  shows "valid_message peer (dup_parsed params n msg)" "no_group_fields (dup_parsed params n msg)"
proof -
  define c where "c = pad3 (checksum_of (enc_fields (fix_fields (fix_version params) (dup_fields params n msg))))"
  define l where "l = to_chars (length (enc_fields (dup_fields params n msg)))"
  have ints: "is_int_type c" "is_int_type l"
    unfolding c_def l_def by (rule is_int_pad3, rule less_trans [OF checksum_of_less]) simp_all
  let ?w = "\<lambda>body. wrap l (out_type msg) (to_chars_int (sint n)) (sender_comp_id params) (target_comp_id params) now_fix body c"
  have pf: "dup_parsed params n msg = ?w (out_body params msg @ [field 43 ''Y'', field 122 now_fix])"
    using assms(1)
    by (simp add: dup_parsed_def c_def l_def dup_fields_def fix_fields_def out_fields_def header_fields_def params_ok_def wrap_def)
  have valid: "valid_message peer (?w (out_body params msg))"
    using wrap_valid [OF out_schema_registered [OF assms(3)]] out_body_conforms [OF assms(3), of params] ints
      assms(2) [unfolded peer_of_def] by simp
  have tags: "gf_tag ` set (out_body params msg) \<inter> {43, 122, 384, 627} = {}" using assms(3) by (cases msg) auto
  show "valid_message peer (dup_parsed params n msg)"
    unfolding pf using tags by (intro wrap_dup_valid [OF valid]) auto
  show "no_group_fields (dup_parsed params n msg)"
    unfolding pf using tags by (auto simp: no_group_fields_def wrap_def)
qed

lemma dispatch_dup:
  assumes "\<not> s_stopped s" and peer: "params_ok pp" "peer_of pp (s_params s)" and msg: "out_ok msg"
    and n: "unat n < 2 ^ 63" and run: "running s"
  shows "\<exists>v. dispatch (dup_parsed pp n msg) raw s =
     sequence_message (out_type msg) n True (make_valid_message_view (dup_parsed pp n msg)) raw (touch v s)"
proof -
  have "find_field 34 (dup_parsed pp n msg) = Some (to_chars (unat n))" by (simp add: dup_field to_chars_int_word [OF n])
  moreover have "unat n < 2 ^ 64" using n by simp
  ultimately show ?thesis
    using dispatch_valid [OF assms(1) dup_parsed_valid [OF peer msg] dup_field(1), where raw = raw and k = "unat n"] run dup_field(3) [OF msg] by simp
qed


section \<open>One action of the answer\<close>

text \<open>The application messages an action brings, and those of a range of numbers.\<close>

definition action_news :: "OutMsg list \<Rightarrow> ResendAction \<Rightarrow> OutMsg list" where
  "action_news ms a = (if ra_gap_fill a then [] else [ms ! (ra_begin_seq_no a - 1)])"

definition app_messages :: "OutMsg list \<Rightarrow> nat list \<Rightarrow> OutMsg list" where
  "app_messages ms is = filter (\<lambda>m. \<not> no_resend (out_type m)) (map (\<lambda>i. ms ! (i - 1)) is)"

lemma action_news_range: "action_covers ms a \<Longrightarrow> action_news ms a = app_messages ms (action_range a)"
  by (cases "ra_gap_fill a")
     (auto simp: action_covers_def action_news_def app_messages_def action_range_def filter_empty_conv upt_conv_Cons simp del: upt_Suc)

lemma app_messages_append: "app_messages ms (is @ js) = app_messages ms is @ app_messages ms js"
  by (simp add: app_messages_def)

lemma resendable: "out_ok m \<Longrightarrow> \<not> no_resend (out_type m) \<Longrightarrow> \<exists>p. m = Out_Custom p"
  by (cases m) (simp_all add: no_resend_def)

lemma handle_custom_dup:
  "handle_message ''cu'' (make_valid_message_view (dup_parsed pp n (Out_Custom p))) s =
   handle_message ''cu'' (make_valid_message_view (parsed_fields pp n (Out_Custom p))) s"
  by (simp add: handle_message_def handle_custom_def make_valid_message_view_def dup_field parsed_field)

lemma handle_gap_fill:
  assumes "k < 2 ^ 63"
  shows "handle_message ''4'' (make_valid_message_view (dup_parsed pp n (Out_SequenceReset (of_nat k) True))) s =
    Some (s\<lparr>s_seq := update_in (of_nat k) (s_seq s)\<rparr>)"
proof -
  have "unat (of_nat k :: SeqNum) = k" using assms by (simp add: unat_of_nat take_bit_nat_eq_self)
  then have "to_chars_int (sint (of_nat k :: SeqNum)) = to_chars k" using to_chars_int_word [of "of_nat k"] assms by simp
  moreover have "snd (snd (from_chars_u (2 ^ 64 - 1) (to_chars k) 0)) = k" using assms by (simp add: from_chars_u_to_chars)
  ultimately show ?thesis
    by (simp add: handle_message_def handle_sequence_reset_def make_valid_message_view_def dup_field find_field_Cons)
qed

lemma take_action:
  assumes s: "ready ws s" "running s" and peer: "params_ok pp" "peer_of pp (s_params s)"
    and a: "action_covers ms a" "\<forall>m \<in> set ms. out_ok m" "length ms < 2 ^ 31" and n: "next_in (s_seq s) = of_nat (ra_begin_seq_no a)"
    and fits: "log_fits (sent_log (s_params s) ws (answers (readable_id s) (action_news ms a)))"
  shows "\<exists>t. dispatch (dup_parsed pp (of_nat (ra_begin_seq_no a)) (action_msg ms a)) (action_wire pp ms a) s = Some t \<and>
     ready (sent_log (s_params s) ws (answers (readable_id s) (action_news ms a))) t \<and> next_in (s_seq t) = of_nat (ra_end_seq_no a + 1) \<and>
     s_params t = s_params s \<and> s_state t = s_state s \<and> s_recovery_cache t = s_recovery_cache s \<and> s_id t = s_id s"
proof -
  let ?n = "of_nat (ra_begin_seq_no a) :: SeqNum" and ?m = "action_msg ms a"
  let ?view = "make_valid_message_view (dup_parsed pp ?n ?m)"
  have rg: "0 < ra_begin_seq_no a" "ra_begin_seq_no a \<le> ra_end_seq_no a" "ra_end_seq_no a \<le> length ms"
    using a(1) by (simp_all add: action_covers_def)
  then have om: "out_ok ?m" using a(2) by (simp add: action_msg_def)
  have "unat ?n = ra_begin_seq_no a" using rg a(3) by (simp add: unat_of_nat take_bit_nat_eq_self)
  then have n63: "unat ?n < 2 ^ 63" using rg a(3) by simp
  have "\<not> s_stopped s" using s(1) by (simp add: ready_def)
  then obtain v where v: "dispatch (dup_parsed pp ?n ?m) (action_wire pp ms a) s =
      sequence_message (out_type ?m) ?n True ?view (action_wire pp ms a) (touch v s)"
    using dispatch_dup [OF _ peer om n63 s(2)] by blast
  let ?s = "(touch v s)\<lparr>s_seq := update_in (?n + 1) (s_seq (touch v s))\<rparr>"
  have rdy: "ready ws ?s" by (rule ready_seq [OF ready_touch [OF s(1)]])
  have d: "dispatch (dup_parsed pp ?n ?m) (action_wire pp ms a) s = handle_message (out_type ?m) ?view ?s"
    unfolding v using sequence_expected [of "out_type ?m" "touch v s"] n by simp
  show ?thesis
  proof (cases "ra_gap_fill a")
    case True
    let ?t = "?s\<lparr>s_seq := update_in (of_nat (ra_end_seq_no a + 1)) (s_seq ?s)\<rparr>"
    have m: "?m = Out_SequenceReset (of_nat (ra_end_seq_no a + 1)) True" using True by (simp add: action_msg_def add.commute)
    have "dispatch (dup_parsed pp ?n ?m) (action_wire pp ms a) s = Some ?t"
      unfolding d unfolding m using handle_gap_fill [of "ra_end_seq_no a + 1"] rg(3) a(3) by simp
    moreover have "ready ws ?t" by (rule ready_seq [OF rdy])
    ultimately show ?thesis using True by (simp add: action_news_def answers_def next_in_def update_in_def)
  next
    case False
    have b: "ra_end_seq_no a = ra_begin_seq_no a" "?m = ms ! (ra_begin_seq_no a - 1)" "\<not> no_resend (out_type ?m)"
      using a(1) False by (simp_all add: action_covers_def action_msg_def)
    obtain p where p: "?m = Out_Custom p" using resendable [OF om b(3)] by blast
    have news: "answers (readable_id s) (action_news ms a) = answer (readable_id s) ?m"
      using False b(2) by (simp add: action_news_def answers_def)
    have pl: "plain_msg ?m" unfolding p by simp
    have me: "readable_id ?s = readable_id s" by (simp add: readable_id_def)
    obtain t where t: "handle_message (out_type ?m) (make_valid_message_view (parsed_fields pp ?n ?m)) ?s = Some t"
      "ready (sent_log (s_params s) ws (answer (readable_id s) ?m)) t" "unsent ?s t"
      using handle_plain [OF rdy pl om, of pp ?n] fits me unfolding news by auto
    then have "dispatch (dup_parsed pp ?n ?m) (action_wire pp ms a) s = Some t"
      unfolding d using handle_custom_dup [of pp ?n p] by (simp add: p)
    then show ?thesis using t(2,3) b(1) unfolding news by (simp add: unsent_def next_in_def update_in_def add.commute)
  qed
qed


section \<open>The whole answer\<close>

text \<open>A session that recovers and holds one message \<open>m\<close> with the number \<open>c\<close>.\<close>

definition holding :: "SessionParameters \<Rightarrow> nat \<Rightarrow> OutMsg \<Rightarrow> string list \<Rightarrow> session \<Rightarrow> session \<Rightarrow> bool" where
  "holding pp c m ws s0 s \<longleftrightarrow> ready ws s \<and> s_state s = RECOVERING_RESEND \<and> s_params s = s_params s0 \<and> s_id s = s_id s0 \<and>
     rc_lookup (s_recovery_cache s) = [of_nat c \<mapsto> out_wire pp (of_nat c) m] \<and> rc_size (s_recovery_cache s) = 1"

lemma drain_held:
  assumes h: "holding pp c m ws s0 s" and peer: "params_ok pp" "peer_of pp (s_params s0)" and m: "plain_msg m" "out_ok m"
    and n: "next_in (s_seq s) = of_nat c" "c < 2 ^ 62" and fits: "log_fits (sent_log (s_params s0) ws (answer (readable_id s0) m))"
  shows "\<exists>t. drain_recovery_cache s = Some t \<and> s_state t = ACTIVE \<and> next_in (s_seq t) = of_nat (c + 1) \<and> rc_empty (s_recovery_cache t) \<and>
     ready (sent_log (s_params s0) ws (answer (readable_id s0) m)) t"
proof -
  have S: "ready ws s" "s_state s = RECOVERING_RESEND" "s_params s = s_params s0" "readable_id s = readable_id s0"
    "rc_lookup (s_recovery_cache s) = [of_nat c \<mapsto> out_wire pp (of_nat c) m]" "rc_size (s_recovery_cache s) = 1"
    using h by (simp_all add: holding_def readable_id_def)
  have u: "unat (of_nat c :: SeqNum) = c" using n(2) by (simp add: unat_of_nat take_bit_nat_eq_self)
  have ans: "answers (readable_id s) [m] = answer (readable_id s0) m" using S(4) by (simp add: answers_def)
  have "\<exists>t. drain_recovery_cache s = Some t \<and> s_state t = ACTIVE \<and> next_in (s_seq t) = of_nat c + of_nat (length [m]) \<and>
     rc_empty (s_recovery_cache t) \<and> ready (sent_log (s_params s0) ws (answer (readable_id s0) m)) t"
    by (rule drain_closes [OF S(1,2) peer(1)]) (use S peer m n u ans fits in simp_all)
  then show ?thesis by (simp add: add.commute)
qed

lemma process_action:
  assumes h: "holding pp c m ws s0 s" and peer: "params_ok pp" "peer_of pp (s_params s0)" and m: "plain_msg m" "out_ok m"
    and a: "action_covers ms a" "\<forall>m \<in> set ms. out_ok m" "length ms < 2 ^ 31" "c \<le> length ms"
    and n: "next_in (s_seq s) = of_nat (ra_begin_seq_no a)" "ra_end_seq_no a < c"
    and ws': "ws' = sent_log (s_params s0) ws (answers (readable_id s0) (action_news ms a))"
    and fits: "log_fits ws'" "ra_end_seq_no a + 1 = c \<Longrightarrow> log_fits (sent_log (s_params s0) ws' (answer (readable_id s0) m))"
  shows "\<exists>t. process_wire_message (action_wire pp ms a) s = Some t \<and>
     (if ra_end_seq_no a + 1 = c
      then s_state t = ACTIVE \<and> next_in (s_seq t) = of_nat (c + 1) \<and> rc_empty (s_recovery_cache t) \<and> ready (sent_log (s_params s0) ws' (answer (readable_id s0) m)) t
      else holding pp c m ws' s0 t \<and> next_in (s_seq t) = of_nat (ra_end_seq_no a + 1))"
proof -
  have S: "ready ws s" "running s" "s_params s = s_params s0" "readable_id s = readable_id s0"
    using h by (simp_all add: holding_def readable_id_def running_def)
  obtain t1 where t1: "dispatch (dup_parsed pp (of_nat (ra_begin_seq_no a)) (action_msg ms a)) (action_wire pp ms a) s = Some t1"
    "ready ws' t1" "next_in (s_seq t1) = of_nat (ra_end_seq_no a + 1)" "s_params t1 = s_params s" "s_state t1 = s_state s"
    "s_recovery_cache t1 = s_recovery_cache s" "s_id t1 = s_id s"
    using take_action [OF S(1,2) peer(1) _ a(1-3) n(1)] peer(2) ws' S(3,4) fits(1) by auto
  have h1: "holding pp c m ws' s0 t1" using h t1(2,4-7) by (simp add: holding_def)
  have "out_ok (action_msg ms a)" using a(1,2) by (auto simp: action_covers_def action_msg_def)
  then have p: "process_wire_message (action_wire pp ms a) s = drain_recovery_cache t1"
    using t1(1) dup_wire_parse [OF peer(1)] by (simp add: process_wire_message_def action_wire_def)
  show ?thesis
  proof (cases "ra_end_seq_no a + 1 = c")
    case True
    then have "next_in (s_seq t1) = of_nat c" "c < 2 ^ 62" using t1(3) a(3,4) by simp_all
    from drain_held [OF h1 peer m this fits(2) [OF True]] show ?thesis using True p by simp
  next
    case False
    have "(of_nat (ra_end_seq_no a + 1) :: SeqNum) \<noteq> of_nat c"
    proof
      assume "(of_nat (ra_end_seq_no a + 1) :: SeqNum) = of_nat c"
      then have "unat (of_nat (ra_end_seq_no a + 1) :: SeqNum) = unat (of_nat c :: SeqNum)" by (rule arg_cong)
      moreover have "unat (of_nat k :: SeqNum) = k" if "k \<le> c" for k
        using that a(3,4) by (simp add: unat_of_nat take_bit_nat_eq_self)
      ultimately show False using False n(2) by (simp del: of_nat_add of_nat_Suc)
    qed
    then have "drain_recovery_cache t1 = Some t1"
      using h1 t1(3) by (intro drain_waits) (simp_all add: holding_def rc_empty_def)
    then show ?thesis using False p h1 t1(3) by simp
  qed
qed


lemma answers_append: "answers me (xs @ ys) = answers me xs @ answers me ys"
  by (simp add: answers_def)

lemma receive_answer:
  assumes "holding pp c m ws s0 s" and peer: "params_ok pp" "peer_of pp (s_params s0)" and m: "plain_msg m" "out_ok m"
    and ms: "\<forall>m \<in> set ms. out_ok m" "length ms < 2 ^ 31" "c \<le> length ms"
    and "next_in (s_seq s) = of_nat b" "concat (map action_range as) = [b..<c]" "b < c" "list_all (action_covers ms) as"
    and "log_fits (sent_log (s_params s0) ws (answers (readable_id s0) (app_messages ms [b..<c] @ [m])))"
  shows "\<exists>t. receive (map (action_wire pp ms) as) s = Some t \<and> s_state t = ACTIVE \<and> next_in (s_seq t) = of_nat (c + 1) \<and>
     rc_empty (s_recovery_cache t) \<and> ready (sent_log (s_params s0) ws (answers (readable_id s0) (app_messages ms [b..<c] @ [m]))) t"
  using assms(1,9-13)
proof (induction as arbitrary: b ws s)
  case Nil
  then show ?case by (simp add: upt_rec [of b c])
next
  case (Cons a as)
  let ?e = "ra_end_seq_no a + 1" and ?me = "readable_id s0" and ?p = "s_params s0"
  have a: "action_covers ms a" using Cons.prems(5) by simp
  then have le: "ra_begin_seq_no a \<le> ra_end_seq_no a" by (simp add: action_covers_def)
  have cat: "[ra_begin_seq_no a..<?e] @ concat (map action_range as) = [b..<c]" using Cons.prems(3) by (simp add: action_range_def [of a] del: upt_Suc)
  then have b: "ra_begin_seq_no a = b" using le Cons.prems(4) by (metis Cons_eq_appendI add.commute less_Suc_eq_le list.inject plus_1_eq_Suc upt_conv_Cons)
  have "set [b..<?e] \<subseteq> set [b..<c]" unfolding cat [symmetric] b by auto
  then have ec: "?e \<le> c" using le b by auto
  have rest: "concat (map action_range as) = [?e..<c]"
    using cat upt_add_eq_append [of b ?e "c - ?e"] ec le b by simp
  have split: "app_messages ms [b..<c] = action_news ms a @ app_messages ms [?e..<c]"
    using action_news_range [OF a] cat rest by (metis action_range_def app_messages_append)
  let ?ws = "sent_log ?p ws (answers ?me (action_news ms a))"
  have all: "sent_log ?p ws (answers ?me (app_messages ms [b..<c] @ [m])) = sent_log ?p ?ws (answers ?me (app_messages ms [?e..<c] @ [m]))"
    by (simp add: split answers_append sent_log_append)
  have ans: "answers ?me [m] = answer ?me m" by (simp add: answers_def)
  have fit: "log_fits ?ws" using Cons.prems(6) sent_log_prefix log_fits_prefix unfolding all by metis
  show ?case
  proof (cases "?e = c")
    case True
    then have as: "as = []"
    proof -
      have "action_range x \<noteq> []" if "action_covers ms x" for x using that by (simp add: action_covers_def action_range_def)
      then show ?thesis using rest True Cons.prems(5) by (cases as) auto
    qed
    have none: "app_messages ms [?e..<c] = []" using True by (simp add: app_messages_def)
    have "log_fits (sent_log ?p ?ws (answer ?me m))" using Cons.prems(6) unfolding all none by (simp add: ans)
    from process_action [OF Cons.prems(1) peer m a ms _ _ refl fit this] Cons.prems(2) b True show ?thesis
      unfolding all none by (auto simp: as ans)
  next
    case False
    then have "log_fits (sent_log ?p ?ws (answer ?me m))" if "?e = c" using that by simp
    from process_action [OF Cons.prems(1) peer m a ms _ _ refl fit this] Cons.prems(2) b False ec obtain s1 where
      s1: "process_wire_message (action_wire pp ms a) s = Some s1" "holding pp c m ?ws s0 s1" "next_in (s_seq s1) = of_nat ?e" by auto
    have "?e < c" using False ec by simp
    from Cons.IH [OF s1(2,3) rest this] Cons.prems(5,6) obtain t where
      t: "receive (map (action_wire pp ms) as) s1 = Some t" "s_state t = ACTIVE" "next_in (s_seq t) = of_nat (c + 1)" "rc_empty (s_recovery_cache t)"
        "ready (sent_log ?p ?ws (answers ?me (app_messages ms [?e..<c] @ [m]))) t"
      unfolding all by auto
    then show ?thesis using s1(1) unfolding all by simp
  qed
qed


section \<open>Lost messages\<close>

lemma process_early:
  assumes s: "ready ws s" "s_state s = ACTIVE" and peer: "params_ok pp" "peer_of pp (s_params s)" and m: "out_ok m"
    and n: "next_in (s_seq s) = of_nat b" "b < c" "c - b < rc_window" "c < 2 ^ 31"
    and q: "q = out_wire (s_params s) (of_nat (length ws + 1)) (Out_ResendRequest (of_nat b) (of_nat (c - 1)))" "log_fits (ws @ [q])"
  shows "\<exists>t. process_wire_message (out_wire pp (of_nat c) m) s = Some t \<and> holding pp c m (ws @ [q]) s t \<and>
     next_in (s_seq t) = of_nat b \<and> pending t = pending s @ q"
proof -
  let ?n = "of_nat c :: SeqNum" and ?e = "of_nat b :: SeqNum"
  let ?raw = "out_wire pp ?n m"
  have u: "unat (of_nat k :: SeqNum) = k" if "k \<le> c" for k using that n(4) by (simp add: unat_of_nat take_bit_nat_eq_self)
  have uc: "unat ?n = c" "unat ?e = b" using u n(2) by simp_all
  have n1: "?n - 1 = of_nat (c - 1)" using n(2) by (simp add: of_nat_diff)
  have diff: "unat (?n - ?e) < rc_window"
  proof -
    have "?n - ?e = of_nat (c - b)" using n(2) by (simp add: of_nat_diff)
    then show ?thesis using u [of "c - b"] n(3) by simp
  qed
  have lt: "?e < ?n" using uc n(2) by (simp add: word_less_nat_alt)
  have room: "ms_room ws q" "length ws < 2 ^ 31" using log_fits_room [OF q(2)] by simp_all
  have n63: "unat ?n < 2 ^ 63" using uc n(4) by simp
  have live: "\<not> s_stopped s" "running s" using s by (simp_all add: ready_def running_def)
  obtain v where v: "dispatch (parsed_fields pp ?n m) ?raw s =
      sequence_message (out_type m) ?n False (make_valid_message_view (parsed_fields pp ?n m)) ?raw (touch v s)"
    using dispatch_peer [OF live(1) peer m n63, of ?raw] live(2) by blast
  have q': "q = out_wire (s_params (touch v s)) (of_nat (length ws + 1)) (Out_ResendRequest ?e (?n - 1))" using q(1) n1 by simp
  have ns: "s_state (touch v s) \<noteq> RECOVERING_RESEND" "?e = next_in (s_seq (touch v s))" using s(2) n(1) by simp_all
  obtain t c' where t: "dispatch (parsed_fields pp ?n m) ?raw s = Some t" "ready (ws @ [q]) t" "s_state t = RECOVERING_RESEND"
    "s_recovery_cache t = c'" "rc_lookup c' = [?n \<mapsto> ?raw]" "rc_size c' = 1" "next_in (s_seq t) = ?e"
    "pending t = pending (touch v s) @ q" "s_params t = s_params (touch v s)" "s_id t = s_id (touch v s)"
    using sequence_gap_ok [where m = "make_valid_message_view (parsed_fields pp ?n m)" and ty = "out_type m" and d = False,
        OF ready_touch [OF s(1)] ns lt diff out_wire_nonempty [of pp ?n m] q' room]
    unfolding v by blast
  have "holding pp c m (ws @ [q]) s t" using t by (simp add: holding_def)
  moreover have "drain_recovery_cache t = Some t"
    using t(4-7) lt by (intro drain_waits) (auto simp: rc_empty_def)
  then have "process_wire_message ?raw s = Some t" using process_parsed [OF peer(1) m t(1)] by simp
  ultimately show ?thesis using t(7,8) by simp
qed

text \<open>
  C1: Lost messages come back. Session \<open>s\<close> expects number \<open>b\<close> of its peer \<open>r\<close>, which has sent the messages \<open>ms\<close>; those from \<open>b\<close>
  to \<open>c - 1\<close> are lost and \<open>c\<close> arrives (fewer than 512 numbers ahead, and of a kind that is answered without a change of state). Then \<open>s\<close>
  asks for exactly the missing range; \<open>r\<close>, when it gets the request, answers with its stored messages; and when \<open>s\<close> has received
  these answers, it is active again, expects \<open>c + 1\<close>, holds nothing back, and has handled every lost
  application message and then message \<open>c\<close> once and in order (seen in the replies it has stored). \<open>r\<close> is active and
  its history is unchanged.\<close>

theorem lost_messages_recovered:
  assumes s: "ready ws s" "s_state s = ACTIVE" "next_in (s_seq s) = of_nat b"
    and r: "history ms r" "s_state r = ACTIVE" "next_in (s_seq r) = of_nat (length ws + 1)" "peer_of (s_params r) (s_params s)"
    and n: "0 < b" "b < c" "c \<le> length ms" "c - b < rc_window" "plain_msg (ms ! (c - 1))"
    and q: "q = out_wire (s_params s) (of_nat (length ws + 1)) (Out_ResendRequest (of_nat b) (of_nat (c - 1)))"
    and ws': "ws' = sent_log (s_params s) (ws @ [q]) (answers (readable_id s) (app_messages ms [b..<c] @ [ms ! (c - 1)]))" "log_fits ws'"
  shows "\<exists>s1 r1 as s2. process_wire_message (out_wire (s_params r) (of_nat c) (ms ! (c - 1))) s = Some s1 \<and> pending s1 = pending s @ q \<and>
     process_wire_message q r = Some r1 \<and> pending r1 = pending r @ concat as \<and> history ms r1 \<and> s_state r1 = ACTIVE \<and>
     receive as s1 = Some s2 \<and> s_state s2 = ACTIVE \<and> next_in (s_seq s2) = of_nat (c + 1) \<and> rc_empty (s_recovery_cache s2) \<and> ready ws' s2"
proof -
  let ?m = "ms ! (c - 1)" and ?pp = "s_params r"
  have h: "params_ok ?pp" "\<forall>m \<in> set ms. out_ok m" "length ms < 2 ^ 31" "params_ok (s_params s)"
    using r(1) s(1) by (simp_all add: history_def ready_def log_fits_def)
  have m: "out_ok ?m" using h(2) n(2,3) by simp
  have fit: "log_fits (ws @ [q])" using ws' sent_log_prefix log_fits_prefix by metis
  have c31: "c < 2 ^ 31" using n(3) h(3) by simp
  obtain s1 where s1: "process_wire_message (out_wire ?pp (of_nat c) ?m) s = Some s1" "holding ?pp c ?m (ws @ [q]) s s1"
    "next_in (s_seq s1) = of_nat b" "pending s1 = pending s @ q"
    using process_early [OF s(1,2) h(1) r(4) m s(3) n(2,4) c31 q fit] by blast
  have po: "peer_of (s_params s) ?pp" using r(4) by (simp add: peer_of_def)
  have small: "unat (of_nat (length ws + 1) :: SeqNum) < 2 ^ 63"
    using log_fits_room [OF fit] by (simp add: unat_of_nat take_bit_nat_eq_self del: of_nat_Suc)
  have b32: "b < 2 ^ 32" "c - 1 < 2 ^ 32" using n c31 by simp_all
  have last: "last_asked ms (c - 1) + 1 = c" using n(1-3) by (simp add: last_asked_def)
  obtain r1 as where r1: "process_wire_message q r = Some r1" "history ms r1" "s_state r1 = ACTIVE"
    "pending r1 = pending r @ concat (map (action_wire ?pp ms) as)" "concat (map action_range as) = [b..<c]" "list_all (action_covers ms) as"
    using answer_resend_request [OF r(1,2) h(4) po r(3) [symmetric] small n(1) b32] unfolding q last by blast
  obtain s2 where "receive (map (action_wire ?pp ms) as) s1 = Some s2" "s_state s2 = ACTIVE" "next_in (s_seq s2) = of_nat (c + 1)"
    "rc_empty (s_recovery_cache s2)" "ready ws' s2"
    using receive_answer [OF s1(2) h(1) r(4) n(5) m h(2,3) n(3) s1(3) r1(5) n(2) r1(6)] ws' by blast
  with s1(1,4) r1(1-4) show ?thesis by (intro exI conjI)
qed


lemma sample_exchange_log:
  assumes "s_params s = default_params" "s_id s = \<lparr>storage_index = 0, sid = 1\<rparr>"
  shows "log_fits (sent_log default_params [out_wire default_params 1 (Out_ResendRequest 1 2)]
     (answers (readable_id s) (app_messages sample_sent [1..<3] @ [sample_sent ! 2])))"
proof -
  have "readable_id s = ''test_sender<->test_target [1]''"
    using assms by (simp add: readable_id_def default_params_def to_chars.simps)
  moreover have "sv_find ''x'' ''custom_response'' 0 = None" by (simp add: sv_find_def starts_with_def)
  moreover have "app_messages sample_sent [1..<3] = [Out_Custom ''x'']" by (simp add: app_messages_def sample_sent_def upt_rec no_resend_def)
  ultimately have "answers (readable_id s) (app_messages sample_sent [1..<3] @ [sample_sent ! 2]) =
      [Out_Custom ''custom_response fromtest_sender<->test_target [1]'', Out_Heartbeat ''b'']"
    by (simp add: answers_def sample_sent_def)
  then show ?thesis
    by (simp add: log_fits_def length_out_wire out_fields_def header_fields_def enc_fields_def enc_field_def default_params_def now_fix_def
        to_chars.simps to_chars_int_def min_blob_buffer_grow_size_def)
qed

theorem lost_messages_recovered_witness:
  "\<exists>s r s1 r1 as s2. history sample_sent r \<and> process_wire_message (out_wire sample_peer 3 (Out_TestRequest ''b'')) s = Some s1 \<and>
     process_wire_message (out_wire default_params 1 (Out_ResendRequest 1 2)) r = Some r1 \<and> pending r1 = pending r @ concat as \<and>
     receive as s1 = Some s2 \<and> s_state s2 = ACTIVE \<and> next_in (s_seq s2) = 4"
proof -
  obtain s where s: "ready [] s" "s_state s = ACTIVE" "s_params s = default_params" "next_in (s_seq s) = 1" "s_id s = \<lparr>storage_index = 0, sid = 1\<rparr>"
    using connected_session [of default_params] by auto
  obtain r where r: "history sample_sent r" "s_state r = ACTIVE" "s_params r = sample_peer" "next_in (s_seq r) = 1"
    using sample_history .
  have n: "next_in (s_seq s) = of_nat 1" "next_in (s_seq r) = of_nat (length ([] :: string list) + 1)" "peer_of (s_params r) (s_params s)"
    "0 < (1 :: nat)" "1 < (3 :: nat)" "3 \<le> length sample_sent" "(3 :: nat) - 1 < rc_window" "plain_msg (sample_sent ! (3 - 1))"
    using s r by (simp_all add: sample_sent_def rc_window_def)
  have fits: "log_fits (sent_log (s_params s) ([] @ [out_wire (s_params s) (of_nat (length ([] :: string list) + 1)) (Out_ResendRequest (of_nat 1) (of_nat (3 - 1)))])
     (answers (readable_id s) (app_messages sample_sent [1..<3] @ [sample_sent ! (3 - 1)])))"
    using sample_exchange_log [OF s(3,5)] s(3) by simp
  obtain s1 r1 as s2 where "process_wire_message (out_wire (s_params r) (of_nat 3) (sample_sent ! (3 - 1))) s = Some s1"
    "process_wire_message (out_wire (s_params s) (of_nat (length ([] :: string list) + 1)) (Out_ResendRequest (of_nat 1) (of_nat (3 - 1)))) r = Some r1"
    "pending r1 = pending r @ concat as" "receive as s1 = Some s2" "s_state s2 = ACTIVE" "next_in (s_seq s2) = of_nat (3 + 1)"
    using lost_messages_recovered [OF s(1,2) n(1) r(1,2) n(2-8) refl refl fits] by blast
  with s(3) r(1,3) show ?thesis
    by (intro exI [of _ s] exI [of _ r] exI [of _ s1] exI [of _ r1] exI [of _ as] exI [of _ s2]) (simp add: sample_sent_def)
qed

end
