(* ===== verification/Loopback.thy ===== *)
theory Loopback
  imports Interop Network_Error
begin

text \<open>
  \<open>Fix::TestSupport::LoopbackConnection\<close> (include/fix/core/LoopbackTransport.hpp): the in-memory duplex
  connection behind the \<open>IConnection\<close> interface. The two ends share two channels; the channel of an
  end holds the bytes that wait for it and its pending read. Each member function takes the locks it needs
  and is one step (the tests run both ends on one thread); handlers are posted to the executor, which runs them in the order of
  \<open>lp_posted\<close>. A completed read is posted with the bytes copied into its buffer.
\<close>

datatype end_point = End_A | End_B

fun peer_end :: "end_point \<Rightarrow> end_point" where
  "peer_end End_A = End_B"
| "peer_end End_B = End_A"

text \<open>The pending read keeps the size of its buffer.\<close>

record LoopbackChannel =
  ch_inbound :: string
  ch_pending :: "nat option"
  ch_closed :: bool
  ch_close_reason :: asio_error

datatype Completion = Read_Completed end_point error_code string | Write_Completed end_point error_code nat

record loopback =
  lp_channel :: "end_point \<Rightarrow> LoopbackChannel"
  lp_write_log :: "end_point \<Rightarrow> string"
  lp_posted :: "Completion list"

definition channel_new :: LoopbackChannel where
  "channel_new = \<lparr>ch_inbound = [], ch_pending = None, ch_closed = False, ch_close_reason = operation_aborted\<rparr>"

definition make_pair :: loopback where
  "make_pair = \<lparr>lp_channel = (\<lambda>_. channel_new), lp_write_log = (\<lambda>_. []), lp_posted = []\<rparr>"

definition set_channel :: "end_point \<Rightarrow> LoopbackChannel \<Rightarrow> loopback \<Rightarrow> loopback" where
  "set_channel x c l = l\<lparr>lp_channel := (lp_channel l)(x := c)\<rparr>"

definition post_completion :: "Completion \<Rightarrow> loopback \<Rightarrow> loopback" where
  "post_completion p l = l\<lparr>lp_posted := lp_posted l @ [p]\<rparr>"

definition async_read_some :: "end_point \<Rightarrow> nat \<Rightarrow> loopback \<Rightarrow> loopback" where
  "async_read_some x room l =
     (let c = lp_channel l x in
      if ch_closed c then post_completion (Read_Completed x (Some (ch_close_reason c)) []) l
      else if ch_inbound c \<noteq> [] then
        let n = min room (length (ch_inbound c)) in
        post_completion (Read_Completed x None (take n (ch_inbound c))) (set_channel x (c\<lparr>ch_inbound := drop n (ch_inbound c)\<rparr>) l)
      else set_channel x (c\<lparr>ch_pending := Some room\<rparr>) l)"

text \<open>Bytes arrive at an end; a pending read is completed with as many as fit.\<close>

definition fulfil :: "end_point \<Rightarrow> string \<Rightarrow> loopback \<Rightarrow> loopback" where
  "fulfil x bytes l =
     (let c = (lp_channel l x)\<lparr>ch_inbound := ch_inbound (lp_channel l x) @ bytes\<rparr> in
      case ch_pending c of
        None \<Rightarrow> set_channel x c l
      | Some room \<Rightarrow>
          let n = min room (length (ch_inbound c)) in
          post_completion (Read_Completed x None (take n (ch_inbound c)))
            (set_channel x (c\<lparr>ch_pending := None, ch_inbound := drop n (ch_inbound c)\<rparr>) l))"

definition async_write_some :: "end_point \<Rightarrow> string \<Rightarrow> loopback \<Rightarrow> loopback" where
  "async_write_some x bytes l =
     (let l1 = l\<lparr>lp_write_log := (lp_write_log l)(x := lp_write_log l x @ bytes)\<rparr> in
      if ch_closed (lp_channel l1 (peer_end x)) then post_completion (Write_Completed x (Some broken_pipe) 0) l1
      else post_completion (Write_Completed x None (length bytes)) (fulfil (peer_end x) bytes l1))"

definition abort_pending :: "end_point \<Rightarrow> asio_error \<Rightarrow> loopback \<Rightarrow> loopback" where
  "abort_pending x reason l =
     (let c = lp_channel l x in
      case ch_pending c of
        None \<Rightarrow> l
      | Some room \<Rightarrow> post_completion (Read_Completed x (Some reason) []) (set_channel x (c\<lparr>ch_pending := None\<rparr>) l))"

definition close_connection :: "end_point \<Rightarrow> loopback \<Rightarrow> loopback" where
  "close_connection x l =
     (let c = lp_channel l x in abort_pending x (ch_close_reason c) (set_channel x (c\<lparr>ch_closed := True\<rparr>) l))"

definition simulate_disconnect :: "end_point \<Rightarrow> asio_error \<Rightarrow> loopback \<Rightarrow> loopback" where
  "simulate_disconnect x ec l =
     (let c = lp_channel l x in abort_pending x ec (set_channel x (c\<lparr>ch_closed := True, ch_close_reason := ec\<rparr>) l))"

definition inject_inbound :: "end_point \<Rightarrow> string \<Rightarrow> loopback \<Rightarrow> loopback" where
  "inject_inbound x bytes l = (if ch_closed (lp_channel l x) then l else fulfil x bytes l)"

definition take_write_log :: "end_point \<Rightarrow> loopback \<Rightarrow> string \<times> loopback" where
  "take_write_log x l = (lp_write_log l x, l\<lparr>lp_write_log := (lp_write_log l)(x := [])\<rparr>)"

definition peek_write_log :: "end_point \<Rightarrow> loopback \<Rightarrow> string" where
  "peek_write_log x l = lp_write_log l x"

section \<open>What an end has received\<close>

fun read_by :: "end_point \<Rightarrow> Completion \<Rightarrow> string list" where
  "read_by x (Read_Completed y None bytes) = (if x = y then [bytes] else [])"
| "read_by x _ = []"

fun answers_read :: "end_point \<Rightarrow> Completion \<Rightarrow> bool" where
  "answers_read x (Read_Completed y ec bytes) \<longleftrightarrow> x = y"
| "answers_read x _ \<longleftrightarrow> False"

definition chunks :: "end_point \<Rightarrow> loopback \<Rightarrow> string list" where
  "chunks x l = concat (map (read_by x) (lp_posted l))"

definition read_answers :: "end_point \<Rightarrow> loopback \<Rightarrow> nat" where
  "read_answers x l = length (filter (answers_read x) (lp_posted l))"

text \<open>
  A use of the connection: reads (one at a time per end, as the session does), writes, closing and
  the functions for tests. \<open>sent x\<close> are the bytes put into the channel of \<open>x\<close>, \<open>reads x\<close> the number of reads it
  started.
\<close>

inductive loop_run :: "loopback \<Rightarrow> (end_point \<Rightarrow> string) \<Rightarrow> (end_point \<Rightarrow> nat) \<Rightarrow> bool" where
  lr_new: "loop_run make_pair (\<lambda>_. []) (\<lambda>_. 0)"
| lr_read: "loop_run l sent reads \<Longrightarrow> ch_pending (lp_channel l x) = None \<Longrightarrow>
    loop_run (async_read_some x room l) sent (reads(x := reads x + 1))"
| lr_write: "loop_run l sent reads \<Longrightarrow>
    loop_run (async_write_some x bytes l)
      (if ch_closed (lp_channel l (peer_end x)) then sent else sent(peer_end x := sent (peer_end x) @ bytes)) reads"
| lr_inject: "loop_run l sent reads \<Longrightarrow>
    loop_run (inject_inbound x bytes l) (if ch_closed (lp_channel l x) then sent else sent(x := sent x @ bytes)) reads"
| lr_close: "loop_run l sent reads \<Longrightarrow> loop_run (close_connection x l) sent reads"
| lr_disconnect: "loop_run l sent reads \<Longrightarrow> loop_run (simulate_disconnect x ec l) sent reads"
| lr_take: "loop_run l sent reads \<Longrightarrow> loop_run (snd (take_write_log x l)) sent reads"

definition loop_inv :: "loopback \<Rightarrow> (end_point \<Rightarrow> string) \<Rightarrow> (end_point \<Rightarrow> nat) \<Rightarrow> bool" where
  "loop_inv l sent reads \<longleftrightarrow> (\<forall>x. sent x = concat (chunks x l) @ ch_inbound (lp_channel l x) \<and>
     reads x = read_answers x l + (if ch_pending (lp_channel l x) = None then 0 else 1) \<and>
     (ch_pending (lp_channel l x) \<noteq> None \<longrightarrow> ch_inbound (lp_channel l x) = [] \<and> \<not> ch_closed (lp_channel l x)))"

lemmas loop_simps = loop_inv_def chunks_def read_answers_def set_channel_def post_completion_def Let_def

lemma fulfil_inv:
  assumes "loop_inv l sent reads" "\<not> ch_closed (lp_channel l x)"
  shows "loop_inv (fulfil x bytes l) (sent(x := sent x @ bytes)) reads"
  using assms by (auto simp: loop_simps fulfil_def split: option.splits) 

lemma abort_inv:
  assumes "loop_inv l sent reads"
  shows "loop_inv (close_connection x l) sent reads" "loop_inv (simulate_disconnect x ec l) sent reads"
  using assms
  by (auto simp: loop_simps close_connection_def simulate_disconnect_def abort_pending_def split: option.splits)

lemma loop_run_inv: "loop_run l sent reads \<Longrightarrow> loop_inv l sent reads"
proof (induction rule: loop_run.induct)
  case lr_new
  show ?case by (simp add: loop_simps make_pair_def channel_new_def)
next
  case (lr_read l sent reads x room)
  then show ?case by (auto simp: loop_simps async_read_some_def)
next
  case (lr_write l sent reads x bytes)
  have "loop_inv (l\<lparr>lp_write_log := g\<rparr>) sent reads" for g using lr_write.IH by (simp add: loop_simps)
  from fulfil_inv [OF this, where x = "peer_end x" and bytes = bytes] lr_write.IH show ?case
    by (auto simp: async_write_some_def Let_def post_completion_def) (auto simp: loop_simps)
next
  case (lr_inject l sent reads x bytes)
  then show ?case using fulfil_inv [OF lr_inject.IH, of x bytes] by (simp add: inject_inbound_def fun_upd_def)
next
  case (lr_close l sent reads x)
  then show ?case using abort_inv by blast
next
  case (lr_disconnect l sent reads x ec)
  then show ?case using abort_inv by blast
next
  case (lr_take l sent reads x)
  then show ?case by (simp add: take_write_log_def loop_simps)
qed

section \<open>Main theorems\<close>

text \<open>
  C39: The loopback is a reliable byte stream. For any use of its two ends: the bytes that completed reads delivered to an end,
  followed by those waiting for it, are exactly the bytes written to it, in order; every read that was
  started is answered once or still pending, and a read is pending only when nothing waits; a read with room for at
  least one byte of an open end that has bytes waiting completes at once with the first of them.\<close>

theorem loopback_stream:
  assumes "loop_run l sent reads"
  shows "sent x = concat (chunks x l) @ ch_inbound (lp_channel l x) \<and>
    reads x = read_answers x l + (if ch_pending (lp_channel l x) = None then 0 else 1) \<and>
    (ch_pending (lp_channel l x) \<noteq> None \<longrightarrow> ch_inbound (lp_channel l x) = []) \<and>
    (ch_inbound (lp_channel l x) \<noteq> [] \<and> \<not> ch_closed (lp_channel l x) \<and> 0 < n \<longrightarrow>
       chunks x (async_read_some x n l) = chunks x l @ [take n (ch_inbound (lp_channel l x))])"
proof -
  have "loop_inv l sent reads" using assms by (rule loop_run_inv)
  moreover have "take (min n (length xs)) xs = take n xs" for xs :: string by (simp add: min_def)
  ultimately show ?thesis by (auto simp: loop_simps async_read_some_def)
qed

section \<open>Sample use\<close>

lemma sample_loop:
  "loop_run (async_read_some End_B n (async_write_some End_A w (async_read_some End_B 1 make_pair))) ((\<lambda>_. [])(End_B := w)) ((\<lambda>_. 0)(End_B := 2))"
  if "w \<noteq> []"
proof -
  let ?l1 = "async_read_some End_B 1 make_pair" and ?l2 = "async_write_some End_A w (async_read_some End_B 1 make_pair)"
  have "loop_run ?l1 (\<lambda>_. []) ((\<lambda>_. 0)(End_B := 0 + 1))"
    by (rule lr_read [OF lr_new]) (simp add: make_pair_def channel_new_def)
  from lr_write [OF this, of End_A w] have run: "loop_run ?l2 ((\<lambda>_. [])(End_B := w)) ((\<lambda>_. 0)(End_B := 1))"
    by (simp add: async_read_some_def make_pair_def channel_new_def set_channel_def Let_def fun_upd_def)
  have "ch_pending (lp_channel ?l2 End_B) = None"
    by (simp add: async_write_some_def async_read_some_def make_pair_def channel_new_def set_channel_def fulfil_def post_completion_def Let_def)
  from lr_read [OF run this, of n] show ?thesis by (simp add: fun_upd_idem_iff numeral_2_eq_2)
qed

theorem loopback_stream_witness:
  "\<exists>l sent reads. loop_run l sent reads \<and> sent End_B = ''hello'' \<and> reads End_B = 2 \<and> chunks End_B l = [''h'', ''ello''] \<and>
     sent End_B = concat (chunks End_B l) @ ch_inbound (lp_channel l End_B)"
proof -
  let ?l = "async_read_some End_B 100 (async_write_some End_A ''hello'' (async_read_some End_B 1 make_pair))"
  have r: "loop_run ?l ((\<lambda>_. [])(End_B := ''hello'')) ((\<lambda>_. 0)(End_B := 2))" by (rule sample_loop) simp
  have "chunks End_B ?l = [''h'', ''ello'']"
    by (simp add: chunks_def async_write_some_def async_read_some_def make_pair_def channel_new_def set_channel_def fulfil_def post_completion_def Let_def)
  with r loopback_stream [OF r, of End_B 0] show ?thesis
    by (intro exI [of _ ?l] exI [of _ "(\<lambda>_. [])(End_B := ''hello'')"] exI [of _ "(\<lambda>_. 0)(End_B := 2)"]) simp
qed

end
