(* ===== verification/Session_Stream.thy ===== *)
theory Session_Stream
  imports Session_Exchange Loopback
begin

text \<open>
  A session and the bytes it reads: however the stream is cut into reads, the session does what it does when the
  messages of the stream are processed one by one. No handler depends on the framer or on what was emitted before.
\<close>

section \<open>What the handlers cannot see\<close>

text \<open>The session without its framer and without the reads it has started.\<close>

definition norm :: "session \<Rightarrow> session" where
  "norm s = s\<lparr>s_framer := framer_new, s_out := filter (\<lambda>e. e \<noteq> Async_Read) (s_out s)\<rparr>"

lemma norm_fields [simp]:
  "s_recovery_cache (norm s) = s_recovery_cache s" "s_arena (norm s) = s_arena s" "s_params (norm s) = s_params s"
  "s_write_q (norm s) = s_write_q s" "s_conn (norm s) = s_conn s" "s_id (norm s) = s_id s" "s_store (norm s) = s_store s"
  "s_state (norm s) = s_state s" "s_seq (norm s) = s_seq s" "s_scratch (norm s) = s_scratch s" "s_validator (norm s) = s_validator s"
  "s_test_req_id (norm s) = s_test_req_id s" "s_stopped (norm s) = s_stopped s" "s_write_inflight (norm s) = s_write_inflight s"
  "s_awaiting_test_request_response (norm s) = s_awaiting_test_request_response s" "s_reconnecting (norm s) = s_reconnecting s"
  "s_role (norm s) = s_role s"
  by (simp_all add: norm_def)

lemma norm_updates [simp]:
  "(norm s)\<lparr>s_recovery_cache := rc\<rparr> = norm (s\<lparr>s_recovery_cache := rc\<rparr>)" "(norm s)\<lparr>s_arena := a\<rparr> = norm (s\<lparr>s_arena := a\<rparr>)"
  "(norm s)\<lparr>s_params := p\<rparr> = norm (s\<lparr>s_params := p\<rparr>)" "(norm s)\<lparr>s_write_q := q\<rparr> = norm (s\<lparr>s_write_q := q\<rparr>)"
  "(norm s)\<lparr>s_store := st\<rparr> = norm (s\<lparr>s_store := st\<rparr>)" "(norm s)\<lparr>s_state := x\<rparr> = norm (s\<lparr>s_state := x\<rparr>)"
  "(norm s)\<lparr>s_seq := sp\<rparr> = norm (s\<lparr>s_seq := sp\<rparr>)" "(norm s)\<lparr>s_scratch := sc\<rparr> = norm (s\<lparr>s_scratch := sc\<rparr>)"
  "(norm s)\<lparr>s_validator := v\<rparr> = norm (s\<lparr>s_validator := v\<rparr>)" "(norm s)\<lparr>s_stopped := b\<rparr> = norm (s\<lparr>s_stopped := b\<rparr>)"
  "(norm s)\<lparr>s_write_inflight := b\<rparr> = norm (s\<lparr>s_write_inflight := b\<rparr>)"
  "(norm s)\<lparr>s_awaiting_test_request_response := b\<rparr> = norm (s\<lparr>s_awaiting_test_request_response := b\<rparr>)"
  by (simp_all add: norm_def)

lemma norm_emit: "Async_Read \<notin> set es \<Longrightarrow> emit es (norm s) = norm (emit es s)"
  by (simp add: norm_def emit_def filter_id_conv) (metis (mono_tags, lifting) filter_True)

text \<open>
  A handler is blind for \<open>norm\<close> when it may be applied before or after it; the facts \<open>blind\<close> say so of every
  function that runs while a message is processed.
\<close>

named_theorems blind \<open>functions that commute with norm\<close>

lemma bind_norm [blind]:
  "Option.bind (map_option norm x) k = Option.bind x (\<lambda>a. k (norm a))"
  "Option.bind (map_option (map_prod id norm) y) l = Option.bind y (\<lambda>(c, a). l (c, norm a))"
  "map_option f (Option.bind z m) = Option.bind z (\<lambda>a. map_option f (m a))"
proof -
  show "Option.bind (map_option norm x) k = Option.bind x (\<lambda>a. k (norm a))" by (cases x) simp_all
  show "Option.bind (map_option (map_prod id norm) y) l = Option.bind y (\<lambda>(c, a). l (c, norm a))" by (cases y) auto
  show "map_option f (Option.bind z m) = Option.bind z (\<lambda>a. map_option f (m a))" by (cases z) simp_all
qed

lemma norm_if: "(if b then norm s else norm t) = norm (if b then s else t)"
  by simp

lemmas blind_defs = Let_def if_distrib [where f = "map_option norm"] norm_emit norm_if

lemma blind_timers [blind]:
  "cancel_timers (norm s) = norm (cancel_timers s)" "schedule_heartbeat (norm s) = norm (schedule_heartbeat s)"
  "schedule_test_request_timeout (norm s) = norm (schedule_test_request_timeout s)" "become_active (norm s) = norm (become_active s)"
  by (simp_all add: cancel_timers_def schedule_heartbeat_def schedule_test_request_timeout_def become_active_def norm_emit)

lemma blind_clear [blind]: "clear_write_q (norm s) = map_option norm (clear_write_q s)"
  by (simp add: clear_write_q_def blind)

lemma blind_stop [blind]: "stop (norm s) = map_option norm (stop s)"
  by (simp add: stop_def blind_defs blind)

lemma blind_do_write [blind]: "do_write (norm s) = map_option norm (do_write s)"
  by (simp add: do_write_def blind_defs blind split: list.split)

lemma blind_send_bytes [blind]: "send_bytes w (norm s) = map_option norm (send_bytes w s)"
  by (simp add: send_bytes_def blind_defs blind)

lemma blind_send_message [blind]: "send_message w r (norm s) = map_option norm (send_message w r s)"
  by (cases r) (simp_all add: send_message_def blind_defs blind split_def cong: if_cong)

lemma blind_factory [blind]: "with_factory b (norm s) = map_option (map_prod id norm) (with_factory b s)"
  by (simp add: with_factory_def blind split_def)

lemma blind_sends [blind]:
  "send_logon b (norm s) = map_option norm (send_logon b s)" "send_reject n k tag txt (norm s) = map_option norm (send_reject n k tag txt s)"
  "send_logout txt (norm s) = map_option norm (send_logout txt s)" "send_heartbeat txt (norm s) = map_option norm (send_heartbeat txt s)"
  "send_resend_request x y (norm s) = map_option norm (send_resend_request x y s)" "send_custom txt (norm s) = map_option norm (send_custom txt s)"
  "send_sequence_reset_gap_fill x y (norm s) = map_option norm (send_sequence_reset_gap_fill x y s)"
  by (simp_all add: send_logon_def send_reject_def send_logout_def send_heartbeat_def send_resend_request_def send_custom_def
      send_sequence_reset_gap_fill_def blind split_def)

lemma blind_stop_with_logout [blind]: "stop_with_logout reason (norm s) = map_option norm (stop_with_logout reason s)"
  by (simp add: stop_with_logout_def blind_defs blind)

section \<open>Handlers\<close>

lemma blind_heartbeat_int [blind]: "validate_heartbeat_int v b (norm s) = map_prod id norm (validate_heartbeat_int v b s)"
  by (simp add: validate_heartbeat_int_def Let_def split: prod.split)

lemma blind_logon [blind]: "handle_logon m (norm s) = map_option norm (handle_logon m s)"
  by (simp add: handle_logon_def blind_defs blind split_def cong: if_cong)

lemma blind_handlers [blind]:
  "handle_logout m (norm s) = map_option norm (handle_logout m s)" "handle_heartbeat m (norm s) = map_option norm (handle_heartbeat m s)"
  "handle_test_request m (norm s) = map_option norm (handle_test_request m s)" "handle_sequence_reset m (norm s) = map_option norm (handle_sequence_reset m s)"
  "handle_reject m (norm s) = map_option norm (handle_reject m s)" "handle_custom m (norm s) = map_option norm (handle_custom m s)"
  by (simp_all add: handle_logout_def handle_heartbeat_def handle_test_request_def handle_sequence_reset_def handle_reject_def handle_custom_def
      readable_id_def blind_defs blind cong: if_cong)

lemma blind_resend_action [blind]: "resend_action a (norm s) = map_option norm (resend_action a s)"
  by (simp add: resend_action_def blind_defs blind split_def)

section \<open>Loops and dispatch\<close>

text \<open>A loop is blind when it returns after \<open>norm\<close> with the same result, and returns whenever it does after \<open>norm\<close>.\<close>

lemma blindI:
  assumes "\<And>t. f s = Some t \<Longrightarrow> f (norm s) = Some (norm t)" "\<And>t. f (norm s) = Some t \<Longrightarrow> f s \<noteq> None"
  shows "f (norm s) = map_option norm (f s)"
  using assms by (cases "f s"; cases "f (norm s)") auto

lemma resend_loop_norm:
  assumes "resend_loop r s = Some t"
  shows "resend_loop r (norm s) = Some (norm t)"
  using assms
proof (induction rule: resend_loop.raw_induct [rotated, consumes 1, case_names step])
  case (step loop r s t)
  show ?case
  proof (cases "rs_has_next r")
    case True
    with step.hyps obtain a r' s1 where "rs_next r = Some (a, r')" "resend_action a s = Some s1" "loop r' s1 = Some t"
      by (auto simp: bind_eq_Some_conv)
    then show ?thesis using True step.IH by (subst resend_loop.simps) (simp add: blind)
  qed (use step in \<open>subst resend_loop.simps, simp\<close>)
qed

lemma resend_loop_norm_returns:
  assumes "resend_loop r s' = Some t'" "s' = norm s"
  shows "resend_loop r s \<noteq> None"
  using assms
proof (induction arbitrary: s rule: resend_loop.raw_induct [rotated, consumes 1, case_names step])
  case (step loop r s' t')
  show ?case
  proof (cases "rs_has_next r")
    case True
    with step.hyps obtain a r' s1' where n: "rs_next r = Some (a, r')" "resend_action a s' = Some s1'" "loop r' s1' = Some t'"
      by (auto simp: bind_eq_Some_conv)
    then obtain s1 where s1: "resend_action a s = Some s1" "s1' = norm s1" using step.prems by (auto simp: blind)
    then show ?thesis using True n step.IH [OF n(3) s1(2)] by (subst resend_loop.simps) simp
  qed (subst resend_loop.simps, simp)
qed

lemma blind_resend_loop [blind]: "resend_loop r (norm s) = map_option norm (resend_loop r s)"
  by (rule blindI) (use resend_loop_norm resend_loop_norm_returns in blast)+

lemma blind_resend_request [blind]: "handle_resend_request m (norm s) = map_option norm (handle_resend_request m s)"
  by (simp add: handle_resend_request_def Let_def blind cong: if_cong)

lemma blind_message [blind]: "handle_message ty m (norm s) = map_option norm (handle_message ty m s)"
  by (simp add: handle_message_def blind norm_emit)

lemma blind_sequence [blind]: "sequence_message ty n d m raw (norm s) = map_option norm (sequence_message ty n d m raw s)"
  by (simp add: sequence_message_def out_of_sequence_def blind_defs blind cong: if_cong)

lemma blind_dispatch [blind]: "dispatch m raw (norm s) = map_option norm (dispatch m raw s)"
  by (cases "validate_message (make_valid_message_view m) (s_params s) (s_validator s)")
     (simp_all add: dispatch_def blind_defs blind cong: if_cong split: list.split option.split)

text \<open>The drain returns a flag as well.\<close>

lemma drain_loop_norm:
  assumes "drain_loop s = Some r"
  shows "drain_loop (norm s) = Some (map_prod id norm r)"
  using assms
proof (induction rule: drain_loop.raw_induct [rotated, consumes 1, case_names step])
  case (step loop s r)
  let ?n = "next_in (s_seq s)"
  show ?case
  proof (cases "rc_contains ?n (s_recovery_cache s)")
    case True
    then obtain raw where raw: "rc_get ?n (s_recovery_cache s) = Some raw" by (simp add: rc_get_def Let_def)
    obtain m errs where p: "parse raw = (m, errs)" by fastforce
    show ?thesis
    proof (cases "errs = []")
      case ok: True
      with step.hyps True raw p obtain s1 rc where "dispatch m raw s = Some s1" "rc_consume ?n (s_recovery_cache s1) = Some rc"
        "loop (s1\<lparr>s_recovery_cache := rc\<rparr>) = Some r"
        by (auto simp: Let_def bind_eq_Some_conv)
      then show ?thesis using True raw p ok step.IH by (subst drain_loop.simps) (simp add: Let_def blind id_def)
    next
      case False
      with step.hyps True raw p show ?thesis by (subst drain_loop.simps) (auto simp: Let_def blind bind_eq_Some_conv)
    qed
  qed (use step in \<open>subst drain_loop.simps, auto simp: Let_def\<close>)
qed

lemma drain_loop_norm_returns:
  assumes "drain_loop s' = Some r'" "s' = norm s"
  shows "drain_loop s \<noteq> None"
  using assms
proof (induction arbitrary: s rule: drain_loop.raw_induct [rotated, consumes 1, case_names step])
  case (step loop s' r')
  let ?n = "next_in (s_seq s)"
  show ?case
  proof (cases "rc_contains ?n (s_recovery_cache s)")
    case True
    then obtain raw where raw: "rc_get ?n (s_recovery_cache s) = Some raw" by (simp add: rc_get_def Let_def)
    obtain m errs where p: "parse raw = (m, errs)" by fastforce
    show ?thesis
    proof (cases "errs = []")
      case ok: True
      with step.hyps step.prems True raw p obtain s1 rc where d: "dispatch m raw s = Some s1" "rc_consume ?n (s_recovery_cache s1) = Some rc"
        "loop (norm (s1\<lparr>s_recovery_cache := rc\<rparr>)) = Some r'"
        by (auto simp: Let_def bind_eq_Some_conv blind)
      then show ?thesis using True raw p ok step.IH [OF d(3) refl] by (subst drain_loop.simps) (simp add: Let_def)
    next
      case False
      with step.hyps step.prems True raw p show ?thesis by (subst drain_loop.simps) (auto simp: Let_def blind bind_eq_Some_conv)
    qed
  qed (subst drain_loop.simps, simp add: Let_def)
qed

lemma blind_drain_loop [blind]: "drain_loop (norm s) = map_option (map_prod id norm) (drain_loop s)"
proof (cases "drain_loop s")
  case None
  then have "drain_loop (norm s) = None" using drain_loop_norm_returns [of "norm s" _ s] by (cases "drain_loop (norm s)") auto
  then show ?thesis using None by simp
qed (simp add: drain_loop_norm)

lemma blind_drain [blind]: "drain_recovery_cache (norm s) = map_option norm (drain_recovery_cache s)"
  by (simp add: drain_recovery_cache_def blind_defs blind split_def cong: if_cong)

lemma blind_process [blind]: "process_wire_message w (norm s) = map_option norm (process_wire_message w s)"
  by (simp add: process_wire_message_def blind_defs blind split: prod.split)

section \<open>Messages one by one\<close>

primrec process_all :: "string list \<Rightarrow> session \<Rightarrow> session option" where
  "process_all [] s = Some s"
| "process_all (m # ms) s = do { t \<leftarrow> process_wire_message m s; process_all ms t }"

lemma process_all_append: "process_all (ms @ ns) s = do { t \<leftarrow> process_all ms s; process_all ns t }"
  by (induction ms arbitrary: s) simp_all

lemma process_all_norm: "process_all ms (norm s) = map_option norm (process_all ms s)"
  by (induction ms arbitrary: s) (simp_all add: blind)

lemma process_all_same:
  assumes "norm s = norm s'" "process_all ms s = Some t"
  obtains t' where "process_all ms s' = Some t'" "norm t' = norm t"
  using process_all_norm [of ms s] process_all_norm [of ms s'] assms by auto

lemma process_same:
  assumes "norm s = norm s'" "process_wire_message m s = Some t"
  obtains t' where "process_wire_message m s' = Some t'" "norm t' = norm t"
  using process_all_same [of s s' "[m]" t] assms by auto

lemma process_keeps:
  assumes "process_wire_message m s = Some t"
  shows "s_conn t = s_conn s" "s_framer t = s_framer s" "s_stopped s \<Longrightarrow> s_stopped t"
proof -
  have m: "micros False s t" using assms by (rule micros_process_wire_message) (rule micros_refl)
  have "s_conn v = s_conn u" if "micro False u v" for u v
    using that
  proof (induction rule: micro.induct)
    case (m_send s m w a t)
    then show ?case using send_bytes_shape [of w "s\<lparr>s_arena := a\<rparr>" t] by auto
  next
    case (m_written s message n t)
    then show ?case
      by (auto simp: on_write_def Let_def bind_eq_Some_conv split: list.splits if_splits dest!: do_write_shape)
  next
    case (m_write s t)
    then show ?case using do_write_shape [of s t] by auto
  qed (auto simp: same_core_def clear_write_q_def bind_eq_Some_conv)
  with m show "s_conn t = s_conn s" by (induction rule: rtranclp_induct) auto
  show "s_framer t = s_framer s" using process_framer [OF assms] by simp
  show "s_stopped t" if "s_stopped s" using m that by (induction rule: rtranclp_induct) (auto dest: stopped_micro)
qed

lemma process_all_keeps:
  "process_all ms s = Some t \<Longrightarrow> s_conn t = s_conn s \<and> s_framer t = s_framer s \<and> (s_stopped s \<longrightarrow> s_stopped t)"
proof (induction ms arbitrary: s)
  case (Cons m ms)
  then show ?case using process_keeps [of m s] by (fastforce simp: bind_eq_Some_conv)
qed simp

section \<open>The read handler\<close>

text \<open>The loop of the read handler processes what the framer holds, message by message.\<close>

lemma read_loop_all:
  assumes "drain_n framer_get_message framer_consume_message n f = Some (ms, f')" "r_size (fr_completed f) = n" "s_framer s = f"
    and "process_all ms s = Some t"
  shows "\<exists>u. read_loop s = Some u \<and> norm u = norm t \<and> s_framer u = f'"
  using assms
proof (induction n arbitrary: f ms s t)
  case 0
  then show ?case by (subst read_loop.simps) (simp add: framer_has_message_def)
next
  case (Suc n)
  then obtain m ms' f1 where d: "framer_get_message f = Some m" "framer_consume_message f = Some f1" "ms = m # ms'"
    "drain_n framer_get_message framer_consume_message n f1 = Some (ms', f')"
    by (auto simp: bind_eq_Some_conv)
  obtain s1 where s1: "process_wire_message m s = Some s1" "process_all ms' s1 = Some t"
    using Suc.prems(4) d(3) by (auto simp: bind_eq_Some_conv)
  have fr: "s_framer s1 = f" using process_keeps(2) [OF s1(1)] Suc.prems(3) by simp
  have sz: "r_size (fr_completed f1) = n"
    using d(2) Suc.prems(2)
    by (auto simp: framer_consume_message_def ring_pop_front_def Let_def bind_eq_Some_conv split: if_splits)
  have "norm s1 = norm (s1\<lparr>s_framer := f1\<rparr>)" by (simp add: norm_def)
  then obtain t' where t': "process_all ms' (s1\<lparr>s_framer := f1\<rparr>) = Some t'" "norm t' = norm t"
    using s1(2) by (rule process_all_same)
  from Suc.IH [OF d(4) sz _ t'(1)] obtain u where "read_loop (s1\<lparr>s_framer := f1\<rparr>) = Some u" "norm u = norm t'" "s_framer u = f'"
    by auto
  then show ?case
    using Suc.prems(2,3) d(1,2) s1(1) fr t'(2) by (subst read_loop.simps) (simp add: framer_has_message_def)
qed

text \<open>A session that reads chunk after chunk.\<close>

primrec reads :: "(asio_error \<Rightarrow> string) \<Rightarrow> string list \<Rightarrow> session \<Rightarrow> session option" where
  "reads message [] s = Some s"
| "reads message (c # cs) s = do { t \<leftarrow> on_read message None c s; reads message cs t }"

text \<open>\<open>caught_up S s\<close>: the session waits for bytes, and its framer has handed out all messages of \<open>S\<close>.\<close>

definition caught_up :: "string \<Rightarrow> session \<Rightarrow> bool" where
  "caught_up S s \<longleftrightarrow> s_conn s \<and> framer_inv S (frames S 0) (s_framer s) \<and> ring_list (fr_completed (s_framer s)) = [] \<and>
     r_capacity (fr_completed (s_framer s)) = 1024"

lemma caught_upD:
  assumes "caught_up S s"
  shows "s_conn s" "framer_inv S (frames S 0) (s_framer s)" "ring_list (fr_completed (s_framer s)) = []"
    "r_capacity (fr_completed (s_framer s)) = 1024"
  using assms by (simp_all add: caught_up_def)

lemma caught_up_new: "s_conn s \<Longrightarrow> s_framer s = framer_new \<Longrightarrow> caught_up [] s"
  using framer_new_inv frames_end [of "[]"] by (simp add: caught_up_def framer_new_def ring_new_def ring_list_def)

lemma on_read_chunk:
  assumes "caught_up S s" "length (frames (S @ c) 0) < length (frames S 0) + 1024"
    and "messages_of (S @ c) (frames (S @ c) 0) = messages_of S (frames S 0) @ ms"
    and "process_all ms s = Some t" "\<not> s_stopped t"
  shows "\<exists>u. on_read message None c s = Some u \<and> norm u = norm t \<and> caught_up (S @ c) u"
proof -
  obtain f1 f2 ms' where f: "framer_append c (s_framer s) = Some f1"
    "drain_n framer_get_message framer_consume_message (r_size (fr_completed f1)) f1 = Some (ms', f2)"
    "framer_inv (S @ c) (frames (S @ c) 0) f2" "ring_list (fr_completed f2) = []" "r_capacity (fr_completed f2) = 1024"
    "messages_of (S @ c) (frames (S @ c) 0) = messages_of S (frames S 0) @ ms'"
    by (rule framer_feed_step [OF caught_upD(2-4) [OF assms(1)] assms(2)])
  have ms: "ms' = ms" using f(6) assms(3) by simp
  have "norm s = norm (s\<lparr>s_framer := f1\<rparr>)" by (simp add: norm_def)
  then obtain t' where t': "process_all ms (s\<lparr>s_framer := f1\<rparr>) = Some t'" "norm t' = norm t"
    using assms(4) by (rule process_all_same)
  obtain u where u: "read_loop (s\<lparr>s_framer := f1\<rparr>) = Some u" "norm u = norm t'" "s_framer u = f2"
    using read_loop_all [OF f(2) refl _ t'(1) [folded ms]] by auto
  have nu: "norm u = norm t" using u(2) t'(2) by simp
  have k: "s_stopped u = s_stopped t" "s_conn u = s_conn t"
    using arg_cong [OF nu, of s_stopped] arg_cong [OF nu, of s_conn] by simp_all
  have "\<not> s_stopped s" "s_conn t" using process_all_keeps [OF assms(4)] assms(1,5) by (auto simp: caught_up_def)
  then have "on_read message None c s = Some (emit [Async_Read] u)"
    using f(1) u(1) k assms(5) by (simp add: on_read_def do_read_def)
  moreover have "norm (emit [Async_Read] u) = norm t" using nu by (simp add: norm_def emit_def)
  moreover have "caught_up (S @ c) (emit [Async_Read] u)"
    using f(3-5) u(3) k(2) \<open>s_conn t\<close> by (simp add: caught_up_def)
  ultimately show ?thesis by blast
qed

lemma messages_split:
  assumes "caught_up S s" "length (frames (S @ c) 0) < length (frames S 0) + 1024"
    and "\<And>k. k < length cs \<Longrightarrow>
      length (frames ((S @ c) @ concat (take (Suc k) cs)) 0) < length (frames ((S @ c) @ concat (take k cs)) 0) + 1024"
  shows "\<exists>ms1 ms2. messages_of (S @ c) (frames (S @ c) 0) = messages_of S (frames S 0) @ ms1 \<and>
     messages_of ((S @ c) @ concat cs) (frames ((S @ c) @ concat cs) 0) = messages_of (S @ c) (frames (S @ c) 0) @ ms2"
proof -
  obtain f1 f2 ms where f: "framer_append c (s_framer s) = Some f1"
    "drain_n framer_get_message framer_consume_message (r_size (fr_completed f1)) f1 = Some (ms, f2)"
    "framer_inv (S @ c) (frames (S @ c) 0) f2" "ring_list (fr_completed f2) = []" "r_capacity (fr_completed f2) = 1024"
    "messages_of (S @ c) (frames (S @ c) 0) = messages_of S (frames S 0) @ ms"
    by (rule framer_feed_step [OF caught_upD(2-4) [OF assms(1)] assms(2)])
  from framer_feed_ok [OF f(3-5) assms(3)] f(6) show ?thesis by blast
qed

lemma reads_chunks:
  assumes "caught_up S s" "\<not> s_stopped t"
    and "\<And>k. k < length cs \<Longrightarrow>
      length (frames (S @ concat (take (Suc k) cs)) 0) < length (frames (S @ concat (take k cs)) 0) + 1024"
    and "messages_of (S @ concat cs) (frames (S @ concat cs) 0) = messages_of S (frames S 0) @ ms" "process_all ms s = Some t"
  shows "\<exists>u. reads message cs s = Some u \<and> norm u = norm t \<and> caught_up (S @ concat cs) u"
  using assms
proof (induction cs arbitrary: S s t ms)
  case Nil
  then show ?case by simp
next
  case (Cons c cs)
  have few: "length (frames (S @ c) 0) < length (frames S 0) + 1024" using Cons.prems(3) [of 0] by simp
  have rest: "length (frames ((S @ c) @ concat (take (Suc k) cs)) 0) < length (frames ((S @ c) @ concat (take k cs)) 0) + 1024"
    if "k < length cs" for k
    using Cons.prems(3) [of "Suc k"] that by simp
  obtain ms1 ms2 where m: "messages_of (S @ c) (frames (S @ c) 0) = messages_of S (frames S 0) @ ms1"
    "messages_of ((S @ c) @ concat cs) (frames ((S @ c) @ concat cs) 0) = messages_of (S @ c) (frames (S @ c) 0) @ ms2"
    using messages_split [OF Cons.prems(1) few rest] by blast
  have "ms = ms1 @ ms2" using Cons.prems(4) m by simp
  then obtain s1 where s1: "process_all ms1 s = Some s1" "process_all ms2 s1 = Some t"
    using Cons.prems(5) by (auto simp: process_all_append bind_eq_Some_conv)
  have "\<not> s_stopped s1" using process_all_keeps [OF s1(2)] Cons.prems(2) by blast
  then obtain u1 where u1: "on_read message None c s = Some u1" "norm u1 = norm s1" "caught_up (S @ c) u1"
    using on_read_chunk [OF Cons.prems(1) few m(1) s1(1)] by blast
  obtain t' where t': "process_all ms2 u1 = Some t'" "norm t' = norm t"
    using process_all_same [OF u1(2) [symmetric] s1(2)] .
  have "\<not> s_stopped t'" using arg_cong [OF t'(2), of s_stopped] Cons.prems(2) by simp
  from Cons.IH [OF u1(3) this rest m(2) t'(1)] u1(1) t'(2) show ?case by auto
qed

section \<open>Main theorems\<close>

text \<open>
  C10: How the bytes arrive does not matter. A connected session with a fresh framer that reads a stream in chunks of any
  sizes (fewer than 1024 messages become complete in one chunk) ends in the state in which it would be had it processed the
  messages of the stream one by one, as long as that returns and does not stop the session: nothing faults, no message is
  missed, repeated, split or reordered, and the two states differ only in the framer and in the reads started.\<close>

theorem session_reads_stream:
  assumes "s_conn s" "s_framer s = framer_new"
    and "\<And>k. k < length cs \<Longrightarrow>
      length (frames (concat (take (Suc k) cs)) 0) < length (frames (concat (take k cs)) 0) + 1024"
    and "process_all (messages_of (concat cs) (frames (concat cs) 0)) s = Some t" "\<not> s_stopped t"
  shows "\<exists>u. reads message cs s = Some u \<and> norm u = norm t"
proof -
  have "messages_of ([] @ concat cs) (frames ([] @ concat cs) 0) = messages_of [] (frames [] 0) @ messages_of (concat cs) (frames (concat cs) 0)"
    using frames_end [of "[]"] by (simp add: messages_of_def)
  from reads_chunks [OF caught_up_new [OF assms(1,2)] assms(5) _ this assms(4)] assms(3) show ?thesis by auto
qed

text \<open>
  C9: Delivery from session to session. One session sends the wire forms of fewer than 1024 messages (each with a body of at
  most one megabyte), whatever partial writes and transient errors its connection reports; when all bytes have been
  written to the loopback connection and the other end has read them, in pieces of any sizes, the receiving
  session is in the state it would be in had it processed exactly these messages in the order they were sent.\<close>

theorem session_delivery:
  assumes sender: "wire_run message (concat (map (fix_wire DEFAULT_FIX_VERSION) fss)) written s" "pending s = []"
    and wire: "loop_run l put started" "put x = written" "ch_inbound (lp_channel l x) = []"
    and small: "\<forall>fs \<in> set fss. length (enc_fields fs) \<le> MAX_MESSAGE_SIZE" "length fss < 1024"
    and receiver: "s_conn r" "s_framer r = framer_new" "process_all (map (fix_wire DEFAULT_FIX_VERSION) fss) r = Some t" "\<not> s_stopped t"
  shows "\<exists>u. reads message (chunks x l) r = Some u \<and> norm u = norm t"
proof -
  let ?S = "concat (map (fix_wire DEFAULT_FIX_VERSION) fss)"
  have "written = ?S" using wire_run_inv [OF sender(1)] sender(2) by (simp add: run_inv_def)
  then have c: "concat (chunks x l) = ?S" using loop_run_inv [OF wire(1)] wire(2,3) by (simp add: loop_inv_def)
  note few = few_wires [OF small c]
  have p: "messages_of ([] @ concat (chunks x l)) (frames ([] @ concat (chunks x l)) 0) = messages_of [] (frames [] 0) @ map (fix_wire DEFAULT_FIX_VERSION) fss"
    using few(1) frames_end [of "[]"] by (simp add: messages_of_def)
  from reads_chunks [OF caught_up_new [OF receiver(1,2)] receiver(4) _ p receiver(3)] few_frames [OF few(2)] show ?thesis by auto
qed

section \<open>Sample use\<close>

abbreviation sample_logon :: string where
  "sample_logon \<equiv> out_wire default_params 1 (Out_Logon 30 False)"

lemma sample_acceptor:
  obtains a t where "s_conn a" "s_framer a = framer_new" "process_all [sample_logon] a = Some t" "\<not> s_stopped t" "s_state t = ACTIVE"
proof -
  obtain a0 where new: "session_new \<lparr>storage_index = 1, sid = 2\<rparr> ACCEPTOR sample_peer = Some a0" using session_new_inv by blast
  obtain a where a: "s_state a = AWAITING_LOGON" "ready [] a" "next_in (s_seq a) = 1" "s_params a = sample_peer" "s_role a = ACCEPTOR" "s_framer a = framer_new"
    using start_acceptor [OF new] by auto
  have hb: "10 \<le> (30 :: 32 word)" "(30 :: 32 word) \<le> 120" "sint (30 :: 32 word) = 30" "peer_of default_params (s_params a)" "params_ok default_params"
    by (simp_all add: a(4))
  obtain t where "process_wire_message sample_logon a = Some t" "s_state t = ACTIVE"
    "ready [out_wire (sample_peer\<lparr>heart_beat_int := 30\<rparr>) 1 (Out_Logon 30 False)] t"
    using accept_logon [OF a(2,5,1,3) hb(5,4,1,2) _ refl, of False] logon_sizes(3) a(4) hb(3) by auto
  with a(2,6) show thesis by (intro that [of a t]) (simp_all add: ready_def)
qed

lemma sample_logon_fix:
  obtains fs where "sample_logon = fix_wire DEFAULT_FIX_VERSION fs" "length (enc_fields fs) \<le> MAX_MESSAGE_SIZE"
proof (rule that)
  show w: "sample_logon = fix_wire DEFAULT_FIX_VERSION (out_fields default_params 1 (Out_Logon 30 False))"
    by (simp add: out_wire_def default_params_def DEFAULT_FIX_VERSION_def)
  show "length (enc_fields (out_fields default_params 1 (Out_Logon 30 False))) \<le> MAX_MESSAGE_SIZE"
    using logon_sizes(2) unfolding w by (rule body_size)
qed

lemma sample_channel:
  obtains l put started where "loop_run l put started" "put End_B = sample_logon" "ch_inbound (lp_channel l End_B) = []"
    "1 < length (chunks End_B l)"
proof -
  let ?l = "async_read_some End_B 4096 (async_write_some End_A sample_logon (async_read_some End_B 1 make_pair))"
  have len: "1 < length sample_logon" "length sample_logon \<le> 4096"
    by (simp_all add: length_out_wire out_fields_def header_fields_def enc_fields_def enc_field_def default_params_def
        now_fix_def to_chars.simps to_chars_int_def)
  then have ne: "sample_logon \<noteq> []" "drop 1 sample_logon \<noteq> []" by auto
  have "loop_run ?l ((\<lambda>_. [])(End_B := sample_logon)) ((\<lambda>_. 0)(End_B := 2))" by (rule sample_loop [OF ne(1)])
  moreover have "chunks End_B ?l = [take 1 sample_logon, drop 1 sample_logon] \<and> ch_inbound (lp_channel ?l End_B) = []"
    using len ne by (simp add: chunks_def async_write_some_def async_read_some_def make_pair_def channel_new_def set_channel_def fulfil_def
        post_completion_def Let_def min_def)
  ultimately show thesis
    by (intro that [of ?l "(\<lambda>_. [])(End_B := sample_logon)" "(\<lambda>_. 0)(End_B := 2)"]) simp_all
qed

theorem session_reads_stream_witness:
  "\<exists>a t u. process_all [sample_logon] a = Some t \<and> reads (\<lambda>_. []) [take 7 sample_logon, drop 7 sample_logon] a = Some u \<and>
     norm u = norm t \<and> s_state u = ACTIVE"
proof -
  obtain a t where a: "s_conn a" "s_framer a = framer_new" "process_all [sample_logon] a = Some t" "\<not> s_stopped t" "s_state t = ACTIVE"
    by (rule sample_acceptor)
  obtain fs where fs: "sample_logon = fix_wire DEFAULT_FIX_VERSION fs" "length (enc_fields fs) \<le> MAX_MESSAGE_SIZE"
    by (rule sample_logon_fix)
  let ?cs = "[take 7 sample_logon, drop 7 sample_logon]"
  have few: "messages_of (concat ?cs) (frames (concat ?cs) 0) = [sample_logon]" "length (frames (concat ?cs) 0) < 1024"
    using few_wires [of "[fs]" "concat ?cs"] fs by simp_all
  obtain u where u: "reads (\<lambda>_. []) ?cs a = Some u" "norm u = norm t"
    using session_reads_stream [OF a(1,2) few_frames [OF few(2)], unfolded few(1), OF a(3,4)] by blast
  moreover have "s_state u = ACTIVE" using arg_cong [OF u(2), of s_state] a(5) by simp
  ultimately show ?thesis using a(3) by blast
qed

theorem session_delivery_witness:
  "\<exists>s l r t u. wire_run (\<lambda>_. []) sample_logon sample_logon s \<and> process_all [sample_logon] r = Some t \<and>
     reads (\<lambda>_. []) (chunks End_B l) r = Some u \<and> norm u = norm t \<and> s_state u = ACTIVE"
proof -
  obtain a t where a: "s_conn a" "s_framer a = framer_new" "process_all [sample_logon] a = Some t" "\<not> s_stopped t" "s_state t = ACTIVE"
    by (rule sample_acceptor)
  obtain fs where fs: "sample_logon = fix_wire DEFAULT_FIX_VERSION fs" "length (enc_fields fs) \<le> MAX_MESSAGE_SIZE"
    by (rule sample_logon_fix)
  obtain s where s: "wire_run (\<lambda>_. []) sample_logon sample_logon s" "pending s = []"
    using write_once [of "length sample_logon" sample_logon "\<lambda>_. []"] wire_run_inv [of "\<lambda>_. []" sample_logon sample_logon]
    by (fastforce simp: run_inv_def)
  obtain l put started where l: "loop_run l put started" "put End_B = sample_logon" "ch_inbound (lp_channel l End_B) = []"
    using sample_channel .
  have w: "map (fix_wire DEFAULT_FIX_VERSION) [fs] = [sample_logon]" "concat [sample_logon] = sample_logon"
    using fs(1) by simp_all
  have sm: "\<forall>fs \<in> set [fs]. length (enc_fields fs) \<le> MAX_MESSAGE_SIZE" "length [fs] < 1024" using fs(2) by simp_all
  obtain u where u: "reads (\<lambda>_. []) (chunks End_B l) a = Some u" "norm u = norm t"
    using session_delivery [of _ "[fs]", unfolded w, OF s l sm a(1-4)] by blast
  moreover have "s_state u = ACTIVE" using arg_cong [OF u(2), of s_state] a(5) by simp
  ultimately show ?thesis using s(1) a(3) by blast
qed

end
