(* ===== verification/Session_Timers.thy ===== *)
theory Session_Timers
  imports Session_Handshake
begin

text \<open>
  The timers of a session that has lost its peer: the timer of inbound messages sends a test request, a heartbeat of
  the peer takes the suspicion back, and silence ends in a logout and in the end of the session.
\<close>

section \<open>Sending keeps the suspicion\<close>

lemma send_message_awaiting:
  assumes "send_message w r s = Some t"
  shows "s_awaiting_test_request_response t = s_awaiting_test_request_response s"
proof (cases "s_stopped s")
  case False
  obtain a q b out st where "t = s\<lparr>s_arena := a, s_write_q := q, s_write_inflight := b, s_store := st, s_out := out\<rparr>"
    using send_message_shape [OF assms False] by blast
  then show ?thesis by simp
qed (use assms in \<open>simp add: send_message_def\<close>)

lemma send_built_awaiting:
  assumes "send_built msg s = Some t"
  shows "s_awaiting_test_request_response t = s_awaiting_test_request_response s"
  using assms by (auto simp: send_built_def with_factory_def bind_eq_Some_conv dest!: send_message_awaiting)

section \<open>The handlers of the timers\<close>

definition test_id :: "session \<Rightarrow> string" where
  "test_id s = ''TESTREQ_'' @ to_chars (unat (s_test_req_id s))"

lemma test_id_ok: "text_ok (test_id s)"
  by (simp add: test_id_def text_ok_def)

text \<open>Silence: the first expiry asks, the second one logs out.\<close>

lemma inbound_timer_asks:
  assumes s: "ready ws s" "s_state s = ACTIVE" "\<not> s_awaiting_test_request_response s"
    and w: "w = out_wire (s_params s) (of_nat (length ws + 1)) (Out_TestRequest (test_id s))" "log_fits (ws @ [w])"
  shows "\<exists>t. on_inbound_timer None s = Some t \<and> ready (ws @ [w]) t \<and> s_state t = ACTIVE \<and> s_awaiting_test_request_response t \<and>
     pending t = pending s @ w \<and> next_in (s_seq t) = next_in (s_seq s) \<and> s_params t = s_params s \<and>
     last (s_out t) = Timer_Start Inbound_Timer (unat (heart_beat_int (s_params s)))"
proof -
  define s1 where "s1 = emit [Log (''Inbound timeout expired, sent Test Request with ID: '' @ test_id s)]
    (s\<lparr>s_awaiting_test_request_response := True, s_test_req_id := s_test_req_id s + 1\<rparr>)"
  have k: "s_params s1 = s_params s" "s_state s1 = ACTIVE" "s_seq s1 = s_seq s" "s_awaiting_test_request_response s1" "\<not> s_stopped s" "params_ok (s_params s)"
    using s by (simp_all add: s1_def emit_def ready_def)
  have r1: "ready ws s1" by (rule ready_frame [OF s(1)]) (use k(6) in \<open>simp_all add: s1_def emit_def\<close>)
  have p1: "pending s1 = pending s" by (rule pending_cong) (simp_all add: s1_def emit_def)
  obtain s2 where s2: "send_built (Out_TestRequest (test_id s)) s1 = Some s2" "ready (ws @ [w]) s2" "unsent s1 s2" "pending s2 = pending s1 @ w"
    using send_built_ok [OF r1, of "Out_TestRequest (test_id s)" w] w log_fits_room [OF w(2)] test_id_ok k(1) by auto
  let ?t = "schedule_test_request_timeout s2"
  have "on_inbound_timer None s = Some ?t"
    using s(3) k(5) s2(1) by (simp add: on_inbound_timer_def Let_def send_built test_id_def s1_def)
  moreover have "s_params s2 = s_params s" using s2(3) k(1) by (simp add: unsent_def)
  then have "ready (ws @ [w]) ?t" "pending ?t = pending s2"
    using ready_frame [OF s2(2), of ?t] pending_cong [of ?t s2] k(6) by (simp_all add: schedule_test_request_timeout_def emit_def)
  ultimately show ?thesis
    using s2(3,4) k p1 send_built_awaiting [OF s2(1)] by (simp add: unsent_def schedule_test_request_timeout_def emit_def)
qed

lemma inbound_timer_logs_out:
  assumes s: "ready ws s" "s_awaiting_test_request_response s"
    and w: "w = out_wire (s_params s) (of_nat (length ws + 1)) (Out_Logout ''No response to Test Request'')" "log_fits (ws @ [w])"
  shows "\<exists>t. on_inbound_timer None s = Some t \<and> ready (ws @ [w]) t \<and> s_state t = AWAITING_LOGOUT \<and> pending t = pending s @ w \<and>
     last (s_out t) = Timer_Start Logout_Timer logout_response_timeout"
proof -
  let ?text = "''No response to Test Request''"
  define s1 where "s1 = emit [Log ''No response to Test Request, stopping session''] s"
  have k: "s_params s1 = s_params s" "\<not> s_stopped s1" "\<not> s_stopped s" "params_ok (s_params s)" using s by (simp_all add: s1_def emit_def ready_def)
  have r1: "ready ws s1" by (rule ready_frame [OF s(1)]) (use k(4) in \<open>simp_all add: s1_def emit_def\<close>)
  have p1: "pending s1 = pending s" by (rule pending_cong) (simp_all add: s1_def emit_def)
  obtain s2 where s2: "send_built (Out_Logout ?text) s1 = Some s2" "ready (ws @ [w]) s2" "unsent s1 s2" "pending s2 = pending s1 @ w"
    using send_built_ok [OF r1, of "Out_Logout ?text" w] w log_fits_room [OF w(2)] k(1) by auto
  let ?t = "emit [Timer_Start Logout_Timer logout_response_timeout] ((emit [Log ?text] s2)\<lparr>s_state := AWAITING_LOGOUT\<rparr>)"
  have "on_inbound_timer None s = Some ?t"
    using s(2) k(2,3) s2(1) unfolding s1_def by (simp add: on_inbound_timer_def stop_with_logout_def send_built)
  moreover have "params_ok (s_params s2)" using s2(3) k(1,4) by (simp add: unsent_def)
  then have "ready (ws @ [w]) ?t" "pending ?t = pending s2"
    using ready_frame [OF s2(2), of ?t] pending_cong [of ?t s2] by (simp_all add: emit_def)
  ultimately show ?thesis using s2(4) p1 by (simp add: emit_def)
qed

text \<open>A heartbeat in sequence takes the suspicion back, whatever its id.\<close>

lemma heartbeat_clears:
  assumes s: "ready ws s" "s_state s = ACTIVE" and peer: "params_ok pp" "peer_of pp (s_params s)"
    and n: "n = next_in (s_seq s)" "unat n < 2 ^ 63" and reply: "SOH \<notin> set reply"
  shows "\<exists>t. process_wire_message (out_wire pp n (Out_Heartbeat reply)) s = Some t \<and> ready ws t \<and> s_state t = ACTIVE \<and>
     \<not> s_awaiting_test_request_response t \<and> pending t = pending s \<and> next_in (s_seq t) = n + 1"
proof -
  let ?m = "parsed_fields pp n (Out_Heartbeat reply)"
  have st: "\<not> s_stopped s" using s(1) by (simp add: ready_def)
  obtain v where v: "dispatch ?m (out_wire pp n (Out_Heartbeat reply)) s =
      sequence_message ''0'' n False (make_valid_message_view ?m) (out_wire pp n (Out_Heartbeat reply)) (touch v s)"
    using dispatch_peer [OF st peer, of "Out_Heartbeat reply" n] n(2) reply s(2) by (auto simp: running_def)
  define u where "u = (touch v s)\<lparr>s_seq := update_in (n + 1) (s_seq s), s_awaiting_test_request_response := False\<rparr>"
  have "dispatch ?m (out_wire pp n (Out_Heartbeat reply)) s = Some u"
    using sequence_expected [of "''0''" "touch v s"] n(1) unfolding v by (simp add: handle_message_def handle_heartbeat_def u_def)
  moreover have "drain_recovery_cache u = Some u" using s(2) by (simp add: drain_recovery_cache_def u_def)
  ultimately have "process_wire_message (out_wire pp n (Out_Heartbeat reply)) s = Some u"
    using process_parsed [OF peer(1)] reply by simp
  moreover have "ready ws u"
    by (rule ready_frame [OF s(1)]) (use s(1) in \<open>simp_all add: u_def ready_def update_in_def next_out_def\<close>)
  moreover have "pending u = pending s" by (rule pending_cong) (simp_all add: u_def)
  ultimately show ?thesis using s(2) by (simp add: u_def update_in_def next_in_def)
qed

text \<open>The timer of the logout ends the session.\<close>

lemma logout_timer_stops:
  assumes "ready ws s"
  shows "\<exists>t. on_logout_timer None s = Some t \<and> s_stopped t \<and> s_write_q t = [] \<and> (\<exists>es. s_out t = s_out s @ es \<and> Close_Conn \<in> set es)"
proof -
  let ?s = "emit [Log ''Logout timer expired, stopping session''] s"
  have k: "\<not> s_stopped s" "s_conn s" "session_inv s" using assms by (simp_all add: ready_def)
  have "ready ws ?s" by (rule ready_frame [OF assms]) (use assms in \<open>simp_all add: emit_def ready_def\<close>)
  then obtain t where t: "stop ?s = Some t" "session_inv t" "s_stopped t" using stop_ok [of ?s] by (auto simp: ready_def)
  have "\<exists>es. s_out t = s_out s @ es \<and> Close_Conn \<in> set es"
    using t(1) k(1,2) by (auto simp: stop_def emit_def cancel_timers_def clear_write_q_def Let_def bind_eq_Some_conv)
  moreover have "s_write_q t = []" using t(2,3) by (simp add: session_inv_def)
  ultimately show ?thesis using t(1,3) k(1) by (simp add: on_logout_timer_def)
qed

section \<open>Main theorem\<close>

text \<open>
  C5: A silent peer is detected. When the inbound timer of an active session expires, the session sends one test request
  with a fresh id and waits another heartbeat interval. If a heartbeat of the peer arrives in that time, the session is as before, with the
  suspicion taken back and nothing sent. If the timer expires again, it sends one logout and waits for the answer; when the
  logout timer expires too, the session stops and closes its connection. No step faults, and the
  bytes queued for the connection are exactly the test request and then the logout.\<close>

theorem silent_peer_detected:
  assumes s: "ready ws s" "s_state s = ACTIVE" "\<not> s_awaiting_test_request_response s"
    and w1: "w1 = out_wire (s_params s) (of_nat (length ws + 1)) (Out_TestRequest (''TESTREQ_'' @ to_chars (unat (s_test_req_id s))))"
    and w2: "w2 = out_wire (s_params s) (of_nat (length ws + 2)) (Out_Logout ''No response to Test Request'')"
    and fits: "log_fits (ws @ [w1, w2])"
    and peer: "params_ok pp" "peer_of pp (s_params s)" "n = next_in (s_seq s)" "unat n < 2 ^ 63" "SOH \<notin> set reply"
  shows "\<exists>s1. on_inbound_timer None s = Some s1 \<and> s_state s1 = ACTIVE \<and> s_awaiting_test_request_response s1 \<and> pending s1 = pending s @ w1 \<and>
       last (s_out s1) = Timer_Start Inbound_Timer (unat (heart_beat_int (s_params s))) \<and>
     (\<exists>t. process_wire_message (out_wire pp n (Out_Heartbeat reply)) s1 = Some t \<and> s_state t = ACTIVE \<and>
        \<not> s_awaiting_test_request_response t \<and> pending t = pending s1 \<and> next_in (s_seq t) = n + 1) \<and>
     (\<exists>s2 s3. on_inbound_timer None s1 = Some s2 \<and> s_state s2 = AWAITING_LOGOUT \<and> pending s2 = pending s @ w1 @ w2 \<and>
        last (s_out s2) = Timer_Start Logout_Timer logout_response_timeout \<and>
        on_logout_timer None s2 = Some s3 \<and> s_stopped s3 \<and> s_write_q s3 = [] \<and> (\<exists>es. s_out s3 = s_out s2 @ es \<and> Close_Conn \<in> set es))"
proof -
  have fit: "log_fits (ws @ [w1])" "log_fits ((ws @ [w1]) @ [w2])" using fits log_fits_prefix [of "ws @ [w1]" "[w2]"] by simp_all
  obtain s1 where s1: "on_inbound_timer None s = Some s1" "ready (ws @ [w1]) s1" "s_state s1 = ACTIVE" "s_awaiting_test_request_response s1"
    "pending s1 = pending s @ w1" "next_in (s_seq s1) = next_in (s_seq s)" "s_params s1 = s_params s"
    "last (s_out s1) = Timer_Start Inbound_Timer (unat (heart_beat_int (s_params s)))"
    using inbound_timer_asks [OF s w1 [folded test_id_def] fit(1)] by (elim exE conjE) simp
  have w2': "w2 = out_wire (s_params s1) (of_nat (length (ws @ [w1]) + 1)) (Out_Logout ''No response to Test Request'')"
    using w2 s1(7) by simp
  obtain s2 where s2: "on_inbound_timer None s1 = Some s2" "ready ((ws @ [w1]) @ [w2]) s2" "s_state s2 = AWAITING_LOGOUT" "pending s2 = pending s1 @ w2"
    "last (s_out s2) = Timer_Start Logout_Timer logout_response_timeout"
    using inbound_timer_logs_out [OF s1(2,4) w2' fit(2)] by (elim exE conjE) simp
  obtain s3 where "on_logout_timer None s2 = Some s3" "s_stopped s3" "s_write_q s3 = []" "\<exists>es. s_out s3 = s_out s2 @ es \<and> Close_Conn \<in> set es"
    using logout_timer_stops [OF s2(2)] by (elim exE conjE) simp
  moreover have "\<exists>t. process_wire_message (out_wire pp n (Out_Heartbeat reply)) s1 = Some t \<and> ready (ws @ [w1]) t \<and> s_state t = ACTIVE \<and>
      \<not> s_awaiting_test_request_response t \<and> pending t = pending s1 \<and> next_in (s_seq t) = n + 1"
    using s1(2,3,6,7) peer by (intro heartbeat_clears) simp_all
  ultimately show ?thesis using s1 s2 by auto
qed

theorem silent_peer_detected_witness:
  "\<exists>s s1 s2 s3. s_state s = ACTIVE \<and> on_inbound_timer None s = Some s1 \<and>
     pending s1 = pending s @ out_wire default_params 1 (Out_TestRequest ''TESTREQ_0'') \<and>
     on_inbound_timer None s1 = Some s2 \<and> on_logout_timer None s2 = Some s3 \<and> s_stopped s3"
proof -
  obtain s where s: "ready [] s" "s_state s = ACTIVE" "s_params s = default_params" "next_in (s_seq s) = 1"
    "\<not> s_awaiting_test_request_response s" "s_test_req_id s = 0"
  proof -
    obtain s0 where s0: "session_new \<lparr>storage_index = 0, sid = 1\<rparr> INITIATOR default_params = Some s0" "s_seq s0 = sp_new" "s_params s0 = default_params"
      using fresh_session [of "\<lparr>storage_index = 0, sid = 1\<rparr>" INITIATOR default_params] .
    have "ready [] (s0\<lparr>s_conn := True, s_state := ACTIVE\<rparr>)" by (rule ready_connected [OF s0(1)]) simp
    then show thesis
      using s0 by (intro that [of "s0\<lparr>s_conn := True, s_state := ACTIVE\<rparr>"]) (auto simp: session_new_def bind_eq_Some_conv sp_new_def next_in_def)
  qed
  let ?w1 = "out_wire default_params 1 (Out_TestRequest ''TESTREQ_0'')" and ?w2 = "out_wire default_params 2 (Out_Logout ''No response to Test Request'')"
  have fits: "log_fits ([] @ [?w1, ?w2])"
    by (simp add: log_fits_def length_out_wire out_fields_def header_fields_def enc_fields_def enc_field_def default_params_def now_fix_def
        to_chars.simps to_chars_int_def min_blob_buffer_grow_size_def)
  have w: "?w1 = out_wire (s_params s) (of_nat (length ([] :: string list) + 1)) (Out_TestRequest (''TESTREQ_'' @ to_chars (unat (s_test_req_id s))))"
    "?w2 = out_wire (s_params s) (of_nat (length ([] :: string list) + 2)) (Out_Logout ''No response to Test Request'')"
    using s(3,6) by (simp_all add: to_chars.simps)
  have p: "params_ok sample_peer" "peer_of sample_peer (s_params s)" "unat (next_in (s_seq s)) < 2 ^ 63" "SOH \<notin> set ''TESTREQ_0''"
    using s(3,4) by simp_all
  obtain s1 where s1: "on_inbound_timer None s = Some s1" "pending s1 = pending s @ ?w1"
    "\<exists>s2 s3. on_inbound_timer None s1 = Some s2 \<and> s_state s2 = AWAITING_LOGOUT \<and> pending s2 = pending s @ ?w1 @ ?w2 \<and>
        last (s_out s2) = Timer_Start Logout_Timer logout_response_timeout \<and>
        on_logout_timer None s2 = Some s3 \<and> s_stopped s3 \<and> s_write_q s3 = [] \<and> (\<exists>es. s_out s3 = s_out s2 @ es \<and> Close_Conn \<in> set es)"
    using silent_peer_detected [OF s(1,2,5) w fits p(1,2) refl p(3,4)] by (elim exE conjE) simp
  then show ?thesis using s(2) by (elim exE conjE) (intro exI conjI)
qed

end
