(* ===== verification/Log_Ring.thy ===== *)
theory Log_Ring
  imports Fix_Prelude
begin

unbundle bit_operations_syntax

text \<open>
  \<open>Fix::Log::MpscRing\<close> (include/fix/log/MpscRing.hpp): the lock-free ring between the threads that
  log and the one thread that writes the log. Each operation is the sequence of its atomic
  actions: the fetch-and-add on \<open>head_\<close>, the load of the epoch of a cell, the move of the data and the
  store of the epoch. The threads interleave these actions in any order (sequentially consistent
  steps); the main theorem shows that the cells' data, which are not atomic, are never accessed by two
  threads at once, so that the acquire and release orders of the code give no other behaviour.
\<close>

record 'a RingCell =
  epoch :: "64 word"
  data :: 'a

definition capacity :: nat where
  "capacity = 1024"

record 'a mpsc =
  mp_buff :: "'a RingCell list"
  mp_head :: "64 word"
  mp_tail :: "64 word"

text \<open>The cells start with their index as epoch; \<open>d\<close> is the default value of the data.\<close>

definition mpsc_new :: "'a \<Rightarrow> 'a mpsc" where
  "mpsc_new d = \<lparr>mp_buff = map (\<lambda>i. \<lparr>epoch = of_nat i, data = d\<rparr>) [0..<capacity], mp_head = 0, mp_tail = 0\<rparr>"

definition slot :: "64 word \<Rightarrow> nat" where
  "slot ticket = unat (ticket AND (of_nat capacity - 1))"

section \<open>Atomic actions\<close>

text \<open>\<open>try_push\<close> and \<open>push\<close> share their actions: take a ticket, compare the epoch, move the data in, publish.\<close>

definition take_ticket :: "'a mpsc \<Rightarrow> 64 word \<times> 'a mpsc" where
  "take_ticket q = (mp_head q, q\<lparr>mp_head := mp_head q + 1\<rparr>)"

definition cell_epoch :: "64 word \<Rightarrow> 'a mpsc \<Rightarrow> 64 word" where
  "cell_epoch ticket q = epoch (mp_buff q ! slot ticket)"

definition store_data :: "64 word \<Rightarrow> 'a \<Rightarrow> 'a mpsc \<Rightarrow> 'a mpsc" where
  "store_data ticket d q = q\<lparr>mp_buff := (mp_buff q)[slot ticket := (mp_buff q ! slot ticket)\<lparr>data := d\<rparr>]\<rparr>"

definition publish :: "64 word \<Rightarrow> 'a mpsc \<Rightarrow> 'a mpsc" where
  "publish ticket q = q\<lparr>mp_buff := (mp_buff q)[slot ticket := (mp_buff q ! slot ticket)\<lparr>epoch := ticket + 1\<rparr>]\<rparr>"

text \<open>The actions of \<open>pop\<close>: compare the epoch with the one after the tail, move the data out, release the cell.\<close>

definition pop_ready :: "'a mpsc \<Rightarrow> bool" where
  "pop_ready q \<longleftrightarrow> cell_epoch (mp_tail q) q = mp_tail q + 1"

definition pop_data :: "'a mpsc \<Rightarrow> 'a" where
  "pop_data q = data (mp_buff q ! slot (mp_tail q))"

definition pop_release :: "'a mpsc \<Rightarrow> 'a mpsc" where
  "pop_release q = q\<lparr>mp_buff := (mp_buff q)[slot (mp_tail q) := (mp_buff q ! slot (mp_tail q))\<lparr>epoch := mp_tail q + of_nat capacity\<rparr>],
     mp_tail := mp_tail q + 1\<rparr>"

text \<open>The operations when no other thread runs.\<close>

definition mpsc_try_push :: "'a \<Rightarrow> 'a mpsc \<Rightarrow> bool \<times> 'a mpsc" where
  "mpsc_try_push d q =
     (let (ticket, q1) = take_ticket q in
      if ticket \<noteq> cell_epoch ticket q1 then (False, q1) else (True, publish ticket (store_data ticket d q1)))"

definition mpsc_pop :: "'a mpsc \<Rightarrow> 'a option \<times> 'a mpsc" where
  "mpsc_pop q = (if \<not> pop_ready q then (None, q) else (Some (pop_data q), pop_release q))"

section \<open>Threads\<close>

text \<open>
  Where a producer is: outside, with a ticket before the epoch test (of \<open>push\<close>, which repeats the test, or
  of \<open>try_push\<close>), before the move of the data, before the store of the epoch. The consumer: outside,
  after the epoch test, after the move. The last three components record the history: the
  data of each ticket, the data popped, the tickets given up by a failed \<open>try_push\<close>.
\<close>

datatype 'a producer = P_Idle | P_Ticket bool "64 word" 'a | P_Store "64 word" 'a | P_Publish "64 word"

datatype 'a consumer = C_Idle | C_Take | C_Release 'a

record 'a ring_sys =
  sy_ring :: "'a mpsc"
  sy_producers :: "'a producer list"
  sy_consumer :: "'a consumer"
  sy_taken :: "'a list"
  sy_popped :: "'a list"
  sy_failed :: "nat list"

definition sys_new :: "'a \<Rightarrow> nat \<Rightarrow> 'a ring_sys" where
  "sys_new d n = \<lparr>sy_ring = mpsc_new d, sy_producers = replicate n P_Idle, sy_consumer = C_Idle,
     sy_taken = [], sy_popped = [], sy_failed = []\<rparr>"

inductive sys_step :: "'a ring_sys \<Rightarrow> 'a ring_sys \<Rightarrow> bool" where
  call: "p < length (sy_producers s) \<Longrightarrow> sy_producers s ! p = P_Idle \<Longrightarrow> take_ticket (sy_ring s) = (t, q) \<Longrightarrow>
    sys_step s (s\<lparr>sy_ring := q, sy_producers := (sy_producers s)[p := P_Ticket blocking t d], sy_taken := sy_taken s @ [d]\<rparr>)"
| spin: "p < length (sy_producers s) \<Longrightarrow> sy_producers s ! p = P_Ticket True t d \<Longrightarrow> t \<noteq> cell_epoch t (sy_ring s) \<Longrightarrow> sys_step s s"
| give_up: "p < length (sy_producers s) \<Longrightarrow> sy_producers s ! p = P_Ticket False t d \<Longrightarrow> t \<noteq> cell_epoch t (sy_ring s) \<Longrightarrow>
    sys_step s (s\<lparr>sy_producers := (sy_producers s)[p := P_Idle], sy_failed := sy_failed s @ [unat t]\<rparr>)"
| enter: "p < length (sy_producers s) \<Longrightarrow> sy_producers s ! p = P_Ticket blocking t d \<Longrightarrow> t = cell_epoch t (sy_ring s) \<Longrightarrow>
    sys_step s (s\<lparr>sy_producers := (sy_producers s)[p := P_Store t d]\<rparr>)"
| store: "p < length (sy_producers s) \<Longrightarrow> sy_producers s ! p = P_Store t d \<Longrightarrow>
    sys_step s (s\<lparr>sy_ring := store_data t d (sy_ring s), sy_producers := (sy_producers s)[p := P_Publish t]\<rparr>)"
| published: "p < length (sy_producers s) \<Longrightarrow> sy_producers s ! p = P_Publish t \<Longrightarrow>
    sys_step s (s\<lparr>sy_ring := publish t (sy_ring s), sy_producers := (sy_producers s)[p := P_Idle]\<rparr>)"
| pop_test: "sy_consumer s = C_Idle \<Longrightarrow> pop_ready (sy_ring s) \<Longrightarrow> sys_step s (s\<lparr>sy_consumer := C_Take\<rparr>)"
| pop_move: "sy_consumer s = C_Take \<Longrightarrow> sys_step s (s\<lparr>sy_consumer := C_Release (pop_data (sy_ring s))\<rparr>)"
| pop_done: "sy_consumer s = C_Release d \<Longrightarrow>
    sys_step s (s\<lparr>sy_ring := pop_release (sy_ring s), sy_consumer := C_Idle, sy_popped := sy_popped s @ [d]\<rparr>)"

abbreviation sys_reach :: "'a \<Rightarrow> nat \<Rightarrow> 'a ring_sys \<Rightarrow> bool" where
  "sys_reach d n \<equiv> sys_step\<^sup>*\<^sup>* (sys_new d n)"

section \<open>Tickets as numbers\<close>

text \<open>As long as fewer than 2^64 tickets have been taken, a ticket and an epoch are their numbers.\<close>

lemma unat_64: "unat (t :: 64 word) < 2 ^ 64"
proof -
  have "unat t < 2 ^ LENGTH(64)" by (rule unsigned_less)
  then show ?thesis by simp
qed

lemma of_nat_64_eq: "n < 2 ^ 64 \<Longrightarrow> m < 2 ^ 64 \<Longrightarrow> (of_nat n :: 64 word) = of_nat m \<longleftrightarrow> n = m"
  by (simp add: word_of_nat_eq_iff take_bit_nat_eq_self)

lemma slot_of_nat: "n < 2 ^ 64 \<Longrightarrow> slot (of_nat n) = n mod capacity"
proof -
  assume n: "n < 2 ^ 64"
  have "(of_nat capacity - 1 :: 64 word) = mask 10" by (simp add: capacity_def mask_eq_exp_minus_1)
  then have "slot (of_nat n) = unat (take_bit 10 (of_nat n :: 64 word))" by (simp add: slot_def take_bit_eq_mask)
  also have "\<dots> = take_bit 10 n" using n by (simp add: unsigned_take_bit_eq unsigned_of_nat take_bit_nat_eq_self)
  finally show ?thesis by (simp add: take_bit_eq_mod capacity_def)
qed

lemma same_slot:
  assumes "m mod capacity = n mod capacity" "t \<le> m" "m < t + capacity" "t \<le> n" "n < t + capacity"
  shows "m = n"
proof -
  have "m \<le> n \<Longrightarrow> n < m + capacity \<Longrightarrow> m mod capacity = n mod capacity \<Longrightarrow> m = n" for m n
    using mod_eq_dvd_iff_nat [of m n capacity] nat_dvd_not_less [of "n - m" capacity] by fastforce
  from this [of m n] this [of n m] assms show ?thesis by linarith
qed

lemma other_slot:
  assumes "m mod capacity = n mod capacity" "t \<le> m" "m < t + capacity" "t \<le> n" "n \<noteq> m"
  shows "t + capacity \<le> n"
  using same_slot [OF assms(1-4)] assms(5) by linarith

section \<open>Invariant\<close>

text \<open>The ticket a producer holds.\<close>

fun holds :: "'a producer \<Rightarrow> nat option" where
  "holds P_Idle = None"
| "holds (P_Ticket b t d) = Some (unat t)"
| "holds (P_Store t d) = Some (unat t)"
| "holds (P_Publish t) = Some (unat t)"

definition held :: "'a ring_sys \<Rightarrow> nat \<Rightarrow> bool" where
  "held s n \<longleftrightarrow> Some n \<in> holds ` set (sy_producers s)"

text \<open>
  The cells are those of the \<open>capacity\<close> tickets from the tail on. The cell of ticket \<open>n\<close> waits for this
  ticket (its epoch is \<open>n\<close>) or holds its data (the epoch is \<open>n + 1\<close>).
\<close>

definition cell_of :: "'a ring_sys \<Rightarrow> nat \<Rightarrow> 'a RingCell" where
  "cell_of s n = mp_buff (sy_ring s) ! (n mod capacity)"

definition full_cell :: "'a ring_sys \<Rightarrow> nat \<Rightarrow> bool" where
  "full_cell s n \<longleftrightarrow> epoch (cell_of s n) = of_nat (n + 1) \<and> n < length (sy_taken s) \<and> data (cell_of s n) = sy_taken s ! n \<and>
     \<not> held s n \<and> n \<notin> set (sy_failed s)"

fun producer_ok :: "'a ring_sys \<Rightarrow> 'a producer \<Rightarrow> bool" where
  "producer_ok s P_Idle \<longleftrightarrow> True"
| "producer_ok s (P_Ticket b t d) \<longleftrightarrow> unat t < length (sy_taken s) \<and> d = sy_taken s ! unat t"
| "producer_ok s (P_Store t d) \<longleftrightarrow> unat t < length (sy_taken s) \<and> d = sy_taken s ! unat t \<and>
     unat t < length (sy_popped s) + capacity \<and> epoch (cell_of s (unat t)) = t"
| "producer_ok s (P_Publish t) \<longleftrightarrow> unat t < length (sy_taken s) \<and> data (cell_of s (unat t)) = sy_taken s ! unat t \<and>
     unat t < length (sy_popped s) + capacity \<and> epoch (cell_of s (unat t)) = t"

fun consumer_ok :: "'a ring_sys \<Rightarrow> 'a consumer \<Rightarrow> bool" where
  "consumer_ok s C_Idle \<longleftrightarrow> True"
| "consumer_ok s C_Take \<longleftrightarrow> full_cell s (length (sy_popped s))"
| "consumer_ok s (C_Release d) \<longleftrightarrow> full_cell s (length (sy_popped s)) \<and> d = sy_taken s ! length (sy_popped s)"

definition tickets_unique :: "'a producer list \<Rightarrow> bool" where
  "tickets_unique ps \<longleftrightarrow> (\<forall>p < length ps. \<forall>p' < length ps. holds (ps ! p) = holds (ps ! p') \<longrightarrow> holds (ps ! p) \<noteq> None \<longrightarrow> p = p')"

definition sys_inv :: "'a ring_sys \<Rightarrow> bool" where
  "sys_inv s \<longleftrightarrow>
     length (mp_buff (sy_ring s)) = capacity \<and> mp_head (sy_ring s) = of_nat (length (sy_taken s)) \<and>
     mp_tail (sy_ring s) = of_nat (length (sy_popped s)) \<and> sy_popped s = take (length (sy_popped s)) (sy_taken s) \<and>
     (\<forall>n. length (sy_popped s) \<le> n \<and> n < length (sy_popped s) + capacity \<longrightarrow> epoch (cell_of s n) = of_nat n \<or> full_cell s n) \<and>
     (\<forall>x \<in> set (sy_producers s). producer_ok s x) \<and>
     (\<forall>n. held s n \<or> n \<in> set (sy_failed s) \<longrightarrow> length (sy_popped s) \<le> n \<and> n < length (sy_taken s)) \<and>
     (\<forall>n \<in> set (sy_failed s). \<not> held s n) \<and>
     tickets_unique (sy_producers s) \<and>
     consumer_ok s (sy_consumer s) \<and>
     (\<forall>n. length (sy_popped s) \<le> n \<and> n < length (sy_taken s) \<longrightarrow>
        held s n \<or> n \<in> set (sy_failed s) \<or> n < length (sy_popped s) + capacity \<and> full_cell s n)"

text \<open>The bound under which tickets do not wrap around.\<close>

definition small :: "'a ring_sys \<Rightarrow> bool" where
  "small s \<longleftrightarrow> length (sy_taken s) + capacity < 2 ^ 64"

lemma held_at: "p < length (sy_producers s) \<Longrightarrow> holds (sy_producers s ! p) = Some n \<Longrightarrow> held s n"
  unfolding held_def by (metis image_eqI nth_mem)

lemma held_update:
  assumes "tickets_unique (sy_producers s)" "p < length (sy_producers s)" "sy_producers s' = (sy_producers s)[p := y]"
  shows "held s' n \<longleftrightarrow> holds y = Some n \<or> held s n \<and> holds (sy_producers s ! p) \<noteq> Some n"
proof -
  have "held s' n \<longleftrightarrow> (\<exists>k < length (sy_producers s). holds ((sy_producers s)[p := y] ! k) = Some n)"
    using assms(3) unfolding held_def image_iff by (metis in_set_conv_nth length_list_update)
  also have "\<dots> \<longleftrightarrow> holds y = Some n \<or> (\<exists>k < length (sy_producers s). k \<noteq> p \<and> holds (sy_producers s ! k) = Some n)"
    using assms(2) by (auto simp: nth_list_update split: if_splits)
  also have "(\<exists>k < length (sy_producers s). k \<noteq> p \<and> holds (sy_producers s ! k) = Some n) \<longleftrightarrow> held s n \<and> holds (sy_producers s ! p) \<noteq> Some n"
  proof -
    have "held s n \<longleftrightarrow> (\<exists>k < length (sy_producers s). holds (sy_producers s ! k) = Some n)"
      unfolding held_def image_iff by (metis in_set_conv_nth)
    moreover have "k = p" if "k < length (sy_producers s)" "holds (sy_producers s ! k) = Some n" "holds (sy_producers s ! p) = Some n" for k
      using assms(1,2) that unfolding tickets_unique_def by (metis option.distinct(1))
    ultimately show ?thesis by metis
  qed
  finally show ?thesis .
qed

lemma tickets_unique_update:
  assumes "tickets_unique ps" "p < length ps" "holds y = None \<or> holds y = holds (ps ! p) \<or> holds y \<notin> holds ` set ps"
  shows "tickets_unique (ps[p := y])"
proof -
  have "holds y = None \<or> (\<forall>k < length ps. k \<noteq> p \<longrightarrow> holds (ps ! k) \<noteq> holds y)"
    using assms unfolding tickets_unique_def by (metis imageI nth_mem)
  then show ?thesis using assms(1,2) unfolding tickets_unique_def by (auto simp: nth_list_update)
qed

lemma producer_ok_update:
  assumes "\<forall>x \<in> set ps. producer_ok s x" "p < length ps" "producer_ok s' y"
    and "\<And>k. k < length ps \<Longrightarrow> k \<noteq> p \<Longrightarrow> producer_ok s (ps ! k) \<Longrightarrow> producer_ok s' (ps ! k)"
  shows "\<forall>x \<in> set (ps[p := y]). producer_ok s' x"
  using assms unfolding all_set_conv_all_nth by (auto simp: nth_list_update)

lemma sys_invD:
  assumes "sys_inv s"
  shows "length (mp_buff (sy_ring s)) = capacity" "mp_head (sy_ring s) = of_nat (length (sy_taken s))"
    "mp_tail (sy_ring s) = of_nat (length (sy_popped s))" "sy_popped s = take (length (sy_popped s)) (sy_taken s)"
    "length (sy_popped s) \<le> n \<Longrightarrow> n < length (sy_popped s) + capacity \<Longrightarrow> epoch (cell_of s n) = of_nat n \<or> full_cell s n"
    "x \<in> set (sy_producers s) \<Longrightarrow> producer_ok s x"
    "held s n \<or> n \<in> set (sy_failed s) \<Longrightarrow> length (sy_popped s) \<le> n \<and> n < length (sy_taken s)"
    "n \<in> set (sy_failed s) \<Longrightarrow> \<not> held s n" "tickets_unique (sy_producers s)" "consumer_ok s (sy_consumer s)"
    "length (sy_popped s) \<le> length (sy_taken s)"
    "length (sy_popped s) \<le> n \<Longrightarrow> n < length (sy_taken s) \<Longrightarrow>
        held s n \<or> n \<in> set (sy_failed s) \<or> n < length (sy_popped s) + capacity \<and> full_cell s n"
  using assms unfolding sys_inv_def by (blast, blast, blast, blast, blast, blast, blast, blast, blast, blast, metis length_take min.cobounded1, blast)

lemma cell_epoch_cell_of: "unat t < 2 ^ 64 \<Longrightarrow> cell_epoch t (sy_ring s) = epoch (cell_of s (unat t))"
  using slot_of_nat [of "unat t"] by (simp add: cell_epoch_def cell_of_def)

lemma inv_call:
  assumes s: "sys_inv s" and p: "p < length (sy_producers s)" "sy_producers s ! p = P_Idle" and t: "take_ticket (sy_ring s) = (t, q)"
    and s': "s' = s\<lparr>sy_ring := q, sy_producers := (sy_producers s)[p := P_Ticket b t d], sy_taken := sy_taken s @ [d]\<rparr>" and small: "small s'"
  shows "sys_inv s'"
proof -
  note i = sys_invD [OF s]
  let ?h = "length (sy_taken s)"
  have q: "t = of_nat ?h" "q = (sy_ring s)\<lparr>mp_head := of_nat (?h + 1)\<rparr>" using t i(2) by (auto simp: take_ticket_def ac_simps)
  have pr: "sy_ring s' = q" "sy_producers s' = (sy_producers s)[p := P_Ticket b t d]" "sy_taken s' = sy_taken s @ [d]"
    "sy_popped s' = sy_popped s" "sy_failed s' = sy_failed s" "sy_consumer s' = sy_consumer s" by (simp_all add: s')
  have ut: "unat t = ?h" using small q(1) by (simp add: small_def s' unsigned_of_nat take_bit_nat_eq_self)
  have held: "held s' n \<longleftrightarrow> n = ?h \<or> held s n" for n
    using held_update [OF i(9) p(1) pr(2), of n] p(2) ut by auto
  have cell: "cell_of s' n = cell_of s n" for n by (simp add: cell_of_def pr q(2))
  have full: "full_cell s n \<Longrightarrow> full_cell s' n" for n by (auto simp: full_cell_def cell held pr nth_append)
  have "producer_ok s x \<Longrightarrow> producer_ok s' x" for x by (cases x) (auto simp: cell pr nth_append)
  then have "\<forall>x \<in> set (sy_producers s'). producer_ok s' x"
    unfolding pr(2) by (intro producer_ok_update [OF _ p(1)]) (use i(6) ut pr(3) in auto)
  moreover have "tickets_unique (sy_producers s')"
    unfolding pr(2) using i(7) [of ?h] ut by (intro tickets_unique_update [OF i(9) p(1)]) (auto simp: held_def)
  moreover have "consumer_ok s' (sy_consumer s')"
    using i(10) full by (cases "sy_consumer s") (auto simp: pr full_cell_def nth_append)
  moreover have "epoch (cell_of s' n) = of_nat n \<or> full_cell s' n" if "length (sy_popped s) \<le> n" "n < length (sy_popped s) + capacity" for n
    using i(5) [OF that] full cell by auto
  moreover have "held s' n \<or> n \<in> set (sy_failed s') \<Longrightarrow> length (sy_popped s') \<le> n \<and> n < length (sy_taken s')" for n
    using i(7) [of n] i(11) by (auto simp: held pr)
  moreover have "n \<in> set (sy_failed s') \<Longrightarrow> \<not> held s' n" for n using i(7,8) [of n] by (auto simp: held pr)
  moreover have "held s' n \<or> n \<in> set (sy_failed s') \<or> n < length (sy_popped s') + capacity \<and> full_cell s' n"
    if "length (sy_popped s') \<le> n" "n < length (sy_taken s')" for n
    using i(12) [of n] full [of n] held [of n] that unfolding pr by (cases "n = ?h") auto
  ultimately show ?thesis
    using i(1,3,4,11) q(2) unfolding sys_inv_def by (simp add: pr)
qed

lemma inv_enter:
  assumes s: "sys_inv s" and p: "p < length (sy_producers s)" "sy_producers s ! p = P_Ticket b t d" and t: "t = cell_epoch t (sy_ring s)"
    and s': "s' = s\<lparr>sy_producers := (sy_producers s)[p := P_Store t d]\<rparr>" and small: "small s"
  shows "sys_inv s'"
proof -
  note i = sys_invD [OF s]
  have pr: "sy_producers s' = (sy_producers s)[p := P_Store t d]" by (simp add: s')
  have held: "held s' n \<longleftrightarrow> held s n" for n
    using held_update [OF i(9) p(1) pr, of n] p(2) held_at [OF p(1), of n] by auto
  have cell: "cell_of s' n = cell_of s n" for n by (simp add: cell_of_def s')
  have full: "full_cell s' n \<longleftrightarrow> full_cell s n" for n by (simp add: full_cell_def cell held) (simp add: s')
  have ok: "producer_ok s (P_Ticket b t d)" using i(6) [OF nth_mem [OF p(1)]] p(2) by simp
  have n: "length (sy_popped s) \<le> unat t" using i(7) [of "unat t"] held_at [OF p(1), of "unat t"] p(2) by simp
  have e: "epoch (cell_of s (unat t)) = t" using t cell_epoch_cell_of [of t s] unat_64 [of t] by simp
  have "unat t < length (sy_popped s) + capacity"
  proof (rule ccontr)
    assume far: "\<not> ?thesis"
    define k where "k = length (sy_popped s) + (unat t - length (sy_popped s)) mod capacity"
    have k: "length (sy_popped s) \<le> k" "k < length (sy_popped s) + capacity" "k mod capacity = unat t mod capacity"
      using n by (simp_all add: k_def capacity_def mod_simps)
    then have "epoch (cell_of s (unat t)) = of_nat k \<or> epoch (cell_of s (unat t)) = of_nat (k + 1)"
      using i(5) [OF k(1,2)] by (auto simp: full_cell_def cell_of_def)
    then have "of_nat (unat t) = (of_nat k :: 64 word) \<or> of_nat (unat t) = (of_nat (k + 1) :: 64 word)" using e by simp
    moreover have "k < unat t" using k far by simp
    ultimately have "unat t = k \<or> unat t = k + 1"
      using of_nat_64_eq [of "unat t" k] of_nat_64_eq [of "unat t" "k + 1"] unat_64 [of t] by simp
    then have "unat t = k + 1" using \<open>k < unat t\<close> by simp
    then show False using k(3) far by (auto simp: capacity_def mod_Suc split: if_splits)
  qed
  then have "producer_ok s' (P_Store t d)" using ok e by (simp add: cell) (simp add: s')
  moreover have "producer_ok s x \<Longrightarrow> producer_ok s' x" for x by (cases x) (simp_all add: cell, simp_all add: s')
  ultimately have "\<forall>x \<in> set (sy_producers s'). producer_ok s' x"
    unfolding pr by (intro producer_ok_update [OF _ p(1)]) (use i(6) in auto)
  moreover have "tickets_unique (sy_producers s')"
    unfolding pr using p(2) by (intro tickets_unique_update [OF i(9) p(1)]) auto
  moreover have "consumer_ok s' (sy_consumer s)"
    using i(10) full by (cases "sy_consumer s") (auto simp: s')
  ultimately show ?thesis
    using i held full cell unfolding sys_inv_def by (simp add: s')
qed

lemma inv_give_up:
  assumes s: "sys_inv s" and p: "p < length (sy_producers s)" "sy_producers s ! p = P_Ticket False t d"
    and s': "s' = s\<lparr>sy_producers := (sy_producers s)[p := P_Idle], sy_failed := sy_failed s @ [unat t]\<rparr>"
  shows "sys_inv s'"
proof -
  note i = sys_invD [OF s]
  have pr: "sy_producers s' = (sy_producers s)[p := P_Idle]" by (simp add: s')
  have h: "held s (unat t)" using held_at [OF p(1)] p(2) by simp
  have held: "held s' n \<longleftrightarrow> held s n \<and> n \<noteq> unat t" for n
    using held_update [OF i(9) p(1) pr, of n] p(2) by auto
  have cell: "cell_of s' n = cell_of s n" for n by (simp add: cell_of_def s')
  have full: "full_cell s' n \<longleftrightarrow> full_cell s n" for n using h by (auto simp: full_cell_def cell held) (auto simp: s')
  have "producer_ok s x \<Longrightarrow> producer_ok s' x" for x by (cases x) (simp_all add: cell, simp_all add: s')
  then have "\<forall>x \<in> set (sy_producers s'). producer_ok s' x"
    unfolding pr by (intro producer_ok_update [OF _ p(1)]) (use i(6) in auto)
  moreover have "tickets_unique (sy_producers s')"
    unfolding pr by (intro tickets_unique_update [OF i(9) p(1)]) auto
  moreover have "consumer_ok s' (sy_consumer s)"
    using i(10) full by (cases "sy_consumer s") (auto simp: s')
  moreover have "held s' n \<or> n \<in> set (sy_failed s') \<Longrightarrow> length (sy_popped s) \<le> n \<and> n < length (sy_taken s)" for n
    using i(7) [of n] i(7) [of "unat t"] h by (auto simp: held) (auto simp: s')
  moreover have "held s' n \<or> n \<in> set (sy_failed s') \<or> n < length (sy_popped s) + capacity \<and> full_cell s' n"
    if "length (sy_popped s) \<le> n" "n < length (sy_taken s)" for n
    using i(12) [of n] full [of n] held that by (auto simp: s')
  ultimately show ?thesis
    using i(1-5,8) held full cell unfolding sys_inv_def by (auto simp: s')
qed

text \<open>One cell is changed; the cells of the other tickets of the window are not.\<close>

lemma cell_of_other:
  assumes "n mod capacity \<noteq> k" "mp_buff (sy_ring s') = (mp_buff (sy_ring s))[k := c]"
  shows "cell_of s' n = cell_of s n"
  using assms by (simp add: cell_of_def)

lemma cell_written:
  assumes s: "sys_inv s" and p: "p < length (sy_producers s)" "holds (sy_producers s ! p) = Some (unat t)"
    and near: "unat t < length (sy_popped s) + capacity"
    and b: "mp_buff (sy_ring s') = (mp_buff (sy_ring s))[unat t mod capacity := c]"
  shows "cell_of s' (unat t) = c"
    "\<lbrakk>length (sy_popped s) \<le> n; n < length (sy_popped s) + capacity; n \<noteq> unat t\<rbrakk> \<Longrightarrow> cell_of s' n = cell_of s n"
proof -
  note i = sys_invD [OF s]
  have "unat t mod capacity < capacity" by (simp add: capacity_def)
  then show "cell_of s' (unat t) = c" using i(1) b by (simp add: cell_of_def)
  have lo: "length (sy_popped s) \<le> unat t" using i(7) [of "unat t"] held_at [OF p] by simp
  show "cell_of s' n = cell_of s n" if "length (sy_popped s) \<le> n" "n < length (sy_popped s) + capacity" "n \<noteq> unat t"
    using cell_of_other [OF _ b, of n] same_slot [OF _ that(1,2) lo near] that(3) by auto
qed

lemma other_ticket:
  assumes s: "sys_inv s" and p: "p < length (sy_producers s)" "holds (sy_producers s ! p) = Some n"
    and k: "k < length (sy_producers s)" "k \<noteq> p" "holds (sy_producers s ! k) = Some u"
  shows "u \<noteq> n" "length (sy_popped s) \<le> u"
  using sys_invD(9) [OF s] sys_invD(7) [OF s, of u] held_at [OF k(1,3)] p k unfolding tickets_unique_def by (metis option.distinct(1))+

lemma inv_store:
  assumes s: "sys_inv s" and p: "p < length (sy_producers s)" "sy_producers s ! p = P_Store t d"
    and s': "s' = s\<lparr>sy_ring := store_data t d (sy_ring s), sy_producers := (sy_producers s)[p := P_Publish t]\<rparr>"
  shows "sys_inv s'"
proof -
  note i = sys_invD [OF s]
  have pr: "sy_producers s' = (sy_producers s)[p := P_Publish t]" "sy_taken s' = sy_taken s" "sy_popped s' = sy_popped s"
    "sy_failed s' = sy_failed s" "sy_consumer s' = sy_consumer s" by (simp_all add: s')
  have ut: "unat t < 2 ^ 64" "slot t = unat t mod capacity" using unat_64 [of t] slot_of_nat [of "unat t"] by simp_all
  have b: "mp_buff (sy_ring s') = (mp_buff (sy_ring s))[unat t mod capacity := (cell_of s (unat t))\<lparr>data := d\<rparr>]"
    by (simp add: s' store_data_def ut(2) cell_of_def)
  have h: "held s (unat t)" using held_at [OF p(1)] p(2) by simp
  have ok: "producer_ok s (P_Store t d)" using i(6) [OF nth_mem [OF p(1)]] p(2) by simp
  have held: "held s' n \<longleftrightarrow> held s n" for n
    using held_update [OF i(9) p(1) pr(1), of n] p(2) held_at [OF p(1), of n] by auto
  have ho: "holds (sy_producers s ! p) = Some (unat t)" and near: "unat t < length (sy_popped s) + capacity" using p(2) ok by simp_all
  note mine = cell_written(1) [OF s p(1) ho near b] and other = cell_written(2) [OF s p(1) ho near b]
  have ep: "epoch (cell_of s' n) = epoch (cell_of s n)" for n
    using cell_of_other [OF _ b, of n] mine by (cases "n mod capacity = unat t mod capacity") (simp_all add: cell_of_def)
  have full: "full_cell s' n" if "full_cell s n" "length (sy_popped s) \<le> n" "n < length (sy_popped s) + capacity" for n
  proof -
    have "n \<noteq> unat t" using that(1) h by (auto simp: full_cell_def)
    then show ?thesis using that other [of n] by (simp add: full_cell_def held pr)
  qed
  have "producer_ok s' (sy_producers s ! k)" if k: "k < length (sy_producers s)" "k \<noteq> p" "producer_ok s (sy_producers s ! k)" for k
  proof (cases "sy_producers s ! k")
    case (P_Publish u)
    then show ?thesis using k(3) other [of "unat u"] other_ticket [OF s p(1) ho k(1,2), of "unat u"] by (simp add: pr)
  qed (use k(3) in \<open>simp_all add: pr ep\<close>)
  then have "\<forall>x \<in> set (sy_producers s'). producer_ok s' x"
    unfolding pr(1) by (intro producer_ok_update [OF _ p(1)]) (use i(6) ok mine in \<open>auto simp: pr\<close>)
  moreover have "tickets_unique (sy_producers s')"
    unfolding pr(1) using p(2) by (intro tickets_unique_update [OF i(9) p(1)]) auto
  moreover have "consumer_ok s' (sy_consumer s')"
    using i(10) full [of "length (sy_popped s)"] by (cases "sy_consumer s") (auto simp: pr capacity_def)
  moreover have "epoch (cell_of s' n) = of_nat n \<or> full_cell s' n" if "length (sy_popped s) \<le> n" "n < length (sy_popped s) + capacity" for n
    using i(5) [OF that] full [OF _ that] ep by auto
  moreover have "held s' n \<or> n \<in> set (sy_failed s') \<or> n < length (sy_popped s') + capacity \<and> full_cell s' n"
    if "length (sy_popped s') \<le> n" "n < length (sy_taken s')" for n
    using i(12) [of n] full [of n] held that by (auto simp: pr)
  ultimately show ?thesis
    using i(1-4,7,8) held unfolding sys_inv_def by (simp add: pr) (simp add: s' store_data_def)
qed

lemma inv_publish:
  assumes s: "sys_inv s" and p: "p < length (sy_producers s)" "sy_producers s ! p = P_Publish t"
    and s': "s' = s\<lparr>sy_ring := publish t (sy_ring s), sy_producers := (sy_producers s)[p := P_Idle]\<rparr>"
  shows "sys_inv s'"
proof -
  note i = sys_invD [OF s]
  have pr: "sy_producers s' = (sy_producers s)[p := P_Idle]" "sy_taken s' = sy_taken s" "sy_popped s' = sy_popped s"
    "sy_failed s' = sy_failed s" "sy_consumer s' = sy_consumer s" by (simp_all add: s')
  have ut: "unat t < 2 ^ 64" "slot t = unat t mod capacity" "of_nat (unat t) = t" using unat_64 [of t] slot_of_nat [of "unat t"] by simp_all
  have b: "mp_buff (sy_ring s') = (mp_buff (sy_ring s))[unat t mod capacity := (cell_of s (unat t))\<lparr>epoch := t + 1\<rparr>]"
    by (simp add: s' publish_def ut(2) cell_of_def)
  have h: "held s (unat t)" using held_at [OF p(1)] p(2) by simp
  have ok: "producer_ok s (P_Publish t)" using i(6) [OF nth_mem [OF p(1)]] p(2) by simp
  have held: "held s' n \<longleftrightarrow> held s n \<and> n \<noteq> unat t" for n
    using held_update [OF i(9) p(1) pr(1), of n] p(2) by auto
  have ho: "holds (sy_producers s ! p) = Some (unat t)" and near: "unat t < length (sy_popped s) + capacity" using p(2) ok by simp_all
  note mine = cell_written(1) [OF s p(1) ho near b] and other = cell_written(2) [OF s p(1) ho near b]
  have new: "full_cell s' (unat t)"
    using ok mine i(8) [of "unat t"] h ut(3) by (auto simp: full_cell_def held pr ac_simps)
  have full: "full_cell s' n" if "full_cell s n" "length (sy_popped s) \<le> n" "n < length (sy_popped s) + capacity" for n
  proof -
    have "n \<noteq> unat t" using that(1) h by (auto simp: full_cell_def)
    then show ?thesis using that other [of n] by (simp add: full_cell_def held pr)
  qed
  have "producer_ok s' (sy_producers s ! k)" if k: "k < length (sy_producers s)" "k \<noteq> p" "producer_ok s (sy_producers s ! k)" for k
    using k(3) other other_ticket [OF s p(1) ho k(1,2)] by (cases "sy_producers s ! k") (simp_all add: pr)
  then have "\<forall>x \<in> set (sy_producers s'). producer_ok s' x"
    unfolding pr(1) by (intro producer_ok_update [OF _ p(1)]) (use i(6) in auto)
  moreover have "tickets_unique (sy_producers s')"
    unfolding pr(1) by (intro tickets_unique_update [OF i(9) p(1)]) auto
  moreover have "consumer_ok s' (sy_consumer s')"
    using i(10) full [of "length (sy_popped s)"] by (cases "sy_consumer s") (auto simp: pr capacity_def)
  moreover have "epoch (cell_of s' n) = of_nat n \<or> full_cell s' n" if "length (sy_popped s) \<le> n" "n < length (sy_popped s) + capacity" for n
    using i(5) [OF that] full [OF _ that] new other [OF that] by (cases "n = unat t") auto
  moreover have "held s' n \<or> n \<in> set (sy_failed s') \<or> n < length (sy_popped s') + capacity \<and> full_cell s' n"
    if "length (sy_popped s') \<le> n" "n < length (sy_taken s')" for n
    using i(12) [of n] full [of n] held new ok that by (cases "n = unat t") (auto simp: pr)
  ultimately show ?thesis
    using i(1-4,7,8) held unfolding sys_inv_def by (simp add: pr) (simp add: s' publish_def)
qed

lemma tail_facts:
  assumes "sys_inv s" "small s"
  shows "slot (of_nat (length (sy_popped s))) = length (sy_popped s) mod capacity"
    "pop_ready (sy_ring s) \<longleftrightarrow> full_cell s (length (sy_popped s))"
    "pop_data (sy_ring s) = data (cell_of s (length (sy_popped s)))"
proof -
  note i = sys_invD [OF assms(1)]
  have t: "length (sy_popped s) < 2 ^ 64" using assms(2) i(11) by (simp add: small_def)
  show sl: "slot (of_nat (length (sy_popped s))) = length (sy_popped s) mod capacity" by (rule slot_of_nat [OF t])
  show "pop_data (sy_ring s) = data (cell_of s (length (sy_popped s)))" by (simp add: pop_data_def i(3) sl cell_of_def)
  have ce: "cell_epoch (mp_tail (sy_ring s)) (sy_ring s) = epoch (cell_of s (length (sy_popped s)))" by (simp add: cell_epoch_def i(3) sl cell_of_def)
  have "epoch (cell_of s (length (sy_popped s))) = of_nat (length (sy_popped s)) \<or> full_cell s (length (sy_popped s))"
    by (rule i(5)) (simp_all add: capacity_def)
  then show "pop_ready (sy_ring s) \<longleftrightarrow> full_cell s (length (sy_popped s))"
    unfolding pop_ready_def ce by (auto simp: i(3) full_cell_def ac_simps)
qed

lemma inv_consumer:
  assumes s: "sys_inv s" and s': "s' = s\<lparr>sy_consumer := c\<rparr>" and c: "consumer_ok s c"
  shows "sys_inv s'"
proof -
  note i = sys_invD [OF s]
  have held: "held s' n \<longleftrightarrow> held s n" and cell: "cell_of s' n = cell_of s n" for n by (simp_all add: held_def cell_of_def s')
  have full: "full_cell s' n \<longleftrightarrow> full_cell s n" for n by (simp add: full_cell_def held cell) (simp add: s')
  have "producer_ok s x \<Longrightarrow> producer_ok s' x" for x by (cases x) (simp_all add: cell, simp_all add: s')
  moreover have "consumer_ok s' c" using c full by (cases c) (simp_all add: s')
  ultimately show ?thesis using i held full cell unfolding sys_inv_def by (simp add: s')
qed

lemma inv_pop_done:
  assumes s: "sys_inv s" and c: "sy_consumer s = C_Release d" and small: "small s"
    and s': "s' = s\<lparr>sy_ring := pop_release (sy_ring s), sy_consumer := C_Idle, sy_popped := sy_popped s @ [d]\<rparr>"
  shows "sys_inv s'"
proof -
  note i = sys_invD [OF s]
  let ?t = "length (sy_popped s)"
  have pr: "sy_producers s' = sy_producers s" "sy_taken s' = sy_taken s" "sy_popped s' = sy_popped s @ [d]" "length (sy_popped s') = ?t + 1"
    "sy_failed s' = sy_failed s" "sy_consumer s' = C_Idle" by (simp_all add: s')
  have f: "full_cell s ?t" "d = sy_taken s ! ?t" using i(10) c by simp_all
  have th: "?t < length (sy_taken s)" "\<not> held s ?t" "?t \<notin> set (sy_failed s)" using f(1) by (simp_all add: full_cell_def)
  have b: "mp_buff (sy_ring s') = (mp_buff (sy_ring s))[?t mod capacity := (cell_of s ?t)\<lparr>epoch := of_nat (?t + capacity)\<rparr>]"
    using tail_facts(1) [OF s small] by (simp add: s' pop_release_def cell_of_def i(3))
  have ring: "length (mp_buff (sy_ring s')) = capacity" "mp_head (sy_ring s') = of_nat (length (sy_taken s))" "mp_tail (sy_ring s') = of_nat (?t + 1)"
    using i(1-3) by (simp_all add: s' pop_release_def ac_simps)
  have held: "held s' n \<longleftrightarrow> held s n" for n by (simp add: held_def pr)
  have lt: "?t mod capacity < capacity" by (simp add: capacity_def)
  have mine: "epoch (cell_of s' (?t + capacity)) = of_nat (?t + capacity)" using lt i(1) b by (simp add: cell_of_def)
  have other: "cell_of s' n = cell_of s n" if "?t + 1 \<le> n" "n < ?t + capacity" for n
    using cell_of_other [OF _ b, of n] same_slot [of n ?t ?t] that by force
  have full: "full_cell s' n" if "full_cell s n" "?t + 1 \<le> n" "n < ?t + capacity" for n
    using that other [of n] by (simp add: full_cell_def held pr)
  have later: "n \<noteq> ?t" if "held s n \<or> n \<in> set (sy_failed s)" for n using that th by auto
  have "producer_ok s' x" if x: "x \<in> set (sy_producers s)" for x
  proof -
    have "?t + 1 \<le> n" if "holds x = Some n" for n
      using i(7) [of n] later [of n] x that by (force simp: held_def image_iff)
    then show ?thesis using i(6) [OF x] other by (cases x) (auto simp: pr)
  qed
  moreover have "epoch (cell_of s' n) = of_nat n \<or> full_cell s' n" if "?t + 1 \<le> n" "n < ?t + 1 + capacity" for n
    using i(5) [of n] full [of n] other [of n] mine that by (cases "n = ?t + capacity") auto
  moreover have "take (?t + 1) (sy_taken s) = sy_popped s'"
    using i(4) f(2) th(1) by (simp add: pr take_Suc_conv_app_nth)
  moreover have "held s' n \<or> n \<in> set (sy_failed s') \<or> n < ?t + 1 + capacity \<and> full_cell s' n" if "?t + 1 \<le> n" "n < length (sy_taken s)" for n
    using i(12) [of n] full [of n] held that by (auto simp: pr)
  moreover have "held s' n \<or> n \<in> set (sy_failed s') \<Longrightarrow> ?t + 1 \<le> n \<and> n < length (sy_taken s)" for n
    using i(7) [of n] later [of n] by (force simp: held pr)
  ultimately show ?thesis
    using i(8,9) held ring unfolding sys_inv_def by (simp add: pr(1,2,4-6))
qed

lemma sys_new_inv: "sys_inv (sys_new d n)"
proof -
  have "cell_of (sys_new d n) k = \<lparr>epoch = of_nat k, data = d\<rparr>" if "k < capacity" for k
    using that by (simp add: cell_of_def sys_new_def mpsc_new_def)
  then show ?thesis
    by (simp add: sys_inv_def held_def tickets_unique_def) (auto simp: sys_new_def mpsc_new_def in_set_replicate)
qed

lemma small_mono: "sys_step s s' \<Longrightarrow> small s' \<Longrightarrow> small s"
  by (induction rule: sys_step.induct) (simp_all add: small_def)

lemma sys_inv_step:
  assumes "sys_step s s'" "sys_inv s" "small s'"
  shows "sys_inv s'"
  using assms
proof (induction rule: sys_step.induct)
  case (call p s t q b d)
  then show ?case using inv_call [OF call(4) call(1-3) refl] by blast
next
  case (give_up p s t d)
  then show ?case using inv_give_up [OF _ give_up(1,2) refl] by blast
next
  case (enter p s b t d)
  then show ?case using inv_enter [OF _ enter(1-3) refl] by (simp add: small_def)
next
  case (store p s t d)
  then show ?case using inv_store [OF _ store(1,2) refl] by blast
next
  case (published p s t)
  then show ?case using inv_publish [OF _ published(1,2) refl] by blast
next
  case (pop_test s)
  then show ?case using inv_consumer [of s _ C_Take] tail_facts(2) [of s] by (simp add: small_def)
next
  case (pop_move s)
  then have "full_cell s (length (sy_popped s))" using sys_invD(10) by fastforce
  then show ?case using pop_move inv_consumer [of s _ "C_Release (pop_data (sy_ring s))"] tail_facts(3) [of s] by (simp add: small_def full_cell_def)
next
  case (pop_done s d)
  then show ?case using inv_pop_done [of s d] by (simp add: small_def)
qed

lemma sys_reach_inv: "sys_reach d n s \<Longrightarrow> small s \<Longrightarrow> sys_inv s"
proof (induction rule: rtranclp_induct)
  case (step s s')
  then show ?case using sys_inv_step small_mono by blast
qed (rule sys_new_inv)

section \<open>Operations without interference\<close>

definition at_rest :: "'a ring_sys \<Rightarrow> bool" where
  "at_rest s \<longleftrightarrow> (\<forall>x \<in> set (sy_producers s). x = P_Idle) \<and> sy_consumer s = C_Idle"

lemma at_rest_accounted:
  assumes "sys_inv s" "at_rest s" "length (sy_popped s) \<le> n" "n < length (sy_taken s)" "n \<notin> set (sy_failed s)"
  shows "full_cell s n" "n < length (sy_popped s) + capacity"
proof -
  have "\<not> held s n" using assms(2) by (auto simp: held_def at_rest_def)
  then show "full_cell s n" "n < length (sy_popped s) + capacity" using sys_invD(12) [OF assms(1,3,4)] assms(5) by auto
qed

lemma pop_at_rest:
  assumes s: "sys_inv s" "small s" "at_rest s" and f: "sy_failed s = []"
  shows "mpsc_pop (sy_ring s) = (if length (sy_popped s) = length (sy_taken s) then (None, sy_ring s)
     else (Some (sy_taken s ! length (sy_popped s)), pop_release (sy_ring s)))"
proof (cases "length (sy_popped s) = length (sy_taken s)")
  case True
  then have "\<not> pop_ready (sy_ring s)" using tail_facts(2) [OF s(1,2)] by (simp add: full_cell_def)
  then show ?thesis using True by (simp add: mpsc_pop_def)
next
  case False
  then have "full_cell s (length (sy_popped s))"
    using at_rest_accounted(1) [OF s(1,3)] sys_invD(11) [OF s(1)] f by simp
  then show ?thesis using False tail_facts(2,3) [OF s(1,2)] by (simp add: mpsc_pop_def full_cell_def)
qed

definition popped_one :: "'a ring_sys \<Rightarrow> 'a ring_sys" where
  "popped_one s = s\<lparr>sy_ring := pop_release (sy_ring s), sy_popped := sy_popped s @ [sy_taken s ! length (sy_popped s)]\<rparr>"

lemma pop_steps:
  assumes s: "sys_inv s" "small s" "at_rest s" and f: "sy_failed s = []" and l: "length (sy_popped s) < length (sy_taken s)"
  shows "sys_step\<^sup>*\<^sup>* s (popped_one s) \<and> at_rest (popped_one s)"
proof -
  have full: "full_cell s (length (sy_popped s))" using at_rest_accounted(1) [OF s(1,3)] l f by simp
  have d: "pop_data (sy_ring s) = sy_taken s ! length (sy_popped s)" using tail_facts(3) [OF s(1,2)] full by (simp add: full_cell_def)
  have idle: "sy_consumer s = C_Idle" using s(3) by (simp add: at_rest_def)
  let ?s1 = "s\<lparr>sy_consumer := C_Take\<rparr>" and ?s2 = "s\<lparr>sy_consumer := C_Release (pop_data (sy_ring s))\<rparr>"
  have "sys_step s ?s1" by (rule pop_test) (use idle full tail_facts(2) [OF s(1,2)] in simp_all)
  moreover have "sys_step ?s1 ?s2" using pop_move [of ?s1] by simp
  moreover have "sys_step ?s2 (popped_one s)"
    using pop_done [of ?s2 "pop_data (sy_ring s)"] idle d by (cases s) (simp add: popped_one_def)
  ultimately show ?thesis using s(3) by (auto simp: at_rest_def popped_one_def)
qed

text \<open>One producer pushes without interference.\<close>

lemma push_steps:
  assumes s: "sys_inv s" "small s" "at_rest s" and p: "p < length (sy_producers s)" and f: "sy_failed s = []"
    and room: "length (sy_taken s) < length (sy_popped s) + capacity" and small: "length (sy_taken s) + 1 + capacity < 2 ^ 64"
  shows "\<exists>s'. sys_step\<^sup>*\<^sup>* s s' \<and> at_rest s' \<and> sy_taken s' = sy_taken s @ [d] \<and> sy_popped s' = sy_popped s \<and>
     sy_failed s' = [] \<and> length (sy_producers s') = length (sy_producers s)"
proof -
  note i = sys_invD [OF s(1)]
  let ?h = "length (sy_taken s)"
  define t :: "64 word" where "t = of_nat ?h"
  have ut: "unat t = ?h" using s(2) by (simp add: t_def small_def unsigned_of_nat take_bit_nat_eq_self)
  define s1 where "s1 = s\<lparr>sy_ring := (sy_ring s)\<lparr>mp_head := mp_head (sy_ring s) + 1\<rparr>,
     sy_producers := (sy_producers s)[p := P_Ticket True t d], sy_taken := sy_taken s @ [d]\<rparr>"
  have "sys_step s s1"
    unfolding s1_def using s(3) p i(2) by (intro call) (auto simp: at_rest_def take_ticket_def t_def)
  moreover have e: "t = cell_epoch t (sy_ring s1)"
  proof -
    have "epoch (cell_of s ?h) = of_nat ?h"
      using i(5) [of ?h] i(11) room by (auto simp: full_cell_def)
    then show ?thesis using cell_epoch_cell_of [of t s1] unat_64 [of t] ut by (simp add: cell_of_def s1_def t_def)
  qed
  have p1: "p < length (sy_producers s1)" "sy_producers s1 ! p = P_Ticket True t d" using p by (simp_all add: s1_def)
  define s2 where "s2 = s1\<lparr>sy_producers := (sy_producers s1)[p := P_Store t d]\<rparr>"
  have "sys_step s1 s2" unfolding s2_def by (rule enter [OF p1 e])
  moreover have p2: "p < length (sy_producers s2)" "sy_producers s2 ! p = P_Store t d" using p1 by (simp_all add: s2_def)
  define s3 where "s3 = s2\<lparr>sy_ring := store_data t d (sy_ring s2), sy_producers := (sy_producers s2)[p := P_Publish t]\<rparr>"
  have "sys_step s2 s3" unfolding s3_def by (rule store [OF p2])
  moreover have p3: "p < length (sy_producers s3)" "sy_producers s3 ! p = P_Publish t" using p2 by (simp_all add: s3_def)
  define s4 where "s4 = s3\<lparr>sy_ring := publish t (sy_ring s3), sy_producers := (sy_producers s3)[p := P_Idle]\<rparr>"
  have "sys_step s3 s4" unfolding s4_def by (rule published [OF p3])
  ultimately have "sys_step\<^sup>*\<^sup>* s s4" by (meson converse_rtranclp_into_rtranclp rtranclp.rtrancl_refl)
  moreover have "sy_producers s4 = sy_producers s"
  proof -
    have "sy_producers s ! p = P_Idle" using s(3) p by (simp add: at_rest_def)
    then show ?thesis using list_update_id [of "sy_producers s" p] by (simp add: s4_def s3_def s2_def s1_def)
  qed
  ultimately show ?thesis
    using s(3) f by (intro exI [of _ s4]) (simp add: s4_def s3_def s2_def s1_def at_rest_def)
qed

section \<open>Main theorems\<close>

text \<open>The cell whose data a thread is about to write or read.\<close>

fun producer_access :: "'a producer \<Rightarrow> nat option" where
  "producer_access (P_Store t d) = Some (slot t)"
| "producer_access _ = None"

fun consumer_access :: "'a mpsc \<Rightarrow> 'a consumer \<Rightarrow> nat option" where
  "consumer_access q C_Take = Some (slot (mp_tail q))"
| "consumer_access q _ = None"

lemma no_race:
  assumes s: "sys_inv s" "small s" and p: "p < length (sy_producers s)" "producer_access (sy_producers s ! p) = Some k"
  shows "consumer_access (sy_ring s) (sy_consumer s) \<noteq> Some k"
    "p' < length (sy_producers s) \<Longrightarrow> p' \<noteq> p \<Longrightarrow> producer_access (sy_producers s ! p') \<noteq> Some k"
proof -
  note i = sys_invD [OF s(1)]
  have win: "length (sy_popped s) \<le> unat u \<and> unat u < length (sy_popped s) + capacity \<and> held s (unat u) \<and> slot u = unat u mod capacity"
    if "r < length (sy_producers s)" "sy_producers s ! r = P_Store u e" for r u e
    using i(6) [OF nth_mem [OF that(1)]] i(7) [of "unat u"] held_at [OF that(1), of "unat u"] that(2) slot_of_nat [of "unat u"] unat_64 [of u] by simp
  obtain t d where t: "sy_producers s ! p = P_Store t d" "k = slot t" using p(2) by (cases "sy_producers s ! p") auto
  note wt = win [OF p(1) t(1)]
  show "consumer_access (sy_ring s) (sy_consumer s) \<noteq> Some k"
  proof (cases "sy_consumer s")
    case C_Take
    then have "\<not> held s (length (sy_popped s))" using i(10) by (simp add: full_cell_def)
    then have "unat t \<noteq> length (sy_popped s)" using wt by auto
    then have "unat t mod capacity \<noteq> length (sy_popped s) mod capacity"
      using same_slot [of "unat t" "length (sy_popped s)" "length (sy_popped s)"] wt by (auto simp: capacity_def)
    then show ?thesis using C_Take wt t(2) tail_facts(1) [OF s] i(3) by simp
  qed simp_all
  show "producer_access (sy_producers s ! p') \<noteq> Some k" if q: "p' < length (sy_producers s)" "p' \<noteq> p"
  proof
    assume "producer_access (sy_producers s ! p') = Some k"
    then obtain u e where u: "sy_producers s ! p' = P_Store u e" "slot u = k" by (cases "sy_producers s ! p'") auto
    note wu = win [OF q(1) u(1)]
    have "unat u = unat t" using same_slot [of "unat u" "unat t" "length (sy_popped s)"] wt wu u(2) t(2) by simp
    then show False using i(9) p(1) q t(1) u(1) unfolding tickets_unique_def by (metis holds.simps(3) option.distinct(1))
  qed
qed

text \<open>
  C16: The log ring is a queue. For any number of producers and the consumer, in every interleaving of their
  atomic actions (with fewer than 2^64 tickets): what was popped is what was pushed, in the
  order of the tickets, each entry once; no two threads access the data of a cell at the same time;
  and when no thread is inside an operation and no \<open>try_push\<close> has failed, \<open>pop\<close> returns the next
  entry that was not popped yet, if there is one.\<close>

theorem ring_fifo:
  assumes "sys_reach d n s" "small s"
  shows "sy_popped s = take (length (sy_popped s)) (sy_taken s) \<and>
    (\<forall>p < length (sy_producers s). \<forall>k. producer_access (sy_producers s ! p) = Some k \<longrightarrow>
       consumer_access (sy_ring s) (sy_consumer s) \<noteq> Some k \<and>
       (\<forall>p' < length (sy_producers s). p' \<noteq> p \<longrightarrow> producer_access (sy_producers s ! p') \<noteq> Some k)) \<and>
    (at_rest s \<and> sy_failed s = [] \<longrightarrow>
       fst (mpsc_pop (sy_ring s)) = (if length (sy_popped s) = length (sy_taken s) then None else Some (sy_taken s ! length (sy_popped s))))"
proof -
  have s: "sys_inv s" using assms by (rule sys_reach_inv)
  then show ?thesis using sys_invD(4) [OF s] no_race [OF s assms(2)] pop_at_rest [OF s assms(2)] by auto
qed

text \<open>
  C31: A failed \<open>try_push\<close> blocks the log. \<open>try_push\<close> keeps its ticket when it fails, and the consumer waits for
  the entry of that ticket: whatever the threads do afterwards, no entry with this or a later ticket
  is ever popped.\<close>

theorem failed_try_push_blocks:
  assumes "sys_reach d n s" "k \<in> set (sy_failed s)" "sys_step\<^sup>*\<^sup>* s s'" "small s'"
  shows "length (sy_popped s') \<le> k"
proof -
  have "k \<in> set (sy_failed s')" using assms(3,2)
    by (induction rule: rtranclp_induct) (auto elim!: sys_step.cases)
  moreover have "sys_inv s'" using sys_reach_inv [of d n s'] assms(1,3,4) by (meson rtranclp_trans)
  ultimately show ?thesis using sys_invD(7) by blast
qed

lemma filled_ring:
  "k \<le> capacity \<Longrightarrow> \<exists>s. sys_reach d 1 s \<and> at_rest s \<and> sy_taken s = replicate k d \<and> sy_popped s = [] \<and> sy_failed s = [] \<and> length (sy_producers s) = 1"
proof (induction k)
  case 0
  show ?case by (rule exI [of _ "sys_new d 1"]) (simp add: sys_new_def at_rest_def)
next
  case (Suc k)
  then obtain s where s: "sys_reach d 1 s" "at_rest s" "sy_taken s = replicate k d" "sy_popped s = []" "sy_failed s = []" "length (sy_producers s) = 1"
    by auto
  have "small s" using s(3) Suc.prems by (simp add: small_def capacity_def)
  then obtain s' where s': "sys_step\<^sup>*\<^sup>* s s'" "at_rest s'" "sy_taken s' = sy_taken s @ [d]" "sy_popped s' = sy_popped s" "sy_failed s' = []"
    "length (sy_producers s') = length (sy_producers s)"
    using push_steps [OF sys_reach_inv [OF s(1)] _ s(2), of 0 d] s(3-6) Suc.prems by (auto simp: capacity_def)
  moreover have "sys_reach d 1 s'" using s(1) s'(1) by (rule rtranclp_trans)
  ultimately show ?case using s by (intro exI [of _ s']) (simp add: replicate_append_same)
qed

theorem ring_fifo_witness:
  "\<exists>s. sys_reach ''default'' 1 s \<and> sy_taken s = [''default''] \<and> fst (mpsc_pop (sy_ring s)) = Some ''default''"
proof -
  obtain s where s: "sys_reach ''default'' 1 s" "at_rest s" "sy_taken s = replicate 1 ''default''" "sy_popped s = []" "sy_failed s = []"
    using filled_ring [of 1 "''default''"] by (auto simp: capacity_def)
  have "small s" using s(3) by (simp add: small_def capacity_def)
  from ring_fifo [OF s(1) this] s show ?thesis by auto
qed

theorem failed_try_push_blocks_witness:
  "\<exists>s. sys_reach ''default'' 1 s \<and> sy_failed s = [1024] \<and> (\<forall>s'. sys_step\<^sup>*\<^sup>* s s' \<and> small s' \<longrightarrow> length (sy_popped s') \<le> 1024)"
proof -
  let ?d = "''default''"
  obtain s where s: "sys_reach ?d 1 s" "at_rest s" "sy_taken s = replicate capacity ?d" "sy_popped s = []" "sy_failed s = []" "length (sy_producers s) = 1"
    using filled_ring [of capacity ?d] by auto
  have small: "small s" using s(3) by (simp add: small_def capacity_def)
  have inv: "sys_inv s" by (rule sys_reach_inv [OF s(1) small])
  have h: "mp_head (sy_ring s) = 1024" using sys_invD(2) [OF inv] s(3) by (simp add: capacity_def)
  have idle: "sy_producers s ! 0 = P_Idle" using s(2,6) by (simp add: at_rest_def)
  define s1 where "s1 = s\<lparr>sy_ring := (sy_ring s)\<lparr>mp_head := 1025\<rparr>, sy_producers := (sy_producers s)[0 := P_Ticket False 1024 ?d], sy_taken := sy_taken s @ [?d]\<rparr>"
  have c: "sys_step s s1"
    unfolding s1_def using idle h s(6) by (intro call) (simp_all add: take_ticket_def)
  have "epoch (cell_of s 0) = 1"
    using at_rest_accounted(1) [OF inv s(2), of 0] s(3-5) by (simp add: full_cell_def capacity_def)
  moreover have "slot (1024 :: 64 word) = 0" using slot_of_nat [of 1024] by (simp add: capacity_def)
  ultimately have e: "(1024 :: 64 word) \<noteq> cell_epoch 1024 (sy_ring s1)" by (simp add: cell_epoch_def cell_of_def s1_def)
  define s2 where "s2 = s1\<lparr>sy_producers := (sy_producers s1)[0 := P_Idle], sy_failed := sy_failed s1 @ [unat (1024 :: 64 word)]\<rparr>"
  have "sys_step s1 s2"
    unfolding s2_def using s(6) by (intro give_up [OF _ _ e]) (simp_all add: s1_def)
  then have r: "sys_reach ?d 1 s2" using s(1) c by simp
  have f: "sy_failed s2 = [1024]" by (simp add: s2_def s1_def s(5))
  show ?thesis using failed_try_push_blocks [OF r, of 1024] r f by auto
qed

end
