(* ===== verification/Log_Sink.thy ===== *)
theory Log_Sink
  imports Validator
begin

text \<open>
  \<open>Fix::Log::LogFileSink\<close> (include/fix/log/LogFileSink.hpp, src/LogFileSink.cpp) with the log entries
  (LogEntry.hpp, LogContext.hpp) and the names of layers, categories and severities (error/utility.hpp).
  The sink keeps one file per session and at most 128 of them open; the open ones are in a list, the
  most recently used first. \<open>lf_files\<close> is what the files contain; text written to a stream that is not open
  is dropped. Whether a path can be opened is the function \<open>can_open\<close>, the file system. An
  iterator into the \<open>std::list\<close> is the identity of its element; using one whose element was erased
  is a fault, as is an exception. \<open>evict_one\<close>, \<open>close_file\<close> and \<open>ensure_open\<close> call one another; the first
  argument of \<open>evict_one\<close> bounds the depth of this recursion.
\<close>

datatype Layer = Layer_Transport | Layer_Fix | Layer_App | Layer_Peripheral

datatype Category = Cat_Debug | Cat_Info | Cat_Warn | Cat_Error

fun severity_to_string :: "Severity \<Rightarrow> string" where
  "severity_to_string Sev_NA = ''NA''"
| "severity_to_string Sev_Low = ''Low''"
| "severity_to_string Sev_Moderate = ''Moderate''"
| "severity_to_string Sev_High = ''High''"
| "severity_to_string Sev_Fatal = ''Fatal''"

fun category_to_string :: "Category \<Rightarrow> string" where
  "category_to_string Cat_Debug = ''Debug''"
| "category_to_string Cat_Info = ''Info''"
| "category_to_string Cat_Warn = ''Warn''"
| "category_to_string Cat_Error = ''Error''"

fun layer_to_string :: "Layer \<Rightarrow> string" where
  "layer_to_string Layer_Transport = ''Transport''"
| "layer_to_string Layer_Fix = ''Fix''"
| "layer_to_string Layer_App = ''App''"
| "layer_to_string Layer_Peripheral = ''Peripheral''"

record Context =
  ctx_layer :: Layer
  ctx_cat :: Category
  ctx_sev :: Severity

record Entry =
  en_message :: string
  en_sess_id :: SessionID
  en_context :: Context

definition dquote :: string where
  "dquote = [CHR 0x22]"

definition json_pair :: "string \<Rightarrow> string \<Rightarrow> string" where
  "json_pair k v = dquote @ k @ dquote @ '':'' @ dquote @ v @ dquote"

definition to_json :: "Entry \<Rightarrow> string" where
  "to_json e = ''{'' @ json_pair ''Category'' (category_to_string (ctx_cat (en_context e))) @ '','' @
     json_pair ''Layer'' (layer_to_string (ctx_layer (en_context e))) @ '','' @
     json_pair ''Severity'' (severity_to_string (ctx_sev (en_context e))) @ '','' @
     json_pair ''Message'' (en_message e) @ ''}''"

section \<open>State\<close>

record SinkNode =
  sn_path :: string
  sn_open :: bool
  sn_lru_iterator :: "nat option"
  sn_in_lru :: bool
  sn_first_write :: bool

record LogFileSink =
  lf_lru_cache :: "(nat \<times> SessionID) list"
  lf_next_element :: nat
  lf_sess_to_file :: "nat \<rightharpoonup> SinkNode"
  lf_core_path :: string
  lf_core_open :: bool
  lf_engine_run_id :: string
  lf_open_files :: nat
  lf_files :: "string \<Rightarrow> string"
  lf_cerr :: string

definition MAX_LRU_CACHE_SIZE :: nat where
  "MAX_LRU_CACHE_SIZE = 128"

text \<open>\<open>operator/=\<close> of \<open>std::filesystem::path\<close>.\<close>

definition path_append :: "string \<Rightarrow> string \<Rightarrow> string" where
  "path_append p q = (if q \<noteq> [] \<and> hd q = CHR ''/'' then q else if p = [] \<or> last p = CHR ''/'' then p @ q else p @ ''/'' @ q)"

definition make_path :: "string list \<Rightarrow> string" where
  "make_path parts = foldl path_append [] parts"

definition newline :: string where
  "newline = [CHR 0x0A]"

definition file_write :: "string \<Rightarrow> string \<Rightarrow> LogFileSink \<Rightarrow> LogFileSink" where
  "file_write path text k = k\<lparr>lf_files := (lf_files k)(path := lf_files k path @ text)\<rparr>"

definition log_internal :: "Entry \<Rightarrow> LogFileSink \<Rightarrow> LogFileSink" where
  "log_internal e k =
     (if lf_core_open k then file_write (lf_core_path k) (to_json e @ newline) k
      else k\<lparr>lf_cerr := lf_cerr k @ ''Core log file is not open. Log entry: '' @ to_json e @ newline\<rparr>)"

definition open_failed :: "string \<Rightarrow> Entry" where
  "open_failed path = \<lparr>en_message = ''Failed to open log file: '' @ path, en_sess_id = \<lparr>storage_index = 0, sid = 0\<rparr>,
     en_context = \<lparr>ctx_layer = Layer_Peripheral, ctx_cat = Cat_Error, ctx_sev = Sev_High\<rparr>\<rparr>"

section \<open>Operations\<close>

definition set_node :: "nat \<Rightarrow> SinkNode \<Rightarrow> LogFileSink \<Rightarrow> LogFileSink" where
  "set_node key n k = k\<lparr>lf_sess_to_file := (lf_sess_to_file k)(key \<mapsto> n)\<rparr>"

text \<open>\<open>node.file.stream << text\<close>.\<close>

definition stream_write :: "nat \<Rightarrow> string \<Rightarrow> LogFileSink \<Rightarrow> LogFileSink option" where
  "stream_write key text k =
     do { n \<leftarrow> lf_sess_to_file k key; Some (if sn_open n then file_write (sn_path n) text k else k) }"

definition open_file :: "(string \<Rightarrow> bool) \<Rightarrow> nat \<Rightarrow> LogFileSink \<Rightarrow> LogFileSink option" where
  "open_file can_open key k =
     do { n \<leftarrow> lf_sess_to_file k key;
          Some (if can_open (sn_path n) then set_node key (n\<lparr>sn_open := True\<rparr>) k else log_internal (open_failed (sn_path n)) k) }"

definition lru_touch :: "SessionID \<Rightarrow> nat \<Rightarrow> LogFileSink \<Rightarrow> LogFileSink option" where
  "lru_touch sess_id key k =
     do { n \<leftarrow> lf_sess_to_file k key;
          if \<not> sn_in_lru n then
            Some (set_node key (n\<lparr>sn_lru_iterator := Some (lf_next_element k), sn_in_lru := True\<rparr>)
              (k\<lparr>lf_lru_cache := (lf_next_element k, sess_id) # lf_lru_cache k, lf_next_element := lf_next_element k + 1\<rparr>))
          else do {
            it \<leftarrow> sn_lru_iterator n;
            e \<leftarrow> find (\<lambda>e. fst e = it) (lf_lru_cache k);
            Some (k\<lparr>lf_lru_cache := e # filter (\<lambda>e. fst e \<noteq> it) (lf_lru_cache k)\<rparr>) } }"

definition ensure_open_by ::
  "(LogFileSink \<Rightarrow> LogFileSink option) \<Rightarrow> (string \<Rightarrow> bool) \<Rightarrow> SessionID \<Rightarrow> nat \<Rightarrow> LogFileSink \<Rightarrow> LogFileSink option" where
  "ensure_open_by evict can_open sess_id key k =
     do { n \<leftarrow> lf_sess_to_file k key;
          if \<not> sn_open n then
            do { k1 \<leftarrow> (if lf_open_files k \<ge> MAX_LRU_CACHE_SIZE then evict k else Some k);
                 k2 \<leftarrow> open_file can_open key k1;
                 n2 \<leftarrow> lf_sess_to_file k2 key;
                 if \<not> sn_open n2 then Some k2
                 else lru_touch sess_id key (k2\<lparr>lf_open_files := lf_open_files k2 + 1\<rparr>) }
          else lru_touch sess_id key k }"

definition close_file_by ::
  "(LogFileSink \<Rightarrow> LogFileSink option) \<Rightarrow> (string \<Rightarrow> bool) \<Rightarrow> nat \<Rightarrow> LogFileSink \<Rightarrow> LogFileSink option" where
  "close_file_by evict can_open key k =
     do { n \<leftarrow> lf_sess_to_file k key;
          k1 \<leftarrow> (if \<not> sn_first_write n
                then do { k' \<leftarrow> ensure_open_by evict can_open \<lparr>storage_index = 0, sid = 0\<rparr> key k; stream_write key (newline @ '']'') k' }
                else Some k);
          n1 \<leftarrow> lf_sess_to_file k1 key;
          Some (if sn_open n1 then set_node key (n1\<lparr>sn_open := False\<rparr>) k1 else k1) }"

fun evict_one :: "nat \<Rightarrow> (string \<Rightarrow> bool) \<Rightarrow> LogFileSink \<Rightarrow> LogFileSink option" where
  "evict_one 0 can_open k = None"
| "evict_one (Suc depth) can_open k =
     (if lf_open_files k = 0 then Some k
      else if lf_lru_cache k = [] then None
      else do {
        let victim_sid = snd (last (lf_lru_cache k));
        k1 \<leftarrow> close_file_by (evict_one depth can_open) can_open (sid victim_sid) k;
        v \<leftarrow> lf_sess_to_file k1 (sid victim_sid);
        let k2 = set_node (sid victim_sid) (v\<lparr>sn_in_lru := False\<rparr>) k1;
        assert_that (lf_lru_cache k2 \<noteq> []);
        Some (k2\<lparr>lf_lru_cache := butlast (lf_lru_cache k2), lf_open_files := lf_open_files k2 - 1\<rparr>) })"

definition ensure_open :: "nat \<Rightarrow> (string \<Rightarrow> bool) \<Rightarrow> SessionID \<Rightarrow> nat \<Rightarrow> LogFileSink \<Rightarrow> LogFileSink option" where
  "ensure_open depth can_open = ensure_open_by (evict_one depth can_open) can_open"

definition close_file :: "nat \<Rightarrow> (string \<Rightarrow> bool) \<Rightarrow> nat \<Rightarrow> LogFileSink \<Rightarrow> LogFileSink option" where
  "close_file depth can_open = close_file_by (evict_one depth can_open) can_open"

text \<open>
  \<open>get_node\<close> for a session that was not added writes to the core log and throws: \<open>Inl\<close> is the sink that the exception leaves.
  Nothing catches it, so it is the end of \<open>write\<close>.
\<close>

definition unregistered_entry :: "SessionID \<Rightarrow> Entry" where
  "unregistered_entry sess_id = \<lparr>en_message = ''Attempted to log to unregistered session'', en_sess_id = sess_id,
     en_context = \<lparr>ctx_layer = Layer_Peripheral, ctx_cat = Cat_Error, ctx_sev = Sev_High\<rparr>\<rparr>"

definition get_node :: "SessionID \<Rightarrow> LogFileSink \<Rightarrow> LogFileSink + SinkNode" where
  "get_node sess_id k =
     (case lf_sess_to_file k (sid sess_id) of
        None \<Rightarrow> Inl (log_internal (unregistered_entry sess_id) k)
      | Some n \<Rightarrow> Inr n)"

definition sink_write :: "nat \<Rightarrow> (string \<Rightarrow> bool) \<Rightarrow> Entry \<Rightarrow> LogFileSink \<Rightarrow> LogFileSink option" where
  "sink_write depth can_open e k =
     (case get_node (en_sess_id e) k of
        Inl _ \<Rightarrow> None
      | Inr _ \<Rightarrow>
          do { let key = sid (en_sess_id e);
               k1 \<leftarrow> ensure_open depth can_open (en_sess_id e) key k;
               n \<leftarrow> lf_sess_to_file k1 key;
               if sn_first_write n
               then stream_write key (''['' @ newline @ to_json e) (set_node key (n\<lparr>sn_first_write := False\<rparr>) k1)
               else stream_write key ('','' @ newline @ to_json e) k1 })"

definition create_sink_node :: "string \<Rightarrow> LogFileSink \<Rightarrow> SinkNode" where
  "create_sink_node readable_id k =
     \<lparr>sn_path = make_path [''logs'', lf_engine_run_id k, ''sessions'', readable_id @ ''.json''], sn_open = False,
      sn_lru_iterator = None, sn_in_lru = False, sn_first_write = True\<rparr>"

definition added_entry :: "SessionID \<Rightarrow> Entry" where
  "added_entry sess_id = \<lparr>en_message = ''Added session to LogFileSink'', en_sess_id = sess_id,
     en_context = \<lparr>ctx_layer = Layer_Peripheral, ctx_cat = Cat_Info, ctx_sev = Sev_Low\<rparr>\<rparr>"

definition sink_add_session :: "nat \<Rightarrow> (string \<Rightarrow> bool) \<Rightarrow> SessionID \<Rightarrow> string \<Rightarrow> LogFileSink \<Rightarrow> LogFileSink option" where
  "sink_add_session depth can_open sess_id readable_id k =
     (let node = create_sink_node readable_id k;
          k1 = (if lf_sess_to_file k (sid sess_id) = None then set_node (sid sess_id) node k else k) in
      sink_write depth can_open (added_entry sess_id) k1)"

text \<open>\<open>shutdown\<close> visits the map in its own order, \<open>order\<close>.\<close>

fun close_all :: "nat \<Rightarrow> (string \<Rightarrow> bool) \<Rightarrow> nat list \<Rightarrow> LogFileSink \<Rightarrow> LogFileSink option" where
  "close_all depth can_open [] k = Some k"
| "close_all depth can_open (key # keys) k = do { k1 \<leftarrow> close_file depth can_open key k; close_all depth can_open keys k1 }"

definition sink_shutdown :: "nat \<Rightarrow> (string \<Rightarrow> bool) \<Rightarrow> nat list \<Rightarrow> LogFileSink \<Rightarrow> LogFileSink option" where
  "sink_shutdown depth can_open order k =
     do { k1 \<leftarrow> close_all depth can_open order k;
          Some (k1\<lparr>lf_sess_to_file := Map.empty, lf_lru_cache := [], lf_open_files := 0\<rparr>) }"

definition sink_new :: "(string \<Rightarrow> bool) \<Rightarrow> string \<Rightarrow> LogFileSink" where
  "sink_new can_open engine_run_id =
     (let path = make_path [''logs'', engine_run_id, ''core_log.json''];
          k = \<lparr>lf_lru_cache = [], lf_next_element = 0, lf_sess_to_file = Map.empty, lf_core_path = path, lf_core_open = can_open path,
               lf_engine_run_id = engine_run_id, lf_open_files = 0, lf_files = (\<lambda>_. []), lf_cerr = []\<rparr> in
      if can_open path then k else log_internal (open_failed path) k)"

section \<open>What the files hold\<close>

text \<open>The text of a log file while it is open, and the entries written to each session.\<close>

fun render :: "Entry list \<Rightarrow> string" where
  "render [] = []"
| "render (e # es) = ''['' @ newline @ to_json e @ concat (map (\<lambda>e. '','' @ newline @ to_json e) es)"

lemma render_snoc: "es \<noteq> [] \<Longrightarrow> render (es @ [e]) = render es @ '','' @ newline @ to_json e"
  by (cases es) simp_all

inductive sink_run :: "nat \<Rightarrow> (string \<Rightarrow> bool) \<Rightarrow> LogFileSink \<Rightarrow> (nat \<rightharpoonup> Entry list) \<Rightarrow> bool" for depth can_open where
  sr_new: "sink_run depth can_open (sink_new can_open engine_run_id) Map.empty"
| sr_add: "sink_run depth can_open k H \<Longrightarrow> H (sid i) = None \<Longrightarrow>
    sn_path (create_sink_node readable_id k) \<notin> sn_path ` ran (lf_sess_to_file k) \<Longrightarrow>
    sink_add_session depth can_open i readable_id k = Some k' \<Longrightarrow> sink_run depth can_open k' (H(sid i \<mapsto> [added_entry i]))"
| sr_write: "sink_run depth can_open k H \<Longrightarrow> H (sid (en_sess_id e)) = Some es \<Longrightarrow> sink_write depth can_open e k = Some k' \<Longrightarrow>
    sink_run depth can_open k' (H(sid (en_sess_id e) \<mapsto> es @ [e]))"

text \<open>
  As long as nothing was evicted: every session has an open file that holds its entries, and one
  element of the list, which its iterator names.
\<close>

definition node_ok :: "LogFileSink \<Rightarrow> nat \<Rightarrow> Entry list \<Rightarrow> SinkNode \<Rightarrow> bool" where
  "node_ok k key es n \<longleftrightarrow> sn_open n \<and> sn_in_lru n \<and> \<not> sn_first_write n \<and> es \<noteq> [] \<and> lf_files k (sn_path n) = render es \<and>
     (\<exists>it i. sn_lru_iterator n = Some it \<and> (it, i) \<in> set (lf_lru_cache k) \<and> sid i = key)"

definition paths_unique :: "LogFileSink \<Rightarrow> bool" where
  "paths_unique k \<longleftrightarrow> (\<forall>key key' n n'. lf_sess_to_file k key = Some n \<longrightarrow> lf_sess_to_file k key' = Some n' \<longrightarrow> sn_path n = sn_path n' \<longrightarrow> key = key')"

definition sink_inv :: "LogFileSink \<Rightarrow> (nat \<rightharpoonup> Entry list) \<Rightarrow> bool" where
  "sink_inv k H \<longleftrightarrow> dom (lf_sess_to_file k) = dom H \<and>
     (\<forall>key n es. lf_sess_to_file k key = Some n \<longrightarrow> H key = Some es \<longrightarrow> node_ok k key es n) \<and> paths_unique k \<and>
     distinct (map fst (lf_lru_cache k)) \<and> distinct (map (sid \<circ> snd) (lf_lru_cache k)) \<and>
     (sid \<circ> snd) ` set (lf_lru_cache k) = dom H \<and> (\<forall>e \<in> set (lf_lru_cache k). fst e < lf_next_element k) \<and>
     lf_open_files k = length (lf_lru_cache k) \<and> (\<forall>path. path \<notin> sn_path ` ran (lf_sess_to_file k) \<longrightarrow> lf_files k path = [])"

lemma sink_invD:
  assumes "sink_inv k H"
  shows "dom (lf_sess_to_file k) = dom H" "lf_sess_to_file k key = Some n \<Longrightarrow> H key = Some es \<Longrightarrow> node_ok k key es n"
    "lf_sess_to_file k key = Some n \<Longrightarrow> lf_sess_to_file k key' = Some n' \<Longrightarrow> sn_path n = sn_path n' \<Longrightarrow> key = key'"
    "distinct (map fst (lf_lru_cache k))" "distinct (map (sid \<circ> snd) (lf_lru_cache k))" "(sid \<circ> snd) ` set (lf_lru_cache k) = dom H"
    "e \<in> set (lf_lru_cache k) \<Longrightarrow> fst e < lf_next_element k" "lf_open_files k = length (lf_lru_cache k)"
    "path \<notin> sn_path ` ran (lf_sess_to_file k) \<Longrightarrow> lf_files k path = []"
proof -
  show "lf_sess_to_file k key = Some n \<Longrightarrow> lf_sess_to_file k key' = Some n' \<Longrightarrow> sn_path n = sn_path n' \<Longrightarrow> key = key'"
    using assms unfolding sink_inv_def paths_unique_def by metis
qed (use assms in \<open>simp_all add: sink_inv_def\<close>)

lemma sink_open_card: "sink_inv k H \<Longrightarrow> lf_open_files k = card (dom H)"
  using distinct_card [of "map (sid \<circ> snd) (lf_lru_cache k)"] by (simp add: sink_inv_def)

lemma find_distinct: "distinct (map fst xs) \<Longrightarrow> (a, b) \<in> set xs \<Longrightarrow> find (\<lambda>e. fst e = a) xs = Some (a, b)"
  by (induction xs) (auto simp: image_iff)

text \<open>Using a session again moves its element to the front.\<close>

lemma lru_touch_again:
  assumes k: "sink_inv k H" and n: "lf_sess_to_file k key = Some n" and h: "H key = Some es"
  shows "\<exists>it i. sn_lru_iterator n = Some it \<and> (it, i) \<in> set (lf_lru_cache k) \<and>
     lru_touch j key k = Some (k\<lparr>lf_lru_cache := (it, i) # filter (\<lambda>e. fst e \<noteq> it) (lf_lru_cache k)\<rparr>)"
proof -
  obtain it i where it: "sn_in_lru n" "sn_lru_iterator n = Some it" "(it, i) \<in> set (lf_lru_cache k)"
    using sink_invD(2) [OF k n h] by (auto simp: node_ok_def)
  then show ?thesis using n find_distinct [OF sink_invD(4) [OF k] it(3)] by (auto simp: lru_touch_def)
qed

lemma filter_out:
  "distinct (map fst xs) \<Longrightarrow> (a, b) \<in> set xs \<Longrightarrow> insert (a, b) (set (filter (\<lambda>e. fst e \<noteq> a) xs)) = set xs \<and>
     length (filter (\<lambda>e. fst e \<noteq> a) xs) + 1 = length xs"
proof (induction xs)
  case (Cons x xs)
  show ?case
  proof (cases "x = (a, b)")
    case True
    then have "filter (\<lambda>e. fst e \<noteq> a) xs = xs" using Cons.prems(1) by (auto simp: filter_id_conv)
    then show ?thesis using True by simp
  next
    case False
    then have "fst x \<noteq> a" "(a, b) \<in> set xs" using Cons.prems by (force simp: image_iff)+
    then show ?thesis using Cons by auto
  qed
qed simp

lemma sink_inv_reorder:
  assumes k: "sink_inv k H" and it: "(it, i) \<in> set (lf_lru_cache k)"
  shows "sink_inv (k\<lparr>lf_lru_cache := (it, i) # filter (\<lambda>e. fst e \<noteq> it) (lf_lru_cache k)\<rparr>) H"
proof -
  note d = sink_invD [OF k]
  let ?l = "(it, i) # filter (\<lambda>e. fst e \<noteq> it) (lf_lru_cache k)"
  have l: "set ?l = set (lf_lru_cache k)" "length ?l = length (lf_lru_cache k)" using filter_out [OF d(4) it] by simp_all
  have "distinct (map fst ?l)" using distinct_card [OF d(4)] l by (intro card_distinct) (metis length_map list.set_map)
  moreover have "distinct (map (sid \<circ> snd) ?l)" using distinct_card [OF d(5)] l by (intro card_distinct) (metis length_map list.set_map)
  ultimately show ?thesis using k l unfolding sink_inv_def node_ok_def paths_unique_def by simp
qed

lemma sink_inv_append:
  assumes k: "sink_inv k H" and n: "lf_sess_to_file k key = Some n" and h: "H key = Some es"
  shows "sink_inv (file_write (sn_path n) ('','' @ newline @ to_json e) k) (H(key \<mapsto> es @ [e]))"
proof -
  let ?k = "file_write (sn_path n) ('','' @ newline @ to_json e) k"
  have "node_ok ?k key' es' n'" if "lf_sess_to_file k key' = Some n'" "(H(key \<mapsto> es @ [e])) key' = Some es'" for key' n' es'
  proof (cases "key' = key")
    case True
    then show ?thesis using that n sink_invD(2) [OF k n h] render_snoc [of es e] by (auto simp: node_ok_def file_write_def)
  next
    case False
    then have "sn_path n' \<noteq> sn_path n" using sink_invD(3) [OF k n that(1)] by auto
    then show ?thesis using sink_invD(2) [OF k that(1)] that(2) False by (simp add: node_ok_def file_write_def)
  qed
  moreover have "sn_path n \<in> sn_path ` ran (lf_sess_to_file k)" using n by (intro imageI) (rule ranI)
  moreover have "dom (H(key \<mapsto> es @ [e])) = dom H" using h by auto
  ultimately show ?thesis
    using k unfolding sink_inv_def paths_unique_def by (simp add: file_write_def)
qed

lemma write_ok:
  assumes k: "sink_inv k H" and h: "H (sid (en_sess_id e)) = Some es"
  shows "\<exists>k'. sink_write depth can_open e k = Some k' \<and> sink_inv k' (H(sid (en_sess_id e) \<mapsto> es @ [e])) \<and>
     lf_engine_run_id k' = lf_engine_run_id k \<and> lf_sess_to_file k' = lf_sess_to_file k"
proof -
  let ?key = "sid (en_sess_id e)"
  obtain n where n: "lf_sess_to_file k ?key = Some n" using h sink_invD(1) [OF k] by blast
  have o: "sn_open n" "\<not> sn_first_write n" using sink_invD(2) [OF k n h] by (simp_all add: node_ok_def)
  obtain it i where t: "(it, i) \<in> set (lf_lru_cache k)"
    "lru_touch (en_sess_id e) ?key k = Some (k\<lparr>lf_lru_cache := (it, i) # filter (\<lambda>e. fst e \<noteq> it) (lf_lru_cache k)\<rparr>)"
    using lru_touch_again [OF k n h] by blast
  let ?k1 = "k\<lparr>lf_lru_cache := (it, i) # filter (\<lambda>e. fst e \<noteq> it) (lf_lru_cache k)\<rparr>"
  have "sink_write depth can_open e k = Some (file_write (sn_path n) ('','' @ newline @ to_json e) ?k1)"
    using n o t(2) by (simp add: sink_write_def get_node_def ensure_open_def ensure_open_by_def stream_write_def)
  moreover have "lf_sess_to_file ?k1 ?key = Some n" using n by simp
  ultimately show ?thesis using sink_inv_append [OF sink_inv_reorder [OF k t(1)] _ h, of n e] n by (simp add: file_write_def)
qed

text \<open>The state after a session was added and its file opened.\<close>

definition with_session :: "SessionID \<Rightarrow> string \<Rightarrow> LogFileSink \<Rightarrow> LogFileSink" where
  "with_session i path k = k\<lparr>lf_lru_cache := (lf_next_element k, i) # lf_lru_cache k, lf_next_element := lf_next_element k + 1,
     lf_sess_to_file := (lf_sess_to_file k)(sid i \<mapsto> \<lparr>sn_path = path, sn_open = True, sn_lru_iterator = Some (lf_next_element k),
       sn_in_lru = True, sn_first_write = False\<rparr>),
     lf_open_files := lf_open_files k + 1, lf_files := (lf_files k)(path := lf_files k path @ ''['' @ newline @ to_json (added_entry i))\<rparr>"

lemma add_opens:
  assumes "lf_sess_to_file k (sid i) = None" "lf_open_files k < MAX_LRU_CACHE_SIZE" "path = sn_path (create_sink_node readable_id k)" "can_open path"
  shows "sink_add_session depth can_open i readable_id k = Some (with_session i path k)"
  using assms
  by (simp add: sink_add_session_def sink_write_def get_node_def added_entry_def ensure_open_def ensure_open_by_def open_file_def set_node_def
      create_sink_node_def lru_touch_def stream_write_def file_write_def with_session_def)

lemma with_session_inv:
  assumes k: "sink_inv k H" and fresh: "H (sid i) = None" "path \<notin> sn_path ` ran (lf_sess_to_file k)"
  shows "sink_inv (with_session i path k) (H(sid i \<mapsto> [added_entry i]))"
proof -
  note d = sink_invD [OF k]
  let ?k = "with_session i path k"
  have none: "lf_sess_to_file k (sid i) = None" using d(1) fresh(1) by blast
  have empty: "lf_files k path = []" using d(9) fresh(2) by blast
  have p: "sn_path n \<noteq> path" if "lf_sess_to_file k key = Some n" for key n using fresh(2) that by (auto simp: ran_def image_iff)
  have "node_ok ?k key es n" if "lf_sess_to_file ?k key = Some n" "(H(sid i \<mapsto> [added_entry i])) key = Some es" for key n es
  proof (cases "key = sid i")
    case True
    then show ?thesis using that empty by (auto simp: node_ok_def with_session_def)
  next
    case False
    then have n: "lf_sess_to_file k key = Some n" "H key = Some es" using that by (simp_all add: with_session_def)
    then show ?thesis using d(2) [OF n] p [OF n(1)] by (auto simp: node_ok_def with_session_def)
  qed
  moreover have "paths_unique ?k"
    unfolding paths_unique_def by (auto simp: with_session_def split: if_splits dest: p d(3))
  moreover have "distinct (map fst (lf_lru_cache ?k))" using d(4,7) by (fastforce simp: with_session_def)
  moreover have "distinct (map (sid \<circ> snd) (lf_lru_cache ?k))" using d(5,6) fresh(1) by (auto simp: with_session_def)
  moreover have "lf_files ?k q = []" if "q \<notin> sn_path ` ran (lf_sess_to_file ?k)" for q
    using that none d(9) [of q] by (auto simp: with_session_def)
  moreover have "fst e < lf_next_element ?k" if "e \<in> set (lf_lru_cache ?k)" for e
    using that d(7) [of e] by (auto simp: with_session_def)
  ultimately show ?thesis
    using d(1,6,8) unfolding sink_inv_def by (auto simp: with_session_def)
qed

lemma sink_new_inv: "sink_inv (sink_new can_open engine_run_id) Map.empty" if "can_open (make_path [''logs'', engine_run_id, ''core_log.json''])"
  using that by (simp add: sink_inv_def paths_unique_def sink_new_def)

lemma run_finite: "sink_run depth can_open k H \<Longrightarrow> finite (dom H)"
proof (induction rule: sink_run.induct)
  case (sr_add k H i readable_id k')
  then show ?case unfolding dom_fun_upd by simp
next
  case (sr_write k H e es k')
  then show ?case unfolding dom_fun_upd by simp
qed simp

lemma run_inv:
  assumes "sink_run depth can_open k H" "\<forall>path. can_open path" "card (dom H) \<le> MAX_LRU_CACHE_SIZE"
  shows "sink_inv k H \<and> finite (dom H)"
  using assms
proof (induction rule: sink_run.induct)
  case (sr_new engine_run_id)
  then show ?case using sink_new_inv [of can_open engine_run_id] by simp
next
  case (sr_add k H i readable_id k')
  have fin: "finite (dom H)" using sr_add.hyps(1) by (rule run_finite)
  have lt: "card (dom H) < MAX_LRU_CACHE_SIZE"
    using sr_add.prems(2) sr_add.hyps(2) fin unfolding dom_fun_upd by (simp add: domIff)
  then have k: "sink_inv k H" using sr_add by simp
  have "lf_sess_to_file k (sid i) = None" using sink_invD(1) [OF k] sr_add.hyps(2) by blast
  then have "k' = with_session i (sn_path (create_sink_node readable_id k)) k"
    using add_opens [of k i _ readable_id can_open depth] lt sink_open_card [OF k] sr_add.hyps(4) sr_add.prems(1) by simp
  then show ?case using with_session_inv [OF k sr_add.hyps(2,3)] fin by (simp add: dom_fun_upd del: fun_upd_apply)
next
  case (sr_write k H e es k')
  have "dom (H(sid (en_sess_id e) \<mapsto> es @ [e])) = dom H" using sr_write.hyps(2) by auto
  then have d: "card (dom H) \<le> MAX_LRU_CACHE_SIZE" "finite (dom (H(sid (en_sess_id e) \<mapsto> es @ [e])))"
    using sr_write.prems(2) run_finite [OF sr_write.hyps(1)] by (simp_all del: fun_upd_apply)
  have "sink_inv k H" using sr_write.IH [OF sr_write.prems(1) d(1)] by simp
  from write_ok [OF this sr_write.hyps(2), of depth can_open] have "sink_inv k' (H(sid (en_sess_id e) \<mapsto> es @ [e]))"
    using sr_write.hyps(3) by auto
  then show ?case using d(2) by (rule conjI)
qed

section \<open>Shutting down\<close>

text \<open>One file is closed: its text gets the closing bracket.\<close>

lemma close_all_ok:
  assumes "sink_inv k H" "set keys \<subseteq> dom H" "distinct keys"
    and "\<forall>key \<in> set closed. key \<notin> set keys"
    and "k' = k\<lparr>lf_sess_to_file := (\<lambda>key. if key \<in> set closed then map_option (\<lambda>n. n\<lparr>sn_open := False\<rparr>) (lf_sess_to_file k key) else lf_sess_to_file k key),
      lf_files := files\<rparr>"
  shows "\<exists>k''. close_all depth can_open keys k' = Some k'' \<and>
     (\<forall>path. lf_files k'' path = (if \<exists>key n. key \<in> set keys \<and> lf_sess_to_file k key = Some n \<and> sn_path n = path then files path @ newline @ '']'' else files path))"
  using assms
proof (induction keys arbitrary: k k' closed files)
  case Nil
  then show ?case by simp
next
  case (Cons key keys)
  note d = sink_invD [OF Cons.prems(1)]
  obtain n es where n: "lf_sess_to_file k key = Some n" "H key = Some es" using Cons.prems(2) d(1) by (metis domD in_mono list.set_intros(1))
  have o: "sn_open n" "\<not> sn_first_write n" "sn_in_lru n" using d(2) [OF n] by (simp_all add: node_ok_def)
  have nk: "lf_sess_to_file k' key = Some n" using Cons.prems(4,5) n by auto
  obtain it i where t: "sn_lru_iterator n = Some it" "(it, i) \<in> set (lf_lru_cache k)" using lru_touch_again [OF Cons.prems(1) n] by blast
  let ?l = "(it, i) # filter (\<lambda>e. fst e \<noteq> it) (lf_lru_cache k)"
  have lk: "lf_lru_cache k' = lf_lru_cache k" "lf_files k' = files" using Cons.prems(5) by simp_all
  have touch: "lru_touch j key k' = Some (k'\<lparr>lf_lru_cache := ?l\<rparr>)" for j
    using nk o(3) t find_distinct [OF d(4) t(2)] by (simp add: lru_touch_def lk)
  define files1 where "files1 = files(sn_path n := files (sn_path n) @ newline @ '']'')"
  define k1 where "k1 = k'\<lparr>lf_lru_cache := ?l, lf_files := files1, lf_sess_to_file := (lf_sess_to_file k')(key \<mapsto> n\<lparr>sn_open := False\<rparr>)\<rparr>"
  have step: "close_file depth can_open key k' = Some k1"
    using nk o touch lk
    by (simp add: close_file_def close_file_by_def ensure_open_by_def stream_write_def file_write_def set_node_def k1_def files1_def)
  have k1: "k1 = (k\<lparr>lf_lru_cache := ?l\<rparr>)\<lparr>lf_sess_to_file := (\<lambda>q. if q \<in> set (key # closed) then map_option (\<lambda>n. n\<lparr>sn_open := False\<rparr>) (lf_sess_to_file (k\<lparr>lf_lru_cache := ?l\<rparr>) q)
      else lf_sess_to_file (k\<lparr>lf_lru_cache := ?l\<rparr>) q), lf_files := files1\<rparr>"
    unfolding k1_def using n(1) Cons.prems(5) by (auto simp: fun_eq_iff)
  obtain k'' where k'': "close_all depth can_open keys k1 = Some k''"
    "\<forall>path. lf_files k'' path = (if \<exists>key n. key \<in> set keys \<and> lf_sess_to_file k key = Some n \<and> sn_path n = path then files1 path @ newline @ '']'' else files1 path)"
    using Cons.IH [OF sink_inv_reorder [OF Cons.prems(1) t(2)] _ _ _ k1] Cons.prems(2-4) by auto
  have "\<not> (\<exists>q m. q \<in> set keys \<and> lf_sess_to_file k q = Some m \<and> sn_path m = sn_path n)"
    using d(3) [OF n(1)] Cons.prems(3) by auto
  then have "lf_files k'' path = (if \<exists>q m. q \<in> set (key # keys) \<and> lf_sess_to_file k q = Some m \<and> sn_path m = path then files path @ newline @ '']'' else files path)" for path
    using k''(2) n(1) by (auto simp: files1_def)
  then show ?case using step k''(1) by auto
qed

lemma shutdown_ok:
  assumes k: "sink_inv k H" and o: "set order = dom H" "distinct order"
  shows "\<exists>k'. sink_shutdown depth can_open order k = Some k' \<and>
     (\<forall>key n es. lf_sess_to_file k key = Some n \<and> H key = Some es \<longrightarrow> lf_files k' (sn_path n) = render es @ newline @ '']'')"
proof -
  obtain k1 where k1: "close_all depth can_open order k = Some k1" "\<forall>path. lf_files k1 path =
      (if \<exists>key n. key \<in> set order \<and> lf_sess_to_file k key = Some n \<and> sn_path n = path then lf_files k path @ newline @ '']'' else lf_files k path)"
    using close_all_ok [OF k, of order "[]" k "lf_files k" depth can_open] o by auto
  have "lf_files k1 (sn_path n) = render es @ newline @ '']''" if "lf_sess_to_file k key = Some n" "H key = Some es" for key n es
    using k1(2) that o(1) sink_invD(2) [OF k that] by (auto simp: node_ok_def)
  then show ?thesis using k1(1) by (auto simp: sink_shutdown_def)
qed

section \<open>Main theorems\<close>

text \<open>
  Log files. With at most 128 sessions and a file system in which every path can be opened, after any
  sequence of added sessions (with different file names) and written entries: writing
  to a session that was added always succeeds; the file of each session holds exactly the
  entries written to it, in order, as the items of a JSON array; and \<open>shutdown\<close>, in whatever order it
  visits the sessions, closes each array.\<close>

lemma sink_closes:
  assumes "sink_run depth can_open k H" "\<forall>path. can_open path" "card (dom H) \<le> MAX_LRU_CACHE_SIZE" "H key = Some es" "set order = dom H" "distinct order"
  shows "\<exists>n k''. lf_sess_to_file k key = Some n \<and> lf_files k (sn_path n) = render es \<and>
     (\<forall>e. sid (en_sess_id e) = key \<longrightarrow> sink_write depth can_open e k \<noteq> None) \<and>
     sink_shutdown depth can_open order k = Some k'' \<and> lf_files k'' (sn_path n) = render es @ newline @ '']''"
proof -
  have k: "sink_inv k H" using run_inv [OF assms(1-3)] by simp
  then obtain n where n: "lf_sess_to_file k key = Some n" using sink_invD(1) assms(4) by blast
  have f: "lf_files k (sn_path n) = render es" using sink_invD(2) [OF k n assms(4)] by (simp add: node_ok_def)
  obtain k'' where "sink_shutdown depth can_open order k = Some k''" "lf_files k'' (sn_path n) = render es @ newline @ '']''"
    using shutdown_ok [OF k assms(5,6), of depth can_open] n assms(4) by blast
  moreover have "sink_write depth can_open e k \<noteq> None" if "sid (en_sess_id e) = key" for e
    using write_ok [OF k, of e es depth can_open] assms(4) that by auto
  ultimately show ?thesis using n f by blast
qed

lemma two_last:
  assumes "2 \<le> length xs"
  obtains ys a b where "xs = ys @ [a, b]"
  using assms by (cases xs rule: rev_cases; cases "butlast xs" rule: rev_cases) auto

text \<open>The two sessions at the end of a full list, and their nodes.\<close>

lemma oldest_two:
  assumes k: "sink_inv k H" and full: "card (dom H) = MAX_LRU_CACHE_SIZE"
  obtains xs ib b ia a na nb es_b where "lf_lru_cache k = xs @ [(ib, b), (ia, a)]"
    "lf_sess_to_file k (sid a) = Some na" "H (sid a) \<noteq> None" "lf_sess_to_file k (sid b) = Some nb" "H (sid b) = Some es_b"
    "ia \<noteq> ib" "ia \<notin> fst ` set xs" "ib \<notin> fst ` set xs" "sid a \<noteq> sid b"
    "sn_open na" "\<not> sn_first_write na" "sn_in_lru na" "sn_lru_iterator na = Some ia"
    "sn_open nb" "sn_in_lru nb" "sn_lru_iterator nb = Some ib"
proof -
  note d = sink_invD [OF k]
  have "length (lf_lru_cache k) = MAX_LRU_CACHE_SIZE" using d(8) sink_open_card [OF k] full by simp
  then have "2 \<le> length (lf_lru_cache k)" by (simp add: MAX_LRU_CACHE_SIZE_def)
  then obtain xs b' a' where "lf_lru_cache k = xs @ [b', a']" by (rule two_last)
  then obtain ib b ia a where l: "lf_lru_cache k = xs @ [(ib, b), (ia, a)]" by (cases b'; cases a') simp
  have dist: "ia \<noteq> ib" "ia \<notin> fst ` set xs" "ib \<notin> fst ` set xs" "sid a \<noteq> sid b" using d(4,5) l by auto
  have "sid a \<in> dom H" "sid b \<in> dom H" using d(6) l by auto
  then obtain na nb es_a es_b where n: "lf_sess_to_file k (sid a) = Some na" "H (sid a) = Some es_a" "lf_sess_to_file k (sid b) = Some nb" "H (sid b) = Some es_b"
    using d(1) by blast
  have it: "sn_lru_iterator m = Some j" if m: "(j, c) \<in> set (lf_lru_cache k)" "lf_sess_to_file k (sid c) = Some m" "H (sid c) = Some es" for j c m es
  proof -
    obtain it c' where c: "sn_lru_iterator m = Some it" "(it, c') \<in> set (lf_lru_cache k)" "sid c' = sid c"
      using d(2) [OF m(2,3)] by (auto simp: node_ok_def)
    have "inj_on (sid \<circ> snd) (set (lf_lru_cache k))" using d(5) by (simp add: distinct_map)
    from inj_onD [OF this _ c(2) m(1)] c(1,3) show ?thesis by simp
  qed
  have "sn_open na" "\<not> sn_first_write na" "sn_in_lru na" "sn_lru_iterator na = Some ia"
    using d(2) [OF n(1,2)] it [OF _ n(1,2), of ia] l by (auto simp: node_ok_def)
  moreover have "sn_open nb" "sn_in_lru nb" "sn_lru_iterator nb = Some ib"
    using d(2) [OF n(3,4)] it [OF _ n(3,4), of ib] l by (auto simp: node_ok_def)
  ultimately show ?thesis using that l n dist by auto
qed

text \<open>
  C32: Eviction corrupts the sink. When 128 sessions are open and another one is added, the call returns, but
  the list has lost the element of the wrong session: \<open>close_file\<close> moves the victim to the front
  before \<open>evict_one\<close> drops the last element. For that session, which is still marked as listed, every
  later write uses an iterator whose element is gone.\<close>

theorem eviction_faults:
  assumes run: "sink_run depth0 can_open k H" and "\<forall>path. can_open path" and full: "card (dom H) = MAX_LRU_CACHE_SIZE"
    and i: "H (sid i) = None" and depth: "0 < depth"
  shows "\<exists>k' key. sink_add_session depth can_open i readable_id k = Some k' \<and> key \<in> dom H \<and>
     (\<forall>e depth'. sid (en_sess_id e) = key \<longrightarrow> sink_write depth' can_open e k' = None)"
proof -
  have k: "sink_inv k H" using run_inv [OF run assms(2)] full by simp
  note d = sink_invD [OF k]
  obtain xs ib b ia a na nb es_b where l: "lf_lru_cache k = xs @ [(ib, b), (ia, a)]"
    and n: "lf_sess_to_file k (sid a) = Some na" "H (sid a) \<noteq> None" "lf_sess_to_file k (sid b) = Some nb" "H (sid b) = Some es_b"
    and dist: "ia \<noteq> ib" "ia \<notin> fst ` set xs" "ib \<notin> fst ` set xs" "sid a \<noteq> sid b"
    and na: "sn_open na" "\<not> sn_first_write na" "sn_in_lru na" "sn_lru_iterator na = Some ia"
    and nb: "sn_open nb" "sn_in_lru nb" "sn_lru_iterator nb = Some ib"
    using oldest_two [OF k full] .
  have none: "lf_sess_to_file k (sid i) = None" "sid i \<noteq> sid a" "sid i \<noteq> sid b" using d(1) i n(2,4) by auto
  have rest: "filter (\<lambda>e. fst e \<noteq> ia) xs = xs" using dist(2) by (auto simp: filter_id_conv)
  define k0 where "k0 = set_node (sid i) (create_sink_node readable_id k) k"
  define k1 where "k1 = (file_write (sn_path na) (newline @ '']'') k0)\<lparr>lf_lru_cache := (ia, a) # xs,
     lf_sess_to_file := (lf_sess_to_file k0)(sid a \<mapsto> na\<lparr>sn_open := False, sn_in_lru := False\<rparr>), lf_open_files := lf_open_files k - 1\<rparr>"
  obtain depth' where dp: "depth = Suc depth'" using depth gr0_conv_Suc by blast
  have op: "lf_open_files k = MAX_LRU_CACHE_SIZE" using sink_open_card [OF k] full by simp
  have k0: "lf_sess_to_file k0 (sid a) = Some na" "lf_lru_cache k0 = xs @ [(ib, b), (ia, a)]" "lf_open_files k0 = MAX_LRU_CACHE_SIZE"
    using none n(1) l op by (simp_all add: k0_def set_node_def)
  have find: "find (\<lambda>e. fst e = ia) (lf_lru_cache k0) = Some (ia, a)"
    using find_distinct [OF d(4), of ia a] l k0(2) by simp
  have touch: "lru_touch j (sid a) k0 = Some (k0\<lparr>lf_lru_cache := (ia, a) # xs @ [(ib, b)]\<rparr>)" for j
    using k0(1) na(3,4) find rest dist(1) by (simp add: lru_touch_def k0(2))
  have evict: "evict_one depth can_open k0 = Some k1"
    using k0 na(1,2) touch op
    by (simp add: dp close_file_by_def ensure_open_by_def stream_write_def set_node_def file_write_def k1_def MAX_LRU_CACHE_SIZE_def butlast_append)
  define k2 where "k2 = with_session i (sn_path (create_sink_node readable_id k)) k1"
  have "sink_add_session depth can_open i readable_id k = Some k2"
    using none evict assms(2) k0(3)
    by (simp add: sink_add_session_def k0_def [symmetric] sink_write_def get_node_def)
       (simp add: ensure_open_def ensure_open_by_def open_file_def set_node_def k1_def k0_def
         create_sink_node_def lru_touch_def stream_write_def file_write_def with_session_def k2_def added_entry_def)
  moreover have "sink_write depth' can_open f k2 = None" if "sid (en_sess_id f) = sid b" for f depth'
  proof -
    have "lf_sess_to_file k2 (sid b) = Some nb" using n(3) none(3) dist(4) by (simp add: k2_def with_session_def k1_def k0_def set_node_def)
    moreover have "find (\<lambda>e. fst e = ib) (lf_lru_cache k2) = None"
      using dist d(7) [of "(ib, b)"] l by (force simp: find_None_iff k2_def with_session_def k1_def k0_def set_node_def file_write_def)
    ultimately show ?thesis using nb that by (simp add: sink_write_def get_node_def ensure_open_def ensure_open_by_def lru_touch_def)
  qed
  ultimately show ?thesis using n(4) by blast
qed

section \<open>Sample sinks\<close>

abbreviation nth_id :: "nat \<Rightarrow> SessionID" where
  "nth_id n \<equiv> \<lparr>storage_index = n, sid = n\<rparr>"

definition nth_path :: "nat \<Rightarrow> string" where
  "nth_path n = ''logs/run/sessions/'' @ replicate n (CHR ''x'') @ ''.json''"

lemma sample_path: "lf_engine_run_id k = ''run'' \<Longrightarrow> sn_path (create_sink_node (replicate n (CHR ''x'')) k) = nth_path n"
  by (cases n) (simp_all add: create_sink_node_def make_path_def path_append_def nth_path_def)

lemma nth_path_inj: "nth_path m = nth_path n \<Longrightarrow> m = n"
  using arg_cong [of "nth_path m" "nth_path n" length] by (simp add: nth_path_def)

lemma sample_sinks:
  "n \<le> MAX_LRU_CACHE_SIZE \<Longrightarrow> \<exists>k H. sink_run depth (\<lambda>_. True) k H \<and> dom H = {..<n} \<and> lf_engine_run_id k = ''run'' \<and>
     sn_path ` ran (lf_sess_to_file k) \<subseteq> nth_path ` {..<n} \<and> (\<forall>i < n. H i = Some [added_entry (nth_id i)])"
proof (induction n)
  case 0
  show ?case
    by (intro exI [of _ "sink_new (\<lambda>_. True) ''run''"] exI [of _ Map.empty] conjI sr_new) (simp_all add: sink_new_def)
next
  case (Suc n)
  then obtain k H where k: "sink_run depth (\<lambda>_. True) k H" "dom H = {..<n}" "lf_engine_run_id k = ''run''"
    "sn_path ` ran (lf_sess_to_file k) \<subseteq> nth_path ` {..<n}" "\<forall>i < n. H i = Some [added_entry (nth_id i)]" by auto
  let ?r = "replicate n (CHR ''x'')" and ?k = "with_session (nth_id n) (nth_path n) k"
  have inv: "sink_inv k H" using run_inv [OF k(1)] k(2) Suc.prems by simp
  have none: "H n = None" "lf_sess_to_file k n = None" using k(2) sink_invD(1) [OF inv] by auto
  have path: "nth_path n \<notin> sn_path ` ran (lf_sess_to_file k)" using k(4) nth_path_inj by blast
  have add: "sink_add_session depth (\<lambda>_. True) (nth_id n) ?r k = Some ?k"
    by (rule add_opens) (use none sink_open_card [OF inv] k(2,3) Suc.prems sample_path in simp_all)
  have run: "sink_run depth (\<lambda>_. True) ?k (H(n \<mapsto> [added_entry (nth_id n)]))"
    using sr_add [OF k(1) _ _ add] none(1) path sample_path [OF k(3)] by simp
  have "ran (lf_sess_to_file ?k) = insert (the (lf_sess_to_file ?k n)) (ran (lf_sess_to_file k))"
    using none(2) by (simp add: with_session_def)
  then have "sn_path ` ran (lf_sess_to_file ?k) \<subseteq> nth_path ` {..<Suc n}"
    using k(4) by (auto simp: with_session_def)
  moreover have "lf_engine_run_id ?k = ''run''" using k(3) by (simp add: with_session_def)
  moreover have "dom (H(n \<mapsto> [added_entry (nth_id n)])) = {..<Suc n}" using k(2) by (simp add: lessThan_Suc)
  moreover have "\<forall>i < Suc n. (H(n \<mapsto> [added_entry (nth_id n)])) i = Some [added_entry (nth_id i)]" using k(5) by (simp add: less_Suc_eq)
  ultimately show ?case using run by blast
qed

theorem eviction_faults_witness:
  "\<exists>k H k' key. sink_run 1 (\<lambda>_. True) k H \<and> card (dom H) = 128 \<and> sink_add_session 1 (\<lambda>_. True) (nth_id 128) ''y'' k = Some k' \<and> key < 128 \<and>
     sink_write 1 (\<lambda>_. True) (added_entry (nth_id key)) k' = None"
proof -
  obtain k H where k: "sink_run 1 (\<lambda>_. True) k H" "dom H = {..<MAX_LRU_CACHE_SIZE}" using sample_sinks [of MAX_LRU_CACHE_SIZE 1] by blast
  then have "H (sid (nth_id 128)) = None" "card (dom H) = MAX_LRU_CACHE_SIZE" by (auto simp: MAX_LRU_CACHE_SIZE_def)
  from eviction_faults [OF k(1) _ this(2,1), of 1 "''y''"] obtain k' key where
    e: "sink_add_session 1 (\<lambda>_. True) (nth_id 128) ''y'' k = Some k'" "key \<in> dom H"
      "\<forall>e depth'. sid (en_sess_id e) = key \<longrightarrow> sink_write depth' (\<lambda>_. True) e k' = None" by auto
  moreover have "sink_write 1 (\<lambda>_. True) (added_entry (nth_id key)) k' = None" using e(3) by (simp add: added_entry_def)
  ultimately show ?thesis using k by (intro exI [of _ k] exI [of _ H] exI [of _ k'] exI [of _ key]) (simp add: MAX_LRU_CACHE_SIZE_def)
qed

end
