(* ===== verification/Log_Core.thy ===== *)
theory Log_Core
  imports Log_Ring Log_Sink
begin

text \<open>
  \<open>Fix::Log::LogCore\<close> (include/fix/log/LogCore.hpp, src/LogCore.cpp) and \<open>SessionLogger\<close>: the ring, the
  file sink, the semaphore and the thread between them. The threads that log, the draining thread and the destructor
  interleave at every atomic action of the ring, at every operation of the semaphore and at every call of the
  sink. A thread that logs is at some action of \<open>MpscRing::push\<close> or \<open>try_push\<close> (\<open>Log_Ring\<close>) or between that and \<open>sem_.release(1)\<close>.
\<close>

section \<open>State\<close>

text \<open>
  Where the draining thread is: the test of the stop token, \<open>acquire\<close>, in \<open>pop\<close> with the number drained in this
  round, in \<open>write\<close>, at \<open>try_acquire\<close>; after the loop in \<open>pop\<close> with the count of attempts, in \<open>write\<close>; at the end.
\<close>

datatype drain_at =
  D_Check | D_Acquire | D_Pop nat | D_Write nat Entry | D_Try nat | D_Rest nat | D_Rest_Write nat Entry | D_Done

text \<open>
  \<open>lc_ring\<close> is \<open>q_\<close> with the threads inside it; \<open>lc_owed\<close> the threads that have pushed and not yet released the
  semaphore; \<open>lc_stop\<close> and \<open>lc_released\<close> the progress of the destructor. The last components record the
  history: the entries given to the sink per session, the names of the sessions, and whether the last
  round of the loop ended at the cap of its burst.
\<close>

record LogCore =
  lc_ring :: "Entry ring_sys"
  lc_owed :: "nat set"
  lc_sink :: LogFileSink
  lc_sem :: nat
  lc_at :: drain_at
  lc_stop :: bool
  lc_released :: bool
  lc_log :: "nat \<rightharpoonup> Entry list"
  lc_names :: "nat \<rightharpoonup> string"
  lc_cut :: bool

definition core_new :: "(string \<Rightarrow> bool) \<Rightarrow> string \<Rightarrow> Entry \<Rightarrow> nat \<Rightarrow> LogCore" where
  "core_new can_open engine_run_id d n =
     \<lparr>lc_ring = sys_new d n, lc_owed = {}, lc_sink = sink_new can_open engine_run_id, lc_sem = 0, lc_at = D_Check, lc_stop = False,
      lc_released = False, lc_log = Map.empty, lc_names = Map.empty, lc_cut = False\<rparr>"

section \<open>Operations\<close>

text \<open>\<open>push\<close> and \<open>try_push\<close>: one action of thread \<open>p\<close> inside the ring; after \<open>push\<close> has published, the thread owes the release.\<close>

definition producer_action :: "nat \<Rightarrow> 'a ring_sys \<Rightarrow> 'a ring_sys \<Rightarrow> bool" where
  "producer_action p r r' \<longleftrightarrow> p < length (sy_producers r) \<and> sys_step r r' \<and> sy_consumer r' = sy_consumer r \<and> sy_popped r' = sy_popped r \<and>
     sy_producers r' = (sy_producers r)[p := sy_producers r' ! p]"

definition core_push :: "nat \<Rightarrow> Entry ring_sys \<Rightarrow> LogCore \<Rightarrow> LogCore" where
  "core_push p r' c = c\<lparr>lc_ring := r',
     lc_owed := (case sy_producers (lc_ring c) ! p of P_Publish _ \<Rightarrow> insert p (lc_owed c) | _ \<Rightarrow> lc_owed c)\<rparr>"

definition core_release :: "nat \<Rightarrow> LogCore \<Rightarrow> LogCore" where
  "core_release p c = c\<lparr>lc_owed := lc_owed c - {p}, lc_sem := lc_sem c + 1\<rparr>"

definition core_add_session :: "nat \<Rightarrow> (string \<Rightarrow> bool) \<Rightarrow> SessionID \<Rightarrow> string \<Rightarrow> LogCore \<Rightarrow> LogCore option" where
  "core_add_session depth can_open i readable_id c =
     do { k \<leftarrow> sink_add_session depth can_open i readable_id (lc_sink c);
          Some (c\<lparr>lc_sink := k, lc_log := (lc_log c)(sid i \<mapsto> [added_entry i]), lc_names := (lc_names c)(sid i \<mapsto> readable_id)\<rparr>) }"

text \<open>What \<open>SessionLogger::log\<close> pushes.\<close>

definition session_log :: "SessionID \<Rightarrow> Context \<Rightarrow> string \<Rightarrow> Entry" where
  "session_log sess_id context message = \<lparr>en_message = message, en_sess_id = sess_id, en_context = context\<rparr>"

text \<open>The destructor: \<open>request_stop\<close>, then \<open>release(capacity)\<close>; \<open>join\<close> returns when the thread is at its end.\<close>

definition core_stop :: "LogCore \<Rightarrow> LogCore" where
  "core_stop c = c\<lparr>lc_stop := True\<rparr>"

definition core_wake :: "LogCore \<Rightarrow> LogCore" where
  "core_wake c = c\<lparr>lc_released := True, lc_sem := lc_sem c + capacity\<rparr>"

text \<open>One action of \<open>pop\<close>; the first component is its result when it returns.\<close>

definition pop_action :: "'a ring_sys \<Rightarrow> 'a option option \<times> 'a ring_sys" where
  "pop_action r =
     (case sy_consumer r of
        C_Idle \<Rightarrow> if pop_ready (sy_ring r) then (None, r\<lparr>sy_consumer := C_Take\<rparr>) else (Some None, r)
      | C_Take \<Rightarrow> (None, r\<lparr>sy_consumer := C_Release (pop_data (sy_ring r))\<rparr>)
      | C_Release d \<Rightarrow> (Some (Some d), r\<lparr>sy_ring := pop_release (sy_ring r), sy_consumer := C_Idle, sy_popped := sy_popped r @ [d]\<rparr>))"

text \<open>The thread goes on in \<open>pop\<close>, or to \<open>none\<close> after it returned false, or to \<open>some e\<close> after it returned the entry \<open>e\<close>.\<close>

definition drain_pop :: "drain_at \<Rightarrow> (Entry \<Rightarrow> drain_at) \<Rightarrow> LogCore \<Rightarrow> LogCore" where
  "drain_pop none some c =
     (case pop_action (lc_ring c) of
        (None, r) \<Rightarrow> c\<lparr>lc_ring := r\<rparr>
      | (Some None, r) \<Rightarrow> c\<lparr>lc_ring := r, lc_at := none\<rparr>
      | (Some (Some e), r) \<Rightarrow> c\<lparr>lc_ring := r, lc_at := some e\<rparr>)"

definition drain_write :: "nat \<Rightarrow> (string \<Rightarrow> bool) \<Rightarrow> Entry \<Rightarrow> LogCore \<Rightarrow> LogCore option" where
  "drain_write depth can_open e c =
     do { k \<leftarrow> sink_write depth can_open e (lc_sink c);
          Some (c\<lparr>lc_sink := k,
            lc_log := (lc_log c)(sid (en_sess_id e) := map_option (\<lambda>es. es @ [e]) (lc_log c (sid (en_sess_id e))))\<rparr>) }"

text \<open>
  One action of \<open>drain\<close>. \<open>spurious\<close>: \<open>try_acquire\<close> may fail although the counter is positive. \<open>order\<close> is the order in which
  the hash map of the sink is visited. \<open>None\<close> is an exception.
\<close>

definition drain_step :: "nat \<Rightarrow> (string \<Rightarrow> bool) \<Rightarrow> nat list \<Rightarrow> bool \<Rightarrow> LogCore \<Rightarrow> LogCore option" where
  "drain_step depth can_open order spurious c =
     (case lc_at c of
        D_Check \<Rightarrow> Some (c\<lparr>lc_at := if lc_stop c then D_Rest 0 else D_Acquire\<rparr>)
      | D_Acquire \<Rightarrow> Some (if lc_sem c = 0 then c else c\<lparr>lc_sem := lc_sem c - 1, lc_at := D_Pop 0\<rparr>)
      | D_Pop drained \<Rightarrow> Some (drain_pop (D_Try drained) (D_Write drained) c)
      | D_Write drained e \<Rightarrow>
          do { c1 \<leftarrow> drain_write depth can_open e c;
               Some (c1\<lparr>lc_at := if drained + 1 \<ge> 1024 then D_Try (drained + 1) else D_Pop (drained + 1)\<rparr>) }
      | D_Try drained \<Rightarrow>
          Some (if lc_sem c = 0 \<or> spurious then c\<lparr>lc_at := D_Check, lc_cut := drained \<ge> 1024\<rparr>
                else c\<lparr>lc_sem := lc_sem c - 1, lc_at := D_Pop drained\<rparr>)
      | D_Rest cnt \<Rightarrow>
          if cnt < capacity then Some (drain_pop (D_Rest (cnt + 1)) (D_Rest_Write cnt) c)
          else do { k \<leftarrow> sink_shutdown depth can_open order (lc_sink c); Some (c\<lparr>lc_sink := k, lc_at := D_Done\<rparr>) }
      | D_Rest_Write cnt e \<Rightarrow>
          do { c1 \<leftarrow> drain_write depth can_open e c; Some (c1\<lparr>lc_at := D_Rest (cnt + 1)\<rparr>) }
      | D_Done \<Rightarrow> Some c)"

definition waiting :: "LogCore \<Rightarrow> bool" where
  "waiting c \<longleftrightarrow> lc_at c = D_Acquire \<and> lc_sem c = 0 \<or> lc_at c = D_Done"

fun in_sink :: "drain_at \<Rightarrow> bool" where
  "in_sink (D_Write n e) \<longleftrightarrow> True"
| "in_sink (D_Rest_Write n e) \<longleftrightarrow> True"
| "in_sink _ \<longleftrightarrow> False"

definition idle :: "'a ring_sys \<Rightarrow> bool" where
  "idle r \<longleftrightarrow> (\<forall>x \<in> set (sy_producers r). x = P_Idle)"

text \<open>
  The rules of use: a thread logs under the id of a session that was added; a session is added once, under a name of
  its own, while the draining thread is not in the sink (the sink has no lock); when the destructor runs, no
  other thread uses the object.
\<close>

inductive log_step :: "nat \<Rightarrow> (string \<Rightarrow> bool) \<Rightarrow> LogCore \<Rightarrow> LogCore \<Rightarrow> bool" for depth can_open where
  ls_push: "\<not> lc_stop c \<Longrightarrow> p \<notin> lc_owed c \<Longrightarrow> producer_action p (lc_ring c) r' \<Longrightarrow>
    \<forall>e \<in> set (drop (length (sy_taken (lc_ring c))) (sy_taken r')). sid (en_sess_id e) \<in> dom (lc_log c) \<Longrightarrow>
    log_step depth can_open c (core_push p r' c)"
| ls_release: "p \<in> lc_owed c \<Longrightarrow> log_step depth can_open c (core_release p c)"
| ls_add: "\<not> lc_stop c \<Longrightarrow> \<not> in_sink (lc_at c) \<Longrightarrow> lc_log c (sid i) = None \<Longrightarrow>
    sn_path (create_sink_node readable_id (lc_sink c)) \<notin> sn_path ` ran (lf_sess_to_file (lc_sink c)) \<Longrightarrow>
    core_add_session depth can_open i readable_id c = Some c' \<Longrightarrow> log_step depth can_open c c'"
| ls_drain: "\<not> waiting c \<Longrightarrow> distinct order \<Longrightarrow> set order = dom (lc_log c) \<Longrightarrow> drain_step depth can_open order spurious c = Some c' \<Longrightarrow>
    log_step depth can_open c c'"
| ls_stop: "\<not> lc_stop c \<Longrightarrow> idle (lc_ring c) \<Longrightarrow> lc_owed c = {} \<Longrightarrow> log_step depth can_open c (core_stop c)"
| ls_wake: "lc_stop c \<Longrightarrow> \<not> lc_released c \<Longrightarrow> log_step depth can_open c (core_wake c)"

abbreviation log_reach :: "nat \<Rightarrow> (string \<Rightarrow> bool) \<Rightarrow> string \<Rightarrow> Entry \<Rightarrow> nat \<Rightarrow> LogCore \<Rightarrow> bool" where
  "log_reach depth can_open engine_run_id d n \<equiv> (log_step depth can_open)\<^sup>*\<^sup>* (core_new can_open engine_run_id d n)"

section \<open>Invariant\<close>

definition session_path :: "string \<Rightarrow> string \<Rightarrow> string" where
  "session_path engine_run_id readable_id = make_path [''logs'', engine_run_id, ''sessions'', readable_id @ ''.json'']"

text \<open>The entries the sink has got: what was popped, less the one on the way to the sink.\<close>

definition written :: "LogCore \<Rightarrow> Entry list" where
  "written c = (if in_sink (lc_at c) then butlast (sy_popped (lc_ring c)) else sy_popped (lc_ring c))"

fun at_ok :: "drain_at \<Rightarrow> Entry ring_sys \<Rightarrow> bool" where
  "at_ok (D_Pop n) r \<longleftrightarrow> True"
| "at_ok (D_Rest n) r \<longleftrightarrow> n < capacity \<or> n = capacity \<and> sy_consumer r = C_Idle"
| "at_ok (D_Write n e) r \<longleftrightarrow> sy_consumer r = C_Idle \<and> sy_popped r \<noteq> [] \<and> last (sy_popped r) = e"
| "at_ok (D_Rest_Write n e) r \<longleftrightarrow> n < capacity \<and> sy_consumer r = C_Idle \<and> sy_popped r \<noteq> [] \<and> last (sy_popped r) = e"
| "at_ok at r \<longleftrightarrow> sy_consumer r = C_Idle"

text \<open>The number of entries that the attempts after the loop can still take.\<close>

fun attempts_left :: "drain_at \<Rightarrow> nat" where
  "attempts_left (D_Rest n) = capacity - n"
| "attempts_left (D_Rest_Write n e) = capacity - (n + 1)"
| "attempts_left D_Done = 0"
| "attempts_left _ = capacity"

fun after_loop :: "drain_at \<Rightarrow> bool" where
  "after_loop (D_Rest n) \<longleftrightarrow> True"
| "after_loop (D_Rest_Write n e) \<longleftrightarrow> True"
| "after_loop D_Done \<longleftrightarrow> True"
| "after_loop _ \<longleftrightarrow> False"

definition thread_inv :: "LogCore \<Rightarrow> bool" where
  "thread_inv c \<longleftrightarrow> at_ok (lc_at c) (lc_ring c) \<and> (lc_stop c \<longrightarrow> idle (lc_ring c) \<and> lc_owed c = {}) \<and>
     (after_loop (lc_at c) \<or> lc_released c \<longrightarrow> lc_stop c) \<and> (lc_released c \<and> lc_at c = D_Acquire \<longrightarrow> 0 < lc_sem c) \<and>
     (lc_stop c \<and> sy_failed (lc_ring c) = [] \<longrightarrow>
        length (sy_taken (lc_ring c)) \<le> length (sy_popped (lc_ring c)) + attempts_left (lc_at c))"

definition history_inv :: "LogCore \<Rightarrow> bool" where
  "history_inv c \<longleftrightarrow> (\<forall>e \<in> set (sy_taken (lc_ring c)). sid (en_sess_id e) \<in> dom (lc_log c)) \<and>
     (\<forall>key es. lc_log c key = Some es \<longrightarrow>
        (\<exists>i. sid i = key \<and> es = added_entry i # filter (\<lambda>e. sid (en_sess_id e) = key) (written c)))"

definition files_inv :: "nat \<Rightarrow> (string \<Rightarrow> bool) \<Rightarrow> string \<Rightarrow> LogCore \<Rightarrow> bool" where
  "files_inv depth can_open engine_run_id c \<longleftrightarrow>
     (if lc_at c = D_Done
      then \<forall>key es. lc_log c key = Some es \<longrightarrow>
        (\<exists>r. lc_names c key = Some r \<and> lf_files (lc_sink c) (session_path engine_run_id r) = render es @ newline @ '']'')
      else sink_run depth can_open (lc_sink c) (lc_log c) \<and> lf_engine_run_id (lc_sink c) = engine_run_id \<and>
        (\<forall>key n. lf_sess_to_file (lc_sink c) key = Some n \<longrightarrow>
           (\<exists>r. lc_names c key = Some r \<and> sn_path n = session_path engine_run_id r)))"

lemma drain_pop_cases:
  obtains (going) r where "drain_pop none some c = c\<lparr>lc_ring := r\<rparr>" "sys_step (lc_ring c) r" "sy_popped r = sy_popped (lc_ring c)"
      "sy_consumer r \<noteq> C_Idle"
  | (empty) "drain_pop none some c = c\<lparr>lc_at := none\<rparr>" "sy_consumer (lc_ring c) = C_Idle" "\<not> pop_ready (sy_ring (lc_ring c))"
  | (popped) e r where "drain_pop none some c = c\<lparr>lc_ring := r, lc_at := some e\<rparr>" "sys_step (lc_ring c) r"
      "sy_popped r = sy_popped (lc_ring c) @ [e]" "sy_consumer r = C_Idle"
proof (cases "sy_consumer (lc_ring c)")
  case C_Idle
  then show ?thesis
    using going [of "(lc_ring c)\<lparr>sy_consumer := C_Take\<rparr>"] empty pop_test [of "lc_ring c"]
    by (cases "pop_ready (sy_ring (lc_ring c))") (simp_all add: drain_pop_def pop_action_def)
next
  case C_Take
  then show ?thesis using pop_move [of "lc_ring c"]
    by (intro going [of "(lc_ring c)\<lparr>sy_consumer := C_Release (pop_data (sy_ring (lc_ring c)))\<rparr>"]) (simp_all add: drain_pop_def pop_action_def)
next
  case (C_Release e)
  then show ?thesis using pop_done [of "lc_ring c" e]
    by (intro popped [of e "(lc_ring c)\<lparr>sy_ring := pop_release (sy_ring (lc_ring c)), sy_consumer := C_Idle, sy_popped := sy_popped (lc_ring c) @ [e]\<rparr>"]) (simp_all add: drain_pop_def pop_action_def)
qed

lemma drain_pop_frame:
  "sy_taken (lc_ring (drain_pop none some c)) = sy_taken (lc_ring c)" "sy_producers (lc_ring (drain_pop none some c)) = sy_producers (lc_ring c)"
  "sy_failed (lc_ring (drain_pop none some c)) = sy_failed (lc_ring c)" "lc_owed (drain_pop none some c) = lc_owed c"
  "lc_stop (drain_pop none some c) = lc_stop c" "lc_log (drain_pop none some c) = lc_log c" "lc_names (drain_pop none some c) = lc_names c"
  "lc_sem (drain_pop none some c) = lc_sem c" "lc_sink (drain_pop none some c) = lc_sink c" "lc_released (drain_pop none some c) = lc_released c"
  "lc_cut (drain_pop none some c) = lc_cut c"
  by (auto simp: drain_pop_def pop_action_def split: consumer.splits if_splits)

lemma drain_write_frame:
  assumes "drain_write depth can_open e c = Some c'"
  shows "lc_ring c' = lc_ring c" "lc_owed c' = lc_owed c" "lc_sem c' = lc_sem c" "lc_at c' = lc_at c" "lc_stop c' = lc_stop c"
    "lc_names c' = lc_names c" "dom (lc_log c') = dom (lc_log c)" "lc_cut c' = lc_cut c" "lc_released c' = lc_released c"
  using assms by (auto simp: drain_write_def bind_eq_Some_conv split: if_splits)

text \<open>The actions of the draining thread one by one.\<close>

lemma drain_step_cases:
  assumes "drain_step depth can_open order spurious c = Some c'"
  obtains (check) "lc_at c = D_Check" "c' = c\<lparr>lc_at := if lc_stop c then D_Rest 0 else D_Acquire\<rparr>"
  | (wait) "waiting c" "c' = c"
  | (acquire) n where "lc_at c = D_Acquire \<and> n = 0 \<or> lc_at c = D_Try n" "lc_sem c \<noteq> 0" "c' = c\<lparr>lc_sem := lc_sem c - 1, lc_at := D_Pop n\<rparr>"
  | (give_up) n where "lc_at c = D_Try n" "lc_sem c = 0 \<or> spurious" "c' = c\<lparr>lc_at := D_Check, lc_cut := n \<ge> 1024\<rparr>"
  | (pop) n where "lc_at c = D_Pop n" "c' = drain_pop (D_Try n) (D_Write n) c"
  | (rest) n where "lc_at c = D_Rest n" "n < capacity" "c' = drain_pop (D_Rest (n + 1)) (D_Rest_Write n) c"
  | (wrote) n e c1 at where "lc_at c = D_Write n e \<and> at = (if n + 1 \<ge> 1024 then D_Try (n + 1) else D_Pop (n + 1)) \<or>
        lc_at c = D_Rest_Write n e \<and> at = D_Rest (n + 1)"
      "drain_write depth can_open e c = Some c1" "c' = c1\<lparr>lc_at := at\<rparr>"
  | (finish) n k where "lc_at c = D_Rest n" "\<not> n < capacity" "sink_shutdown depth can_open order (lc_sink c) = Some k" "c' = c\<lparr>lc_sink := k, lc_at := D_Done\<rparr>"
proof (cases "lc_at c")
  case D_Check
  show ?thesis by (rule check) (use D_Check assms in \<open>simp_all add: drain_step_def\<close>)
next
  case D_Acquire
  show ?thesis
  proof (cases "lc_sem c = 0")
    case True
    show ?thesis by (rule wait) (use D_Acquire True assms in \<open>simp_all add: drain_step_def waiting_def\<close>)
  next
    case False
    show ?thesis by (rule acquire [of 0]) (use D_Acquire False assms in \<open>simp_all add: drain_step_def\<close>)
  qed
next
  case (D_Pop n)
  show ?thesis by (rule pop [of n]) (use D_Pop assms in \<open>simp_all add: drain_step_def\<close>)
next
  case (D_Write n e)
  then obtain c1 where "drain_write depth can_open e c = Some c1" "c' = c1\<lparr>lc_at := if n + 1 \<ge> 1024 then D_Try (n + 1) else D_Pop (n + 1)\<rparr>"
    using assms by (auto simp: drain_step_def bind_eq_Some_conv)
  then show ?thesis using D_Write by (intro wrote [of n e]) simp_all
next
  case (D_Try n)
  show ?thesis
  proof (cases "lc_sem c = 0 \<or> spurious")
    case True
    show ?thesis by (rule give_up [of n]) (use D_Try True assms in \<open>simp_all add: drain_step_def\<close>)
  next
    case False
    show ?thesis by (rule acquire [of n]) (use D_Try False assms in \<open>simp_all add: drain_step_def\<close>)
  qed
next
  case (D_Rest n)
  show ?thesis
  proof (cases "n < capacity")
    case True
    show ?thesis by (rule rest [of n]) (use D_Rest True assms in \<open>simp_all add: drain_step_def\<close>)
  next
    case False
    then obtain k where "sink_shutdown depth can_open order (lc_sink c) = Some k" "c' = c\<lparr>lc_sink := k, lc_at := D_Done\<rparr>"
      using D_Rest assms by (auto simp: drain_step_def bind_eq_Some_conv)
    then show ?thesis using D_Rest False by (intro finish [of n]) simp_all
  qed
next
  case (D_Rest_Write n e)
  then obtain c1 where "drain_write depth can_open e c = Some c1" "c' = c1\<lparr>lc_at := D_Rest (n + 1)\<rparr>"
    using assms by (auto simp: drain_step_def bind_eq_Some_conv)
  then show ?thesis using D_Rest_Write by (intro wrote [of n e]) simp_all
next
  case D_Done
  show ?thesis by (rule wait) (use D_Done assms in \<open>simp_all add: drain_step_def waiting_def\<close>)
qed

text \<open>Every action of the draining thread is an action of the consumer of the ring or leaves the ring alone.\<close>

lemma drain_step_ring:
  assumes "drain_step depth can_open order spurious c = Some c'"
  shows "lc_ring c' = lc_ring c \<or> sys_step (lc_ring c) (lc_ring c')" "sy_taken (lc_ring c') = sy_taken (lc_ring c)"
     "sy_producers (lc_ring c') = sy_producers (lc_ring c)" "sy_failed (lc_ring c') = sy_failed (lc_ring c)"
     "lc_owed c' = lc_owed c" "lc_stop c' = lc_stop c" "dom (lc_log c') = dom (lc_log c)" "lc_names c' = lc_names c" "lc_released c' = lc_released c"
proof -
  have "lc_ring (drain_pop none some c) = lc_ring c \<or> sys_step (lc_ring c) (lc_ring (drain_pop none some c))" for none some
    by (cases rule: drain_pop_cases [of none some c]) simp_all
  note pop = this
  show "lc_ring c' = lc_ring c \<or> sys_step (lc_ring c) (lc_ring c')"
    using assms by (cases rule: drain_step_cases) (use pop in \<open>auto simp: drain_write_frame\<close>)
qed (use assms in \<open>cases rule: drain_step_cases; auto simp: drain_write_frame drain_pop_frame\<close>)+

lemma log_step_ring:
  assumes "log_step depth can_open c c'"
  shows "lc_ring c' = lc_ring c \<or> sys_step (lc_ring c) (lc_ring c')"
  using assms
  by (induction rule: log_step.induct)
     (use drain_step_ring in \<open>auto simp: core_push_def core_release_def core_add_session_def core_stop_def core_wake_def
        producer_action_def bind_eq_Some_conv\<close>)

lemma small_steps:
  assumes "log_step depth can_open c c'" "small (lc_ring c')"
  shows "small (lc_ring c)"
  using log_step_ring [OF assms(1)] assms(2) small_mono by auto

lemma ring_inv_step:
  assumes "log_step depth can_open c c'" "small (lc_ring c')" "sys_inv (lc_ring c)"
  shows "sys_inv (lc_ring c')"
  using log_step_ring [OF assms(1)] assms(2,3) small_steps [OF assms(1,2)] sys_inv_step by metis

text \<open>What is known of the ring when no thread is pushing.\<close>

lemma idle_room:
  assumes "sys_inv r" "idle r" "sy_failed r = []"
  shows "length (sy_taken r) \<le> length (sy_popped r) + capacity"
proof (rule ccontr)
  assume "\<not> ?thesis"
  then have "held r (length (sy_popped r) + capacity)" using sys_invD(12) [OF assms(1), of "length (sy_popped r) + capacity"] assms(3) by auto
  then show False using assms(2) by (auto simp: held_def idle_def)
qed

lemma idle_empty:
  assumes "sys_inv r" "small r" "idle r" "sy_failed r = []" "\<not> pop_ready (sy_ring r)"
  shows "sy_popped r = sy_taken r"
proof -
  have "\<not> held r n" for n using assms(3) by (auto simp: held_def idle_def)
  then have "\<not> length (sy_popped r) < length (sy_taken r)"
    using sys_invD(12) [OF assms(1), of "length (sy_popped r)"] tail_facts(2) [OF assms(1,2)] assms(4,5) by auto
  then show ?thesis using sys_invD(4) [OF assms(1)] by simp
qed

lemma at_ok_cong: "sy_consumer r' = sy_consumer r \<Longrightarrow> sy_popped r' = sy_popped r \<Longrightarrow> at_ok at r' = at_ok at r"
  by (cases at) simp_all

lemma idle_cong: "sy_producers r' = sy_producers r \<Longrightarrow> idle r' = idle r"
  by (simp add: idle_def)

lemma thread_inv_drain:
  assumes c: "thread_inv c" "sys_inv (lc_ring c)" "small (lc_ring c)" and d: "drain_step depth can_open order spurious c = Some c'"
  shows "thread_inv c'"
  using d
proof (cases rule: drain_step_cases)
  case (pop n)
  show ?thesis
    by (cases rule: drain_pop_cases [of "D_Try n" "D_Write n" c])
       (use c(1) pop drain_pop_frame [of "D_Try n" "D_Write n" c] in \<open>auto simp: thread_inv_def cong: idle_cong\<close>)
next
  case (rest n)
  then have st: "lc_stop c" "idle (lc_ring c)" using c(1) by (simp_all add: thread_inv_def)
  show ?thesis
  proof (cases rule: drain_pop_cases [of "D_Rest (n + 1)" "D_Rest_Write n" c])
    case empty
    then show ?thesis using c(1) rest st idle_empty [OF c(2,3) st(2)] by (auto simp: thread_inv_def)
  qed (use c(1) rest drain_pop_frame [of "D_Rest (n + 1)" "D_Rest_Write n" c] in \<open>auto simp: thread_inv_def cong: idle_cong\<close>)
next
  case (wrote n e c1 at)
  then show ?thesis using c(1) by (auto simp: thread_inv_def drain_write_frame split: if_splits)
qed (use c(1) in \<open>auto simp: thread_inv_def\<close>)

lemma thread_inv_step:
  assumes "log_step depth can_open c c'" "thread_inv c" "sys_inv (lc_ring c)" "small (lc_ring c)"
  shows "thread_inv c'"
  using assms
proof (induction rule: log_step.induct)
  case (ls_push c p r')
  then show ?case using at_ok_cong [of r' "lc_ring c"] by (simp add: thread_inv_def core_push_def producer_action_def)
next
  case (ls_release p c)
  then show ?case by (auto simp: thread_inv_def core_release_def)
next
  case (ls_add c i readable_id c')
  then show ?case by (auto simp: thread_inv_def core_add_session_def bind_eq_Some_conv)
next
  case (ls_drain c order spurious c')
  then show ?case using thread_inv_drain by blast
next
  case (ls_stop c)
  then have "attempts_left (lc_at c) = capacity" by (cases "lc_at c") (auto simp: thread_inv_def)
  then show ?case using ls_stop idle_room [of "lc_ring c"] by (auto simp: thread_inv_def core_stop_def)
next
  case (ls_wake c)
  then show ?case by (simp add: thread_inv_def core_wake_def capacity_def)
qed

text \<open>The history: every entry in the ring belongs to a session that was added, and the log is what was written.\<close>

lemma written_taken: "sys_inv (lc_ring c) \<Longrightarrow> set (sy_popped (lc_ring c)) \<subseteq> set (sy_taken (lc_ring c)) \<and> set (written c) \<subseteq> set (sy_taken (lc_ring c))"
proof -
  assume "sys_inv (lc_ring c)"
  then have "set (sy_popped (lc_ring c)) \<subseteq> set (sy_taken (lc_ring c))" using sys_invD(4) set_take_subset by metis
  moreover have "set (written c) \<subseteq> set (sy_popped (lc_ring c))" by (auto simp: written_def dest: in_set_butlastD)
  ultimately show ?thesis by blast
qed

lemma history_inv_log:
  assumes "history_inv c" "lc_log c' = lc_log c" "written c' = written c"
    and "set (sy_taken (lc_ring c')) \<subseteq> set (sy_taken (lc_ring c)) \<union> {e. sid (en_sess_id e) \<in> dom (lc_log c)}"
  shows "history_inv c'"
  using assms unfolding history_inv_def by auto

lemma history_inv_write:
  assumes c: "history_inv c" "in_sink (lc_at c)" "sy_popped (lc_ring c) \<noteq> []" "last (sy_popped (lc_ring c)) = e"
    and d: "drain_write depth can_open e c = Some c1" and "c' = c1\<lparr>lc_at := at\<rparr>" "\<not> in_sink at"
  shows "history_inv c'"
proof -
  have w: "written c' = written c @ [e]" using assms by (auto simp: written_def drain_write_frame)
  have "\<exists>i. sid i = key \<and> es = added_entry i # filter (\<lambda>e. sid (en_sess_id e) = key) (written c')" if k: "lc_log c' key = Some es" for key es
  proof -
    obtain es0 where "lc_log c key = Some es0" "es = (if key = sid (en_sess_id e) then es0 @ [e] else es0)"
      using k d assms(6) by (cases "key = sid (en_sess_id e)") (auto simp: drain_write_def bind_eq_Some_conv)
    then show ?thesis using c(1) w unfolding history_inv_def by fastforce
  qed
  then show ?thesis using c(1) assms(6) drain_write_frame(1,7) [OF d] unfolding history_inv_def by simp
qed

lemma history_inv_pop:
  assumes "history_inv c" "\<not> in_sink (lc_at c)" "\<not> in_sink none" "\<And>e. in_sink (some e)"
  shows "history_inv (drain_pop none some c)"
proof -
  have "written (drain_pop none some c) = written c"
    by (cases rule: drain_pop_cases [of none some c]) (use assms in \<open>simp_all add: written_def\<close>)
  then show ?thesis by (intro history_inv_log [OF assms(1)]) (simp_all add: drain_pop_frame)
qed

lemma history_inv_drain:
  assumes c: "history_inv c" "thread_inv c" and d: "drain_step depth can_open order spurious c = Some c'"
  shows "history_inv c'"
  using d
proof (cases rule: drain_step_cases)
  case (pop n)
  then show ?thesis using history_inv_pop [OF c(1), of "D_Try n" "D_Write n"] by simp
next
  case (rest n)
  then show ?thesis using history_inv_pop [OF c(1), of "D_Rest (n + 1)" "D_Rest_Write n"] by simp
next
  case (wrote n e c1 at)
  have "in_sink (lc_at c)" "sy_popped (lc_ring c) \<noteq> []" "last (sy_popped (lc_ring c)) = e" "\<not> in_sink at"
    using wrote(1) c(2) by (auto simp: thread_inv_def split: if_splits)
  then show ?thesis using history_inv_write [OF c(1) _ _ _ wrote(2,3)] by simp
next
  case check
  then show ?thesis using history_inv_log [OF c(1), of c'] by (simp add: written_def)
next
  case (acquire n)
  then show ?thesis using history_inv_log [OF c(1), of c'] by (auto simp: written_def)
next
  case (give_up n)
  then show ?thesis using history_inv_log [OF c(1), of c'] by (simp add: written_def)
next
  case (finish n k)
  then show ?thesis using history_inv_log [OF c(1), of c'] by (simp add: written_def)
qed (use c(1) in simp)

lemma history_inv_add:
  assumes c: "history_inv c" "sys_inv (lc_ring c)" and n: "lc_log c (sid i) = None" and a: "core_add_session depth can_open i readable_id c = Some c'"
  shows "history_inv c'"
proof -
  obtain k where k: "c' = c\<lparr>lc_sink := k, lc_log := (lc_log c)(sid i \<mapsto> [added_entry i]), lc_names := (lc_names c)(sid i \<mapsto> readable_id)\<rparr>"
    using a by (auto simp: core_add_session_def bind_eq_Some_conv)
  have "sid (en_sess_id e) \<noteq> sid i" if "e \<in> set (written c)" for e
    using that c written_taken [OF c(2)] n unfolding history_inv_def by (metis domIff subsetD)
  then have "filter (\<lambda>e. sid (en_sess_id e) = sid i) (written c') = []" by (auto simp: k written_def filter_empty_conv)
  moreover have "written c' = written c" by (simp add: k written_def)
  ultimately show ?thesis using c(1) unfolding history_inv_def by (auto simp: k)
qed

lemma taken_grows: "sys_step r r' \<Longrightarrow> \<exists>xs. sy_taken r' = sy_taken r @ xs"
  by (induction rule: sys_step.induct) simp_all

lemma history_inv_step:
  assumes "log_step depth can_open c c'" "history_inv c" "thread_inv c" "sys_inv (lc_ring c)"
  shows "history_inv c'"
  using assms
proof (induction rule: log_step.induct)
  case (ls_push c p r')
  have pa: "sys_step (lc_ring c) r'" "sy_popped r' = sy_popped (lc_ring c)" using ls_push(3) by (simp_all add: producer_action_def)
  then obtain xs where xs: "sy_taken r' = sy_taken (lc_ring c) @ xs" using taken_grows by blast
  then have "set xs \<subseteq> {e. sid (en_sess_id e) \<in> dom (lc_log c)}" using ls_push(4) by auto
  then show ?case using xs pa(2) by (intro history_inv_log [OF ls_push(5)]) (auto simp: core_push_def written_def)
next
  case (ls_add c i readable_id c')
  then show ?case using history_inv_add by blast
next
  case (ls_drain c order spurious c')
  then show ?case using history_inv_drain by blast
next
  case (ls_release p c)
  then show ?case using history_inv_log [of c "core_release p c"] by (simp add: core_release_def written_def)
next
  case (ls_stop c)
  then show ?case using history_inv_log [of c "core_stop c"] by (simp add: core_stop_def written_def)
next
  case (ls_wake c)
  then show ?case using history_inv_log [of c "core_wake c"] by (simp add: core_wake_def written_def)
qed

text \<open>The files, as long as there are at most 128 sessions and every file can be opened.\<close>

definition few :: "LogCore \<Rightarrow> bool" where
  "few c \<longleftrightarrow> finite (dom (lc_log c)) \<and> card (dom (lc_log c)) \<le> MAX_LRU_CACHE_SIZE"

lemma files_inv_sink:
  assumes "files_inv depth can_open engine_run_id c" "\<forall>path. can_open path" "few c" "lc_at c \<noteq> D_Done"
  shows "sink_inv (lc_sink c) (lc_log c)"
  using assms run_inv [of depth can_open "lc_sink c" "lc_log c"] by (simp add: files_inv_def few_def)

lemma files_invD:
  assumes "files_inv depth can_open engine_run_id c" "lc_names c key = Some r"
  shows "lc_at c \<noteq> D_Done \<Longrightarrow> lf_sess_to_file (lc_sink c) key = Some n \<Longrightarrow> sn_path n = session_path engine_run_id r"
    and "lc_at c = D_Done \<Longrightarrow> lc_log c key = Some es \<Longrightarrow> lf_files (lc_sink c) (session_path engine_run_id r) = render es @ newline @ '']''"
proof -
  assume "lc_at c \<noteq> D_Done" "lf_sess_to_file (lc_sink c) key = Some n"
  then have "\<exists>r. lc_names c key = Some r \<and> sn_path n = session_path engine_run_id r" using assms(1) by (simp add: files_inv_def)
  then show "sn_path n = session_path engine_run_id r" using assms(2) by simp
next
  assume "lc_at c = D_Done" "lc_log c key = Some es"
  then have "\<exists>r. lc_names c key = Some r \<and> lf_files (lc_sink c) (session_path engine_run_id r) = render es @ newline @ '']''"
    using assms(1) by (simp add: files_inv_def)
  then show "lf_files (lc_sink c) (session_path engine_run_id r) = render es @ newline @ '']''" using assms(2) by simp
qed

lemma files_inv_cong:
  assumes "files_inv depth can_open engine_run_id c" "lc_at c \<noteq> D_Done" "lc_at c' \<noteq> D_Done"
    "lc_sink c' = lc_sink c" "lc_log c' = lc_log c" "lc_names c' = lc_names c"
  shows "files_inv depth can_open engine_run_id c'"
  using assms by (simp add: files_inv_def)

lemma files_inv_write:
  assumes c: "files_inv depth can_open engine_run_id c" "lc_at c \<noteq> D_Done" "sink_inv (lc_sink c) (lc_log c)" "lc_log c (sid (en_sess_id e)) = Some es"
  shows "\<exists>c1. drain_write depth can_open e c = Some c1 \<and> (at \<noteq> D_Done \<longrightarrow> files_inv depth can_open engine_run_id (c1\<lparr>lc_at := at\<rparr>))"
proof -
  obtain k where k: "sink_write depth can_open e (lc_sink c) = Some k" "lf_engine_run_id k = lf_engine_run_id (lc_sink c)"
    "lf_sess_to_file k = lf_sess_to_file (lc_sink c)"
    using write_ok [OF c(3,4)] by blast
  have "sink_run depth can_open k ((lc_log c)(sid (en_sess_id e) \<mapsto> es @ [e]))"
    using c k(1) sr_write [of depth can_open "lc_sink c" "lc_log c" e es k] by (simp add: files_inv_def)
  then show ?thesis using c k by (auto simp: drain_write_def files_inv_def)
qed

text \<open>The entry on its way to the sink belongs to a session that was added.\<close>

lemma sink_entry:
  assumes "history_inv c" "thread_inv c" "sys_inv (lc_ring c)" "lc_at c = D_Write n e \<or> lc_at c = D_Rest_Write n e"
  shows "\<exists>es. lc_log c (sid (en_sess_id e)) = Some es"
proof -
  have "sy_popped (lc_ring c) \<noteq> []" "last (sy_popped (lc_ring c)) = e" using assms(2,4) by (auto simp: thread_inv_def)
  then have "e \<in> set (sy_popped (lc_ring c))" using last_in_set by blast
  then have "e \<in> set (sy_taken (lc_ring c))" using written_taken [OF assms(3)] by blast
  then show ?thesis using assms(1) by (auto simp: history_inv_def)
qed

lemma files_inv_finish:
  assumes c: "files_inv depth can_open engine_run_id c" "lc_at c \<noteq> D_Done" "sink_inv (lc_sink c) (lc_log c)"
    and o: "distinct order" "set order = dom (lc_log c)"
  shows "\<exists>k. sink_shutdown depth can_open order (lc_sink c) = Some k \<and> files_inv depth can_open engine_run_id (c\<lparr>lc_sink := k, lc_at := D_Done\<rparr>)"
proof -
  obtain k where k: "sink_shutdown depth can_open order (lc_sink c) = Some k" "\<forall>key n es. lf_sess_to_file (lc_sink c) key = Some n \<and>
      lc_log c key = Some es \<longrightarrow> lf_files k (sn_path n) = render es @ newline @ '']''"
    using shutdown_ok [OF c(3) o(2,1), of depth can_open] by (elim exE conjE) (rule that)
  have "\<exists>r. lc_names c key = Some r \<and> lf_files k (session_path engine_run_id r) = render es @ newline @ '']''" if es: "lc_log c key = Some es" for key es
  proof -
    obtain n where n: "lf_sess_to_file (lc_sink c) key = Some n" using sink_invD(1) [OF c(3)] es by blast
    then obtain r where "lc_names c key = Some r" "sn_path n = session_path engine_run_id r" using c(1,2) by (auto simp: files_inv_def)
    then show ?thesis using k(2) n es by metis
  qed
  then show ?thesis using k(1) by (simp add: files_inv_def)
qed

lemma files_inv_drain:
  assumes c: "files_inv depth can_open engine_run_id c" "history_inv c" "thread_inv c" "sys_inv (lc_ring c)"
    and u: "\<forall>path. can_open path" "few c" and o: "distinct order" "set order = dom (lc_log c)" and "\<not> waiting c"
  shows "\<exists>c'. drain_step depth can_open order spurious c = Some c' \<and> files_inv depth can_open engine_run_id c'"
proof -
  have nd: "lc_at c \<noteq> D_Done" using assms(9) by (simp add: waiting_def)
  have k: "sink_inv (lc_sink c) (lc_log c)" by (rule files_inv_sink [OF c(1) u nd])
  have pop: "files_inv depth can_open engine_run_id (drain_pop none some c)" if "none \<noteq> D_Done" "\<And>e. some e \<noteq> D_Done" for none some
    by (cases rule: drain_pop_cases [of none some c]; rule files_inv_cong [OF c(1) nd]) (use nd that in \<open>simp_all add: drain_pop_frame\<close>)
  show ?thesis
  proof (cases "lc_at c")
    case (D_Write n e)
    then obtain es where "lc_log c (sid (en_sess_id e)) = Some es" using sink_entry [OF c(2-4)] by blast
    then show ?thesis using files_inv_write [OF c(1) nd k, of e es "if n + 1 \<ge> 1024 then D_Try (n + 1) else D_Pop (n + 1)"] D_Write
      by (auto simp: drain_step_def)
  next
    case (D_Rest_Write n e)
    then obtain es where "lc_log c (sid (en_sess_id e)) = Some es" using sink_entry [OF c(2-4)] by blast
    then show ?thesis using files_inv_write [OF c(1) nd k, of e es "D_Rest (n + 1)"] D_Rest_Write by (auto simp: drain_step_def)
  next
    case (D_Rest n)
    then show ?thesis
      using files_inv_finish [OF c(1) nd k o] pop [of "D_Rest (n + 1)" "D_Rest_Write n"] by (auto simp: drain_step_def)
  next
    case (D_Pop n)
    then show ?thesis using pop [of "D_Try n" "D_Write n"] by (simp add: drain_step_def)
  qed (use c(1) nd in \<open>simp_all add: drain_step_def files_inv_def\<close>)
qed

lemma files_inv_add:
  assumes c: "files_inv depth can_open engine_run_id c" "lc_at c \<noteq> D_Done" and u: "\<forall>path. can_open path" "few c'"
    and n: "lc_log c (sid i) = None" "sn_path (create_sink_node readable_id (lc_sink c)) \<notin> sn_path ` ran (lf_sess_to_file (lc_sink c))"
    and a: "core_add_session depth can_open i readable_id c = Some c'"
  shows "files_inv depth can_open engine_run_id c'"
proof -
  obtain k where k: "sink_add_session depth can_open i readable_id (lc_sink c) = Some k"
    and c': "c' = c\<lparr>lc_sink := k, lc_log := (lc_log c)(sid i \<mapsto> [added_entry i]), lc_names := (lc_names c)(sid i \<mapsto> readable_id)\<rparr>"
    using a by (auto simp: core_add_session_def bind_eq_Some_conv)
  have run: "sink_run depth can_open (lc_sink c) (lc_log c)" "lf_engine_run_id (lc_sink c) = engine_run_id" using c by (simp_all add: files_inv_def)
  have run': "sink_run depth can_open k ((lc_log c)(sid i \<mapsto> [added_entry i]))" by (rule sr_add [OF run(1) n k])
  have lt: "card (dom (lc_log c)) < MAX_LRU_CACHE_SIZE"
    using u(2) n(1) run_finite [OF run(1)] by (simp add: few_def c' domIff)
  then have inv: "sink_inv (lc_sink c) (lc_log c)" using run_inv [OF run(1) u(1)] by simp
  have "lf_sess_to_file (lc_sink c) (sid i) = None" using sink_invD(1) [OF inv] n(1) by blast
  then have "k = with_session i (session_path engine_run_id readable_id) (lc_sink c)"
    using add_opens [of "lc_sink c" i "session_path engine_run_id readable_id" readable_id can_open depth] k lt sink_open_card [OF inv] u(1) run(2)
    by (simp add: create_sink_node_def session_path_def)
  then show ?thesis using c run' run(2) by (auto simp: files_inv_def c' with_session_def)
qed

lemma files_inv_step:
  assumes "log_step depth can_open c c'" "files_inv depth can_open engine_run_id c" "history_inv c" "thread_inv c" "sys_inv (lc_ring c)"
    and u: "\<forall>path. can_open path" "few c" "few c'"
  shows "files_inv depth can_open engine_run_id c'"
  using assms(1)
proof (cases rule: log_step.cases)
  case (ls_add i readable_id)
  then have "lc_at c \<noteq> D_Done" using assms(4) by (auto simp: thread_inv_def)
  then show ?thesis using files_inv_add [OF assms(2) _ u(1,3) ls_add(3-5)] by simp
next
  case (ls_drain order spurious)
  then show ?thesis using files_inv_drain [OF assms(2-5) u(1,2) ls_drain(2,3,1), of spurious] by auto
qed (use assms(2) in \<open>simp_all add: files_inv_def core_push_def core_release_def core_stop_def core_wake_def\<close>)

lemma log_grows:
  assumes "log_step depth can_open c c'"
  shows "dom (lc_log c) \<subseteq> dom (lc_log c')" "finite (dom (lc_log c)) \<Longrightarrow> finite (dom (lc_log c'))"
    "dom (lc_names c) = dom (lc_log c) \<Longrightarrow> dom (lc_names c') = dom (lc_log c')"
  using assms
  by (cases rule: log_step.cases; auto simp: core_push_def core_release_def core_stop_def core_wake_def core_add_session_def
      bind_eq_Some_conv drain_step_ring(7,8))+

lemma few_mono: "log_step depth can_open c c' \<Longrightarrow> few c' \<Longrightarrow> few c"
  using log_grows(1) [of depth can_open c c'] unfolding few_def by (meson card_mono finite_subset le_trans)

lemma log_dom:
  assumes "log_reach depth can_open engine_run_id d n c"
  shows "finite (dom (lc_log c)) \<and> dom (lc_names c) = dom (lc_log c)"
  using assms
proof (induction rule: rtranclp_induct)
  case (step c c')
  then show ?case using log_grows(2,3) [OF step(2)] by simp
qed (simp add: core_new_def)

definition log_inv :: "nat \<Rightarrow> (string \<Rightarrow> bool) \<Rightarrow> string \<Rightarrow> LogCore \<Rightarrow> bool" where
  "log_inv depth can_open engine_run_id c \<longleftrightarrow> sys_inv (lc_ring c) \<and> thread_inv c \<and> history_inv c \<and> files_inv depth can_open engine_run_id c"

lemma log_inv_new: "log_inv depth can_open engine_run_id (core_new can_open engine_run_id d n)"
proof -
  have "sink_run depth can_open (sink_new can_open engine_run_id) Map.empty" by (rule sr_new)
  moreover have "lf_engine_run_id (sink_new can_open engine_run_id) = engine_run_id" "lf_sess_to_file (sink_new can_open engine_run_id) = Map.empty"
    by (simp_all add: sink_new_def Let_def log_internal_def file_write_def)
  ultimately have "files_inv depth can_open engine_run_id (core_new can_open engine_run_id d n)" by (simp add: files_inv_def core_new_def)
  moreover have "thread_inv (core_new can_open engine_run_id d n)" "history_inv (core_new can_open engine_run_id d n)"
    by (simp_all add: thread_inv_def history_inv_def core_new_def sys_new_def)
  ultimately show ?thesis using sys_new_inv [of d n] by (simp add: log_inv_def) (simp add: core_new_def)
qed

lemma log_inv_step:
  assumes "log_step depth can_open c c'" "log_inv depth can_open engine_run_id c" "\<forall>path. can_open path" "small (lc_ring c')" "few c'"
  shows "log_inv depth can_open engine_run_id c'"
proof -
  note i = assms(2) [unfolded log_inv_def] and m = small_steps [OF assms(1,4)] few_mono [OF assms(1,5)]
  show ?thesis
    unfolding log_inv_def
    using ring_inv_step [OF assms(1,4)] thread_inv_step [OF assms(1)] history_inv_step [OF assms(1)]
      files_inv_step [OF assms(1) _ _ _ _ assms(3) m(2) assms(5), of engine_run_id] m i by simp
qed

lemma log_reach_inv:
  assumes "log_reach depth can_open engine_run_id d n c" "\<forall>path. can_open path" "small (lc_ring c)" "few c"
  shows "log_inv depth can_open engine_run_id c"
  using assms
proof (induction rule: rtranclp_induct)
  case (step c c')
  then show ?case using log_inv_step small_steps few_mono by metis
qed (rule log_inv_new)

end
