(* ===== verification/Log_Thread.thy ===== *)
theory Log_Thread
  imports Log_Core
begin

text \<open>
  What \<open>LogCore\<close> promises over all interleavings of its threads: the files are complete, the destructor returns, and a
  waiting thread has left nothing behind unless the last burst was cut at its cap; sample runs.
\<close>

section \<open>The log is complete\<close>

text \<open>The text of the file of a session: at any moment what was written, after the end all that was logged.\<close>

lemma log_text:
  assumes c: "log_inv depth can_open engine_run_id c" "dom (lc_names c) = dom (lc_log c)" and u: "\<forall>path. can_open path" "few c" and r: "lc_names c key = Some r"
  obtains i where "sid i = key" "lf_files (lc_sink c) (session_path engine_run_id r) =
     render (added_entry i # filter (\<lambda>e. sid (en_sess_id e) = key) (written c)) @ (if lc_at c = D_Done then newline @ '']'' else [])"
proof -
  have i: "history_inv c" "files_inv depth can_open engine_run_id c" using c(1) by (simp_all add: log_inv_def)
  obtain es where es: "lc_log c key = Some es" using c(2) r by blast
  then obtain i where sess: "sid i = key" "es = added_entry i # filter (\<lambda>e. sid (en_sess_id e) = key) (written c)"
    using i(1) unfolding history_inv_def by blast
  have "lf_files (lc_sink c) (session_path engine_run_id r) = render es @ (if lc_at c = D_Done then newline @ '']'' else [])"
  proof (cases "lc_at c = D_Done")
    case True
    then show ?thesis using files_invD(2) [OF i(2) r _ es] by simp
  next
    case False
    then have k: "sink_inv (lc_sink c) (lc_log c)" by (rule files_inv_sink [OF i(2) u])
    then obtain n where n: "lf_sess_to_file (lc_sink c) key = Some n" using sink_invD(1) es by blast
    have "sn_path n = session_path engine_run_id r" by (rule files_invD(1) [OF i(2) r False n])
    then show ?thesis using sink_invD(2) [OF k n es] False by (simp add: node_ok_def)
  qed
  then show ?thesis using that sess by blast
qed

text \<open>
  C15: The log loses nothing. Take any interleaving of threads that log, of the draining thread, of \<open>add_session\<close> and of the
  destructor, with at most 128 sessions, files that can be opened and fewer than 2^64 tickets, where entries are logged only for
  sessions that were added, and a session is added, each with a file of its own, only while the draining thread is not inside the sink.
  Then no step of the draining thread throws. The file of each session that was added is at each moment the JSON text of the entries that were
  taken from the ring for it, in the order of their tickets; and when the destructor has joined the thread and no
  \<open>try_push\<close> has failed, it is the complete array of all entries that were ever pushed for the session.\<close>

theorem log_complete:
  assumes "log_reach depth can_open engine_run_id d n c" "\<forall>path. can_open path" "small (lc_ring c)" "card (dom (lc_log c)) \<le> MAX_LRU_CACHE_SIZE"
    and "lc_names c key = Some r"
  shows "(\<forall>order spurious. \<not> waiting c \<and> distinct order \<and> set order = dom (lc_log c) \<longrightarrow> drain_step depth can_open order spurious c \<noteq> None) \<and>
    (\<exists>i. sid i = key \<and>
      (lc_at c \<noteq> D_Done \<longrightarrow> lf_files (lc_sink c) (session_path engine_run_id r) =
         render (added_entry i # filter (\<lambda>e. sid (en_sess_id e) = key) (written c))) \<and>
      (lc_at c = D_Done \<and> sy_failed (lc_ring c) = [] \<longrightarrow> lf_files (lc_sink c) (session_path engine_run_id r) =
         render (added_entry i # filter (\<lambda>e. sid (en_sess_id e) = key) (sy_taken (lc_ring c))) @ newline @ '']''))"
proof -
  note dom = log_dom [OF assms(1)]
  then have few: "few c" using assms(4) by (simp add: few_def)
  have inv: "log_inv depth can_open engine_run_id c" by (rule log_reach_inv [OF assms(1-3) few])
  then have i: "sys_inv (lc_ring c)" "thread_inv c" "history_inv c" "files_inv depth can_open engine_run_id c" by (simp_all add: log_inv_def)
  have "drain_step depth can_open order spurious c \<noteq> None" if "\<not> waiting c" "distinct order" "set order = dom (lc_log c)" for order spurious
    using files_inv_drain [OF i(4,3,2,1) assms(2) few that(2,3,1), of spurious] by auto
  moreover obtain s where s: "sid s = key" "lf_files (lc_sink c) (session_path engine_run_id r) =
     render (added_entry s # filter (\<lambda>e. sid (en_sess_id e) = key) (written c)) @ (if lc_at c = D_Done then newline @ '']'' else [])"
    using log_text [OF inv _ assms(2) few assms(5)] dom by blast
  moreover have "written c = sy_taken (lc_ring c)" if "lc_at c = D_Done" "sy_failed (lc_ring c) = []"
  proof -
    have "length (sy_taken (lc_ring c)) \<le> length (sy_popped (lc_ring c))" using i(2) that by (simp add: thread_inv_def)
    then show ?thesis using sys_invD(4) [OF i(1)] that(1) by (simp add: written_def)
  qed
  ultimately show ?thesis by auto
qed

section \<open>The destructor returns\<close>

text \<open>A bound on the steps that are left after the stop was requested.\<close>

fun pop_left :: "'a consumer \<Rightarrow> nat" where
  "pop_left C_Idle = 2"
| "pop_left C_Take = 1"
| "pop_left (C_Release e) = 0"

fun thread_left :: "drain_at \<Rightarrow> nat \<Rightarrow> nat" where
  "thread_left D_Done p = 0"
| "thread_left (D_Rest n) p = 10 * (capacity - n) + 1 + p"
| "thread_left (D_Rest_Write n e) p = 10 * (capacity - n)"
| "thread_left D_Check p = 10 * capacity + 10"
| "thread_left D_Acquire p = 10 * capacity + 10"
| "thread_left (D_Try n) p = 10 * capacity + 11"
| "thread_left (D_Pop n) p = 10 * capacity + 12 + p"
| "thread_left (D_Write n e) p = 10 * capacity + 15"

definition steps_left :: "LogCore \<Rightarrow> nat" where
  "steps_left c = (if lc_released c then 0 else 10 * capacity + 1) + 10 * lc_sem c +
     10 * (length (sy_taken (lc_ring c)) - length (sy_popped (lc_ring c))) + thread_left (lc_at c) (pop_left (sy_consumer (lc_ring c)))"

text \<open>An action of \<open>pop\<close> brings the thread nearer to its end, or takes an entry out of the ring.\<close>

lemma pop_left_less:
  assumes "sys_inv (lc_ring c)"
    and "thread_left none 2 < thread_left (lc_at c) 2" "\<And>e p. thread_left (some e) p < thread_left (lc_at c) 0 + 10"
    and "\<And>p q. p < q \<Longrightarrow> thread_left (lc_at c) p < thread_left (lc_at c) q"
  shows "steps_left (drain_pop none some c) < steps_left c"
proof (cases "sy_consumer (lc_ring c)")
  case C_Idle
  then show ?thesis using assms(2,4) by (simp add: steps_left_def drain_pop_def pop_action_def)
next
  case C_Take
  then show ?thesis using assms(4) by (simp add: steps_left_def drain_pop_def pop_action_def)
next
  case (C_Release e)
  then have "length (sy_popped (lc_ring c)) < length (sy_taken (lc_ring c))" using sys_invD(10) [OF assms(1)] by (simp add: full_cell_def)
  then show ?thesis using C_Release assms(3) [of e 2] by (simp add: steps_left_def drain_pop_def pop_action_def)
qed

lemma drain_left_less:
  assumes c: "lc_stop c" "thread_inv c" "sys_inv (lc_ring c)" "\<not> waiting c" and d: "drain_step depth can_open order spurious c = Some c'"
  shows "steps_left c' < steps_left c"
  using d
proof (cases rule: drain_step_cases)
  case (acquire n)
  then have "pop_left (sy_consumer (lc_ring c)) \<le> 2" by (cases "sy_consumer (lc_ring c)") simp_all
  then show ?thesis using acquire by (auto simp: steps_left_def)
next
  case (pop n)
  then show ?thesis using pop_left_less [OF c(3), of "D_Try n" "D_Write n"] by simp
next
  case (rest n)
  then show ?thesis using pop_left_less [OF c(3), of "D_Rest (n + 1)" "D_Rest_Write n"] by simp
next
  case (wrote n e c1 at)
  then have "n < capacity \<or> lc_at c = D_Write n e" "sy_consumer (lc_ring c) = C_Idle" using c(2) by (auto simp: thread_inv_def)
  then show ?thesis using wrote by (auto simp: steps_left_def drain_write_frame split: if_splits)
qed (use c in \<open>auto simp: steps_left_def thread_inv_def\<close>)

text \<open>After the stop was requested only the destructor and the draining thread take steps.\<close>

lemma log_stopped_step:
  assumes "log_step depth can_open c c'" "lc_stop c" "thread_inv c" "sys_inv (lc_ring c)"
  shows "lc_stop c' \<and> steps_left c' < steps_left c \<and> dom (lc_log c') = dom (lc_log c) \<and> sy_taken (lc_ring c') = sy_taken (lc_ring c)"
  using assms(1)
proof (cases rule: log_step.cases)
  case (ls_drain order spurious)
  then show ?thesis using drain_step_ring [OF ls_drain(4)] drain_left_less [OF assms(2,3,4) ls_drain(1,4)] assms(2) by simp
qed (use assms in \<open>simp_all add: thread_inv_def core_wake_def steps_left_def\<close>)

lemma log_stopped_steps:
  assumes "(log_step depth can_open ^^ k) c c'" "log_inv depth can_open engine_run_id c" "lc_stop c" "\<forall>path. can_open path" "small (lc_ring c)" "few c"
  shows "log_inv depth can_open engine_run_id c' \<and> lc_stop c' \<and> small (lc_ring c') \<and> few c' \<and> steps_left c' + k \<le> steps_left c"
  using assms(1)
proof (induction k arbitrary: c')
  case (Suc k)
  then obtain c1 where c1: "(log_step depth can_open ^^ k) c c1" "log_step depth can_open c1 c'" by auto
  note i = Suc.IH [OF c1(1)]
  have t: "thread_inv c1" "sys_inv (lc_ring c1)" "lc_stop c1" using i by (simp_all add: log_inv_def)
  note s = log_stopped_step [OF c1(2) t(3,1,2)]
  have "small (lc_ring c')" "few c'" using i s by (simp_all add: small_def few_def)
  then show ?case using log_inv_step [OF c1(2) _ assms(4)] i s by simp
qed (use assms in simp)

lemma stuck_done:
  assumes c: "log_inv depth can_open engine_run_id c" "lc_stop c" and u: "\<forall>path. can_open path" "few c"
    and stuck: "\<nexists>c'. log_step depth can_open c c'"
  shows "lc_at c = D_Done \<and> lc_released c"
proof -
  have i: "files_inv depth can_open engine_run_id c" "history_inv c" "thread_inv c" "sys_inv (lc_ring c)" using c(1) by (simp_all add: log_inv_def)
  have "finite (dom (lc_log c))" using u(2) by (simp add: few_def)
  from finite_distinct_list [OF this] obtain order where o: "set order = dom (lc_log c)" "distinct order" by (elim exE conjE)
  have "lc_released c"
  proof (rule ccontr)
    assume "\<not> lc_released c"
    with c(2) have "log_step depth can_open c (core_wake c)" by (rule ls_wake)
    with stuck show False by simp
  qed
  moreover have "waiting c"
  proof (rule ccontr)
    assume w: "\<not> waiting c"
    from files_inv_drain [OF i u o(2,1) w, of False] obtain c' where "drain_step depth can_open order False c = Some c'" by (elim exE conjE)
    with w o(2,1) have "log_step depth can_open c c'" by (rule ls_drain)
    with stuck show False by simp
  qed
  ultimately show ?thesis using i(3) by (auto simp: waiting_def thread_inv_def)
qed

text \<open>
  C33: The destructor of the log returns. Once it has requested the stop, whatever the interleaving, only finitely many steps
  are left, and when none is left the draining thread has reached its end, so that \<open>join\<close> returns. The
  semaphore is part of this: without the release in the destructor the thread could wait for ever.\<close>

theorem log_join_returns:
  assumes "log_reach depth can_open engine_run_id d n c" "\<forall>path. can_open path" "small (lc_ring c)" "card (dom (lc_log c)) \<le> MAX_LRU_CACHE_SIZE"
    and "lc_stop c"
  shows "\<exists>bound. \<forall>k c'. (log_step depth can_open ^^ k) c c' \<longrightarrow>
     k \<le> bound \<and> ((\<nexists>c''. log_step depth can_open c' c'') \<longrightarrow> lc_at c' = D_Done \<and> lc_released c')"
proof -
  have few: "few c" using log_dom [OF assms(1)] assms(4) by (simp add: few_def)
  have inv: "log_inv depth can_open engine_run_id c" by (rule log_reach_inv [OF assms(1-3) few])
  have "k \<le> steps_left c \<and> ((\<nexists>c''. log_step depth can_open c' c'') \<longrightarrow> lc_at c' = D_Done \<and> lc_released c')"
    if k: "(log_step depth can_open ^^ k) c c'" for k c'
  proof -
    have i: "log_inv depth can_open engine_run_id c'" "lc_stop c'" "few c'" "k \<le> steps_left c"
      using log_stopped_steps [OF k inv assms(5,2,3) few] by simp_all
    show ?thesis using stuck_done [OF i(1,2) assms(2) i(3)] i(4) by (intro conjI impI) simp_all
  qed
  then show ?thesis by blast
qed

section \<open>Lost wake-ups\<close>

text \<open>
  Where an entry that is ready needs a permit of the semaphore to be seen: the thread waits or is about to, and its last round did not
  stop at the cap of the burst.
\<close>

fun needs_permit :: "bool \<Rightarrow> drain_at \<Rightarrow> bool" where
  "needs_permit capped D_Check \<longleftrightarrow> \<not> capped"
| "needs_permit capped D_Acquire \<longleftrightarrow> \<not> capped"
| "needs_permit capped (D_Try n) \<longleftrightarrow> n < 1024"
| "needs_permit capped _ \<longleftrightarrow> False"

definition wake_inv :: "LogCore \<Rightarrow> bool" where
  "wake_inv c \<longleftrightarrow> (pop_ready (sy_ring (lc_ring c)) \<and> needs_permit (lc_cut c) (lc_at c) \<longrightarrow> 0 < lc_sem c \<or> lc_owed c \<noteq> {})"

text \<open>Only publishing makes an entry ready.\<close>

lemma epoch_data_update: "epoch (xs[i := (xs ! i)\<lparr>data := d\<rparr>] ! j) = epoch (xs ! j)"
  by (cases "i < length xs") (auto simp: nth_list_update list_update_beyond)

lemma becomes_ready:
  assumes "producer_action p r r'" "pop_ready (sy_ring r')"
  shows "pop_ready (sy_ring r) \<or> (\<exists>t. sy_producers r ! p = P_Publish t)"
proof -
  have s: "sys_step r r'" "sy_consumer r' = sy_consumer r" "sy_producers r' = (sy_producers r)[p := sy_producers r' ! p]" "p < length (sy_producers r)"
    using assms(1) by (simp_all add: producer_action_def)
  from s(1) show ?thesis
  proof (cases rule: sys_step.cases)
    case (call q t r1 b d)
    then show ?thesis using assms(2) by (auto simp: take_ticket_def pop_ready_def cell_epoch_def)
  next
    case (store q t d)
    then show ?thesis using assms(2) by (simp add: epoch_data_update store_data_def pop_ready_def cell_epoch_def)
  next
    case (published q t)
    have "q = p"
    proof (rule ccontr)
      assume "q \<noteq> p"
      then have "sy_producers r' ! q = sy_producers r ! q" using s(3) by (metis nth_list_update_neq)
      then show False using published by simp
    qed
    then show ?thesis using published by blast
  qed (use assms(2) s(2) in auto)
qed

lemma wake_inv_drain:
  assumes c: "wake_inv c" and d: "drain_step depth can_open order spurious c = Some c'"
  shows "wake_inv c'"
  using d
proof (cases rule: drain_step_cases)
  case (pop n)
  then show ?thesis by (cases rule: drain_pop_cases [of "D_Try n" "D_Write n" c]) (simp_all add: wake_inv_def)
next
  case (rest n)
  then show ?thesis by (cases rule: drain_pop_cases [of "D_Rest (n + 1)" "D_Rest_Write n" c]) (simp_all add: wake_inv_def)
next
  case (wrote n e c1 at)
  then show ?thesis by (auto simp: wake_inv_def drain_write_frame split: if_splits)
qed (use c in \<open>auto simp: wake_inv_def\<close>)

lemma wake_inv_step:
  assumes "log_step depth can_open c c'" "wake_inv c"
  shows "wake_inv c'"
  using assms(1)
proof (cases rule: log_step.cases)
  case (ls_push p r')
  then show ?thesis
    using assms(2) becomes_ready [OF ls_push(4)] by (auto simp: wake_inv_def core_push_def split: producer.splits)
next
  case (ls_drain order spurious)
  then show ?thesis using wake_inv_drain assms(2) by blast
qed (use assms(2) in \<open>auto simp: wake_inv_def core_release_def core_add_session_def core_stop_def core_wake_def bind_eq_Some_conv\<close>)

lemma wake_inv_new: "wake_inv (core_new can_open engine_run_id d n)"
proof -
  have "\<not> pop_ready (mpsc_new d)"
    using tail_facts(2) [OF sys_new_inv [of d n]] by (simp add: small_def full_cell_def) (simp add: sys_new_def capacity_def)
  then show ?thesis by (simp add: wake_inv_def core_new_def) (simp add: sys_new_def)
qed

lemma wake_reach: "log_reach depth can_open engine_run_id d n c \<Longrightarrow> wake_inv c"
  by (induction rule: rtranclp_induct) (auto intro: wake_inv_new wake_inv_step)

text \<open>
  C34: No lost wake-up. When the draining thread waits for the semaphore, no thread is in the middle of a push, no \<open>try_push\<close> has failed
  and the last round did not stop at the cap of 1024 entries, then every entry that was ever pushed is in the
  file of its session.\<close>

theorem waiting_log_complete:
  assumes "log_reach depth can_open engine_run_id d n c" "\<forall>path. can_open path" "small (lc_ring c)" "card (dom (lc_log c)) \<le> MAX_LRU_CACHE_SIZE"
    and "lc_at c = D_Acquire" "lc_sem c = 0" "idle (lc_ring c)" "lc_owed c = {}" "sy_failed (lc_ring c) = []" "\<not> lc_cut c"
    and "lc_names c key = Some r"
  shows "\<exists>i. sid i = key \<and> lf_files (lc_sink c) (session_path engine_run_id r) =
     render (added_entry i # filter (\<lambda>e. sid (en_sess_id e) = key) (sy_taken (lc_ring c)))"
proof -
  have few: "few c" and dom: "dom (lc_names c) = dom (lc_log c)" using log_dom [OF assms(1)] assms(4) by (simp_all add: few_def)
  have inv: "log_inv depth can_open engine_run_id c" by (rule log_reach_inv [OF assms(1-3) few])
  then have ring: "sys_inv (lc_ring c)" by (simp add: log_inv_def)
  have "\<not> pop_ready (sy_ring (lc_ring c))" using wake_reach [OF assms(1)] assms(5,6,8,10) by (simp add: wake_inv_def)
  then have w: "written c = sy_taken (lc_ring c)"
    using idle_empty [OF ring assms(3,7,9)] assms(5) by (simp add: written_def)
  obtain i where i: "sid i = key" "lf_files (lc_sink c) (session_path engine_run_id r) =
     render (added_entry i # filter (\<lambda>e. sid (en_sess_id e) = key) (written c)) @ (if lc_at c = D_Done then newline @ '']'' else [])"
    by (rule log_text [OF inv dom assms(2) few assms(11)])
  show ?thesis using i assms(5) unfolding w by (intro exI [of _ i]) simp
qed

section \<open>Runs\<close>

text \<open>
  Runs of a log with one session, \<open>n\<close> threads that log, and a file system in which every file can be opened; \<open>view\<close>
  is what a run is followed by: the entries pushed and popped, where the threads are, and the counter of the semaphore.
\<close>

definition sample_entry :: Entry where
  "sample_entry = session_log \<lparr>storage_index = 0, sid = 0\<rparr> \<lparr>ctx_layer = Layer_Peripheral, ctx_cat = Cat_Info, ctx_sev = Sev_Low\<rparr> ''Session started''"

abbreviation sample_step :: "LogCore \<Rightarrow> LogCore \<Rightarrow> bool" where
  "sample_step \<equiv> log_step 1 (\<lambda>_. True)"

abbreviation sample_reach :: "nat \<Rightarrow> LogCore \<Rightarrow> bool" where
  "sample_reach \<equiv> log_reach 1 (\<lambda>_. True) ''run'' sample_entry"

definition sample :: "nat \<Rightarrow> LogCore \<Rightarrow> bool" where
  "sample n c \<longleftrightarrow> sample_reach n c \<and> small (lc_ring c) \<and> few c \<and> lc_names c = [0 \<mapsto> ''session''] \<and> sy_failed (lc_ring c) = []"

definition view :: "LogCore \<Rightarrow> Entry list \<times> Entry list \<times> Entry producer list \<times> Entry consumer \<times> nat set \<times> nat \<times> drain_at \<times> bool" where
  "view c = (sy_taken (lc_ring c), sy_popped (lc_ring c), sy_producers (lc_ring c), sy_consumer (lc_ring c), lc_owed c, lc_sem c, lc_at c, lc_stop c)"

lemma sample_invs:
  assumes "sample n c"
  shows "log_inv 1 (\<lambda>_. True) ''run'' c" "sys_inv (lc_ring c)" "small (lc_ring c)" "few c" "dom (lc_log c) = {0}" "sy_failed (lc_ring c) = []"
proof -
  show "log_inv 1 (\<lambda>_. True) ''run'' c" using assms log_reach_inv [of 1 "\<lambda>_. True" "''run''" sample_entry n c] by (simp add: sample_def)
  then show "sys_inv (lc_ring c)" by (simp add: log_inv_def)
  show "small (lc_ring c)" "few c" "sy_failed (lc_ring c) = []" using assms by (simp_all add: sample_def)
  show "dom (lc_log c) = {0}" using assms log_dom [of 1 "\<lambda>_. True" "''run''" sample_entry n c] by (simp add: sample_def)
qed

lemma sampleI:
  assumes "sample n c" "sample_step c c'" "small (lc_ring c')" "lc_names c' = lc_names c" "sy_failed (lc_ring c') = sy_failed (lc_ring c)"
  shows "sample n c'"
proof -
  have r: "sample_reach n c'" using assms(1,2) by (auto simp: sample_def intro: rtranclp.rtrancl_into_rtrancl)
  have "dom (lc_log c') = dom (lc_log c)" using log_dom [OF r] log_dom [of 1 "\<lambda>_. True" "''run''" sample_entry n c] assms(1,4) by (simp add: sample_def)
  then show ?thesis using r assms by (simp add: sample_def few_def)
qed

text \<open>One action of a thread that logs.\<close>

lemma sample_push:
  assumes c: "sample n c" and v: "view c = (T, P, ps, co, ow, m, at, False)" and p: "p < length ps" "p \<notin> ow"
    and r: "sys_step (lc_ring c) r" "sy_consumer r = co" "sy_popped r = P" "sy_producers r = ps[p := x]" "sy_taken r = T @ es" "small r" "sy_failed r = sy_failed (lc_ring c)"
    and es: "\<forall>e \<in> set es. sid (en_sess_id e) = 0"
  shows "\<exists>c'. sample n c' \<and> view c' = (T @ es, P, ps[p := x], co, (case ps ! p of P_Publish _ \<Rightarrow> insert p ow | _ \<Rightarrow> ow), m, at, False)"
proof -
  have v': "sy_taken (lc_ring c) = T" "sy_popped (lc_ring c) = P" "sy_producers (lc_ring c) = ps" "sy_consumer (lc_ring c) = co"
    "lc_owed c = ow" "lc_sem c = m" "lc_at c = at" "\<not> lc_stop c" using v by (simp_all add: view_def)
  have "producer_action p (lc_ring c) r" using p(1) r v' by (simp add: producer_action_def)
  moreover have "\<forall>e \<in> set (drop (length (sy_taken (lc_ring c))) (sy_taken r)). sid (en_sess_id e) \<in> dom (lc_log c)"
    using es r(5) v'(1) sample_invs(5) [OF c] by simp
  ultimately have "sample_step c (core_push p r c)" using p(2) v' by (intro ls_push) simp_all
  then have "sample n (core_push p r c)" by (rule sampleI [OF c]) (simp_all add: core_push_def r(6,7))
  then show ?thesis using r v' by (intro exI [of _ "core_push p r c"]) (auto simp: view_def core_push_def split: producer.splits)
qed

lemma sample_take:
  assumes c: "sample n c" and v: "view c = (T, P, ps, co, ow, m, at, False)" and p: "p < length ps" "p \<notin> ow" "ps ! p = P_Idle"
    and e: "sid (en_sess_id e) = 0" and s: "length T + 1 + capacity < 2 ^ 64"
  shows "\<exists>c'. sample n c' \<and> view c' = (T @ [e], P, ps[p := P_Ticket True (of_nat (length T)) e], co, ow, m, at, False)"
proof -
  have h: "mp_head (sy_ring (lc_ring c)) = of_nat (length T)" using sys_invD(2) [OF sample_invs(2) [OF c]] v by (simp add: view_def)
  let ?r = "(lc_ring c)\<lparr>sy_ring := (sy_ring (lc_ring c))\<lparr>mp_head := mp_head (sy_ring (lc_ring c)) + 1\<rparr>,
     sy_producers := ps[p := P_Ticket True (of_nat (length T)) e], sy_taken := T @ [e]\<rparr>"
  have "sys_step (lc_ring c) ?r"
    using call [of p "lc_ring c" "of_nat (length T)" _ e True] v p h by (simp add: view_def take_ticket_def)
  then show ?thesis
    using sample_push [OF c v p(1,2), of ?r "P_Ticket True (of_nat (length T)) e" "[e]"] v p(3) e s by (simp add: view_def small_def)
qed

text \<open>A thread whose ticket is in the window finishes its push.\<close>

lemma ticket_turn:
  assumes s: "sys_inv s" and p: "p < length (sy_producers s)" "sy_producers s ! p = P_Ticket b t d" and near: "unat t < length (sy_popped s) + capacity"
  shows "t = cell_epoch t (sy_ring s)"
proof -
  have h: "held s (unat t)" using held_at [OF p(1)] p(2) by simp
  then have "length (sy_popped s) \<le> unat t" using sys_invD(7) [OF s, of "unat t"] by simp
  then have "epoch (cell_of s (unat t)) = of_nat (unat t)" using sys_invD(5) [OF s _ near] h by (auto simp: full_cell_def)
  then show ?thesis using cell_epoch_cell_of [of t s] unat_64 [of t] by simp
qed

lemma sample_finish:
  assumes c: "sample n c" and v: "view c = (T, P, ps, co, ow, m, at, False)" and p: "p < length ps" "p \<notin> ow" "ps ! p = P_Ticket True t e"
    and near: "unat t < length P + capacity"
  shows "\<exists>c'. sample n c' \<and> view c' = (T, P, ps[p := P_Idle], co, ow, m + 1, at, False)"
proof -
  have sm: "small r" if "sy_taken r = T" for r :: "Entry ring_sys" using sample_invs(3) [OF c] v that by (simp add: view_def small_def)
  have turn: "t = cell_epoch t (sy_ring (lc_ring c))"
    by (rule ticket_turn [OF sample_invs(2) [OF c], of p True t e]) (use v p near in \<open>simp_all add: view_def\<close>)
  obtain c1 where c1: "sample n c1" "view c1 = (T, P, ps[p := P_Store t e], co, ow, m, at, False)"
    using sample_push [OF c v p(1,2) enter [of p "lc_ring c" True t e], of "P_Store t e" "[]"] v p turn sm by (auto simp: view_def)
  obtain c2 where c2: "sample n c2" "view c2 = (T, P, ps[p := P_Publish t], co, ow, m, at, False)"
    using sample_push [OF c1 _ p(2) store [of p "lc_ring c1" t e], of "P_Publish t" "[]"] c1(2) p sm by (auto simp: view_def)
  obtain c3 where c3: "sample n c3" "view c3 = (T, P, ps[p := P_Idle], co, insert p ow, m, at, False)"
    using sample_push [OF c2 _ p(2) published [of p "lc_ring c2" t], of "P_Idle" "[]"] c2(2) p sm by (auto simp: view_def)
  have "sample_step c3 (core_release p c3)" using c3(2) by (intro ls_release) (simp add: view_def)
  then have "sample n (core_release p c3)" by (rule sampleI [OF c3(1)]) (use c3(2) sm in \<open>simp_all add: core_release_def view_def\<close>)
  moreover have "view (core_release p c3) = (T, P, ps[p := P_Idle], co, ow, m + 1, at, False)"
    using c3(2) p(2) by (auto simp: view_def core_release_def)
  ultimately show ?thesis by blast
qed

text \<open>The draining thread goes on.\<close>

lemma sample_drain:
  assumes c: "sample n c" and w: "\<not> waiting c"
  obtains order c' where "drain_step 1 (\<lambda>_. True) order False c = Some c'" "sample n c'"
proof -
  note i = sample_invs [OF c]
  have o: "distinct [0 :: nat]" "set [0] = dom (lc_log c)" using i(5) by simp_all
  obtain c' where c': "drain_step 1 (\<lambda>_. True) [0] False c = Some c'"
    using files_inv_drain [of 1 "\<lambda>_. True" "''run''" c, OF _ _ _ i(2) _ i(4) o w, of False] i(1) by (auto simp: log_inv_def)
  note r = drain_step_ring [OF c']
  have "sample_step c c'" by (rule ls_drain [OF w o c'])
  then have "sample n c'" using r(2,4,8) i(3) by (intro sampleI [OF c]) (simp_all add: small_def)
  then show ?thesis using c' that by blast
qed

lemma sample_acquire:
  assumes c: "sample n c" and v: "view c = (T, P, ps, co, ow, Suc m, at, st)" and at: "at = D_Acquire \<and> k = 0 \<or> at = D_Try k"
  shows "\<exists>c'. sample n c' \<and> view c' = (T, P, ps, co, ow, m, D_Pop k, st)"
proof -
  have "\<not> waiting c" using v at by (auto simp: waiting_def view_def)
  then obtain order c' where "drain_step 1 (\<lambda>_. True) order False c = Some c'" "sample n c'" by (rule sample_drain [OF c])
  then show ?thesis using v at by (intro exI [of _ c']) (auto simp: drain_step_def view_def)
qed

text \<open>After the loop of \<open>try_acquire\<close> the thread comes back to \<open>acquire\<close>.\<close>

lemma sample_wait:
  assumes c: "sample n c" and v: "view c = (T, P, ps, co, ow, 0, D_Try k, False)"
  shows "\<exists>c'. sample n c' \<and> view c' = (T, P, ps, co, ow, 0, D_Acquire, False) \<and> lc_cut c' = (k \<ge> 1024)"
proof -
  have "\<not> waiting c" using v by (auto simp: waiting_def view_def)
  then obtain order c1 where c1: "drain_step 1 (\<lambda>_. True) order False c = Some c1" "sample n c1" by (rule sample_drain [OF c])
  have v1: "view c1 = (T, P, ps, co, ow, 0, D_Check, False)" "lc_cut c1 = (k \<ge> 1024)" using c1(1) v by (auto simp: drain_step_def view_def)
  then have "\<not> waiting c1" by (auto simp: waiting_def view_def)
  then obtain order c2 where c2: "drain_step 1 (\<lambda>_. True) order False c1 = Some c2" "sample n c2" by (rule sample_drain [OF c1(2)])
  then show ?thesis using v1 by (intro exI [of _ c2]) (auto simp: drain_step_def view_def)
qed

text \<open>An attempt to pop finds nothing: the ring is empty, or the thread with the next ticket has not published.\<close>

lemma sample_empty:
  assumes c: "sample n c" and v: "view c = (T, P, ps, C_Idle, ow, m, D_Pop k, st)"
    and e: "length P = length T \<or> Some (length P) \<in> holds ` set ps"
  shows "\<exists>c'. sample n c' \<and> view c' = (T, P, ps, C_Idle, ow, m, D_Try k, st)"
proof -
  have "\<not> full_cell (lc_ring c) (length P)" using v e by (auto simp: full_cell_def held_def view_def)
  then have nr: "\<not> pop_ready (sy_ring (lc_ring c))" using tail_facts(2) [OF sample_invs(2,3) [OF c]] v by (simp add: view_def)
  have "\<not> waiting c" using v by (auto simp: waiting_def view_def)
  then obtain order c' where "drain_step 1 (\<lambda>_. True) order False c = Some c'" "sample n c'" by (rule sample_drain [OF c])
  then show ?thesis using v nr by (intro exI [of _ c']) (auto simp: drain_step_def drain_pop_def pop_action_def view_def)
qed

text \<open>A ready entry is popped and written.\<close>

lemma sample_pop:
  assumes c: "sample n c" and v: "view c = (T, P, ps, C_Idle, ow, m, D_Pop k, st)"
    and r: "pop_ready (sy_ring (lc_ring c))"
  shows "\<exists>c'. sample n c' \<and> view c' = (T, P @ [T ! length P], ps, C_Idle, ow, m, if k + 1 \<ge> 1024 then D_Try (k + 1) else D_Pop (k + 1), st)"
proof -
  note i = sample_invs [OF c]
  have pv: "lc_at c = D_Pop k" "sy_consumer (lc_ring c) = C_Idle" "sy_popped (lc_ring c) = P" "sy_taken (lc_ring c) = T" using v by (simp_all add: view_def)
  have d: "pop_data (sy_ring (lc_ring c)) = T ! length P"
    using tail_facts(2,3) [OF i(2,3)] r pv by (simp add: full_cell_def)
  have "\<not> waiting c" using pv by (simp add: waiting_def)
  then obtain order c1 where c1: "drain_step 1 (\<lambda>_. True) order False c = Some c1" "sample n c1" by (rule sample_drain [OF c])
  have e1: "c1 = c\<lparr>lc_ring := (lc_ring c)\<lparr>sy_consumer := C_Take\<rparr>\<rparr>" using c1(1) pv r by (simp add: drain_step_def drain_pop_def pop_action_def)
  have "\<not> waiting c1" using pv by (simp add: waiting_def e1)
  then obtain order c2 where c2: "drain_step 1 (\<lambda>_. True) order False c1 = Some c2" "sample n c2" by (rule sample_drain [OF c1(2)])
  have e2: "c2 = c\<lparr>lc_ring := (lc_ring c)\<lparr>sy_consumer := C_Release (T ! length P)\<rparr>\<rparr>"
    using c2(1) pv d by (simp add: e1 drain_step_def drain_pop_def pop_action_def)
  have "\<not> waiting c2" using pv by (simp add: waiting_def e2)
  then obtain order c3 where c3: "drain_step 1 (\<lambda>_. True) order False c2 = Some c3" "sample n c3" by (rule sample_drain [OF c2(2)])
  have v3: "view c3 = (T, P @ [T ! length P], ps, C_Idle, ow, m, D_Write k (T ! length P), st)"
    using c3(1) v by (simp add: e2 drain_step_def drain_pop_def pop_action_def view_def) (auto simp: view_def)
  then have "\<not> waiting c3" by (simp add: waiting_def view_def)
  then obtain order c4 where c4: "drain_step 1 (\<lambda>_. True) order False c3 = Some c4" "sample n c4" by (rule sample_drain [OF c3(2)])
  have "view c4 = (T, P @ [T ! length P], ps, C_Idle, ow, m, if k + 1 \<ge> 1024 then D_Try (k + 1) else D_Pop (k + 1), st)"
    using c4(1) v3 by (auto simp: drain_step_def bind_eq_Some_conv view_def drain_write_frame)
  with c4(2) show ?thesis by blast
qed

text \<open>The start: the session is added while the thread waits.\<close>

lemma sample_start: "\<exists>c. sample n c \<and> view c = ([], [], replicate n P_Idle, C_Idle, {}, 0, D_Acquire, False)"
proof -
  let ?c = "core_new (\<lambda>_. True) ''run'' sample_entry n" and ?i = "\<lparr>storage_index = 0, sid = 0\<rparr>"
  have f: "lc_sink ?c = sink_new (\<lambda>_. True) ''run''" "lc_log ?c = Map.empty" "lc_at ?c = D_Check" "\<not> lc_stop ?c" by (simp_all add: core_new_def)
  have k: "lf_sess_to_file (sink_new (\<lambda>_. True) ''run'') = Map.empty" "lf_open_files (sink_new (\<lambda>_. True) ''run'') = 0"
    by (simp_all add: sink_new_def)
  then obtain k where "sink_add_session 1 (\<lambda>_. True) ?i ''session'' (lc_sink ?c) = Some k"
    using add_opens [of "lc_sink ?c" ?i _ "''session''" "\<lambda>_. True" 1] f(1) by (simp add: MAX_LRU_CACHE_SIZE_def)
  then obtain c1 where a: "core_add_session 1 (\<lambda>_. True) ?i ''session'' ?c = Some c1" by (simp add: core_add_session_def)
  have "sample_step ?c c1" by (rule ls_add [OF _ _ _ _ a]) (simp_all add: f k)
  moreover have v1: "lc_ring c1 = sys_new sample_entry n" "lc_names c1 = [0 \<mapsto> ''session'']" "dom (lc_log c1) = {0}"
    "lc_owed c1 = {}" "lc_sem c1 = 0" "lc_at c1 = D_Check" "\<not> lc_stop c1"
    using a by (auto simp: core_add_session_def bind_eq_Some_conv core_new_def split: if_splits)
  ultimately have s1: "sample n c1"
    by (simp add: sample_def few_def small_def MAX_LRU_CACHE_SIZE_def r_into_rtranclp) (simp add: sys_new_def capacity_def)
  have "\<not> waiting c1" using v1 by (simp add: waiting_def)
  then obtain order c2 where c2: "drain_step 1 (\<lambda>_. True) order False c1 = Some c2" "sample n c2" by (rule sample_drain [OF s1])
  then show ?thesis using v1 by (intro exI [of _ c2]) (simp add: drain_step_def view_def, auto simp: sys_new_def view_def)
qed

lemma sample_ready:
  assumes "sample n c" "view c = (T, P, ps, co, ow, m, at, st)" "length P < length T" "Some (length P) \<notin> holds ` set ps"
  shows "pop_ready (sy_ring (lc_ring c))"
  using assms sys_invD(12) [OF sample_invs(2) [OF assms(1)], of "length P"] tail_facts(2) [OF sample_invs(2,3) [OF assms(1)]] sample_invs(6) [OF assms(1)]
  by (simp add: view_def held_def)

text \<open>Repeated: a thread logs the same entry \<open>j\<close> times; the thread empties the ring; permits without entries are used up.\<close>

lemma sample_pushes:
  assumes "sample n c" "view c = (T, P, ps, co, ow, m, at, False)" "p < length ps" "p \<notin> ow" "ps ! p = P_Idle" "sid (en_sess_id e) = 0"
    and "length T + j \<le> length P + capacity" "length T + j + capacity < 2 ^ 64"
  shows "\<exists>c'. sample n c' \<and> view c' = (T @ replicate j e, P, ps, co, ow, m + j, at, False)"
  using assms(7,8)
proof (induction j)
  case 0
  then show ?case using assms(1,2) by (intro exI [of _ c]) simp
next
  case (Suc j)
  then obtain c1 where c1: "sample n c1" "view c1 = (T @ replicate j e, P, ps, co, ow, m + j, at, False)" by auto
  let ?t = "of_nat (length T + j) :: 64 word"
  obtain c2 where c2: "sample n c2" "view c2 = (T @ replicate (Suc j) e, P, ps[p := P_Ticket True ?t e], co, ow, m + j, at, False)"
    using sample_take [OF c1 assms(3-6)] Suc.prems(2) by (auto simp: replicate_append_same)
  have "unat ?t < length P + capacity"
    using Suc.prems by (simp add: unsigned_of_nat take_bit_nat_eq_self del: of_nat_add)
  then obtain c3 where "sample n c3" "view c3 = (T @ replicate (Suc j) e, P, ps[p := P_Ticket True ?t e, p := P_Idle], co, ow, m + j + 1, at, False)"
    using sample_finish [OF c2, of p ?t e] assms(3,4) by auto
  then show ?case using list_update_id [of ps p] assms(5) by (intro exI [of _ c3]) simp
qed

lemma sample_burst:
  assumes "sample n c" "view c = (T, P, ps, C_Idle, ow, m, D_Pop 0, st)" "length P + j \<le> length T" "j \<le> 1024" "0 < j" "\<forall>x \<in> set ps. x = P_Idle"
  shows "\<exists>c'. sample n c' \<and> view c' = (T, P @ take j (drop (length P) T), ps, C_Idle, ow, m, if j = 1024 then D_Try j else D_Pop j, st)"
  using assms(3-5)
proof (induction j)
  case (Suc j)
  obtain c1 where c1: "sample n c1" "view c1 = (T, P @ take j (drop (length P) T), ps, C_Idle, ow, m, D_Pop j, st)"
    using Suc assms(1,2) by (cases "j = 0") auto
  have len: "length (P @ take j (drop (length P) T)) = length P + j" using Suc.prems by simp
  have "pop_ready (sy_ring (lc_ring c1))" by (rule sample_ready [OF c1]) (use len Suc.prems assms(6) in auto)
  then obtain c2 where "sample n c2" "view c2 = (T, (P @ take j (drop (length P) T)) @ [T ! (length P + j)], ps, C_Idle, ow, m,
      if j + 1 \<ge> 1024 then D_Try (j + 1) else D_Pop (j + 1), st)"
    using sample_pop [OF c1] len by auto
  moreover have "(P @ take j (drop (length P) T)) @ [T ! (length P + j)] = P @ take (Suc j) (drop (length P) T)"
    using Suc.prems by (simp add: take_Suc_conv_app_nth)
  ultimately show ?case using Suc.prems by (intro exI [of _ c2]) auto
qed simp

lemma sample_permits:
  assumes "sample n c" "view c = (T, P, ps, C_Idle, ow, m, D_Try k, st)" "length P = length T \<or> Some (length P) \<in> holds ` set ps"
  shows "\<exists>c'. sample n c' \<and> view c' = (T, P, ps, C_Idle, ow, 0, D_Try k, st)"
  using assms(1,2)
proof (induction m arbitrary: c)
  case 0
  then show ?case by blast
next
  case (Suc m)
  obtain c1 where c1: "sample n c1" "view c1 = (T, P, ps, C_Idle, ow, m, D_Pop k, st)" using sample_acquire [OF Suc.prems] by blast
  obtain c2 where "sample n c2" "view c2 = (T, P, ps, C_Idle, ow, m, D_Try k, st)" using sample_empty [OF c1 assms(3)] by blast
  then show ?case by (rule Suc.IH)
qed

section \<open>The cap of the burst\<close>

text \<open>
  C35: The cap of 1024 entries per round can lose a wake-up. There is a run after which the thread waits, no thread is inside the log,
  no push has failed, and still an entry lies in the ring: nothing will write it before the next push or the
  end. In this run the thread has used up its permits while the thread with the next ticket had not published; when it
  comes back to the ring, its round is past the cap and it takes one entry only.\<close>

theorem burst_cap_loses_wakeup:
  "\<exists>c. log_reach 1 (\<lambda>_. True) ''run'' sample_entry 2 c \<and> lc_at c = D_Acquire \<and> lc_sem c = 0 \<and> \<not> lc_stop c \<and>
     idle (lc_ring c) \<and> lc_owed c = {} \<and> sy_failed (lc_ring c) = [] \<and> length (sy_popped (lc_ring c)) < length (sy_taken (lc_ring c))"
proof -
  let ?e = sample_entry and ?ps = "[P_Idle, P_Idle] :: Entry producer list"
  let ?R = "replicate 1024 ?e" and ?w = "P_Ticket True 1024 ?e"
  have sid: "sid (en_sess_id ?e) = 0" by (simp add: sample_entry_def session_log_def)
  obtain c0 where "sample 2 c0" "view c0 = ([], [], ?ps, C_Idle, {}, 0, D_Acquire, False)"
    using sample_start [of 2] by (auto simp: numeral_2_eq_2)
  then obtain c1 where "sample 2 c1" "view c1 = (?R, [], ?ps, C_Idle, {}, Suc 1023, D_Acquire, False)"
    using sample_pushes [of 2 c0 _ _ _ _ _ _ _ 0 ?e 1024] sid by (auto simp: capacity_def)
  then obtain c2 where "sample 2 c2" "view c2 = (?R, [], ?ps, C_Idle, {}, 1023, D_Pop 0, False)" using sample_acquire [of 2 c1] by blast
  then obtain c3 where "sample 2 c3" "view c3 = (?R, ?R, ?ps, C_Idle, {}, 1023, D_Try 1024, False)"
    using sample_burst [of 2 c2 _ _ _ _ _ _ 1024] by auto
  then obtain c4 where "sample 2 c4" "view c4 = (?R, ?R, ?ps, C_Idle, {}, 0, D_Try 1024, False)" using sample_permits [of 2 c3] by blast
  then obtain c5 where "sample 2 c5" "view c5 = (?R @ [?e], ?R, [?w, P_Idle], C_Idle, {}, 0, D_Try 1024, False)"
    using sample_take [of 2 c4 _ _ _ _ _ _ _ 0 ?e] sid by (auto simp: capacity_def)
  then obtain c6 where "sample 2 c6" "view c6 = (?R @ [?e] @ [?e], ?R, [?w, P_Idle], C_Idle, {}, 1, D_Try 1024, False)"
    using sample_pushes [of 2 c5 _ _ _ _ _ _ _ 1 ?e 1] sid by (auto simp: capacity_def)
  then obtain c7 where "sample 2 c7" "view c7 = (?R @ [?e] @ [?e], ?R, [?w, P_Idle], C_Idle, {}, 0, D_Try 1024, False)"
    using sample_permits [of 2 c6] by auto
  then obtain c8 where "sample 2 c8" "view c8 = (?R @ [?e] @ [?e], ?R, ?ps, C_Idle, {}, Suc 0, D_Try 1024, False)"
    using sample_finish [of 2 c7 _ _ _ _ _ _ _ 0 1024 ?e] by (auto simp: capacity_def)
  then obtain c9 where c9: "sample 2 c9" "view c9 = (?R @ [?e] @ [?e], ?R, ?ps, C_Idle, {}, 0, D_Pop 1024, False)"
    using sample_acquire [of 2 c8] by blast
  have "pop_ready (sy_ring (lc_ring c9))" by (rule sample_ready [OF c9]) auto
  then obtain c10 where "sample 2 c10" "view c10 = (?R @ [?e] @ [?e], ?R @ [?e], ?ps, C_Idle, {}, 0, D_Try 1025, False)"
    using sample_pop [OF c9] by (auto simp: nth_append)
  then obtain c where c: "sample 2 c" "view c = (?R @ [?e] @ [?e], ?R @ [?e], ?ps, C_Idle, {}, 0, D_Acquire, False)"
    using sample_wait [of 2 c10] by blast
  show ?thesis using c by (intro exI [of _ c]) (auto simp: sample_def view_def idle_def)
qed

section \<open>Witnesses\<close>

text \<open>The destructor of a log whose thread waits.\<close>

lemma sample_stop:
  assumes "sample n c" "view c = (T, P, ps, co, {}, m, at, False)" "\<forall>x \<in> set ps. x = P_Idle"
  shows "\<exists>c'. sample n c' \<and> view c' = (T, P, ps, co, {}, m, at, True)"
proof -
  have "sample_step c (core_stop c)" using assms(2,3) by (intro ls_stop) (simp_all add: view_def idle_def)
  then have "sample n (core_stop c)" by (rule sampleI [OF assms(1)]) (use assms(1) in \<open>simp_all add: core_stop_def sample_def\<close>)
  then show ?thesis using assms(2) by (intro exI [of _ "core_stop c"]) (simp add: view_def core_stop_def)
qed

lemma sample_done:
  assumes "sample n c" "lc_stop c"
  shows "\<exists>c'. sample n c' \<and> lc_at c' = D_Done \<and> sy_taken (lc_ring c') = sy_taken (lc_ring c)"
  using assms
proof (induction "steps_left c" arbitrary: c rule: less_induct)
  case less
  note i = sample_invs [OF less.prems(1)]
  have t: "thread_inv c" using i(1) by (simp add: log_inv_def)
  show ?case
  proof (cases "lc_at c = D_Done")
    case False
    then obtain c' where s: "sample_step c c'"
      using stuck_done [OF i(1) less.prems(2) _ i(4)] by blast
    note st = log_stopped_step [OF s less.prems(2) t i(2)]
    have "sample n c'"
    proof (rule sampleI [OF less.prems(1) s])
      show "small (lc_ring c')" using st i(3) by (simp add: small_def)
      show "lc_names c' = lc_names c" "sy_failed (lc_ring c') = sy_failed (lc_ring c)"
        using s less.prems(2) t by (cases rule: log_step.cases; auto simp: core_wake_def thread_inv_def drain_step_ring)+
    qed
    then show ?thesis using less.hyps [of c'] st by auto
  qed (use less.prems in blast)
qed

text \<open>A log to which a session has logged one entry, before and after its destructor.\<close>

lemma sample_log:
  obtains c c' where "sample 1 c" "sy_taken (lc_ring c) = [sample_entry]" "lc_stop c"
    "sample 1 c'" "sy_taken (lc_ring c') = [sample_entry]" "lc_at c' = D_Done"
proof -
  have sid: "sid (en_sess_id sample_entry) = 0" by (simp add: sample_entry_def session_log_def)
  obtain c0 where "sample 1 c0" "view c0 = ([], [], [P_Idle], C_Idle, {}, 0, D_Acquire, False)" using sample_start [of 1] by auto
  then obtain c1 where "sample 1 c1" "view c1 = ([sample_entry], [], [P_Idle], C_Idle, {}, 1, D_Acquire, False)"
    using sample_pushes [of 1 c0 _ _ _ _ _ _ _ 0 sample_entry 1] sid by (auto simp: capacity_def)
  then obtain c where c: "sample 1 c" "view c = ([sample_entry], [], [P_Idle], C_Idle, {}, 1, D_Acquire, True)"
    using sample_stop [of 1 c1] by auto
  then have s: "sy_taken (lc_ring c) = [sample_entry]" "lc_stop c" by (simp_all add: view_def)
  obtain c' where "sample 1 c'" "lc_at c' = D_Done" "sy_taken (lc_ring c') = sy_taken (lc_ring c)" using sample_done [OF c(1) s(2)] by blast
  then show ?thesis using that c(1) s by simp
qed

lemma sample_card: "sample n c \<Longrightarrow> card (dom (lc_log c)) \<le> MAX_LRU_CACHE_SIZE \<and> (\<forall>path :: string. True) \<and> lc_names c 0 = Some ''session'' \<and> sy_failed (lc_ring c) = []"
  by (simp add: sample_def few_def)

theorem log_complete_witness:
  "\<exists>c i. log_reach 1 (\<lambda>_. True) ''run'' sample_entry 1 c \<and> lc_at c = D_Done \<and>
     lf_files (lc_sink c) (session_path ''run'' ''session'') = render [added_entry i, sample_entry] @ newline @ '']''"
proof -
  obtain c where c: "sample 1 c" "sy_taken (lc_ring c) = [sample_entry]" "lc_at c = D_Done" using sample_log by metis
  note h = sample_card [OF c(1)]
  have r: "sample_reach 1 c" "small (lc_ring c)" using c(1) by (simp_all add: sample_def)
  have sid: "sid (en_sess_id sample_entry) = 0" by (simp add: sample_entry_def session_log_def)
  from log_complete [OF r(1) _ r(2), of 0 "''session''"] h obtain i where
    "lf_files (lc_sink c) (session_path ''run'' ''session'') =
       render (added_entry i # filter (\<lambda>e. sid (en_sess_id e) = 0) (sy_taken (lc_ring c))) @ newline @ '']''"
    using c(3) by auto
  then show ?thesis using c sid r(1) by auto
qed

theorem log_join_returns_witness:
  "\<exists>c bound. log_reach 1 (\<lambda>_. True) ''run'' sample_entry 1 c \<and> sy_taken (lc_ring c) = [sample_entry] \<and>
     (\<forall>k c'. (log_step 1 (\<lambda>_. True) ^^ k) c c' \<longrightarrow> k \<le> bound \<and> ((\<nexists>c''. log_step 1 (\<lambda>_. True) c' c'') \<longrightarrow> lc_at c' = D_Done))"
proof -
  obtain c where c: "sample 1 c" "sy_taken (lc_ring c) = [sample_entry]" "lc_stop c" using sample_log by metis
  note h = sample_card [OF c(1)]
  have r: "sample_reach 1 c" "small (lc_ring c)" using c(1) by (simp_all add: sample_def)
  from log_join_returns [OF r(1) _ r(2) _ c(3)] h obtain bound where
    "\<forall>k c'. (log_step 1 (\<lambda>_. True) ^^ k) c c' \<longrightarrow> k \<le> bound \<and> ((\<nexists>c''. log_step 1 (\<lambda>_. True) c' c'') \<longrightarrow> lc_at c' = D_Done \<and> lc_released c')"
    by auto
  then show ?thesis using c(2) r(1) by blast
qed

theorem waiting_log_complete_witness:
  "\<exists>c i. log_reach 1 (\<lambda>_. True) ''run'' sample_entry 1 c \<and> lc_at c = D_Acquire \<and> lc_sem c = 0 \<and>
     lf_files (lc_sink c) (session_path ''run'' ''session'') = render [added_entry i, sample_entry]"
proof -
  have sid: "sid (en_sess_id sample_entry) = 0" by (simp add: sample_entry_def session_log_def)
  obtain c0 where "sample 1 c0" "view c0 = ([], [], [P_Idle], C_Idle, {}, 0, D_Acquire, False)" using sample_start [of 1] by auto
  then obtain c1 where "sample 1 c1" "view c1 = ([sample_entry], [], [P_Idle], C_Idle, {}, Suc 0, D_Acquire, False)"
    using sample_pushes [of 1 c0 _ _ _ _ _ _ _ 0 sample_entry 1] sid by (auto simp: capacity_def)
  then obtain c2 where "sample 1 c2" "view c2 = ([sample_entry], [], [P_Idle], C_Idle, {}, 0, D_Pop 0, False)" using sample_acquire [of 1 c1] by blast
  then obtain c3 where c3: "sample 1 c3" "view c3 = ([sample_entry], [sample_entry], [P_Idle], C_Idle, {}, 0, D_Pop 1, False)"
    using sample_burst [of 1 c2 _ _ _ _ _ _ 1] by auto
  then obtain c4 where "sample 1 c4" "view c4 = ([sample_entry], [sample_entry], [P_Idle], C_Idle, {}, 0, D_Try 1, False)"
    using sample_empty [OF c3] by auto
  then obtain c where c: "sample 1 c" "view c = ([sample_entry], [sample_entry], [P_Idle], C_Idle, {}, 0, D_Acquire, False)" "\<not> lc_cut c"
    using sample_wait [of 1 c4] by auto
  note h = sample_card [OF c(1)]
  have r: "sample_reach 1 c" "small (lc_ring c)" using c(1) by (simp_all add: sample_def)
  have q: "lc_at c = D_Acquire" "lc_sem c = 0" "idle (lc_ring c)" "lc_owed c = {}" "sy_taken (lc_ring c) = [sample_entry]"
    using c(2) by (simp_all add: view_def idle_def)
  from waiting_log_complete [OF r(1) _ r(2) _ q(1-4) _ c(3), of 0 "''session''"] h obtain i where
    "lf_files (lc_sink c) (session_path ''run'' ''session'') = render (added_entry i # filter (\<lambda>e. sid (en_sess_id e) = 0) [sample_entry])"
    using q(5) by auto
  then show ?thesis using r(1) q sid by (intro exI [of _ c] exI [of _ i]) simp
qed

end
