(* ===== verification/Connector.thy ===== *)
theory Connector
  imports Complex_Main Network_Error Charconv
begin

text \<open>
  \<open>Fix::AsioConnectionFactory\<close> (src/AsioConnectionFactory.cpp): the operations that resolve and connect, and that
  listen and accept, with their retries. Each asynchronous wait of the code is a phase, and
  each completion handler a function of the operation; the calls of the handler given by the caller are
  recorded in the order they are made. What the resolver, the sockets, the timers and the random
  generator answer are arguments. The jitter is computed in exact rationals where the code uses
  \<open>double\<close>. \<open>connect_timeout\<close> is a member no code reads.
\<close>

text \<open>A call of the handler: the error code and whether a connection is passed.\<close>

type_synonym handler_call = "error_code \<times> bool"

section \<open>Resolve and connect\<close>

datatype ConnectPhase = Resolving | Connecting | Connect_Backoff nat | Connect_Done

record ResolveConnectOP =
  rc_host :: string
  rc_service :: string
  rc_attempt :: nat
  rc_phase :: ConnectPhase
  rc_cb :: "handler_call list"

definition connect_max_attempts :: nat where
  "connect_max_attempts = 8"

definition base_delay :: nat where
  "base_delay = 200"

definition max_delay :: nat where
  "max_delay = 3000"

text \<open>The delay before jitter; \<open>1u << min(attempt, 12)\<close> fits 32 bits.\<close>

definition raw_delay :: "nat \<Rightarrow> nat" where
  "raw_delay attempt = (let raw = base_delay * 2 ^ min attempt 12 in if raw > max_delay then max_delay else raw)"

text \<open>\<open>u\<close> is the value of the uniform distribution over [0, 1).\<close>

definition connect_backoff :: "rat \<Rightarrow> ResolveConnectOP \<Rightarrow> nat" where
  "connect_backoff u op = nat \<lfloor>of_nat (raw_delay (rc_attempt op)) * (1 / 2 + 1 / 2 * u)\<rfloor>"

definition connect_call :: "handler_call \<Rightarrow> ResolveConnectOP \<Rightarrow> ResolveConnectOP" where
  "connect_call c op = op\<lparr>rc_cb := rc_cb op @ [c], rc_phase := Connect_Done\<rparr>"

definition connect_schedule_retry :: "rat \<Rightarrow> ResolveConnectOP \<Rightarrow> ResolveConnectOP" where
  "connect_schedule_retry u op =
     (let op1 = op\<lparr>rc_attempt := rc_attempt op + 1\<rparr> in
      if rc_attempt op1 > connect_max_attempts then connect_call (Some timed_out, False) op1
      else op1\<lparr>rc_phase := Connect_Backoff (connect_backoff u op1)\<rparr>)"

definition do_resolve :: "ResolveConnectOP \<Rightarrow> ResolveConnectOP" where
  "do_resolve op = op\<lparr>rc_phase := Resolving\<rparr>"

text \<open>The handler of \<open>async_resolve\<close>; \<open>results\<close> is the number of endpoints found.\<close>

definition on_resolve :: "rat \<Rightarrow> error_code \<Rightarrow> nat \<Rightarrow> ResolveConnectOP \<Rightarrow> ResolveConnectOP" where
  "on_resolve u ec results op =
     (case ec of
        Some e \<Rightarrow> if e = host_not_found_try_again then connect_schedule_retry u op else connect_call (Some e, False) op
      | None \<Rightarrow> if results = 0 then connect_call (Some host_not_found, False) op else op\<lparr>rc_phase := Connecting\<rparr>)"

text \<open>The handler of \<open>async_connect\<close>; a new socket is made before a retry.\<close>

definition on_connect :: "rat \<Rightarrow> error_code \<Rightarrow> ResolveConnectOP \<Rightarrow> ResolveConnectOP" where
  "on_connect u ec op =
     (case ec of
        Some e \<Rightarrow> if classify_connect_error e = Transient then connect_schedule_retry u op else connect_call (Some e, False) op
      | None \<Rightarrow> connect_call (None, True) op)"

text \<open>The handler of the timer; a cancelled timer ends the operation without a call.\<close>

definition on_connect_backoff :: "error_code \<Rightarrow> ResolveConnectOP \<Rightarrow> ResolveConnectOP" where
  "on_connect_backoff ec op = (if ec = None then do_resolve op else op)"

definition async_connect :: "string \<Rightarrow> nat \<Rightarrow> ResolveConnectOP" where
  "async_connect ip port =
     do_resolve \<lparr>rc_host = ip, rc_service = to_chars port, rc_attempt = 0, rc_phase = Resolving, rc_cb = []\<rparr>"

section \<open>Listen and accept\<close>

datatype ListenPhase = Listen_Idle | Accepting | Listen_Backoff nat | Listen_Done

record ListenOP =
  lo_backlog :: int
  lo_attempt :: nat
  lo_phase :: ListenPhase
  lo_cb :: "handler_call list"

definition listen_max_attempts :: nat where
  "listen_max_attempts = 6"

definition listen_backoff :: "ListenOP \<Rightarrow> nat" where
  "listen_backoff op = raw_delay (lo_attempt op)"

definition is_transient_open :: "asio_error \<Rightarrow> bool" where
  "is_transient_open e \<longleftrightarrow> e = too_many_files_open \<or> e = too_many_files_open_in_system"

definition is_transient_bind :: "asio_error \<Rightarrow> bool" where
  "is_transient_bind e \<longleftrightarrow> e = address_in_use"

definition is_transient_listen :: "asio_error \<Rightarrow> bool" where
  "is_transient_listen e \<longleftrightarrow> e = no_buffer_space"

definition listen_call :: "handler_call \<Rightarrow> ListenOP \<Rightarrow> ListenOP" where
  "listen_call c op = op\<lparr>lo_cb := lo_cb op @ [c], lo_phase := Listen_Done\<rparr>"

definition listen_schedule_retry :: "asio_error \<Rightarrow> ListenOP \<Rightarrow> ListenOP" where
  "listen_schedule_retry e op =
     (let op1 = op\<lparr>lo_attempt := lo_attempt op + 1\<rparr> in
      if lo_attempt op1 > listen_max_attempts then listen_call (Some e, False) op1
      else op1\<lparr>lo_phase := Listen_Backoff (listen_backoff op1)\<rparr>)"

definition do_accept :: "ListenOP \<Rightarrow> ListenOP" where
  "do_accept op = op\<lparr>lo_phase := Accepting\<rparr>"

text \<open>What \<open>open\<close>, \<open>set_option\<close>, \<open>bind\<close> and \<open>listen\<close> return.\<close>

record socket_answers =
  ans_open :: error_code
  ans_option :: error_code
  ans_bind :: error_code
  ans_listen :: error_code

definition try_listen :: "socket_answers \<Rightarrow> ListenOP \<Rightarrow> ListenOP" where
  "try_listen a op =
     (case ans_open a of
        Some e \<Rightarrow> if is_transient_open e then listen_schedule_retry e op else listen_call (Some e, False) op
      | None \<Rightarrow>
     (case ans_option a of
        Some e \<Rightarrow> listen_call (Some e, False) op
      | None \<Rightarrow>
     (case ans_bind a of
        Some e \<Rightarrow> if is_transient_bind e then listen_schedule_retry e op else listen_call (Some e, False) op
      | None \<Rightarrow>
     (case ans_listen a of
        Some e \<Rightarrow> if is_transient_listen e then listen_schedule_retry e op else listen_call (Some e, False) op
      | None \<Rightarrow> do_accept op))))"

definition on_accept :: "error_code \<Rightarrow> ListenOP \<Rightarrow> ListenOP" where
  "on_accept ec op = (case ec of None \<Rightarrow> listen_call (None, True) op | Some e \<Rightarrow> listen_call (Some e, False) op)"

definition on_listen_backoff :: "socket_answers \<Rightarrow> error_code \<Rightarrow> ListenOP \<Rightarrow> ListenOP" where
  "on_listen_backoff a ec op = (if ec = None then try_listen a op else op)"

text \<open>
  \<open>make_address\<close> parses an address; \<open>somaxconn\<close> is the limit of the system. \<open>Inl\<close> is the error the handler is called with at once.
\<close>

definition async_listen ::
  "(string \<Rightarrow> asio_error + 'a) \<Rightarrow> int \<Rightarrow> string \<Rightarrow> int \<Rightarrow> socket_answers \<Rightarrow> asio_error + ('a \<times> ListenOP)" where
  "async_listen make_address somaxconn ip backlog a =
     (let host = (if ip = [] then ''0.0.0.0'' else ip);
          bl = (if backlog > 0 then backlog else somaxconn) in
      case make_address host of
        Inl e \<Rightarrow> Inl e
      | Inr addr \<Rightarrow> Inr (addr, try_listen a \<lparr>lo_backlog = bl, lo_attempt = 0, lo_phase = Listen_Idle, lo_cb = []\<rparr>))"

section \<open>Operations that are retried\<close>

text \<open>
  The contract both operations keep: as long as the handler has not been called, the next answer of the
  environment brings the call closer, and the call is made once.
\<close>

locale retried =
  fixes ok :: "'s \<Rightarrow> bool" and step :: "'s \<Rightarrow> 's" and finished :: "'s \<Rightarrow> bool" and rank :: "'s \<Rightarrow> nat" and calls :: "'s \<Rightarrow> 'c list"
  assumes ok_step: "ok s \<Longrightarrow> ok (step s)"
    and rank_step: "ok s \<Longrightarrow> \<not> finished s \<Longrightarrow> rank (step s) < rank s"
    and finished_step: "finished s \<Longrightarrow> step s = s"
    and called: "ok s \<Longrightarrow> length (calls s) = (if finished s then 1 else 0)"
begin

lemma finishes:
  assumes "ok s" "rank s \<le> n"
  shows "finished ((step ^^ n) s) \<and> length (calls ((step ^^ n) s)) = 1"
  using assms
proof (induction n arbitrary: s)
  case 0
  then have "finished s" using rank_step by fastforce
  then show ?case using called [OF 0(1)] by simp
next
  case (Suc n)
  show ?case
  proof (cases "finished s")
    case True
    then have "(step ^^ Suc n) s = s" by (induction n) (simp_all add: finished_step funpow_swap1)
    then show ?thesis using True called [OF Suc.prems(1)] by simp
  next
    case False
    then have "rank (step s) \<le> n" using rank_step [OF Suc.prems(1)] Suc.prems(2) by fastforce
    then show ?thesis using Suc.IH [OF ok_step [OF Suc.prems(1)]] by (simp add: funpow_swap1)
  qed
qed

end

text \<open>
  When the outcome can be told from any state of the operation, and no step changes it, it is what the handler is
  called with.
\<close>

locale foretold = retried +
  fixes forecast :: "'a \<Rightarrow> 'b"
  assumes forecast_step: "ok s \<Longrightarrow> forecast (step s) = forecast s"
    and forecast_called: "ok s \<Longrightarrow> finished s \<Longrightarrow> calls s = [forecast s]"
begin

lemma ok_run: "ok s \<Longrightarrow> ok ((step ^^ n) s)"
  by (induction n) (simp_all add: ok_step)

lemma forecast_run: "ok s \<Longrightarrow> forecast ((step ^^ n) s) = forecast s"
  by (induction n) (simp_all add: forecast_step ok_run)

lemma reports:
  assumes "ok s" "rank s \<le> n"
  shows "finished ((step ^^ n) s) \<and> calls ((step ^^ n) s) = [forecast s]"
  using finishes [OF assms] forecast_called [OF ok_run [OF assms(1)]] forecast_run [OF assms(1)] by simp

end

section \<open>The connect operation against its environment\<close>

text \<open>What the resolver, the socket and the random generator answer in each attempt; the timer fires.\<close>

record connect_env =
  ce_resolve :: "nat \<Rightarrow> error_code \<times> nat"
  ce_connect :: "nat \<Rightarrow> error_code"
  ce_uniform :: "nat \<Rightarrow> rat"

definition connect_next :: "connect_env \<Rightarrow> ResolveConnectOP \<Rightarrow> ResolveConnectOP" where
  "connect_next env op =
     (let a = rc_attempt op; u = ce_uniform env a in
      case rc_phase op of
        Resolving \<Rightarrow> on_resolve u (fst (ce_resolve env a)) (snd (ce_resolve env a)) op
      | Connecting \<Rightarrow> on_connect u (ce_connect env a) op
      | Connect_Backoff d \<Rightarrow> on_connect_backoff None op
      | Connect_Done \<Rightarrow> op)"

definition connect_rank :: "ResolveConnectOP \<Rightarrow> nat" where
  "connect_rank op =
     (case rc_phase op of
        Resolving \<Rightarrow> 3 * (connect_max_attempts - rc_attempt op) + 2
      | Connecting \<Rightarrow> 3 * (connect_max_attempts - rc_attempt op) + 1
      | Connect_Backoff d \<Rightarrow> 3 * (connect_max_attempts - rc_attempt op) + 3
      | Connect_Done \<Rightarrow> 0)"

definition connect_ok :: "ResolveConnectOP \<Rightarrow> bool" where
  "connect_ok op \<longleftrightarrow> (if rc_phase op = Connect_Done then length (rc_cb op) = 1 else rc_cb op = [] \<and> rc_attempt op \<le> connect_max_attempts)"

lemmas connect_defs = connect_next_def on_resolve_def on_connect_def on_connect_backoff_def connect_schedule_retry_def
  connect_call_def do_resolve_def Let_def

interpretation cn: retried connect_ok "connect_next env" "\<lambda>op. rc_phase op = Connect_Done" connect_rank rc_cb for env
proof
  fix op
  show "connect_ok op \<Longrightarrow> connect_ok (connect_next env op)"
    by (cases "rc_phase op") (auto simp: connect_ok_def connect_defs split: option.splits)
  show "rc_phase op = Connect_Done \<Longrightarrow> connect_next env op = op" by (simp add: connect_next_def)
  show "connect_ok op \<Longrightarrow> length (rc_cb op) = (if rc_phase op = Connect_Done then 1 else 0)" by (auto simp: connect_ok_def)
  show "connect_rank (connect_next env op) < connect_rank op" if "connect_ok op" "rc_phase op \<noteq> Connect_Done"
    using that by (cases "rc_phase op") (auto simp: connect_ok_def connect_rank_def connect_defs split: option.splits)
qed

text \<open>
  The specification: an attempt either fails for a time (\<open>None\<close>) or settles the outcome; the first attempt that
  settles it decides, and after nine attempts the operation reports a timeout.
\<close>

definition attempt_result :: "connect_env \<Rightarrow> nat \<Rightarrow> handler_call option" where
  "attempt_result env a =
     (case ce_resolve env a of
        (Some e, _) \<Rightarrow> if e = host_not_found_try_again then None else Some (Some e, False)
      | (None, results) \<Rightarrow>
          if results = 0 then Some (Some host_not_found, False)
          else case ce_connect env a of
              None \<Rightarrow> Some (None, True)
            | Some e \<Rightarrow> if classify_connect_error e = Transient then None else Some (Some e, False))"

definition connect_outcome :: "connect_env \<Rightarrow> nat list \<Rightarrow> handler_call" where
  "connect_outcome env as =
     (case List.map_filter (attempt_result env) as of c # _ \<Rightarrow> c | [] \<Rightarrow> (Some timed_out, False))"

lemma connect_outcome_simps [simp]:
  "connect_outcome env [] = (Some timed_out, False)"
  "connect_outcome env (a # as) = (case attempt_result env a of Some c \<Rightarrow> c | None \<Rightarrow> connect_outcome env as)"
  by (simp_all add: connect_outcome_def map_filter_simps split: option.splits)

text \<open>The outcome seen from the middle of an operation; no step changes it.\<close>

definition connect_forecast :: "connect_env \<Rightarrow> ResolveConnectOP \<Rightarrow> handler_call" where
  "connect_forecast env op =
     (let a = rc_attempt op; later = connect_outcome env [a + 1..<connect_max_attempts + 1] in
      case rc_phase op of
        Connect_Done \<Rightarrow> hd (rc_cb op)
      | Connecting \<Rightarrow>
          (case ce_connect env a of
             None \<Rightarrow> (None, True)
           | Some e \<Rightarrow> if classify_connect_error e = Transient then later else (Some e, False))
      | _ \<Rightarrow> connect_outcome env [a..<connect_max_attempts + 1])"

lemma connect_forecast_next:
  assumes "connect_ok op"
  shows "connect_forecast env (connect_next env op) = connect_forecast env op"
proof (cases "rc_phase op")
  case Resolving
  then have a: "rc_attempt op \<le> connect_max_attempts" "rc_cb op = []" using assms by (simp_all add: connect_ok_def)
  then have "[rc_attempt op..<connect_max_attempts + 1] = rc_attempt op # [rc_attempt op + 1..<connect_max_attempts + 1]" by (simp add: upt_rec)
  then show ?thesis
    using Resolving a
    by (cases "ce_resolve env (rc_attempt op)") (auto simp: connect_forecast_def connect_defs attempt_result_def split: option.splits)
next
  case Connecting
  then have "rc_attempt op \<le> connect_max_attempts" "rc_cb op = []" using assms by (simp_all add: connect_ok_def)
  then show ?thesis using Connecting by (auto simp: connect_forecast_def connect_defs split: option.splits)
qed (simp_all add: connect_forecast_def connect_defs)

interpretation cf: foretold connect_ok "connect_next env" "\<lambda>op. rc_phase op = Connect_Done" connect_rank rc_cb "connect_forecast env" for env
proof
  fix op
  show "connect_ok op \<Longrightarrow> connect_forecast env (connect_next env op) = connect_forecast env op" by (rule connect_forecast_next)
  show "connect_ok op \<Longrightarrow> rc_phase op = Connect_Done \<Longrightarrow> rc_cb op = [connect_forecast env op]"
    by (cases "rc_cb op") (simp_all add: connect_ok_def connect_forecast_def)
qed

text \<open>
  C36: Connecting ends and reports the right outcome. Whatever the resolver and the sockets answer, \<open>async_connect\<close> calls its handler
  exactly once, after at most nine attempts (26 completions): with a connection when an attempt
  connects, with the error of the first attempt that fails for good, and with a timeout when nine attempts
  failed for a time.\<close>

theorem connect_reports_outcome:
  "rc_phase ((connect_next env ^^ 26) (async_connect ip port)) = Connect_Done \<and>
   rc_cb ((connect_next env ^^ 26) (async_connect ip port)) = [connect_outcome env [0..<9]]"
proof -
  have "connect_ok (async_connect ip port)" "connect_rank (async_connect ip port) \<le> 26"
    "connect_forecast env (async_connect ip port) = connect_outcome env [0..<9]"
    by (simp_all add: async_connect_def do_resolve_def connect_ok_def connect_rank_def connect_max_attempts_def connect_forecast_def del: upt_Suc)
  with cf.reports [of "async_connect ip port" 26 env] show ?thesis by metis
qed

section \<open>Delays\<close>

lemma raw_delay_bounds: "raw_delay a \<le> max_delay" "1 \<le> a \<Longrightarrow> 400 \<le> raw_delay a"
proof -
  show "raw_delay a \<le> max_delay" by (simp add: raw_delay_def Let_def)
  assume "1 \<le> a"
  then have "(2 :: nat) ^ 1 \<le> 2 ^ min a 12" by (intro power_increasing) simp_all
  then show "400 \<le> raw_delay a" by (simp add: raw_delay_def Let_def base_delay_def max_delay_def)
qed

lemma jitter_bounds:
  fixes u :: rat
  assumes "0 \<le> u" "u < 1"
  shows "raw_delay a div 2 \<le> nat \<lfloor>of_nat (raw_delay a) * (1 / 2 + 1 / 2 * u)\<rfloor>" "nat \<lfloor>of_nat (raw_delay a) * (1 / 2 + 1 / 2 * u)\<rfloor> \<le> raw_delay a"
proof -
  have lo: "of_nat (raw_delay a) * (1 / 2) \<le> of_nat (raw_delay a) * (1 / 2 + 1 / 2 * u)"
    and hi: "of_nat (raw_delay a) * (1 / 2 + 1 / 2 * u) \<le> of_nat (raw_delay a) * 1"
    using assms by (intro mult_left_mono; simp)+
  show "nat \<lfloor>of_nat (raw_delay a) * (1 / 2 + 1 / 2 * u)\<rfloor> \<le> raw_delay a"
    using hi by (simp add: nat_le_iff floor_le_iff)
  have "of_nat (raw_delay a div 2) \<le> of_nat (raw_delay a) * (1 / 2 + 1 / 2 * u)"
  proof -
    have "(of_nat (raw_delay a div 2) :: rat) \<le> of_nat (raw_delay a) * (1 / 2)"
      using of_nat_div_le_of_nat [of "raw_delay a" 2, where 'a = rat] by simp
    then show ?thesis using lo by linarith
  qed
  then show "raw_delay a div 2 \<le> nat \<lfloor>of_nat (raw_delay a) * (1 / 2 + 1 / 2 * u)\<rfloor>"
    by (simp add: le_nat_iff le_floor_iff)
qed

lemma connect_wait:
  assumes "op' = connect_next env op" "rc_phase op' = Connect_Backoff d"
  shows "1 \<le> rc_attempt op' \<and> rc_attempt op' \<le> connect_max_attempts \<and>
    d = nat \<lfloor>of_nat (raw_delay (rc_attempt op')) * (1 / 2 + 1 / 2 * ce_uniform env (rc_attempt op' - 1))\<rfloor>"
  using assms by (cases "rc_phase op") (auto simp: connect_defs connect_backoff_def split: option.splits if_splits)

text \<open>
  C37: Delays between attempts. Whenever the connect operation waits before another attempt, it waits between 200 and 3000
  milliseconds, and at least half of the doubling delay of that attempt.\<close>

theorem connect_delay_bounds:
  assumes "\<forall>a. 0 \<le> ce_uniform env a \<and> ce_uniform env a < 1" "op = (connect_next env ^^ n) (async_connect ip port)" "rc_phase op = Connect_Backoff d"
  shows "200 \<le> d \<and> d \<le> 3000 \<and> raw_delay (rc_attempt op) \<le> 2 * d + 1 \<and> d \<le> raw_delay (rc_attempt op) \<and> 1 \<le> rc_attempt op \<and> rc_attempt op \<le> 8"
proof -
  obtain m where "op = connect_next env ((connect_next env ^^ m) (async_connect ip port))"
    using assms(2,3) by (cases n) (auto simp: async_connect_def do_resolve_def)
  then have "1 \<le> rc_attempt op \<and> rc_attempt op \<le> connect_max_attempts \<and> d = nat \<lfloor>of_nat (raw_delay (rc_attempt op)) * (1 / 2 + 1 / 2 * ce_uniform env (rc_attempt op - 1))\<rfloor>"
    using connect_wait assms(3) by blast
  then have "1 \<le> rc_attempt op" "rc_attempt op \<le> 8" "raw_delay (rc_attempt op) div 2 \<le> d" "d \<le> raw_delay (rc_attempt op)"
    using jitter_bounds [of "ce_uniform env (rc_attempt op - 1)" "rc_attempt op"] assms(1) by (simp_all add: connect_max_attempts_def)
  then show ?thesis using raw_delay_bounds [of "rc_attempt op"] by (auto simp: max_delay_def)
qed

theorem connect_delay_bounds_witness:
  "\<exists>env op d. op = (connect_next env ^^ 1) (async_connect ''localhost'' 9001) \<and> rc_phase op = Connect_Backoff d \<and> 200 \<le> d \<and> d \<le> 3000"
proof -
  let ?env = "\<lparr>ce_resolve = (\<lambda>a. (Some host_not_found_try_again, 0)), ce_connect = (\<lambda>a. None), ce_uniform = (\<lambda>a. 1 / 2)\<rparr>"
  let ?op = "(connect_next ?env ^^ 1) (async_connect ''localhost'' 9001)"
  obtain d where d: "rc_phase ?op = Connect_Backoff d"
    by (simp add: async_connect_def connect_defs connect_max_attempts_def)
  have "\<forall>a. 0 \<le> ce_uniform ?env a \<and> ce_uniform ?env a < 1" by simp
  from connect_delay_bounds [OF this refl d] d show ?thesis by blast
qed

section \<open>The listen operation against its environment\<close>

record listen_env =
  le_socket :: "nat \<Rightarrow> socket_answers"
  le_accept :: error_code

definition listen_next :: "listen_env \<Rightarrow> ListenOP \<Rightarrow> ListenOP" where
  "listen_next env op =
     (case lo_phase op of
        Listen_Idle \<Rightarrow> try_listen (le_socket env (lo_attempt op)) op
      | Listen_Backoff d \<Rightarrow> on_listen_backoff (le_socket env (lo_attempt op)) None op
      | Accepting \<Rightarrow> on_accept (le_accept env) op
      | Listen_Done \<Rightarrow> op)"

definition listen_rank :: "ListenOP \<Rightarrow> nat" where
  "listen_rank op =
     (case lo_phase op of
        Listen_Done \<Rightarrow> 0
      | Accepting \<Rightarrow> 1
      | _ \<Rightarrow> listen_max_attempts - lo_attempt op + 2)"

definition listen_ok :: "ListenOP \<Rightarrow> bool" where
  "listen_ok op \<longleftrightarrow> (if lo_phase op = Listen_Done then length (lo_cb op) = 1 else lo_cb op = [] \<and> lo_attempt op \<le> listen_max_attempts)"

lemmas listen_defs = listen_next_def try_listen_def on_accept_def on_listen_backoff_def listen_schedule_retry_def
  listen_call_def do_accept_def Let_def

interpretation ln: retried listen_ok "listen_next env" "\<lambda>op. lo_phase op = Listen_Done" listen_rank lo_cb for env
proof
  fix op
  show "listen_ok op \<Longrightarrow> listen_ok (listen_next env op)"
    by (cases "lo_phase op") (auto simp: listen_ok_def listen_defs split: option.splits)
  show "lo_phase op = Listen_Done \<Longrightarrow> listen_next env op = op" by (simp add: listen_next_def)
  show "listen_ok op \<Longrightarrow> length (lo_cb op) = (if lo_phase op = Listen_Done then 1 else 0)" by (auto simp: listen_ok_def)
  show "listen_rank (listen_next env op) < listen_rank op" if "listen_ok op" "lo_phase op \<noteq> Listen_Done"
    using that by (cases "lo_phase op") (auto simp: listen_ok_def listen_rank_def listen_defs split: option.splits)
qed

text \<open>One attempt to listen: the error that may pass (\<open>Inl\<close>), or the call of the handler that it leads to.\<close>

definition listen_attempt :: "listen_env \<Rightarrow> nat \<Rightarrow> asio_error + handler_call" where
  "listen_attempt env n =
     (let a = le_socket env n in
      case (ans_open a, ans_option a, ans_bind a, ans_listen a) of
        (Some e, _) \<Rightarrow> if is_transient_open e then Inl e else Inr (Some e, False)
      | (None, Some e, _) \<Rightarrow> Inr (Some e, False)
      | (None, None, Some e, _) \<Rightarrow> if is_transient_bind e then Inl e else Inr (Some e, False)
      | (None, None, None, Some e) \<Rightarrow> if is_transient_listen e then Inl e else Inr (Some e, False)
      | (None, None, None, None) \<Rightarrow> Inr (le_accept env, le_accept env = None))"

fun listen_outcome :: "listen_env \<Rightarrow> nat list \<Rightarrow> handler_call" where
  "listen_outcome env [] = (None, False)"
| "listen_outcome env (a # as) =
     (case listen_attempt env a of Inr c \<Rightarrow> c | Inl e \<Rightarrow> if as = [] then (Some e, False) else listen_outcome env as)"

definition listen_forecast :: "listen_env \<Rightarrow> ListenOP \<Rightarrow> handler_call" where
  "listen_forecast env op =
     (case lo_phase op of
        Listen_Done \<Rightarrow> hd (lo_cb op)
      | Accepting \<Rightarrow> (le_accept env, le_accept env = None)
      | _ \<Rightarrow> listen_outcome env [lo_attempt op..<listen_max_attempts + 1])"

lemma listen_forecast_next:
  assumes "listen_ok op"
  shows "listen_forecast env (listen_next env op) = listen_forecast env op"
proof -
  have tried: "listen_forecast env (try_listen (le_socket env (lo_attempt op)) op) = listen_outcome env [lo_attempt op..<listen_max_attempts + 1]"
    if "lo_attempt op \<le> listen_max_attempts" "lo_cb op = []"
  proof -
    let ?as = "[lo_attempt op + 1..<listen_max_attempts + 1]"
    have "[lo_attempt op..<listen_max_attempts + 1] = lo_attempt op # ?as" using that(1) by (simp add: upt_rec)
    moreover have "?as = [] \<longleftrightarrow> lo_attempt op = listen_max_attempts" using that(1) by auto
    ultimately show ?thesis
      using that by (auto simp: listen_forecast_def try_listen_def listen_schedule_retry_def listen_call_def do_accept_def listen_attempt_def Let_def split: option.splits)
  qed
  show ?thesis
  proof (cases "lo_phase op")
    case Listen_Idle
    then show ?thesis using tried assms by (simp add: listen_ok_def listen_next_def) (simp add: listen_forecast_def)
  next
    case Accepting
    then show ?thesis using assms by (auto simp: listen_ok_def listen_forecast_def listen_defs split: option.splits)
  next
    case (Listen_Backoff d)
    then show ?thesis using tried assms by (simp add: listen_ok_def listen_next_def on_listen_backoff_def) (simp add: listen_forecast_def)
  next
    case Listen_Done
    then show ?thesis by (simp add: listen_next_def)
  qed
qed

interpretation lf: foretold listen_ok "listen_next env" "\<lambda>op. lo_phase op = Listen_Done" listen_rank lo_cb "listen_forecast env" for env
proof
  fix op
  show "listen_ok op \<Longrightarrow> listen_forecast env (listen_next env op) = listen_forecast env op" by (rule listen_forecast_next)
  show "listen_ok op \<Longrightarrow> lo_phase op = Listen_Done \<Longrightarrow> lo_cb op = [listen_forecast env op]"
    by (cases "lo_cb op") (simp_all add: listen_ok_def listen_forecast_def)
qed

text \<open>
  C38: Listening ends and reports the right outcome. For a valid address \<open>async_listen\<close>, once a peer connects or
  the accept fails, calls its handler exactly once, after at most seven attempts to open, bind and
  listen: with a connection when one is accepted, with the error of the first step that fails
  for good, and with the last error when seven attempts failed for a time.\<close>

theorem listen_reports_outcome:
  assumes "async_listen make_address somaxconn ip backlog (le_socket env 0) = Inr (addr, op)"
  shows "lo_phase ((listen_next env ^^ 8) op) = Listen_Done \<and> lo_cb ((listen_next env ^^ 8) op) = [listen_outcome env [0..<7]]"
proof -
  let ?op0 = "\<lparr>lo_backlog = (if backlog > 0 then backlog else somaxconn), lo_attempt = 0, lo_phase = Listen_Idle, lo_cb = []\<rparr>"
  have "op = try_listen (le_socket env 0) ?op0" using assms by (auto simp: async_listen_def Let_def split: sum.splits)
  then have op: "op = listen_next env ?op0" by (simp add: listen_next_def)
  have ok0: "listen_ok ?op0" "listen_rank ?op0 = 8" "listen_forecast env ?op0 = listen_outcome env [0..<7]"
    by (simp_all add: listen_ok_def listen_rank_def listen_max_attempts_def listen_forecast_def del: upt_Suc listen_outcome.simps)
  have ok: "listen_ok op" "listen_rank op \<le> 8" "listen_forecast env op = listen_outcome env [0..<7]"
    using ln.ok_step [OF ok0(1), of env] ln.rank_step [OF ok0(1), of env] listen_forecast_next [OF ok0(1), of env] ok0 op by (simp_all del: listen_outcome.simps)
  from lf.reports [OF ok(1,2), of env] ok(3) show ?thesis by metis
qed

theorem listen_reports_outcome_witness:
  "\<exists>env op. async_listen (\<lambda>ip. Inr ip) 4096 [] 0 (le_socket env 0) = Inr (''0.0.0.0'', op) \<and> lo_backlog op = 4096 \<and>
     lo_cb ((listen_next env ^^ 8) op) = [(Some address_in_use, False)]"
proof -
  let ?busy = "\<lparr>ans_open = None, ans_option = None, ans_bind = Some address_in_use, ans_listen = None\<rparr>"
  let ?env = "\<lparr>le_socket = (\<lambda>a. ?busy), le_accept = None\<rparr>"
  obtain op where op: "async_listen (\<lambda>ip :: string. Inr ip) 4096 [] 0 (le_socket ?env 0) = Inr (''0.0.0.0'', op)" "lo_backlog op = 4096"
    by (simp add: async_listen_def try_listen_def listen_schedule_retry_def is_transient_bind_def listen_max_attempts_def)
  have "listen_outcome ?env [0..<7] = (Some address_in_use, False)"
    by (simp add: upt_rec listen_attempt_def is_transient_bind_def)
  with listen_reports_outcome [OF op(1)] op show ?thesis by metis
qed

end
