(* ===== verification/Session_Pool.thy ===== *)
theory Session_Pool
  imports Session_Write
begin

text \<open>
  \<open>Fix::SessionPool\<close> (include/fix/core/SessionPool.hpp, src/SessionPool.cpp). A session is an object
  that the pool, the callbacks of the manager and the handlers of the session share. The objects
  are the list \<open>pl_objects\<close>, a \<open>shared_ptr\<close> is an index into it (\<open>None\<close> is the null pointer), and
  dropping a pointer leaves the object where it is. A slot of \<open>sessions_\<close> is reused after a removal;
  the second component of a \<open>SessionID\<close> is unique and tells the generations of a slot apart.
  \<open>None\<close> as the result of an operation is the exception of \<open>at\<close> for an index that is out of range.
\<close>

type_synonym session_ref = nat

record pool =
  pl_sessions :: "session_ref option list"
  pl_free_indices :: "nat list"
  pl_next_idx :: nat
  pl_objects :: "session list"

definition pool_new :: pool where
  "pool_new = \<lparr>pl_sessions = [], pl_free_indices = [], pl_next_idx = 0, pl_objects = []\<rparr>"

definition pool_size :: "pool \<Rightarrow> nat" where
  "pool_size p = length (pl_sessions p) - length (pl_free_indices p)"

definition generate_session_Id :: "pool \<Rightarrow> nat \<times> pool" where
  "generate_session_Id p = (pl_next_idx p, p\<lparr>pl_next_idx := pl_next_idx p + 1\<rparr>)"

text \<open>\<open>std::make_shared<Session>\<close>.\<close>

definition make_session :: "SessionID \<Rightarrow> Role \<Rightarrow> SessionParameters \<Rightarrow> pool \<Rightarrow> (session_ref \<times> pool) option" where
  "make_session session_id role params p =
     do { s \<leftarrow> session_new session_id role params;
          Some (length (pl_objects p), p\<lparr>pl_objects := pl_objects p @ [s]\<rparr>) }"

definition emplace_session :: "Role \<Rightarrow> SessionParameters \<Rightarrow> pool \<Rightarrow> (session_ref \<times> pool) option" where
  "emplace_session role params p =
     (if pl_free_indices p = [] then
        do { let (i, p1) = generate_session_Id p;
             (r, p2) \<leftarrow> make_session \<lparr>storage_index = length (pl_sessions p), sid = i\<rparr> role params p1;
             Some (r, p2\<lparr>pl_sessions := pl_sessions p2 @ [Some r]\<rparr>) }
      else
        do { let nxt = last (pl_free_indices p);
             let (i, p1) = generate_session_Id (p\<lparr>pl_free_indices := butlast (pl_free_indices p)\<rparr>);
             (r, p2) \<leftarrow> make_session \<lparr>storage_index = nxt, sid = i\<rparr> role params p1;
             assert_that (nxt < length (pl_sessions p2));
             Some (r, p2\<lparr>pl_sessions := (pl_sessions p2)[nxt := Some r]\<rparr>) })"

definition get_session_id :: "session_ref \<Rightarrow> pool \<Rightarrow> SessionID" where
  "get_session_id r p = s_id (pl_objects p ! r)"

definition pool_remove :: "SessionID \<Rightarrow> pool \<Rightarrow> (bool \<times> pool) option" where
  "pool_remove i p =
     do { slot \<leftarrow> array_get (pl_sessions p) (storage_index i);
          Some (case slot of
              None \<Rightarrow> (False, p)
            | Some r \<Rightarrow>
                if \<not> SessionID_eq (get_session_id r p) i then (False, p)
                else (True, p\<lparr>pl_sessions := (pl_sessions p)[storage_index i := None],
                              pl_free_indices := pl_free_indices p @ [storage_index i]\<rparr>)) }"

definition pool_get :: "SessionID \<Rightarrow> pool \<Rightarrow> session_ref option option" where
  "pool_get i p =
     do { slot \<leftarrow> array_get (pl_sessions p) (storage_index i);
          Some (case slot of
              None \<Rightarrow> None
            | Some r \<Rightarrow> if \<not> SessionID_eq (get_session_id r p) i then None else Some r) }"

definition get_all_at_start :: "pool \<Rightarrow> session_ref option list" where
  "get_all_at_start p = pl_sessions p"

definition get_all :: "pool \<Rightarrow> session_ref list" where
  "get_all p =
     [r. Some r \<leftarrow> pl_sessions p, storage_index (get_session_id r p) \<notin> set (pl_free_indices p)]"

section \<open>Invariant\<close>

text \<open>
  The free indices are the empty slots, each once; the session of a slot knows its slot and has a
  number below \<open>next_idx\<close>; objects are numbered in the order of their creation.
\<close>

definition pool_inv :: "pool \<Rightarrow> bool" where
  "pool_inv p \<longleftrightarrow>
     distinct (pl_free_indices p) \<and>
     set (pl_free_indices p) = {i. i < length (pl_sessions p) \<and> pl_sessions p ! i = None} \<and>
     (\<forall>i < length (pl_sessions p). \<forall>r. pl_sessions p ! i = Some r \<longrightarrow>
        r < length (pl_objects p) \<and> storage_index (get_session_id r p) = i) \<and>
     pl_next_idx p = length (pl_objects p) \<and>
     (\<forall>r < length (pl_objects p). sid (get_session_id r p) = r \<and> storage_index (get_session_id r p) < length (pl_sessions p))"

text \<open>The sessions of the pool by their unique number.\<close>

definition pool_live :: "pool \<Rightarrow> nat \<rightharpoonup> session_ref" where
  "pool_live p n = (if n < length (pl_objects p) \<and>
       pl_sessions p ! storage_index (get_session_id n p) = Some n then Some n else None)"

text \<open>The ids that were given out are those of the objects.\<close>

definition pool_issued :: "pool \<Rightarrow> SessionID set" where
  "pool_issued p = s_id ` set (pl_objects p)"

lemma pool_new_inv: "pool_inv pool_new"
  by (simp add: pool_inv_def pool_new_def)

lemma session_new_id: "session_new i role params = Some s \<Longrightarrow> s_id s = i"
  by (auto simp: session_new_def bind_eq_Some_conv)

lemma inv_slot:
  assumes "pool_inv p" "i < length (pl_sessions p)" "pl_sessions p ! i = Some r"
  shows "r < length (pl_objects p)" "storage_index (get_session_id r p) = i" "sid (get_session_id r p) = r"
  using assms by (simp_all add: pool_inv_def)

lemma inv_object:
  assumes "pool_inv p" "r < length (pl_objects p)"
  shows "sid (get_session_id r p) = r" "storage_index (get_session_id r p) < length (pl_sessions p)"
  using assms by (simp_all add: pool_inv_def)

lemma inv_free:
  assumes "pool_inv p"
  shows "set (pl_free_indices p) = {i. i < length (pl_sessions p) \<and> pl_sessions p ! i = None}" "distinct (pl_free_indices p)"
    "pl_next_idx p = length (pl_objects p)"
  using assms by (simp_all add: pool_inv_def)

lemma issued_cases:
  assumes "pool_inv p" "i \<in> pool_issued p"
  shows "sid i < length (pl_objects p) \<and> get_session_id (sid i) p = i \<and> storage_index i < length (pl_sessions p)"
proof -
  obtain r where "r < length (pl_objects p)" "i = get_session_id r p"
    using assms(2) by (auto simp: pool_issued_def in_set_conv_nth get_session_id_def)
  then show ?thesis using assms(1) by (auto simp: pool_inv_def)
qed

lemma get_correct:
  assumes p: "pool_inv p" and i: "i \<in> pool_issued p"
  shows "pool_get i p = Some (pool_live p (sid i))"
proof -
  note c = issued_cases [OF assms]
  show ?thesis
  proof (cases "pl_sessions p ! storage_index i")
    case (Some r)
    then have "sid (get_session_id r p) = r" using p c by (auto simp: pool_inv_def)
    then show ?thesis using Some c by (auto simp: pool_get_def pool_live_def SessionID_eq_def)
  qed (use c in \<open>simp add: pool_get_def pool_live_def\<close>)
qed

text \<open>A slot that the next session goes to, and the pool with a session put there.\<close>

definition open_slot :: "pool \<Rightarrow> nat \<Rightarrow> bool" where
  "open_slot p k \<longleftrightarrow> pl_free_indices p = [] \<and> k = length (pl_sessions p) \<or>
     k < length (pl_sessions p) \<and> pl_sessions p ! k = None \<and> pl_free_indices p \<noteq> [] \<and> k = last (pl_free_indices p)"

definition placed :: "nat \<Rightarrow> session \<Rightarrow> pool \<Rightarrow> pool" where
  "placed k s p = p\<lparr>pl_sessions := (if k = length (pl_sessions p) then pl_sessions p @ [Some (length (pl_objects p))]
        else (pl_sessions p)[k := Some (length (pl_objects p))]),
      pl_free_indices := butlast (pl_free_indices p), pl_next_idx := pl_next_idx p + 1, pl_objects := pl_objects p @ [s]\<rparr>"

lemma emplace_placed:
  assumes p: "pool_inv p"
  obtains k s where "open_slot p k" "session_new \<lparr>storage_index = k, sid = length (pl_objects p)\<rparr> role params = Some s"
    "emplace_session role params p = Some (length (pl_objects p), placed k s p)"
proof -
  define k where "k = (if pl_free_indices p = [] then length (pl_sessions p) else last (pl_free_indices p))"
  obtain s where s: "session_new \<lparr>storage_index = k, sid = length (pl_objects p)\<rparr> role params = Some s" using session_new_inv by blast
  have k: "open_slot p k"
    using inv_free(1) [OF p] last_in_set [of "pl_free_indices p"] by (auto simp: open_slot_def k_def)
  then have "emplace_session role params p = Some (length (pl_objects p), placed k s p)"
    using s inv_free(3) [OF p]
    by (auto simp: emplace_session_def generate_session_Id_def make_session_def Let_def placed_def k_def open_slot_def bind_eq_Some_conv)
  with k s show ?thesis by (rule that)
qed

lemma placed_slots:
  assumes "open_slot p k"
  shows "k < length (pl_sessions (placed k s p))" "pl_sessions (placed k s p) ! k = Some (length (pl_objects p))"
    "length (pl_sessions p) \<le> length (pl_sessions (placed k s p))"
    "j \<noteq> k \<Longrightarrow> j < length (pl_sessions (placed k s p)) \<longleftrightarrow> j < length (pl_sessions p)"
    "j \<noteq> k \<Longrightarrow> j < length (pl_sessions p) \<Longrightarrow> pl_sessions (placed k s p) ! j = pl_sessions p ! j"
  using assms by (auto simp: placed_def open_slot_def nth_append)

lemma placed_id:
  "q \<le> length (pl_objects p) \<Longrightarrow> get_session_id q (placed k s p) = (if q = length (pl_objects p) then s_id s else get_session_id q p)"
  by (auto simp: get_session_id_def placed_def nth_append)

lemma placed_free:
  assumes p: "pool_inv p" and k: "open_slot p k"
  shows "set (pl_free_indices (placed k s p)) = {j. j < length (pl_sessions (placed k s p)) \<and> pl_sessions (placed k s p) ! j = None}"
proof -
  have "set (pl_free_indices (placed k s p)) = set (pl_free_indices p) - {k}"
  proof (cases "pl_free_indices p" rule: rev_cases)
    case Nil
    then show ?thesis by (simp add: placed_def)
  next
    case (snoc ys y)
    then have "y = k" "k \<notin> set ys" using k inv_free(2) [OF p] by (simp_all add: open_slot_def)
    with snoc show ?thesis by (simp add: placed_def)
  qed
  moreover have "j \<in> set (pl_free_indices p) - {k} \<longleftrightarrow> j < length (pl_sessions (placed k s p)) \<and> pl_sessions (placed k s p) ! j = None" for j
    using placed_slots(4,5) [OF k, where s = s and j = j] placed_slots(2) [OF k, of s] unfolding inv_free(1) [OF p]
    by (cases "j = k"; cases "j < length (pl_sessions p)") simp_all
  ultimately show ?thesis by (simp only: set_eq_iff mem_Collect_eq) simp
qed

lemma placed_inv:
  assumes p: "pool_inv p" and k: "open_slot p k" and s: "s_id s = \<lparr>storage_index = k, sid = length (pl_objects p)\<rparr>"
  shows "pool_inv (placed k s p)"
proof -
  let ?p = "placed k s p" and ?r = "length (pl_objects p)"
  have slot: "q < Suc ?r \<and> storage_index (get_session_id q ?p) = j" if "j < length (pl_sessions ?p)" "pl_sessions ?p ! j = Some q" for j q
  proof (cases "j = k")
    case True
    then show ?thesis using that placed_slots(2) [OF k, of s] placed_id [of ?r p k s] s by simp
  next
    case False
    then have "q < ?r" "storage_index (get_session_id q p) = j"
      using that placed_slots(4,5) [OF k, where s = s and j = j] inv_slot [OF p, of j q] by auto
    then show ?thesis using placed_id [of q p k s] by simp
  qed
  have object: "sid (get_session_id q ?p) = q \<and> storage_index (get_session_id q ?p) < length (pl_sessions ?p)" if "q < Suc ?r" for q
    using that placed_id [of q p k s] inv_object [OF p, of q] placed_slots(1,3) [OF k, of s] s by (auto simp: less_Suc_eq)
  have "length (pl_objects ?p) = Suc ?r" "pl_next_idx ?p = Suc ?r" "distinct (pl_free_indices ?p)"
    using inv_free(2,3) [OF p] by (simp_all add: placed_def distinct_butlast)
  then show ?thesis unfolding pool_inv_def using placed_free [OF p k, of s] slot object by simp
qed

lemma placed_live:
  assumes p: "pool_inv p" and k: "open_slot p k" and s: "s_id s = \<lparr>storage_index = k, sid = length (pl_objects p)\<rparr>"
  shows "pool_live (placed k s p) = (pool_live p)(length (pl_objects p) \<mapsto> length (pl_objects p))"
proof
  fix n
  let ?r = "length (pl_objects p)" and ?j = "storage_index (get_session_id n p)"
  have len: "length (pl_objects (placed k s p)) = Suc ?r" by (simp add: placed_def)
  consider "n = ?r" | "n < ?r" | "?r < n" by linarith
  then show "pool_live (placed k s p) n = ((pool_live p)(?r \<mapsto> ?r)) n"
  proof cases
    case 2
    then have "?j < length (pl_sessions p)" using inv_object [OF p] by simp
    moreover from this have "?j = k \<Longrightarrow> pl_sessions p ! k = None" using k by (auto simp: open_slot_def)
    ultimately show ?thesis
      using 2 len placed_id [of n p k s] placed_slots(2) [OF k, of s] placed_slots(5) [OF k, where s = s and j = ?j]
      by (cases "?j = k") (auto simp: pool_live_def)
  qed (use len s placed_id [of ?r p k s] placed_slots(2) [OF k, of s] in \<open>simp_all add: pool_live_def\<close>)
qed

lemma emplace_correct:
  assumes p: "pool_inv p"
  shows "\<exists>r p' s. emplace_session role params p = Some (r, p') \<and> pool_inv p' \<and> r = length (pl_objects p) \<and>
     pl_objects p' = pl_objects p @ [s] \<and> session_new (s_id s) role params = Some s \<and> sid (s_id s) = r \<and>
     pool_live p' = (pool_live p)(r \<mapsto> r)"
proof -
  obtain k s where k: "open_slot p k" and s: "session_new \<lparr>storage_index = k, sid = length (pl_objects p)\<rparr> role params = Some s"
    and e: "emplace_session role params p = Some (length (pl_objects p), placed k s p)"
    using emplace_placed [OF p] .
  note i = session_new_id [OF s]
  show ?thesis
    using e s i placed_inv [OF p k i] placed_live [OF p k i]
    by (intro exI [of _ "length (pl_objects p)"] exI [of _ "placed k s p"] exI [of _ s]) (simp add: placed_def)
qed

lemma remove_correct:
  assumes p: "pool_inv p" and i: "i \<in> pool_issued p"
  shows "\<exists>p'. pool_remove i p = Some (pool_live p (sid i) \<noteq> None, p') \<and> pool_inv p' \<and> pl_objects p' = pl_objects p \<and>
     pool_live p' = (pool_live p)(sid i := None)"
proof (cases "pool_live p (sid i)")
  case None
  then have "pool_remove i p = Some (False, p)"
    using get_correct [OF p i] issued_cases [OF p i]
    by (auto simp: pool_get_def pool_remove_def split: option.splits if_splits)
  then show ?thesis using None p by auto
next
  case (Some r)
  note c = issued_cases [OF p i]
  have slot: "pl_sessions p ! storage_index i = Some (sid i)" and r: "r = sid i"
    using Some c by (auto simp: pool_live_def split: if_splits)
  define p' where "p' = p\<lparr>pl_sessions := (pl_sessions p)[storage_index i := None], pl_free_indices := pl_free_indices p @ [storage_index i]\<rparr>"
  have gid: "get_session_id q p' = get_session_id q p" for q by (simp add: get_session_id_def p'_def)
  have "pool_remove i p = Some (True, p')"
    using slot c by (simp add: pool_remove_def p'_def SessionID_eq_def)
  moreover have "pool_inv p'"
  proof -
    have slots: "q < length (pl_objects p) \<and> storage_index (get_session_id q p) = j"
      if "j < length (pl_sessions p)" "(pl_sessions p)[storage_index i := None] ! j = Some q" for j q
      using that inv_slot [OF p, of j q] c by (cases "j = storage_index i") auto
    have free: "set (pl_free_indices p @ [storage_index i]) =
        {j. j < length (pl_sessions p) \<and> (pl_sessions p)[storage_index i := None] ! j = None}"
      using inv_free(1) [OF p] c by (auto simp: nth_list_update)
    have fresh: "distinct (pl_free_indices p @ [storage_index i])" using inv_free(1,2) [OF p] slot by simp
    show ?thesis
      unfolding pool_inv_def gid using free fresh slots inv_free(3) [OF p] inv_object [OF p] by (simp add: p'_def)
  qed
  moreover have "pool_live p' = (pool_live p)(sid i := None)"
  proof
    fix n
    have "pl_sessions p ! storage_index i = Some n \<Longrightarrow> n = sid i" using slot by simp
    then show "pool_live p' n = ((pool_live p)(sid i := None)) n"
      using c slot unfolding pool_live_def gid
      by (cases "storage_index (get_session_id n p) = storage_index i") (auto simp: p'_def)
  qed
  ultimately show ?thesis using Some by (simp add: p'_def)
qed

lemma live_slots:
  assumes p: "pool_inv p"
  shows "pool_live p n = Some r \<longleftrightarrow> r = n \<and> Some n \<in> set (pl_sessions p)"
proof
  assume "pool_live p n = Some r"
  then show "r = n \<and> Some n \<in> set (pl_sessions p)"
    using inv_object [OF p, of n] by (auto simp: pool_live_def split: if_splits dest!: nth_mem)
next
  assume "r = n \<and> Some n \<in> set (pl_sessions p)"
  then obtain j where "r = n" "j < length (pl_sessions p)" "pl_sessions p ! j = Some n" by (auto simp: in_set_conv_nth)
  then show "pool_live p n = Some r" using inv_slot [OF p, of j n] by (simp add: pool_live_def)
qed

lemma live_list: "[r. Some r \<leftarrow> xs] = map the (filter (\<lambda>x. x \<noteq> None) xs)"
  by (induction xs) auto

lemma get_all_live:
  assumes p: "pool_inv p"
  shows "get_all p = map the (filter (\<lambda>x. x \<noteq> None) (pl_sessions p))" "set (get_all p) = dom (pool_live p)"
proof -
  have "storage_index (get_session_id r p) \<notin> set (pl_free_indices p)" if "Some r \<in> set (pl_sessions p)" for r
    using that inv_slot [OF p] inv_free(1) [OF p] by (auto simp: in_set_conv_nth)
  then have "get_all p = [r. Some r \<leftarrow> pl_sessions p]"
    unfolding get_all_def by (intro arg_cong [where f = concat] map_cong refl) (auto split: option.splits)
  then show *: "get_all p = map the (filter (\<lambda>x. x \<noteq> None) (pl_sessions p))" by (simp add: live_list)
  show "set (get_all p) = dom (pool_live p)"
    using live_slots [OF p] by (force simp: * dom_def image_iff)
qed

lemma size_correct:
  assumes p: "pool_inv p"
  shows "pool_size p = card (dom (pool_live p))" "distinct (get_all p)"
proof -
  define full where "full = {j. j < length (pl_sessions p) \<and> pl_sessions p ! j \<noteq> None}"
  define free where "free = {j. j < length (pl_sessions p) \<and> pl_sessions p ! j = None}"
  have "full \<union> free = {..<length (pl_sessions p)}" by (auto simp: full_def free_def)
  then have "card (full \<union> free) = length (pl_sessions p)" by simp
  moreover have "card (full \<union> free) = card full + card free"
    by (rule card_Un_disjoint) (auto simp: full_def free_def)
  moreover have "length (pl_free_indices p) = card free"
    using inv_free(1,2) [OF p] distinct_card [of "pl_free_indices p"] by (simp add: free_def)
  ultimately have size: "pool_size p = card full" by (simp add: pool_size_def)
  have "inj_on (\<lambda>j. the (pl_sessions p ! j)) full"
  proof (rule inj_onI)
    fix j k assume "j \<in> full" "k \<in> full" and e: "the (pl_sessions p ! j) = the (pl_sessions p ! k)"
    then obtain q r where "j < length (pl_sessions p)" "pl_sessions p ! j = Some q" "k < length (pl_sessions p)" "pl_sessions p ! k = Some r"
      by (auto simp: full_def)
    with e show "j = k" using inv_slot(2) [OF p, of j q] inv_slot(2) [OF p, of k r] by simp
  qed
  moreover have "(\<lambda>j. the (pl_sessions p ! j)) ` full = dom (pool_live p)"
    using live_slots [OF p] by (force simp: full_def dom_def image_iff in_set_conv_nth)
  ultimately show card: "pool_size p = card (dom (pool_live p))" unfolding size by (metis card_image)
  have "length (get_all p) = card full"
    using get_all_live(1) [OF p] by (simp add: length_filter_conv_card full_def)
  then show "distinct (get_all p)"
    using card size get_all_live(2) [OF p] by (intro card_distinct) simp
qed

section \<open>The pool as a table of handles\<close>

text \<open>
  What the session manager relies on: an id that was given out finds its session as long as it has
  not been removed, and finds nothing afterwards, whatever has been created since.
\<close>

locale handle_table =
  fixes inv :: "'p \<Rightarrow> bool" and live :: "'p \<Rightarrow> nat \<Rightarrow> 'r option" and issued :: "'p \<Rightarrow> 'i set" and key :: "'i \<Rightarrow> nat"
    and add :: "'a \<Rightarrow> 'p \<Rightarrow> ('i \<times> 'p) option" and get :: "'i \<Rightarrow> 'p \<Rightarrow> 'r option option" and del :: "'i \<Rightarrow> 'p \<Rightarrow> (bool \<times> 'p) option"
  assumes get_law: "inv p \<Longrightarrow> i \<in> issued p \<Longrightarrow> get i p = Some (live p (key i))"
    and del_law: "inv p \<Longrightarrow> i \<in> issued p \<Longrightarrow>
      \<exists>p'. del i p = Some (live p (key i) \<noteq> None, p') \<and> inv p' \<and> issued p' = issued p \<and> live p' = (live p)(key i := None)"
    and add_law: "inv p \<Longrightarrow>
      \<exists>i r p'. add a p = Some (i, p') \<and> inv p' \<and> issued p' = insert i (issued p) \<and> key i \<notin> key ` issued p \<and> live p' = (live p)(key i \<mapsto> r)"
begin

inductive evolves :: "'p \<Rightarrow> 'p \<Rightarrow> bool" where
  ev_refl: "evolves p p"
| ev_add: "evolves p q \<Longrightarrow> add a q = Some (i, q') \<Longrightarrow> evolves p q'"
| ev_del: "evolves p q \<Longrightarrow> i \<in> issued q \<Longrightarrow> del i q = Some (b, q') \<Longrightarrow> evolves p q'"

lemma evolves_keeps:
  "evolves p q \<Longrightarrow> inv p \<Longrightarrow> inv q \<and> issued p \<subseteq> issued q \<and>
     (\<forall>i \<in> issued p. live p (key i) = None \<longrightarrow> live q (key i) = None)"
proof (induction rule: evolves.induct)
  case (ev_add p q a i q')
  then obtain j r where "inv q'" "issued q' = insert j (issued q)" "key j \<notin> key ` issued q" "live q' = (live q)(key j \<mapsto> r)"
    using add_law [of q a] by auto
  moreover have "key i \<noteq> key j" if "i \<in> issued p" for i using ev_add calculation(3) that by (metis imageI subsetD)
  ultimately show ?case using ev_add by auto
next
  case (ev_del p q i b q')
  then have "inv q'" "issued q' = issued q" "live q' = (live q)(key i := None)" using del_law [of q i] by auto
  with ev_del show ?case by auto
qed simp

lemma stale_handle:
  assumes "inv p" "i \<in> issued p" "del i p = Some (b, q)" "evolves q p'"
  shows "get i p' = Some None"
proof -
  have "inv q" "i \<in> issued q" "live q (key i) = None" using del_law [OF assms(1,2)] assms(2,3) by auto
  then show ?thesis using evolves_keeps [OF assms(4)] get_law [of p' i] by auto
qed

end

definition emplace_id :: "Role \<times> SessionParameters \<Rightarrow> pool \<Rightarrow> (SessionID \<times> pool) option" where
  "emplace_id a p = do { (r, p') \<leftarrow> emplace_session (fst a) (snd a) p; Some (get_session_id r p', p') }"

interpretation sp: handle_table pool_inv pool_live pool_issued sid emplace_id pool_get pool_remove
proof
  show "pool_inv p \<Longrightarrow> i \<in> pool_issued p \<Longrightarrow> pool_get i p = Some (pool_live p (sid i))" for i p by (rule get_correct)
  show "\<exists>p'. pool_remove i p = Some (pool_live p (sid i) \<noteq> None, p') \<and> pool_inv p' \<and> pool_issued p' = pool_issued p \<and>
      pool_live p' = (pool_live p)(sid i := None)" if "pool_inv p" "i \<in> pool_issued p" for i p
    using remove_correct [OF that] by (auto simp: pool_issued_def)
  show "\<exists>i r p'. emplace_id a p = Some (i, p') \<and> pool_inv p' \<and> pool_issued p' = insert i (pool_issued p) \<and>
      sid i \<notin> sid ` pool_issued p \<and> pool_live p' = (pool_live p)(sid i \<mapsto> r)" if inv: "pool_inv p" for a p
  proof -
    obtain r p' s where e: "emplace_session (fst a) (snd a) p = Some (r, p')" "pool_inv p'" "r = length (pl_objects p)"
      "pl_objects p' = pl_objects p @ [s]" "sid (s_id s) = r" "pool_live p' = (pool_live p)(r \<mapsto> r)"
      using emplace_correct [OF inv, of "fst a" "snd a"] by blast
    moreover have "get_session_id r p' = s_id s" using e by (simp add: get_session_id_def)
    moreover have "r \<notin> sid ` pool_issued p" using issued_cases [OF inv] e(3) by fastforce
    ultimately show ?thesis by (auto simp: emplace_id_def pool_issued_def)
  qed
qed

section \<open>Main theorem\<close>

text \<open>
  The pool together with the ids given out and those still in use, after any creations and
  removals.
\<close>

inductive pool_run :: "pool \<Rightarrow> SessionID list \<Rightarrow> SessionID list \<Rightarrow> bool" where
  pr_new: "pool_run pool_new [] []"
| pr_emplace: "pool_run p issued used \<Longrightarrow> emplace_session role params p = Some (r, p') \<Longrightarrow> i = get_session_id r p' \<Longrightarrow>
    pool_run p' (issued @ [i]) (used @ [i])"
| pr_remove: "pool_run p issued used \<Longrightarrow> i \<in> set issued \<Longrightarrow> pool_remove i p = Some (b, p') \<Longrightarrow>
    pool_run p' issued (filter (\<lambda>j. \<not> SessionID_eq i j) used)"

lemma pool_run_inv:
  "pool_run p issued used \<Longrightarrow> pool_inv p \<and> set issued = pool_issued p \<and> map sid issued = [0..<length (pl_objects p)] \<and>
     set used \<subseteq> set issued \<and> distinct used \<and> dom (pool_live p) = sid ` set used"
proof (induction rule: pool_run.induct)
  case pr_new
  then show ?case using pool_new_inv by (simp add: pool_issued_def pool_new_def pool_live_def dom_def)
next
  case (pr_emplace p issued used role params r p' i)
  then have p: "pool_inv p" by simp
  obtain s where e: "pool_inv p'" "r = length (pl_objects p)" "pl_objects p' = pl_objects p @ [s]" "sid (s_id s) = r"
    "pool_live p' = (pool_live p)(r \<mapsto> r)"
    using emplace_correct [OF p, of role params] pr_emplace.hyps(2) by auto
  then have i: "i = s_id s" using pr_emplace.hyps(3) by (simp add: get_session_id_def)
  have "i \<notin> set issued" using issued_cases [OF p] pr_emplace.IH e(2,4) i by fastforce
  moreover have "dom (pool_live p') = insert (sid i) (sid ` set used)" using pr_emplace.IH e(4,5) i by auto
  ultimately show ?case using pr_emplace.IH e(1-4) i by (auto simp: pool_issued_def)
next
  case (pr_remove p issued used i b p')
  then have p: "pool_inv p" and i: "i \<in> pool_issued p" by auto
  have e: "pool_inv p'" "pl_objects p' = pl_objects p" "pool_live p' = (pool_live p)(sid i := None)"
    using remove_correct [OF p i] pr_remove.hyps(3) by auto
  then have "pool_issued p' = pool_issued p" by (simp add: pool_issued_def)
  moreover have "dom (pool_live p') = sid ` set (filter (\<lambda>j. \<not> SessionID_eq i j) used)"
    using pr_remove.IH e(3) by (auto simp: SessionID_eq_def)
  ultimately show ?case using pr_remove.IH e(1,2) by auto
qed

text \<open>
  C19: The session pool is a table of handles. After any sequence of creations and removals, every id
  that was given out has its own number; \<open>get\<close> returns for it, without an exception, the session
  created under it while it is in use and a null pointer after its removal, also when its
  slot was given to another session; \<open>size\<close> is the number of ids in use and \<open>get_all\<close> lists exactly
  their sessions, each once.\<close>

theorem pool_handles_correct:
  assumes "pool_run p issued used"
  shows "distinct (map sid issued) \<and>
    (\<forall>i \<in> set issued. pool_get i p = Some (if i \<in> set used then Some (sid i) else None) \<and> get_session_id (sid i) p = i) \<and>
    pool_size p = length used \<and> set (get_all p) = sid ` set used \<and> distinct (get_all p)"
proof (intro conjI)
  have p: "pool_inv p" and iss: "set issued = pool_issued p" "map sid issued = [0..<length (pl_objects p)]"
    and us: "set used \<subseteq> set issued" "distinct used" "dom (pool_live p) = sid ` set used"
    using pool_run_inv [OF assms] by blast+
  show d: "distinct (map sid issued)" by (simp add: iss(2))
  then have inj: "inj_on sid (set issued)" by (simp add: distinct_map)
  show "\<forall>i \<in> set issued. pool_get i p = Some (if i \<in> set used then Some (sid i) else None) \<and> get_session_id (sid i) p = i"
  proof
    fix i assume i: "i \<in> set issued"
    have "i \<in> set used \<longleftrightarrow> sid i \<in> dom (pool_live p)" unfolding us(3) using us(1) i inj by (auto dest: inj_onD)
    moreover have "pool_live p n = Some r \<Longrightarrow> r = n" for n r using live_slots [OF p] by blast
    ultimately have "pool_live p (sid i) = (if i \<in> set used then Some (sid i) else None)" by (cases "pool_live p (sid i)") auto
    then show "pool_get i p = Some (if i \<in> set used then Some (sid i) else None) \<and> get_session_id (sid i) p = i"
      using get_correct [OF p, of i] issued_cases [OF p, of i] i iss(1) by simp
  qed
  have "card (sid ` set used) = length used"
    using us inj by (metis card_image distinct_card inj_on_subset)
  then show "pool_size p = length used" using size_correct(1) [OF p] us(3) by simp
  show "set (get_all p) = sid ` set used" "distinct (get_all p)" using get_all_live(2) [OF p] us(3) size_correct(2) [OF p] by simp_all
qed

theorem pool_handles_correct_witness:
  "\<exists>p a b. storage_index a = storage_index b \<and> pool_get a p = Some None \<and> pool_get b p = Some (Some 1) \<and> get_session_id 1 p = b \<and> pool_size p = 1"
proof -
  define a b where "a = \<lparr>storage_index = 0, sid = 0\<rparr>" and "b = \<lparr>storage_index = 0, sid = 1\<rparr>"
  obtain s1 s2 where s: "session_new a INITIATOR default_params = Some s1" "session_new b INITIATOR default_params = Some s2"
    using session_new_inv by blast
  note s_id = s [THEN session_new_id] and s = s [unfolded a_def b_def]
  define p1 where "p1 = \<lparr>pl_sessions = [Some 0], pl_free_indices = [], pl_next_idx = 1, pl_objects = [s1]\<rparr>"
  define p2 where "p2 = \<lparr>pl_sessions = [None], pl_free_indices = [0], pl_next_idx = 1, pl_objects = [s1]\<rparr>"
  define p3 where "p3 = \<lparr>pl_sessions = [Some 1], pl_free_indices = [], pl_next_idx = 2, pl_objects = [s1, s2]\<rparr>"
  have "emplace_session INITIATOR default_params pool_new = Some (0, p1)"
    using s by (simp add: emplace_session_def pool_new_def generate_session_Id_def make_session_def p1_def)
  from pr_emplace [OF pr_new this refl] have r1: "pool_run p1 [a] [a]" using s_id by (simp add: get_session_id_def p1_def)
  have "pool_remove a p1 = Some (True, p2)"
    using s_id by (simp add: pool_remove_def p1_def p2_def a_def get_session_id_def SessionID_eq_def)
  from pr_remove [OF r1 _ this] have r2: "pool_run p2 [a] []" by (simp add: SessionID_eq_def)
  have "emplace_session INITIATOR default_params p2 = Some (1, p3)"
    using s by (simp add: emplace_session_def generate_session_Id_def make_session_def p2_def p3_def)
  from pr_emplace [OF r2 this refl] have r3: "pool_run p3 [a, b] [b]" using s_id by (simp add: get_session_id_def p3_def)
  have ab: "a \<noteq> b" "storage_index a = storage_index b" "sid b = 1" by (simp_all add: a_def b_def)
  note h = pool_handles_correct [OF r3]
  have "pool_get a p3 = Some None" "pool_get b p3 = Some (Some 1)" "get_session_id 1 p3 = b" "pool_size p3 = 1"
    using h ab(1,3) by simp_all
  with ab(2) show ?thesis by blast
qed

end
