(* ===== verification/Session_Manager.thy ===== *)
theory Session_Manager
  imports Session_Pool
begin

text \<open>
  \<open>Fix::SessionManager\<close> (include/fix/core/SessionManager.hpp, src/SessionManager.cpp). The manager
  posts its work to its own strand (\<open>mg_strand\<close>), hands functions to the strands of the sessions
  (\<open>mg_inbox\<close>, the functions of one session run in the order of the list) and asks the connection
  factory for connections (\<open>mg_requests\<close>). The callbacks given to a session post to the strand of
  the manager, so a step of a session turns its reconnect and application calls into tasks. Whether the
  weak pointer of a connection callback still locks is an input of that callback. Log lines and
  console output are \<open>mg_out\<close>; \<open>None\<close> is an exception or an access through a null pointer.
\<close>

record ConnectionConfig =
  cc_ip :: string
  cc_port :: "16 word"
  cc_role :: Role
  cc_backlog :: int

record SessionCreationConfig =
  cfg_role :: Role
  cfg_conn_config :: ConnectionConfig
  cfg_params :: SessionParameters

datatype Task =
  Reconnect_Task SessionID
  | App_Task ValidMessageView SessionID
  | Send_Task GenericMessage SessionID string
  | Stop_All_Task
  | Stop_Session_Task SessionID

datatype ConnKind = Listen | Connect

record ConnRequest =
  cr_kind :: ConnKind
  cr_config :: ConnectionConfig
  cr_session :: session_ref
  cr_mode :: StartMode

datatype ManagerEffect =
  Log_Session_Added SessionID string
  | Console string
  | Session_Log session_ref string
  | Close_Unclaimed

record manager =
  mg_pool :: pool
  mg_configs :: "(SessionID \<times> SessionCreationConfig) list"
  mg_strand :: "Task list"
  mg_inbox :: "(session_ref \<times> Event) list"
  mg_requests :: "ConnRequest list"
  mg_app :: "(ValidMessageView \<times> SessionID) list"
  mg_out :: "ManagerEffect list"

definition manager_new :: manager where
  "manager_new = \<lparr>mg_pool = pool_new, mg_configs = [], mg_strand = [], mg_inbox = [], mg_requests = [], mg_app = [], mg_out = []\<rparr>"

section \<open>Operations\<close>

text \<open>The map of configurations compares ids by their number; \<open>emplace\<close> keeps an entry that exists.\<close>

definition config_find :: "SessionID \<Rightarrow> manager \<Rightarrow> SessionCreationConfig option" where
  "config_find i m = map_option snd (find (\<lambda>(j, _). SessionID_eq i j) (mg_configs m))"

definition config_emplace :: "SessionID \<Rightarrow> SessionCreationConfig \<Rightarrow> manager \<Rightarrow> manager" where
  "config_emplace i config m = (if config_find i m = None then m\<lparr>mg_configs := mg_configs m @ [(i, config)]\<rparr> else m)"

definition post :: "Task list \<Rightarrow> manager \<Rightarrow> manager" where
  "post ts m = m\<lparr>mg_strand := mg_strand m @ ts\<rparr>"

definition dispatch_to :: "session_ref \<Rightarrow> Event list \<Rightarrow> manager \<Rightarrow> manager" where
  "dispatch_to r es m = m\<lparr>mg_inbox := mg_inbox m @ map (Pair r) es\<rparr>"

definition request_connection :: "SessionCreationConfig \<Rightarrow> session_ref \<Rightarrow> StartMode \<Rightarrow> manager \<Rightarrow> manager" where
  "request_connection config r mode m =
     m\<lparr>mg_requests := mg_requests m @
        [\<lparr>cr_kind = (if cfg_role config = ACCEPTOR then Listen else Connect), cr_config = cfg_conn_config config,
          cr_session = r, cr_mode = mode\<rparr>]\<rparr>"

definition create_session :: "SessionCreationConfig \<Rightarrow> manager \<Rightarrow> (SessionID \<times> manager) option" where
  "create_session config m =
     do { (r, p) \<leftarrow> emplace_session (cfg_role config) (cfg_params config) (mg_pool m);
          let i = get_session_id r p;
          let m1 = config_emplace i config (m\<lparr>mg_pool := p,
             mg_out := mg_out m @ [Log_Session_Added i (readable_id (pl_objects p ! r))]\<rparr>);
          let m2 = m1\<lparr>mg_out := mg_out m1 @ [Console ''Session Created'']\<rparr>;
          Some (i, request_connection config r NORMAL m2) }"

definition connection_error_text :: "ConnKind \<Rightarrow> StartMode \<Rightarrow> string" where
  "connection_error_text kind mode =
     (case (kind, mode) of
        (Listen, NORMAL) \<Rightarrow> ''Failed to listen for incoming connection: ''
      | (Connect, NORMAL) \<Rightarrow> ''Failed to connect: ''
      | (Listen, RECONNECT) \<Rightarrow> ''Failed to listen for incoming connection during reconnect: ''
      | (Connect, RECONNECT) \<Rightarrow> ''Failed to reconnect after disconnect: '')"

text \<open>
  The callbacks of \<open>async_listen\<close> and \<open>async_connect\<close>. \<open>locked\<close>: the session still exists; \<open>conn\<close>: the
  connection pointer is not null.
\<close>

definition on_connection :: "(asio_error \<Rightarrow> string) \<Rightarrow> ConnRequest \<Rightarrow> bool \<Rightarrow> error_code \<Rightarrow> bool \<Rightarrow> manager \<Rightarrow> manager option" where
  "on_connection message req locked ec conn m =
     (case ec of
        Some e \<Rightarrow>
          Some (if locked
                then m\<lparr>mg_out := mg_out m @ [Session_Log (cr_session req) (connection_error_text (cr_kind req) (cr_mode req) @ message e)]\<rparr>
                else m)
      | None \<Rightarrow>
          if locked then Some (dispatch_to (cr_session req) [Set_Connection conn, Start (cr_mode req)] m)
          else if cr_kind req = Connect
          then do { assert_that conn; Some (m\<lparr>mg_out := mg_out m @ [Close_Unclaimed]\<rparr>) }
          else Some m)"

definition reconnect_session_impl :: "SessionID \<Rightarrow> manager \<Rightarrow> manager option" where
  "reconnect_session_impl i m =
     (case config_find i m of
        None \<Rightarrow> Some m
      | Some config \<Rightarrow>
          do { sess \<leftarrow> pool_get i (mg_pool m);
               Some (case sess of None \<Rightarrow> m | Some r \<Rightarrow> request_connection config r RECONNECT m) })"

text \<open>The functions that run on the strand of the manager.\<close>

fun run_task :: "Task \<Rightarrow> manager \<Rightarrow> manager option" where
  "run_task (Reconnect_Task i) m = reconnect_session_impl i m"
| "run_task (App_Task event i) m = Some (m\<lparr>mg_app := mg_app m @ [(event, i)]\<rparr>)"
| "run_task (Send_Task msg i msg_type) m =
     do { sess \<leftarrow> pool_get i (mg_pool m);
          Some (case sess of None \<Rightarrow> m | Some r \<Rightarrow> dispatch_to r [Send_From_App msg msg_type] m) }"
| "run_task Stop_All_Task m = Some (fold (\<lambda>r. dispatch_to r [Stop]) (get_all (mg_pool m)) m)"
| "run_task (Stop_Session_Task i) m =
     do { sess \<leftarrow> pool_get i (mg_pool m);
          Some (case sess of None \<Rightarrow> m | Some r \<Rightarrow> dispatch_to r [Stop] m) }"

definition manager_send :: "GenericMessage \<Rightarrow> SessionID \<Rightarrow> string \<Rightarrow> manager \<Rightarrow> manager" where
  "manager_send msg i msg_type m = post [Send_Task msg i msg_type] m"

definition stop_all :: "manager \<Rightarrow> manager" where
  "stop_all m = post [Stop_All_Task] m"

definition stop_session :: "SessionID \<Rightarrow> manager \<Rightarrow> manager" where
  "stop_session i m = post [Stop_Session_Task i] m"

fun create_all :: "SessionCreationConfig list \<Rightarrow> manager \<Rightarrow> (SessionID list \<times> manager) option" where
  "create_all [] m = Some ([], m)"
| "create_all (config # configs) m =
     do { (i, m1) \<leftarrow> create_session config m; (is, m2) \<leftarrow> create_all configs m1; Some (i # is, m2) }"

fun start_each :: "session_ref option list \<Rightarrow> manager \<Rightarrow> manager option" where
  "start_each [] m = Some m"
| "start_each (None # rs) m = None"
| "start_each (Some r # rs) m = start_each rs (dispatch_to r [Start NORMAL] m)"

definition start_all :: "manager \<Rightarrow> manager option" where
  "start_all m = start_each (get_all_at_start (mg_pool m)) m"

definition remove_session :: "SessionID \<Rightarrow> manager \<Rightarrow> (bool \<times> manager) option" where
  "remove_session i m = do { (b, p) \<leftarrow> pool_remove i (mg_pool m); Some (b, m\<lparr>mg_pool := p\<rparr>) }"

definition findSession :: "SessionID \<Rightarrow> manager \<Rightarrow> session_ref option option" where
  "findSession i m = pool_get i (mg_pool m)"

definition sessionCount :: "manager \<Rightarrow> nat" where
  "sessionCount m = pool_size (mg_pool m)"

text \<open>
  One event on the strand of a session; the callbacks of \<open>create_session\<close> post what the session calls
  them with.
\<close>

fun callback_tasks :: "Effect \<Rightarrow> Task list" where
  "callback_tasks (Reconnect_Call i) = [Reconnect_Task i]"
| "callback_tasks (App_Sink event i) = [App_Task event i]"
| "callback_tasks _ = []"

definition run_event :: "(asio_error \<Rightarrow> string) \<Rightarrow> session_ref \<Rightarrow> Event \<Rightarrow> manager \<Rightarrow> manager option" where
  "run_event message r e m =
     do { s \<leftarrow> array_get (pl_objects (mg_pool m)) r;
          t \<leftarrow> session_step message e s;
          Some (post (concat (map callback_tasks (drop (length (s_out s)) (s_out t))))
            (m\<lparr>mg_pool := (mg_pool m)\<lparr>pl_objects := (pl_objects (mg_pool m))[r := t]\<rparr>\<rparr>)) }"

text \<open>The functions handed to the sessions, run to the end in their order.\<close>

fun run_inbox :: "(asio_error \<Rightarrow> string) \<Rightarrow> (session_ref \<times> Event) list \<Rightarrow> manager \<Rightarrow> manager option" where
  "run_inbox message [] m = Some m"
| "run_inbox message ((r, e) # es) m = do { m1 \<leftarrow> run_event message r e m; run_inbox message es m1 }"

section \<open>The engine as a transition system\<close>

text \<open>
  An order of everything that can happen: calls of the interface with ids that were given out, the
  next task of the manager's strand, a function handed to a session (the first one waiting for
  that session), a completion of a read, a write or a timer of a session, and the answer to a
  connection request; the weak pointer of its callback locks at least as long as the pool has the
  session. \<open>boost::asio\<close> decides which of them comes next.
\<close>

definition completion :: "Event \<Rightarrow> bool" where
  "completion e \<longleftrightarrow> (case e of Start _ \<Rightarrow> False | Stop \<Rightarrow> False | Set_Connection _ \<Rightarrow> False | Send_From_App _ _ \<Rightarrow> False | _ \<Rightarrow> True)"

inductive mg_step :: "(asio_error \<Rightarrow> string) \<Rightarrow> manager \<Rightarrow> manager \<Rightarrow> bool" for message where
  st_create: "create_session config m = Some (i, m') \<Longrightarrow> mg_step message m m'"
| st_remove: "i \<in> pool_issued (mg_pool m) \<Longrightarrow> remove_session i m = Some (b, m') \<Longrightarrow> mg_step message m m'"
| st_send: "i \<in> pool_issued (mg_pool m) \<Longrightarrow> mg_step message m (manager_send msg i msg_type m)"
| st_stop: "i \<in> pool_issued (mg_pool m) \<Longrightarrow> mg_step message m (stop_session i m)"
| st_stop_all: "mg_step message m (stop_all m)"
| st_start_all: "start_all m = Some m' \<Longrightarrow> mg_step message m m'"
| st_task: "mg_strand m = t # ts \<Longrightarrow> run_task t (m\<lparr>mg_strand := ts\<rparr>) = Some m' \<Longrightarrow> mg_step message m m'"
| st_inbox: "mg_inbox m = es @ (r, e) # fs \<Longrightarrow> r \<notin> fst ` set es \<Longrightarrow> run_event message r e (m\<lparr>mg_inbox := es @ fs\<rparr>) = Some m' \<Longrightarrow>
    mg_step message m m'"
| st_io: "completion e \<Longrightarrow> run_event message r e m = Some m' \<Longrightarrow> mg_step message m m'"
| st_conn: "mg_requests m = qs @ q # qs' \<Longrightarrow> (pool_live (mg_pool m) (cr_session q) \<noteq> None \<longrightarrow> locked) \<Longrightarrow>
    on_connection message q locked ec conn (m\<lparr>mg_requests := qs @ qs'\<rparr>) = Some m' \<Longrightarrow>
    mg_step message m m'"

abbreviation mg_reach :: "(asio_error \<Rightarrow> string) \<Rightarrow> manager \<Rightarrow> bool" where
  "mg_reach message \<equiv> (mg_step message)\<^sup>*\<^sup>* manager_new"

section \<open>What a session tells its manager\<close>

text \<open>A session asks for its own reconnection and never calls the application.\<close>

fun own_effect :: "SessionID \<Rightarrow> Effect \<Rightarrow> bool" where
  "own_effect i (Reconnect_Call j) \<longleftrightarrow> j = i"
| "own_effect i (App_Sink event j) \<longleftrightarrow> False"
| "own_effect i _ \<longleftrightarrow> True"

definition speaks :: "session \<Rightarrow> session \<Rightarrow> bool" where
  "speaks s t \<longleftrightarrow> s_id t = s_id s \<and> s_role t = s_role s \<and> (\<exists>es. s_out t = s_out s @ es \<and> list_all (own_effect (s_id s)) es)"

lemma speaks_silent: "s_id t = s_id s \<Longrightarrow> s_role t = s_role s \<Longrightarrow> s_out t = s_out s \<Longrightarrow> speaks s t"
  by (auto simp: speaks_def)

lemma speaks_emit: "list_all (own_effect (s_id s)) es \<Longrightarrow> speaks s (emit es s)"
  by (simp add: speaks_def emit_def)

lemma speaks_trans: "speaks s t \<Longrightarrow> speaks t u \<Longrightarrow> speaks s u"
  by (auto simp: speaks_def)

lemma quiet_own: "quiet e \<Longrightarrow> own_effect i e"
  by (cases e) simp_all

lemma speaks_do_write: "do_write s = Some t \<Longrightarrow> speaks s t"
  by (auto simp: do_write_def bind_eq_Some_conv split: list.splits if_splits intro: speaks_silent speaks_emit)

lemma speaks_cong: "speaks s0 t \<Longrightarrow> s_id s0 = s_id s \<Longrightarrow> s_role s0 = s_role s \<Longrightarrow> s_out s0 = s_out s \<Longrightarrow> speaks s t"
  by (simp add: speaks_def)

lemma speaks_send_bytes: "send_bytes w s = Some t \<Longrightarrow> speaks s t"
  by (cases "s_write_inflight s") (auto simp: send_bytes_def intro: speaks_silent speaks_cong [OF speaks_do_write])

lemma speaks_clear: "clear_write_q s = Some t \<Longrightarrow> speaks s t"
  by (auto simp: clear_write_q_def bind_eq_Some_conv intro: speaks_silent)

lemma speaks_micro: "micro fr s t \<Longrightarrow> speaks s t"
proof (induction rule: micro.induct)
  case (m_quiet es s)
  then show ?case by (intro speaks_emit) (auto simp: list_all_iff quiet_own)
next
  case (m_send s m w a t)
  show ?case by (rule speaks_cong [OF speaks_send_bytes [OF m_send(3)]]) simp_all
next
  case (m_clear s t)
  show ?case by (rule speaks_cong [OF speaks_clear [OF m_clear]]) simp_all
next
  case (m_stop s t)
  show ?case by (rule speaks_cong [OF speaks_clear [OF m_stop]]) simp_all
next
  case (m_written s message n t)
  then show ?case
    by (auto simp: on_write_def Let_def bind_eq_Some_conv split: list.splits if_splits intro: speaks_cong [OF speaks_do_write])
qed (auto simp: same_core_def intro: speaks_silent speaks_emit speaks_do_write)

lemma speaks_step: "session_step message e s = Some t \<Longrightarrow> speaks s t"
proof -
  assume "session_step message e s = Some t"
  then have "micros True s t" by (rule session_step_micros)
  then show ?thesis by (induction rule: rtranclp_induct) (auto intro: speaks_silent speaks_trans speaks_micro)
qed

section \<open>Invariant of the engine\<close>

fun task_ok :: "SessionID set \<Rightarrow> Task \<Rightarrow> bool" where
  "task_ok ids (Reconnect_Task i) \<longleftrightarrow> i \<in> ids"
| "task_ok ids (App_Task event i) \<longleftrightarrow> False"
| "task_ok ids (Send_Task msg i msg_type) \<longleftrightarrow> i \<in> ids"
| "task_ok ids Stop_All_Task \<longleftrightarrow> True"
| "task_ok ids (Stop_Session_Task i) \<longleftrightarrow> i \<in> ids"

definition conn_kind :: "Role \<Rightarrow> ConnKind" where
  "conn_kind role = (if role = ACCEPTOR then Listen else Connect)"

definition request_ok :: "manager \<Rightarrow> ConnRequest \<Rightarrow> bool" where
  "request_ok m q \<longleftrightarrow> cr_session q < length (mg_configs m) \<and>
     (let config = snd (mg_configs m ! cr_session q) in cr_config q = cfg_conn_config config \<and> cr_kind q = conn_kind (cfg_role config))"

definition mg_inv :: "(asio_error \<Rightarrow> string) \<Rightarrow> manager \<Rightarrow> bool" where
  "mg_inv message m \<longleftrightarrow>
     pool_inv (mg_pool m) \<and> mg_app m = [] \<and> map fst (mg_configs m) = map s_id (pl_objects (mg_pool m)) \<and>
     map (cfg_role \<circ> snd) (mg_configs m) = map s_role (pl_objects (mg_pool m)) \<and>
     (\<forall>s \<in> set (pl_objects (mg_pool m)). session_reach message s) \<and>
     (\<forall>q \<in> set (mg_requests m). request_ok m q) \<and>
     (\<forall>(r, e) \<in> set (mg_inbox m). r < length (pl_objects (mg_pool m))) \<and>
     (\<forall>t \<in> set (mg_strand m). task_ok (pool_issued (mg_pool m)) t)"

lemma config_find_issued:
  assumes m: "mg_inv message m" and i: "i \<in> pool_issued (mg_pool m)"
  shows "config_find i m = Some (snd (mg_configs m ! sid i))" "sid i < length (mg_configs m)" "length (mg_configs m) = length (pl_objects (mg_pool m))"
proof -
  have p: "pool_inv (mg_pool m)" and c: "map fst (mg_configs m) = map s_id (pl_objects (mg_pool m))" using m by (simp_all add: mg_inv_def)
  show len: "length (mg_configs m) = length (pl_objects (mg_pool m))" using arg_cong [OF c, of length] by simp
  then show n: "sid i < length (mg_configs m)" using issued_cases [OF p i] by simp
  have key: "sid (fst (mg_configs m ! k)) = k" if "k < length (mg_configs m)" for k
    using inv_object(1) [OF p, of k] that len nth_map [OF that, of fst] c by (simp add: get_session_id_def)
  have "find (\<lambda>(j, _). SessionID_eq i j) (mg_configs m) = Some (mg_configs m ! sid i)"
    unfolding find_Some_iff
    by (rule exI [of _ "sid i"]) (use n key in \<open>auto simp: SessionID_eq_def split_beta\<close>)
  then show "config_find i m = Some (snd (mg_configs m ! sid i))" by (simp add: config_find_def)
qed

lemma get_issued:
  assumes "mg_inv message m" "i \<in> pool_issued (mg_pool m)"
  shows "pool_get i (mg_pool m) = Some (pool_live (mg_pool m) (sid i))" "pool_live (mg_pool m) (sid i) \<in> {None, Some (sid i)}"
  using get_correct [of "mg_pool m" i] assms by (auto simp: mg_inv_def pool_live_def)

section \<open>Every step keeps the invariant\<close>

lemma mg_inv_dispatch:
  "mg_inv message m \<Longrightarrow> r < length (pl_objects (mg_pool m)) \<Longrightarrow> mg_inv message (dispatch_to r es m)"
  by (auto simp: mg_inv_def dispatch_to_def request_ok_def)

lemma mg_inv_request:
  assumes "mg_inv message m" "r < length (mg_configs m)"
  shows "mg_inv message (request_connection (snd (mg_configs m ! r)) r mode m)"
  using assms by (auto simp: mg_inv_def request_connection_def request_ok_def conn_kind_def)

lemma mg_inv_post: "mg_inv message m \<Longrightarrow> list_all (task_ok (pool_issued (mg_pool m))) ts \<Longrightarrow> mg_inv message (post ts m)"
  by (auto simp: mg_inv_def post_def request_ok_def list_all_iff)

lemma mg_inv_run_task:
  assumes m: "mg_inv message m" and t: "task_ok (pool_issued (mg_pool m)) t"
  shows "\<exists>m'. run_task t m = Some m' \<and> mg_inv message m'"
proof -
  have ref: "r < length (pl_objects (mg_pool m))" if "i \<in> pool_issued (mg_pool m)" "pool_live (mg_pool m) (sid i) = Some r" for i r
    using that(2) by (auto simp: pool_live_def split: if_splits)
  show ?thesis
  proof (cases t)
    case (Reconnect_Task i)
    then show ?thesis
      using t get_issued [OF m, of i] config_find_issued [OF m, of i] mg_inv_request [OF m, of "sid i" RECONNECT] m
      by (auto simp: reconnect_session_impl_def)
  next
    case (App_Task event i)
    then show ?thesis using t by simp
  next
    case (Send_Task msg i msg_type)
    then show ?thesis using t get_issued [OF m, of i] mg_inv_dispatch [OF m] ref [of i] m by (auto split: option.splits)
  next
    case Stop_All_Task
    have "mg_inv message (fold (\<lambda>r. dispatch_to r [Stop]) rs n)" if "mg_inv message n" "mg_pool n = mg_pool m" "set rs \<subseteq> set (get_all (mg_pool m))" for rs n
      using that
    proof (induction rs arbitrary: n)
      case (Cons r rs)
      have "r < length (pl_objects (mg_pool n))"
        using get_all_live(2) [of "mg_pool m"] m Cons.prems by (auto simp: mg_inv_def pool_live_def split: if_splits)
      then show ?case using Cons mg_inv_dispatch [of message n r "[Stop]"] by (simp add: dispatch_to_def)
    qed simp
    then show ?thesis using Stop_All_Task m by simp
  next
    case (Stop_Session_Task i)
    then show ?thesis using t get_issued [OF m, of i] mg_inv_dispatch [OF m] ref [of i] m by (auto split: option.splits)
  qed
qed

lemma pool_object_update:
  assumes "r < length (pl_objects p)" "s_id t = s_id (pl_objects p ! r)" "p' = p\<lparr>pl_objects := (pl_objects p)[r := t]\<rparr>"
  shows "pool_inv p' = pool_inv p" "pool_live p' = pool_live p" "pool_issued p' = pool_issued p" "map s_id (pl_objects p') = map s_id (pl_objects p)"
proof -
  show ids: "map s_id (pl_objects p') = map s_id (pl_objects p)"
    using assms by (simp add: map_update list_update_same_conv)
  have g: "get_session_id q p' = get_session_id q p" for q
    using assms by (cases "q = r") (simp_all add: get_session_id_def)
  show "pool_inv p' = pool_inv p" "pool_live p' = pool_live p"
    unfolding pool_inv_def pool_live_def g using assms(3) by (simp_all add: fun_eq_iff)
  show "pool_issued p' = pool_issued p"
    using arg_cong [OF ids, of set] by (simp add: pool_issued_def)
qed

lemma run_event_elim:
  assumes "run_event message r e m = Some m'"
  obtains t where "r < length (pl_objects (mg_pool m))" "session_step message e (pl_objects (mg_pool m) ! r) = Some t"
    "m' = post (concat (map callback_tasks (drop (length (s_out (pl_objects (mg_pool m) ! r))) (s_out t))))
       (m\<lparr>mg_pool := (mg_pool m)\<lparr>pl_objects := (pl_objects (mg_pool m))[r := t]\<rparr>\<rparr>)"
  using assms by (auto simp: run_event_def bind_eq_Some_conv array_get_def split: if_splits)

lemma mg_inv_run_event:
  assumes m: "mg_inv message m" and e: "run_event message r e m = Some m'"
  shows "mg_inv message m'"
proof -
  let ?p = "mg_pool m"
  obtain t where r: "r < length (pl_objects ?p)" and t: "session_step message e (pl_objects ?p ! r) = Some t"
    and m': "m' = post (concat (map callback_tasks (drop (length (s_out (pl_objects ?p ! r))) (s_out t))))
       (m\<lparr>mg_pool := ?p\<lparr>pl_objects := (pl_objects ?p)[r := t]\<rparr>\<rparr>)"
    using e by (rule run_event_elim)
  let ?s = "pl_objects ?p ! r" and ?p' = "?p\<lparr>pl_objects := (pl_objects ?p)[r := t]\<rparr>"
  obtain es where sp: "s_id t = s_id ?s" "s_role t = s_role ?s" "s_out t = s_out ?s @ es" "list_all (own_effect (s_id ?s)) es"
    using speaks_step [OF t] by (auto simp: speaks_def)
  note u = pool_object_update [OF r sp(1) refl]
  have "session_reach message t" using m r t by (auto simp: mg_inv_def intro: reach_event)
  then have reach: "\<forall>s \<in> set (pl_objects ?p'). session_reach message s"
    using m set_update_subset_insert [of "pl_objects ?p" r t] by (auto simp: mg_inv_def)
  have roles: "map s_role (pl_objects ?p') = map s_role (pl_objects ?p)"
    using r sp(2) by (simp add: map_update list_update_same_conv)
  have "?s \<in> set (pl_objects ?p)" using r by simp
  then have "s_id ?s \<in> pool_issued ?p" by (simp add: pool_issued_def)
  moreover have "own_effect i f \<Longrightarrow> i \<in> I \<Longrightarrow> list_all (task_ok I) (callback_tasks f)" for f i I by (cases f) simp_all
  ultimately have tasks: "list_all (task_ok (pool_issued ?p)) (concat (map callback_tasks es))"
    using sp(4) by (fastforce simp: list_all_iff)
  show ?thesis
    unfolding m' using m u reach roles tasks sp(3)
    by (intro mg_inv_post) (simp_all add: mg_inv_def request_ok_def)
qed

lemma task_ok_mono: "task_ok ids t \<Longrightarrow> ids \<subseteq> ids' \<Longrightarrow> task_ok ids' t"
  by (cases t) auto

lemma session_new_role: "session_new i role params = Some s \<Longrightarrow> s_role s = role"
  by (auto simp: session_new_def bind_eq_Some_conv)

lemma configs_length: "mg_inv message m \<Longrightarrow> length (mg_configs m) = length (pl_objects (mg_pool m))"
  unfolding mg_inv_def using map_eq_imp_length_eq by blast

lemma mg_inv_create:
  assumes m: "mg_inv message m"
  shows "\<exists>i m'. create_session config m = Some (i, m') \<and> mg_inv message m' \<and> sid i = length (pl_objects (mg_pool m)) \<and>
     pool_issued (mg_pool m') = insert i (pool_issued (mg_pool m)) \<and> pool_live (mg_pool m') = (pool_live (mg_pool m))(sid i \<mapsto> sid i) \<and>
     mg_configs m' = mg_configs m @ [(i, config)]"
proof -
  let ?p = "mg_pool m"
  have p: "pool_inv ?p" and cfg: "map fst (mg_configs m) = map s_id (pl_objects ?p)" using m by (simp_all add: mg_inv_def)
  have len: "length (mg_configs m) = length (pl_objects ?p)" using arg_cong [OF cfg, of length] by simp
  obtain r p' s where e: "emplace_session (cfg_role config) (cfg_params config) ?p = Some (r, p')" "pool_inv p'" "r = length (pl_objects ?p)"
    "pl_objects p' = pl_objects ?p @ [s]" "session_new (s_id s) (cfg_role config) (cfg_params config) = Some s" "sid (s_id s) = r"
    "pool_live p' = (pool_live ?p)(r \<mapsto> r)"
    using emplace_correct [OF p, of "cfg_role config" "cfg_params config"] by blast
  have i: "get_session_id r p' = s_id s" using e(3,4) by (simp add: get_session_id_def)
  have new: "i \<in> pool_issued ?p \<Longrightarrow> sid i \<noteq> r" for i using issued_cases [OF p, of i] e(3) by auto
  have "sid j \<noteq> r" if "(j, c) \<in> set (mg_configs m)" for j c
    using that new [of j] arg_cong [OF cfg, of set] by (force simp: pool_issued_def)
  then have none: "config_find (s_id s) m = None"
    using e(6) by (auto simp: config_find_def find_None_iff SessionID_eq_def)
  define m2 where "m2 = m\<lparr>mg_pool := p', mg_configs := mg_configs m @ [(s_id s, config)],
    mg_out := mg_out m @ [Log_Session_Added (s_id s) (readable_id s)] @ [Console ''Session Created'']\<rparr>"
  have step: "create_session config m = Some (s_id s, request_connection config r NORMAL m2)"
    using e(1,3,4) i none by (simp add: create_session_def config_emplace_def config_find_def m2_def Let_def)
  have ids: "pool_issued p' = insert (s_id s) (pool_issued ?p)" using e(4) by (simp add: pool_issued_def)
  have mono: "task_ok (pool_issued ?p) t \<Longrightarrow> task_ok (pool_issued p') t" for t using ids task_ok_mono by blast
  have role: "s_role s = cfg_role config" using e(5) by (rule session_new_role)
  have "session_reach message s" using e(5) by (rule reach_start)
  moreover have "request_ok m q \<Longrightarrow> request_ok m2 q" for q by (auto simp: request_ok_def m2_def nth_append)
  ultimately have "mg_inv message m2"
    using m e(2,4) mono role unfolding mg_inv_def by (auto simp: m2_def)
  moreover have "snd (mg_configs m2 ! r) = config" "r < length (mg_configs m2)" by (simp_all add: m2_def e(3) len [symmetric])
  ultimately have "mg_inv message (request_connection config r NORMAL m2)"
    using mg_inv_request [of message m2 r NORMAL] by simp
  then show ?thesis using step ids e(3,6,7) by (simp add: request_connection_def m2_def)
qed

lemma mg_inv_remove:
  assumes m: "mg_inv message m" and i: "i \<in> pool_issued (mg_pool m)"
  shows "\<exists>m'. remove_session i m = Some (pool_live (mg_pool m) (sid i) \<noteq> None, m') \<and> mg_inv message m' \<and>
     pool_live (mg_pool m') = (pool_live (mg_pool m))(sid i := None) \<and> m' = m\<lparr>mg_pool := mg_pool m'\<rparr>"
proof -
  have p: "pool_inv (mg_pool m)" using m by (simp add: mg_inv_def)
  obtain p' where e: "pool_remove i (mg_pool m) = Some (pool_live (mg_pool m) (sid i) \<noteq> None, p')" "pool_inv p'"
    "pl_objects p' = pl_objects (mg_pool m)" "pool_live p' = (pool_live (mg_pool m))(sid i := None)"
    using remove_correct [OF p i] by blast
  then have "mg_inv message (m\<lparr>mg_pool := p'\<rparr>)" using m by (simp add: mg_inv_def pool_issued_def request_ok_def)
  then show ?thesis using e by (simp add: remove_session_def)
qed

lemma start_each_inv:
  assumes "start_each rs m = Some m'" "mg_inv message m" "\<forall>r. Some r \<in> set rs \<longrightarrow> r < length (pl_objects (mg_pool m))"
  shows "mg_inv message m'"
  using assms by (induction rs m rule: start_each.induct) (auto simp: mg_inv_dispatch, simp add: dispatch_to_def mg_inv_dispatch)

lemma mg_inv_connection:
  assumes m: "mg_inv message m" and q: "request_ok m q" and e: "on_connection message' q locked ec conn m = Some m'"
  shows "mg_inv message m'"
proof -
  have "mg_inv message (dispatch_to (cr_session q) es m)" for es
    using mg_inv_dispatch [OF m] q configs_length [OF m] by (simp add: request_ok_def)
  moreover have "mg_inv message (m\<lparr>mg_out := out\<rparr>)" for out using m by (simp add: mg_inv_def request_ok_def)
  ultimately show ?thesis
    using e m by (auto simp: on_connection_def bind_eq_Some_conv split: option.splits if_splits)
qed

lemma mg_inv_step:
  assumes "mg_step message m m'" "mg_inv message m"
  shows "mg_inv message m'"
  using assms
proof (induction rule: mg_step.induct)
  case (st_create config m i m')
  then show ?case using mg_inv_create [of message m config] by auto
next
  case (st_remove i m b m')
  then show ?case using mg_inv_remove [of message m i] by auto
next
  case (st_send i m msg msg_type)
  then show ?case using mg_inv_post [of message m "[Send_Task msg i msg_type]"] by (simp add: manager_send_def)
next
  case (st_stop i m)
  then show ?case using mg_inv_post [of message m "[Stop_Session_Task i]"] by (simp add: stop_session_def)
next
  case (st_stop_all m)
  then show ?case using mg_inv_post [of message m "[Stop_All_Task]"] by (simp add: stop_all_def)
next
  case (st_start_all m m')
  then have "pool_inv (mg_pool m)" by (simp add: mg_inv_def)
  then have "r < length (pl_objects (mg_pool m))" if "Some r \<in> set (pl_sessions (mg_pool m))" for r
    using that inv_slot(1) [of "mg_pool m"] by (auto simp: in_set_conv_nth)
  then show ?case using st_start_all start_each_inv by (simp add: start_all_def get_all_at_start_def)
next
  case (st_task m t ts m')
  then have "mg_inv message (m\<lparr>mg_strand := ts\<rparr>)" "task_ok (pool_issued (mg_pool m)) t" by (simp_all add: mg_inv_def request_ok_def)
  then show ?case using mg_inv_run_task [of message "m\<lparr>mg_strand := ts\<rparr>" t] st_task by auto
next
  case (st_inbox m es r e fs m')
  then have "mg_inv message (m\<lparr>mg_inbox := es @ fs\<rparr>)" by (auto simp: mg_inv_def request_ok_def)
  then show ?case using mg_inv_run_event st_inbox by blast
next
  case (st_io e r m m')
  then show ?case using mg_inv_run_event by blast
next
  case (st_conn m qs q qs' locked ec conn m')
  then have "mg_inv message (m\<lparr>mg_requests := qs @ qs'\<rparr>)" "request_ok (m\<lparr>mg_requests := qs @ qs'\<rparr>) q"
    by (auto simp: mg_inv_def request_ok_def)
  then show ?case using mg_inv_connection st_conn by blast
qed

lemma mg_reach_inv: "mg_reach message m \<Longrightarrow> mg_inv message m"
proof (induction rule: rtranclp_induct)
  case base
  show ?case using pool_new_inv by (simp add: mg_inv_def manager_new_def pool_new_def pool_issued_def)
qed (rule mg_inv_step)

section \<open>A removed session is out of reach\<close>

lemma run_event_pool:
  assumes "run_event message r e u = Some u'"
  shows "pool_issued (mg_pool u') = pool_issued (mg_pool u)" "pool_live (mg_pool u') = pool_live (mg_pool u)"
proof -
  obtain t where t: "r < length (pl_objects (mg_pool u))" "session_step message e (pl_objects (mg_pool u) ! r) = Some t"
    and u': "u' = post (concat (map callback_tasks (drop (length (s_out (pl_objects (mg_pool u) ! r))) (s_out t))))
      (u\<lparr>mg_pool := (mg_pool u)\<lparr>pl_objects := (pl_objects (mg_pool u))[r := t]\<rparr>\<rparr>)"
    using assms by (rule run_event_elim)
  have "s_id t = s_id (pl_objects (mg_pool u) ! r)" using speaks_step [OF t(2)] by (simp add: speaks_def)
  then show "pool_issued (mg_pool u') = pool_issued (mg_pool u)" "pool_live (mg_pool u') = pool_live (mg_pool u)"
    using pool_object_update [OF t(1) _ refl, of t] u' by (simp_all add: post_def)
qed

lemma run_task_pool: "run_task t u = Some u' \<Longrightarrow> mg_pool u' = mg_pool u"
proof -
  have "mg_pool (fold (\<lambda>r. dispatch_to r [Stop]) rs v) = mg_pool v" for rs v
    by (induction rs arbitrary: v) (simp_all add: dispatch_to_def)
  then show "run_task t u = Some u' \<Longrightarrow> mg_pool u' = mg_pool u"
    by (cases t) (auto simp: reconnect_session_impl_def bind_eq_Some_conv request_connection_def dispatch_to_def split: option.splits)
qed

lemma start_each_pool: "start_each rs u = Some u' \<Longrightarrow> mg_pool u' = mg_pool u"
  by (induction rs u rule: start_each.induct) (auto simp: dispatch_to_def)

lemma gone_step:
  assumes "mg_step message m m'" "mg_inv message m" "i \<in> pool_issued (mg_pool m)" "pool_live (mg_pool m) (sid i) = None"
  shows "i \<in> pool_issued (mg_pool m') \<and> pool_live (mg_pool m') (sid i) = None"
proof -
  show ?thesis
    using assms
  proof (cases rule: mg_step.cases)
    case (st_create config j)
    then obtain "sid j = length (pl_objects (mg_pool m))" "pool_issued (mg_pool m') = insert j (pool_issued (mg_pool m))"
      "pool_live (mg_pool m') = (pool_live (mg_pool m))(sid j \<mapsto> sid j)"
      using mg_inv_create [OF assms(2), of config] by auto
    moreover have "sid i < length (pl_objects (mg_pool m))" using issued_cases [of "mg_pool m" i] assms(2,3) by (simp add: mg_inv_def)
    ultimately show ?thesis using assms(3,4) by simp
  next
    case (st_remove j b)
    then show ?thesis using remove_correct [of "mg_pool m" j] assms(2-4)
      by (auto simp: remove_session_def bind_eq_Some_conv mg_inv_def pool_issued_def)
  next
    case (st_conn qs q qs' locked ec conn)
    then show ?thesis using assms(3,4)
      by (auto simp: on_connection_def dispatch_to_def bind_eq_Some_conv split: option.splits if_splits)
  next
    case st_start_all
    then show ?thesis using start_each_pool [of _ m m'] assms(3,4) by (simp add: start_all_def)
  next
    case (st_task t ts)
    then show ?thesis using run_task_pool [OF st_task(2)] assms(3,4) by simp
  next
    case (st_inbox es r e fs)
    then show ?thesis using run_event_pool [OF st_inbox(3)] assms(3,4) by simp
  next
    case (st_io e r)
    then show ?thesis using run_event_pool [OF st_io(2)] assms(3,4) by simp
  qed (simp_all add: assms(3,4) manager_send_def stop_session_def stop_all_def post_def)
qed

lemma gone_steps:
  assumes "(mg_step message)\<^sup>*\<^sup>* m m'" "mg_inv message m" "i \<in> pool_issued (mg_pool m)" "pool_live (mg_pool m) (sid i) = None"
  shows "mg_inv message m' \<and> i \<in> pool_issued (mg_pool m') \<and> pool_live (mg_pool m') (sid i) = None"
  using assms by (induction rule: rtranclp_induct) (auto dest: mg_inv_step gone_step)

section \<open>Main theorems\<close>

text \<open>
  C8: The engine keeps its order, whatever order of calls, tasks, session events and connection answers
  \<open>boost::asio\<close> chooses: the next task on the strand of the manager never raises an
  exception; every session was reached from its construction by its own events, knows its number,
  and its configuration is found under its id with the role it plays; every open connection
  request asks for the kind of connection and the address configured for its session.\<close>

theorem engine_invariant:
  assumes "mg_reach message m"
  shows "(\<forall>t ts. mg_strand m = t # ts \<longrightarrow> (\<exists>m'. run_task t (m\<lparr>mg_strand := ts\<rparr>) = Some m')) \<and>
    (\<forall>r < length (pl_objects (mg_pool m)). let s = pl_objects (mg_pool m) ! r in session_reach message s \<and> sid (s_id s) = r \<and>
       (\<exists>config. config_find (s_id s) m = Some config \<and> cfg_role config = s_role s)) \<and>
    (\<forall>q \<in> set (mg_requests m). cr_session q < length (pl_objects (mg_pool m)) \<and>
       (\<exists>config. config_find (s_id (pl_objects (mg_pool m) ! cr_session q)) m = Some config \<and> cr_config q = cfg_conn_config config \<and>
          (cr_kind q = Listen \<longleftrightarrow> cfg_role config = ACCEPTOR)))"
proof (intro conjI allI impI ballI)
  have m: "mg_inv message m" using assms by (rule mg_reach_inv)
  then have p: "pool_inv (mg_pool m)" and roles: "map (cfg_role \<circ> snd) (mg_configs m) = map s_role (pl_objects (mg_pool m))"
    and req: "\<forall>q \<in> set (mg_requests m). request_ok m q" by (simp_all add: mg_inv_def)
  show "\<exists>m'. run_task t (m\<lparr>mg_strand := ts\<rparr>) = Some m'" if "mg_strand m = t # ts" for t ts
  proof -
    have "mg_inv message (m\<lparr>mg_strand := ts\<rparr>)" "task_ok (pool_issued (mg_pool m)) t" using m that by (simp_all add: mg_inv_def request_ok_def)
    then show ?thesis using mg_inv_run_task [of message "m\<lparr>mg_strand := ts\<rparr>" t] by auto
  qed
  have find: "config_find (s_id (pl_objects (mg_pool m) ! r)) m = Some (snd (mg_configs m ! r))" "sid (s_id (pl_objects (mg_pool m) ! r)) = r"
    "cfg_role (snd (mg_configs m ! r)) = s_role (pl_objects (mg_pool m) ! r)" if "r < length (pl_objects (mg_pool m))" for r
  proof -
    show k: "sid (s_id (pl_objects (mg_pool m) ! r)) = r" using inv_object(1) [OF p that] by (simp add: get_session_id_def)
    show "config_find (s_id (pl_objects (mg_pool m) ! r)) m = Some (snd (mg_configs m ! r))"
      using config_find_issued(1) [OF m, of "s_id (pl_objects (mg_pool m) ! r)"] k that by (simp add: pool_issued_def)
    show "cfg_role (snd (mg_configs m ! r)) = s_role (pl_objects (mg_pool m) ! r)"
      using arg_cong [OF roles, of "\<lambda>xs. xs ! r"] that configs_length [OF m] by simp
  qed
  show "let s = pl_objects (mg_pool m) ! r in session_reach message s \<and> sid (s_id s) = r \<and>
       (\<exists>config. config_find (s_id s) m = Some config \<and> cfg_role config = s_role s)" if "r < length (pl_objects (mg_pool m))" for r
    using find [OF that] m that by (simp add: mg_inv_def)
  fix q assume "q \<in> set (mg_requests m)"
  then have q: "request_ok m q" using req by blast
  then show "cr_session q < length (pl_objects (mg_pool m))" using configs_length [OF m] by (simp add: request_ok_def)
  then show "\<exists>config. config_find (s_id (pl_objects (mg_pool m) ! cr_session q)) m = Some config \<and> cr_config q = cfg_conn_config config \<and>
          (cr_kind q = Listen \<longleftrightarrow> cfg_role config = ACCEPTOR)"
    using find(1) q by (simp add: request_ok_def conn_kind_def Let_def)
qed

text \<open>
  C18: The application is never called. Whatever happens in the engine, no event has reached the application and no task
  of the manager carries one: every message type that passes the validator has a handler of its own in the session, so the branch that
  hands a message to the application is never taken.\<close>

theorem application_never_called:
  assumes "mg_reach message m"
  shows "mg_app m = [] \<and> (\<forall>event i. App_Task event i \<notin> set (mg_strand m))"
  using mg_reach_inv [OF assms] by (fastforce simp: mg_inv_def)

text \<open>
  C30: A removed session is out of reach of its id. After \<open>remove_session\<close> and any further steps of the
  engine, among them creations that reuse the slot, \<open>findSession\<close> returns a null pointer for the id, and
  sending to it, stopping it and the reconnect it may still ask for have no effect.\<close>

theorem removed_session_unreachable:
  assumes "mg_reach message m" "i \<in> pool_issued (mg_pool m)" "remove_session i m = Some (b, m1)" "(mg_step message)\<^sup>*\<^sup>* m1 m2"
  shows "findSession i m2 = Some None \<and> run_task (Send_Task msg i msg_type) m2 = Some m2 \<and>
     run_task (Stop_Session_Task i) m2 = Some m2 \<and> run_task (Reconnect_Task i) m2 = Some m2"
proof -
  note m = mg_reach_inv [OF assms(1)]
  obtain p where "pool_remove i (mg_pool m) = Some (b, p)" "m1 = m\<lparr>mg_pool := p\<rparr>"
    using assms(3) by (auto simp: remove_session_def bind_eq_Some_conv)
  then have "mg_inv message m1" "i \<in> pool_issued (mg_pool m1)" "pool_live (mg_pool m1) (sid i) = None"
    using mg_inv_remove [OF m assms(2)] remove_correct [of "mg_pool m" i] m assms(2,3) by (auto simp: mg_inv_def pool_issued_def)
  from gone_steps [OF assms(4) this] have "mg_inv message m2" "i \<in> pool_issued (mg_pool m2)" "pool_live (mg_pool m2) (sid i) = None" by auto
  then have g: "pool_get i (mg_pool m2) = Some None" using get_issued(1) by metis
  then show ?thesis by (cases "config_find i m2") (simp_all add: findSession_def reconnect_session_impl_def)
qed

lemma fold_stop:
  "fold (\<lambda>r. dispatch_to r [Stop]) rs m = m\<lparr>mg_inbox := mg_inbox m @ map (\<lambda>r. (r, Stop)) rs\<rparr>"
  by (induction rs arbitrary: m) (simp_all add: dispatch_to_def)

lemma run_event_at:
  assumes "r < length (pl_objects (mg_pool m))" "session_step message e (pl_objects (mg_pool m) ! r) = Some t"
  shows "run_event message r e m = Some (post (concat (map callback_tasks (drop (length (s_out (pl_objects (mg_pool m) ! r))) (s_out t))))
     (m\<lparr>mg_pool := (mg_pool m)\<lparr>pl_objects := (pl_objects (mg_pool m))[r := t]\<rparr>\<rparr>))"
  using assms by (simp add: run_event_def)

lemma run_stops:
  assumes "mg_inv message m" "set rs \<subseteq> {..<length (pl_objects (mg_pool m))}"
  shows "\<exists>m'. run_inbox message (map (\<lambda>r. (r, Stop)) rs) m = Some m' \<and> length (pl_objects (mg_pool m')) = length (pl_objects (mg_pool m)) \<and>
     (\<forall>r < length (pl_objects (mg_pool m)). r \<in> set rs \<or> s_stopped (pl_objects (mg_pool m) ! r) \<longrightarrow> s_stopped (pl_objects (mg_pool m') ! r))"
  using assms
proof (induction rs arbitrary: m)
  case (Cons r rs)
  let ?objs = "pl_objects (mg_pool m)"
  have r: "r < length ?objs" using Cons.prems(2) by simp
  have "session_inv (?objs ! r)" using Cons.prems(1) r by (intro session_reach_inv [of message]) (simp add: mg_inv_def)
  then obtain t where t: "stop (?objs ! r) = Some t" "s_stopped t" using stop_ok by blast
  obtain m1 where m1: "run_event message r Stop m = Some m1" "pl_objects (mg_pool m1) = ?objs[r := t]"
    using run_event_at [OF r, of message Stop t] t by (simp add: post_def)
  have "mg_inv message m1" using mg_inv_run_event [OF Cons.prems(1) m1(1)] .
  with Cons.IH [of m1] Cons.prems(2) m1(2) obtain m2 where
    "run_inbox message (map (\<lambda>r. (r, Stop)) rs) m1 = Some m2" "length (pl_objects (mg_pool m2)) = length ?objs"
    "\<forall>q < length ?objs. q \<in> set rs \<or> s_stopped (?objs[r := t] ! q) \<longrightarrow> s_stopped (pl_objects (mg_pool m2) ! q)" by auto
  then show ?case using m1(1) t(2) r by (auto simp: nth_list_update)
qed simp

text \<open>
  \<open>stop_all\<close> stops everything. When no function waits on the strand of a session, the task of \<open>stop_all\<close>
  hands \<open>stop\<close> to every session of the pool, and running these functions leaves each of them stopped.\<close>

lemma stop_all_stops:
  assumes "mg_reach message m" "mg_inbox m = []"
  shows "\<exists>m1 m2. run_task Stop_All_Task m = Some m1 \<and> run_inbox message (mg_inbox m1) (m1\<lparr>mg_inbox := []\<rparr>) = Some m2 \<and>
     (\<forall>r. Some r \<in> set (pl_sessions (mg_pool m)) \<longrightarrow> s_stopped (pl_objects (mg_pool m2) ! r))"
proof -
  note m = mg_reach_inv [OF assms(1)]
  have p: "pool_inv (mg_pool m)" using m by (simp add: mg_inv_def)
  have all: "Some r \<in> set (pl_sessions (mg_pool m)) \<longleftrightarrow> r \<in> set (get_all (mg_pool m))" for r
    using get_all_live(2) [OF p] live_slots [OF p, of r r] live_slots [OF p, of r] by auto
  have sub: "set (get_all (mg_pool m)) \<subseteq> {..<length (pl_objects (mg_pool m))}"
    using get_all_live(2) [OF p] by (auto simp: pool_live_def split: if_splits)
  have "run_task Stop_All_Task m = Some (m\<lparr>mg_inbox := map (\<lambda>r. (r, Stop)) (get_all (mg_pool m))\<rparr>)"
    using assms(2) by (simp add: fold_stop)
  moreover have "m\<lparr>mg_inbox := []\<rparr> = m" using assms(2) by simp
  ultimately show ?thesis using run_stops [OF m sub] all sub by fastforce
qed

lemma transport_down_calls:
  assumes s: "session_inv s" "\<not> s_stopped s" "s_state s \<noteq> DISCONNECTED" "\<not> s_reconnecting s"
  obtains t es where "on_transport_down s = Some t" "s_out t = s_out s @ es" "concat (map callback_tasks es) = [Reconnect_Task (s_id s)]" "s_id t = s_id s"
proof -
  define s1 where "s1 = emit [Log ''Transport connection lost''] (s\<lparr>s_reconnecting := True\<rparr>)"
  define s2 where "s2 = (cancel_timers (if s_conn s1 then (emit [Close_Conn] s1)\<lparr>s_conn := False\<rparr> else s1))\<lparr>s_state := DISCONNECTED, s_write_inflight := False\<rparr>"
  have "writers_ok (s_arena s2) (queued s2)"
    using s(1) queued_cong [of s2 s] by (simp add: session_inv_def s2_def s1_def cancel_timers_def emit_def)
  then obtain a where a: "clear_write_q s2 = Some (s2\<lparr>s_write_q := [], s_arena := a\<rparr>)" using clear_write_q_ok by blast
  let ?t = "emit [Reconnect_Call (s_id s2)]
      (s2\<lparr>s_write_q := [], s_arena := a, s_recovery_cache := rc_reset (s_recovery_cache s2), s_framer := framer_reset (s_framer s2)\<rparr>)"
  have "on_transport_down s = Some ?t"
    using s(2-4) a unfolding on_transport_down_def Let_def s1_def [symmetric] s2_def [symmetric] by simp
  moreover have "\<exists>es. s_out ?t = s_out s @ es \<and> concat (map callback_tasks es) = [Reconnect_Task (s_id s)]"
    by (auto simp: s2_def s1_def emit_def cancel_timers_def)
  ultimately show ?thesis using that [of ?t] by (auto simp: s2_def s1_def emit_def cancel_timers_def)
qed

text \<open>
  C29: A lost connection is asked for again. When the read of a session that is in use fails for good
  (and the session is neither stopped, disconnected nor already reconnecting), the read handler
  returns, exactly one task for the manager is posted, and that task requests a connection of
  the kind and the address configured for this session. The answer with a connection hands the
  session first the connection and then the start in reconnect mode.\<close>

theorem transport_loss_reconnects:
  assumes "mg_reach message m" "r < length (pl_objects (mg_pool m))" and s: "s = pl_objects (mg_pool m) ! r"
    and up: "\<not> s_stopped s" "s_state s \<noteq> DISCONNECTED" "\<not> s_reconnecting s"
    and e: "e \<noteq> operation_aborted" "classify_readwrite_error e \<noteq> Transient"
    and live: "findSession (s_id s) m = Some (Some r)" and cfg: "config_find (s_id s) m = Some config"
  shows "\<exists>m1 m2 q. run_event message r (Read_Done (Some e) d) m = Some m1 \<and> mg_strand m1 = mg_strand m @ [Reconnect_Task (s_id s)] \<and>
     run_task (Reconnect_Task (s_id s)) m1 = Some m2 \<and> mg_requests m2 = mg_requests m @ [q] \<and>
     q = \<lparr>cr_kind = conn_kind (s_role s), cr_config = cfg_conn_config config, cr_session = r, cr_mode = RECONNECT\<rparr> \<and>
     on_connection message q True None True m2 = Some (dispatch_to r [Set_Connection True, Start RECONNECT] m2)"
proof -
  note m = mg_reach_inv [OF assms(1)]
  have p: "pool_inv (mg_pool m)" using m by (simp add: mg_inv_def)
  have inv: "session_inv s" using m assms(2) s by (intro session_reach_inv [of message]) (simp add: mg_inv_def)
  define s1 where "s1 = emit [Log (''Read error: '' @ message e)] s"
  have up1: "session_inv s1" "\<not> s_stopped s1" "s_state s1 \<noteq> DISCONNECTED" "\<not> s_reconnecting s1" "s_id s1 = s_id s"
    using inv up session_inv_micro [OF m_quiet [of "[Log (''Read error: '' @ message e)]" True s]] by (simp_all add: s1_def emit_def)
  obtain t es where "on_transport_down s1 = Some t" "s_out t = s_out s1 @ es" "concat (map callback_tasks es) = [Reconnect_Task (s_id s1)]" "s_id t = s_id s1"
    using transport_down_calls [OF up1(1-4)] .
  then have "\<exists>t es. on_transport_down s1 = Some t \<and> s_out t = s_out s @ es \<and> concat (map callback_tasks es) = [Reconnect_Task (s_id s)] \<and> s_id t = s_id s"
    using up1(5) by (intro exI [of _ t] exI [of _ "Log (''Read error: '' @ message e) # es"]) (simp add: s1_def emit_def)
  then obtain t es where t: "on_transport_down s1 = Some t" "s_out t = s_out s @ es" "concat (map callback_tasks es) = [Reconnect_Task (s_id s)]"
    "s_id t = s_id s" by blast
  then have "session_step message (Read_Done (Some e) d) (pl_objects (mg_pool m) ! r) = Some t"
    using up e by (simp add: on_read_def s1_def s [symmetric])
  from run_event_at [OF assms(2) this] t(2,3) s
  have ev: "run_event message r (Read_Done (Some e) d) m =
      Some (post [Reconnect_Task (s_id s)] (m\<lparr>mg_pool := (mg_pool m)\<lparr>pl_objects := (pl_objects (mg_pool m))[r := t]\<rparr>\<rparr>))" (is "_ = Some ?m1")
    by simp
  have id: "s_id s \<in> pool_issued (mg_pool m)" "sid (s_id s) = r"
    using assms(2) s inv_object(1) [OF p assms(2)] by (simp_all add: pool_issued_def get_session_id_def)
  have cfg1: "config_find (s_id s) ?m1 = Some config" using cfg by (simp add: config_find_def post_def)
  have role: "cfg_role config = s_role s"
    using config_find_issued [OF m id(1)] cfg id(2) s m assms(2) nth_map [of r "mg_configs m" "cfg_role \<circ> snd"] by (simp add: mg_inv_def)
  have "pool_get (s_id s) (mg_pool ?m1) = pool_get (s_id s) (mg_pool m)"
    using get_correct [OF p id(1)] pool_object_update [OF assms(2) _ refl, of t] get_correct [of "mg_pool ?m1" "s_id s"] p id(1) t(4) s
    by (simp add: post_def)
  then have "run_task (Reconnect_Task (s_id s)) ?m1 = Some (request_connection config r RECONNECT ?m1)"
    using cfg1 live by (simp add: reconnect_session_impl_def findSession_def)
  then show ?thesis
    using ev role by (simp add: request_connection_def conn_kind_def post_def on_connection_def)
qed

section \<open>Sample engine\<close>

definition sample_config :: SessionCreationConfig where
  "sample_config = \<lparr>cfg_role = ACCEPTOR, cfg_conn_config = \<lparr>cc_ip = ''127.0.0.1'', cc_port = 9001, cc_role = ACCEPTOR, cc_backlog = 0\<rparr>,
     cfg_params = default_params\<rparr>"

definition first_id :: SessionID where
  "first_id = \<lparr>storage_index = 0, sid = 0\<rparr>"

lemma sample_engine:
  obtains s m where "session_new first_id ACCEPTOR default_params = Some s" "mg_reach message m" "create_session sample_config manager_new = Some (first_id, m)"
    "mg_pool m = \<lparr>pl_sessions = [Some 0], pl_free_indices = [], pl_next_idx = 1, pl_objects = [s]\<rparr>"
    "mg_configs m = [(first_id, sample_config)]" "mg_strand m = []" "mg_inbox m = []"
    "mg_requests m = [\<lparr>cr_kind = Listen, cr_config = cfg_conn_config sample_config, cr_session = 0, cr_mode = NORMAL\<rparr>]"
proof -
  obtain s where s: "session_new first_id ACCEPTOR default_params = Some s" using session_new_inv by blast
  note i = session_new_id [OF s] and s' = s [unfolded first_id_def]
  let ?p = "\<lparr>pl_sessions = [Some 0], pl_free_indices = [], pl_next_idx = 1, pl_objects = [s]\<rparr>"
  have "emplace_session ACCEPTOR default_params pool_new = Some (0, ?p)"
    using s' by (simp add: emplace_session_def pool_new_def generate_session_Id_def make_session_def)
  then obtain m where m: "create_session sample_config manager_new = Some (first_id, m)" "mg_pool m = ?p" "mg_configs m = [(first_id, sample_config)]"
    "mg_strand m = []" "mg_inbox m = []"
    "mg_requests m = [\<lparr>cr_kind = Listen, cr_config = cfg_conn_config sample_config, cr_session = 0, cr_mode = NORMAL\<rparr>]"
    using i by (auto simp: create_session_def manager_new_def sample_config_def request_connection_def config_emplace_def config_find_def get_session_id_def)
  moreover have "mg_reach message m" using st_create [OF m(1), of message] by (rule r_into_rtranclp)
  ultimately show ?thesis using s that by blast
qed

theorem engine_invariant_witness:
  "\<exists>m config. mg_reach (\<lambda>_. []) m \<and> length (pl_objects (mg_pool m)) = 1 \<and> sid (s_id (pl_objects (mg_pool m) ! 0)) = 0 \<and>
     config_find (s_id (pl_objects (mg_pool m) ! 0)) m = Some config \<and> cfg_role config = s_role (pl_objects (mg_pool m) ! 0)"
proof -
  obtain s m where m: "mg_reach (\<lambda>_. []) m" "mg_pool m = \<lparr>pl_sessions = [Some 0], pl_free_indices = [], pl_next_idx = 1, pl_objects = [s]\<rparr>"
    using sample_engine [of "\<lambda>_. []"] by metis
  then have "0 < length (pl_objects (mg_pool m))" "length (pl_objects (mg_pool m)) = 1" by simp_all
  with m(1) engine_invariant [OF m(1), THEN conjunct2, THEN conjunct1, unfolded Let_def] show ?thesis by blast
qed

theorem application_never_called_witness:
  "\<exists>m. mg_reach (\<lambda>_. []) m \<and> length (pl_objects (mg_pool m)) = 1 \<and> mg_app m = []"
proof -
  obtain s m where m: "mg_reach (\<lambda>_. []) m" "mg_pool m = \<lparr>pl_sessions = [Some 0], pl_free_indices = [], pl_next_idx = 1, pl_objects = [s]\<rparr>"
    using sample_engine [of "\<lambda>_. []"] by metis
  with application_never_called [OF m(1)] show ?thesis by auto
qed

theorem removed_session_unreachable_witness:
  "\<exists>m m1. mg_reach (\<lambda>_. []) m \<and> remove_session first_id m = Some (True, m1) \<and> findSession first_id m = Some (Some 0) \<and> findSession first_id m1 = Some None"
proof -
  obtain s m where s: "session_new first_id ACCEPTOR default_params = Some s" and m: "mg_reach (\<lambda>_. []) m"
    "mg_pool m = \<lparr>pl_sessions = [Some 0], pl_free_indices = [], pl_next_idx = 1, pl_objects = [s]\<rparr>"
    using sample_engine [of "\<lambda>_. []"] by metis
  note i = session_new_id [OF s]
  have f: "findSession first_id m = Some (Some 0)"
    using i by (simp add: findSession_def m(2) pool_get_def get_session_id_def SessionID_eq_def first_id_def)
  obtain m1 where r: "remove_session first_id m = Some (True, m1)"
    using i by (simp add: remove_session_def m(2) pool_remove_def get_session_id_def SessionID_eq_def first_id_def)
  have "first_id \<in> pool_issued (mg_pool m)" using i by (simp add: m(2) pool_issued_def)
  from removed_session_unreachable [OF m(1) this r rtranclp.rtrancl_refl] f r m(1) show ?thesis by blast
qed

theorem transport_loss_reconnects_witness:
  "\<exists>m m1 m2. mg_reach (\<lambda>_. []) m \<and> s_state (pl_objects (mg_pool m) ! 0) = AWAITING_LOGON \<and>
     run_event (\<lambda>_. []) 0 (Read_Done (Some connection_reset) []) m = Some m1 \<and> run_task (Reconnect_Task first_id) m1 = Some m2 \<and>
     mg_requests m2 = [\<lparr>cr_kind = Listen, cr_config = cfg_conn_config sample_config, cr_session = 0, cr_mode = RECONNECT\<rparr>]"
proof -
  let ?q = "\<lparr>cr_kind = Listen, cr_config = cfg_conn_config sample_config, cr_session = 0, cr_mode = NORMAL\<rparr>"
  obtain s m where s: "session_new first_id ACCEPTOR default_params = Some s" and m: "mg_reach (\<lambda>_. []) m"
    "mg_pool m = \<lparr>pl_sessions = [Some 0], pl_free_indices = [], pl_next_idx = 1, pl_objects = [s]\<rparr>"
    "mg_configs m = [(first_id, sample_config)]" "mg_inbox m = []" "mg_requests m = [?q]"
    using sample_engine [of "\<lambda>_. []"] by metis
  obtain f: "\<not> s_stopped s" "s_role s = ACCEPTOR" "\<not> s_reconnecting s" "s_id s = first_id"
    using s by (auto simp: session_new_def bind_eq_Some_conv)
  define ma where "ma = dispatch_to 0 [Set_Connection True, Start NORMAL] (m\<lparr>mg_requests := []\<rparr>)"
  have a: "mg_step (\<lambda>_. []) m ma"
    by (rule st_conn [of m "[]" ?q "[]" True _ None True]) (simp_all add: m(5) on_connection_def ma_def)
  define t where "t = schedule_logon_timeout ((emit [Async_Read] (emit [Log ''Session started''] (s\<lparr>s_conn := True\<rparr>)))\<lparr>s_state := AWAITING_LOGON\<rparr>)"
  have t: "start NORMAL (set_connection True s) = Some t"
    using f by (simp add: start_def start_normal_def set_connection_def do_read_def t_def)
  have ia: "mg_inbox ma = [] @ (0, Set_Connection True) # [(0, Start NORMAL)]" "pl_objects (mg_pool ma) = [s]"
    by (simp_all add: ma_def dispatch_to_def m(2,4))
  obtain mb where b: "run_event (\<lambda>_. []) 0 (Set_Connection True) (ma\<lparr>mg_inbox := [] @ [(0, Start NORMAL)]\<rparr>) = Some mb"
    and mb: "pl_objects (mg_pool mb) = [set_connection True s]" "mg_inbox mb = [] @ (0, Start NORMAL) # []" "mg_requests mb = []" "mg_configs mb = mg_configs m"
      "pl_sessions (mg_pool mb) = [Some 0]"
    using ia by (simp add: run_event_def post_def ma_def dispatch_to_def m(2))
  obtain mc where c: "run_event (\<lambda>_. []) 0 (Start NORMAL) (mb\<lparr>mg_inbox := [] @ []\<rparr>) = Some mc"
    and mc: "pl_objects (mg_pool mc) = [t]" "mg_requests mc = []" "mg_configs mc = mg_configs m" "pl_sessions (mg_pool mc) = [Some 0]"
    using mb t by (simp add: run_event_def post_def)
  have reach: "mg_reach (\<lambda>_. []) mc"
    using m(1) a st_inbox [OF ia(1) _ b] st_inbox [OF mb(2) _ c] by simp
  have up: "\<not> s_stopped t" "s_state t \<noteq> DISCONNECTED" "\<not> s_reconnecting t" "s_id t = first_id" "s_role t = ACCEPTOR" "s_state t = AWAITING_LOGON"
    using f by (simp_all add: t_def schedule_logon_timeout_def emit_def)
  have found: "findSession (s_id t) mc = Some (Some 0)" "config_find (s_id t) mc = Some sample_config"
    using mc up(4) m(3)
    by (simp_all add: findSession_def pool_get_def get_session_id_def SessionID_eq_def config_find_def first_id_def)
  have obj: "t = pl_objects (mg_pool mc) ! 0" "0 < length (pl_objects (mg_pool mc))" by (simp_all add: mc(1))
  have err: "connection_reset \<noteq> operation_aborted" "classify_readwrite_error connection_reset \<noteq> Transient" by (simp_all add: classify_readwrite_error_def)
  obtain m1 m2 q where "run_event (\<lambda>_. []) 0 (Read_Done (Some connection_reset) []) mc = Some m1" "run_task (Reconnect_Task first_id) m1 = Some m2"
    "mg_requests m2 = [q]" "q = \<lparr>cr_kind = Listen, cr_config = cfg_conn_config sample_config, cr_session = 0, cr_mode = RECONNECT\<rparr>"
    using transport_loss_reconnects [OF reach obj(2,1) up(1-3) err found, of "[]", unfolded up(4,5) mc(2) conn_kind_def] by auto
  moreover have "s_state (pl_objects (mg_pool mc) ! 0) = AWAITING_LOGON" using up(6) obj(1) by simp
  ultimately show ?thesis using reach by blast
qed

end
