(* ===== verification/Front_End.thy ===== *)
theory Front_End
  imports Session_Manager
begin

text \<open>
  The parts around the engine: \<open>DummyApplication\<close> (include/fix/core/Application.hpp), \<open>FixShell\<close> (src/FixShell.cpp),
  \<open>Reactor\<close> (src/Reactor.cpp) and \<open>AsioConnection::close\<close> (src/AsioConnection.cpp). Console input is the list of lines that
  \<open>getline\<close> will read, console output a text. The socket of Boost.Asio is a parameter.
\<close>

section \<open>The application\<close>

text \<open>
  The sink posts each event to the strand of the application; \<open>mg_app\<close> holds the events in that order. The pointer to the
  message type is dereferenced without a test.
\<close>

definition get_name :: string where
  "get_name = ''DummyApplication''"

definition process_event :: "ValidMessageView \<times> SessionID \<Rightarrow> manager \<Rightarrow> manager option" where
  "process_event event m =
     do { msg_type \<leftarrow> slots (vm_cache (fst event)) Slot_MsgType;
          let m1 = m\<lparr>mg_out := mg_out m @ [Console (''DummyApplication received message of type: '' @ msg_type @
             '' for session: '' @ to_chars (sid (snd event)))]\<rparr>;
          Some (manager_send [field 9250 ''Yello''] (snd event) ''cu'' m1) }"

lemma process_event_answers:
  assumes m: "mg_inv message m" and i: "i \<in> pool_issued (mg_pool m)" and ty: "slots (vm_cache ev) Slot_MsgType = Some ty"
  shows "\<exists>m'. process_event (ev, i) m = Some m' \<and> mg_inv message m' \<and> mg_pool m' = mg_pool m \<and>
     mg_strand m' = mg_strand m @ [Send_Task [field 9250 ''Yello''] i ''cu'']"
proof -
  let ?m = "manager_send [field 9250 ''Yello''] i ''cu'' (m\<lparr>mg_out := mg_out m @
    [Console (''DummyApplication received message of type: '' @ ty @ '' for session: '' @ to_chars (sid i))]\<rparr>)"
  have "process_event (ev, i) m = Some ?m" using ty by (simp add: process_event_def)
  moreover have "mg_inv message ?m" using m i by (simp add: mg_inv_def manager_send_def post_def request_ok_def)
  ultimately show ?thesis by (simp add: manager_send_def post_def)
qed

text \<open>The reply reaches the session that the event came from, as long as the pool has it.\<close>

lemma reply_reaches_session:
  assumes m: "mg_inv message m" and i: "i \<in> pool_issued (mg_pool m)" and live: "pool_live (mg_pool m) (sid i) = Some r"
  shows "run_task (Send_Task [field 9250 ''Yello''] i ''cu'') m = Some (dispatch_to r [Send_From_App [field 9250 ''Yello''] ''cu''] m)"
  using get_issued(1) [OF m i] live by simp

section \<open>The shell\<close>

definition newline_text :: string where
  "newline_text = [CHR 0x0A]"

definition shell_help :: string where
  "shell_help = ''Available commands:'' @ newline_text @ ''  help  - Show this help message'' @ newline_text @
     ''  clear - Clear the screen and destroy the main thread which also destroys all active sessions'' @ newline_text @
     ''  exit   - Exit the shell'' @ newline_text"

definition shell_clear :: string where
  "shell_clear = CHR 0x1B # ''[2J'' @ CHR 0x1B # ''[1;1H''"

fun shell_loop :: "string list \<Rightarrow> string" where
  "shell_loop [] = ''> ''"
| "shell_loop (line # rest) = ''> '' @
     (if line = ''help'' then shell_help @ shell_loop rest
      else if line = ''clear'' then shell_clear @ shell_loop rest
      else if line = ''exit'' \<or> line = ''quit'' then []
      else ''Unknown command. Type 'help' for commands.'' @ newline_text @ shell_loop rest)"

definition shell_run :: "string list \<Rightarrow> string" where
  "shell_run lines = ''FIX Shell started. Type 'help' for commands.'' @ newline_text @ shell_loop lines"

text \<open>The shell answers every line before the first exit or quit and nothing after it.\<close>

definition respond :: "string \<Rightarrow> string" where
  "respond line = (if line = ''help'' then shell_help else if line = ''clear'' then shell_clear
     else ''Unknown command. Type 'help' for commands.'' @ newline_text)"

lemma shell_loop_responds:
  "shell_loop lines = concat (map (\<lambda>line. ''> '' @ respond line) (takeWhile (\<lambda>line. line \<noteq> ''exit'' \<and> line \<noteq> ''quit'') lines)) @ ''> ''"
  by (induction lines) (simp_all add: respond_def)

section \<open>The reactor\<close>

record Reactor =
  rx_work_guard :: bool
  rx_stopped :: bool
  rx_workers :: nat

definition reactor_new :: Reactor where
  "reactor_new = \<lparr>rx_work_guard = True, rx_stopped = False, rx_workers = 0\<rparr>"

definition reactor_run :: "nat \<Rightarrow> Reactor \<Rightarrow> Reactor" where
  "reactor_run n_threads r = (if rx_workers r \<noteq> 0 then r else r\<lparr>rx_workers := max 1 n_threads\<rparr>)"

definition reactor_stop :: "Reactor \<Rightarrow> Reactor" where
  "reactor_stop r = r\<lparr>rx_work_guard := False, rx_stopped := True\<rparr>"

text \<open>
  Joining ends when the event loop has ended in every thread: after \<open>stop\<close>, or when there is no work left
  and the guard is gone. \<open>None\<close> is a call that does not return.
\<close>

definition reactor_wait :: "bool \<Rightarrow> Reactor \<Rightarrow> Reactor option" where
  "reactor_wait work_left r =
     (if rx_workers r = 0 \<or> rx_stopped r \<or> \<not> rx_work_guard r \<and> \<not> work_left then Some (r\<lparr>rx_workers := 0\<rparr>) else None)"

lemma reactor_wait_blocks: "reactor_wait w (reactor_run n reactor_new) = None"
  by (simp add: reactor_wait_def reactor_run_def reactor_new_def)

lemma reactor_shutdown: "\<exists>r'. reactor_wait w (reactor_stop r) = Some r' \<and> rx_workers r' = 0"
  by (simp add: reactor_wait_def reactor_stop_def)

section \<open>Closing a socket\<close>

text \<open>Errors of \<open>shutdown\<close> and \<open>close\<close> are ignored, so only the socket they leave behind counts.\<close>

definition asio_close :: "('s \<Rightarrow> bool) \<Rightarrow> ('s \<Rightarrow> 's) \<Rightarrow> ('s \<Rightarrow> 's) \<Rightarrow> 's \<Rightarrow> 's" where
  "asio_close is_open shutdown_both close_socket sock =
     (if is_open sock then close_socket (shutdown_both sock) else sock)"

lemma asio_close_once:
  assumes "\<And>sock. \<not> is_open (close_socket sock)"
  shows "\<not> is_open (asio_close is_open shutdown_both close_socket sock)"
    and "asio_close is_open shutdown_both close_socket (asio_close is_open shutdown_both close_socket sock) =
      asio_close is_open shutdown_both close_socket sock"
  using assms by (simp_all add: asio_close_def)

end
