(* ===== verification/Basic_Example.thy ===== *)
theory Basic_Example
  imports Front_End Session_Handshake
begin

text \<open>
  The example program (examples/basic.cpp): an application that answers every message, an engine with an acceptor and an
  initiator of mirrored comp ids on one address, the shell in the main thread, and the shutdown. What the threads of the
  reactor do meanwhile is any sequence of steps of the engine.
\<close>

section \<open>The application\<close>

definition example_name :: string where
  "example_name = ''ApplicationExample''"

definition example_event :: "ValidMessageView \<times> SessionID \<Rightarrow> manager \<Rightarrow> manager option" where
  "example_event event m =
     do { msg_type \<leftarrow> slots (vm_cache (fst event)) Slot_MsgType;
          let m1 = m\<lparr>mg_out := mg_out m @ [Console (''ApplicationExample received message of type: '' @ msg_type @
             '' for session: '' @ to_chars (sid (snd event)))]\<rparr>;
          Some (manager_send [field 9250 ''Yello''] (snd event) ''cu'' m1) }"

section \<open>The configuration\<close>

definition server_conn_config :: ConnectionConfig where
  "server_conn_config = \<lparr>cc_ip = ''127.0.0.1'', cc_port = 5001, cc_role = ACCEPTOR, cc_backlog = 1\<rparr>"

definition server_session_params :: SessionParameters where
  "server_session_params = default_params\<lparr>sender_comp_id := ''SRV'', target_comp_id := ''CLT'', heart_beat_int := 30\<rparr>"

definition server_config :: SessionCreationConfig where
  "server_config = \<lparr>cfg_role = cc_role server_conn_config, cfg_conn_config = server_conn_config, cfg_params = server_session_params\<rparr>"

definition client_conn_config :: ConnectionConfig where
  "client_conn_config = \<lparr>cc_ip = ''127.0.0.1'', cc_port = 5001, cc_role = INITIATOR, cc_backlog = 1\<rparr>"

definition client_session_params :: SessionParameters where
  "client_session_params = default_params\<lparr>sender_comp_id := ''CLT'', target_comp_id := ''SRV'', heart_beat_int := 30\<rparr>"

definition client_config :: SessionCreationConfig where
  "client_config = \<lparr>cfg_role = cc_role client_conn_config, cfg_conn_config = client_conn_config, cfg_params = client_session_params\<rparr>"

definition example_configs :: "SessionCreationConfig list" where
  "example_configs = [server_config, client_config]"

section \<open>The program\<close>

definition example_setup :: "(SessionID list \<times> manager) option" where
  "example_setup = create_all example_configs manager_new"

text \<open>
  A run of \<open>main\<close> on the lines typed into the shell: the engine moves from the start of the reactor to \<open>stop_all\<close>, and
  from there until the reactor has stopped. \<open>m\<close> is the engine and \<open>r\<close> the reactor at the end.
\<close>

definition example_main :: "(asio_error \<Rightarrow> string) \<Rightarrow> nat \<Rightarrow> string list \<Rightarrow> manager \<Rightarrow> Reactor \<Rightarrow> string \<Rightarrow> bool" where
  "example_main message n_threads lines m r console \<longleftrightarrow>
     (\<exists>ids m0 m1. example_setup = Some (ids, m0) \<and> (mg_step message)\<^sup>*\<^sup>* m0 m1 \<and> (mg_step message)\<^sup>*\<^sup>* (stop_all m1) m \<and>
        reactor_wait True (reactor_stop (reactor_run n_threads reactor_new)) = Some r \<and> console = shell_run lines)"

lemma config_simps [simp]:
  "cfg_role server_config = ACCEPTOR" "cfg_params server_config = server_session_params" "cfg_conn_config server_config = server_conn_config"
  "cfg_role client_config = INITIATOR" "cfg_params client_config = client_session_params" "cfg_conn_config client_config = client_conn_config"
  by (simp_all add: server_config_def client_config_def server_conn_config_def client_conn_config_def)

lemma example_created:
  obtains a c i j m where "session_new i ACCEPTOR server_session_params = Some a" "session_new j INITIATOR client_session_params = Some c"
    "example_setup = Some ([i, j], m)" "mg_reach message m" "pl_objects (mg_pool m) = [a, c]" "pl_sessions (mg_pool m) = [Some 0, Some 1]" "mg_inbox m = []"
    "mg_requests m = [\<lparr>cr_kind = Listen, cr_config = server_conn_config, cr_session = 0, cr_mode = NORMAL\<rparr>,
       \<lparr>cr_kind = Connect, cr_config = client_conn_config, cr_session = 1, cr_mode = NORMAL\<rparr>]"
proof -
  let ?i = "\<lparr>storage_index = 0, sid = 0\<rparr>" and ?j = "\<lparr>storage_index = 1, sid = 1\<rparr>"
  obtain a where a: "session_new ?i ACCEPTOR server_session_params = Some a" using session_new_inv by blast
  obtain c where c: "session_new ?j INITIATOR client_session_params = Some c" using session_new_inv by blast
  note ids = session_new_id [OF a] session_new_id [OF c]
  define m1 where "m1 = manager_new\<lparr>mg_pool := \<lparr>pl_sessions = [Some 0], pl_free_indices = [], pl_next_idx = 1, pl_objects = [a]\<rparr>,
    mg_configs := [(?i, server_config)], mg_out := [Log_Session_Added ?i (readable_id a), Console ''Session Created''],
    mg_requests := [\<lparr>cr_kind = Listen, cr_config = server_conn_config, cr_session = 0, cr_mode = NORMAL\<rparr>]\<rparr>"
  have s1: "create_session server_config manager_new = Some (?i, m1)"
    using a ids by (simp add: create_session_def emplace_session_def pool_new_def generate_session_Id_def make_session_def m1_def manager_new_def
      request_connection_def config_emplace_def config_find_def get_session_id_def Let_def)
  define m2 where "m2 = m1\<lparr>mg_pool := \<lparr>pl_sessions = [Some 0, Some 1], pl_free_indices = [], pl_next_idx = 2, pl_objects = [a, c]\<rparr>,
    mg_configs := [(?i, server_config), (?j, client_config)],
    mg_out := mg_out m1 @ [Log_Session_Added ?j (readable_id c), Console ''Session Created''],
    mg_requests := mg_requests m1 @ [\<lparr>cr_kind = Connect, cr_config = client_conn_config, cr_session = 1, cr_mode = NORMAL\<rparr>]\<rparr>"
  have s2: "create_session client_config m1 = Some (?j, m2)"
    using c ids by (simp add: create_session_def emplace_session_def generate_session_Id_def make_session_def m1_def m2_def manager_new_def
      request_connection_def config_emplace_def config_find_def get_session_id_def SessionID_eq_def Let_def)
  have "mg_reach message m2" using st_create [OF s1, of message] st_create [OF s2, of message] by simp
  moreover have "example_setup = Some ([?i, ?j], m2)" using s1 s2 by (simp add: example_setup_def example_configs_def)
  ultimately show thesis using a c by (intro that [of ?i a ?j c m2]) (simp_all add: m2_def m1_def manager_new_def)
qed

section \<open>Moves of the engine\<close>

text \<open>
  Three choices of what happens next, for a run in which nothing is lost: the first connection asked for is established, the first
  function handed to a session runs, or everything a session has queued for its connection is read by another one.
\<close>

datatype Move = Connection | Posted | Bytes session_ref session_ref

fun make_move :: "(asio_error \<Rightarrow> string) \<Rightarrow> Move \<Rightarrow> manager \<Rightarrow> manager option" where
  "make_move message Connection m =
     (case mg_requests m of [] \<Rightarrow> None | q # qs \<Rightarrow> on_connection message q True None True (m\<lparr>mg_requests := qs\<rparr>))"
| "make_move message Posted m =
     (case mg_inbox m of [] \<Rightarrow> None | (r, e) # es \<Rightarrow> run_event message r e (m\<lparr>mg_inbox := es\<rparr>))"
| "make_move message (Bytes r r') m =
     do { s \<leftarrow> array_get (pl_objects (mg_pool m)) r; run_event message r' (Read_Done None (pending s)) m }"

primrec make_moves :: "(asio_error \<Rightarrow> string) \<Rightarrow> Move list \<Rightarrow> manager \<Rightarrow> manager option" where
  "make_moves message [] m = Some m"
| "make_moves message (v # vs) m = do { m1 \<leftarrow> make_move message v m; make_moves message vs m1 }"

text \<open>Both connections come up, the acceptor reads what the initiator sent, and the initiator the answer.\<close>

definition example_moves :: "Move list" where
  "example_moves = [Connection, Posted, Posted, Connection, Posted, Posted, Bytes 1 0, Bytes 0 1]"

lemma move_step: "make_move message v m = Some m' \<Longrightarrow> mg_step message m m'"
proof (cases v)
  case Connection
  assume "make_move message v m = Some m'"
  with Connection obtain q qs where q: "mg_requests m = [] @ q # qs" "on_connection message q True None True (m\<lparr>mg_requests := [] @ qs\<rparr>) = Some m'"
    by (auto split: list.splits)
  show ?thesis using q(1) _ q(2) by (rule st_conn) simp
next
  case Posted
  assume "make_move message v m = Some m'"
  with Posted obtain r e es where q: "mg_inbox m = [] @ (r, e) # es" "run_event message r e (m\<lparr>mg_inbox := [] @ es\<rparr>) = Some m'"
    by (auto split: list.splits)
  show ?thesis using q(1) _ q(2) by (rule st_inbox) simp
next
  case (Bytes r r')
  assume "make_move message v m = Some m'"
  with Bytes obtain s where "run_event message r' (Read_Done None (pending s)) m = Some m'" by (auto simp: bind_eq_Some_conv)
  then show ?thesis by (intro st_io) (simp_all add: completion_def)
qed

lemma moves_steps: "make_moves message vs m = Some m' \<Longrightarrow> (mg_step message)\<^sup>*\<^sup>* m m'"
proof (induction vs arbitrary: m)
  case (Cons v vs)
  then obtain m1 where "mg_step message m m1" "(mg_step message)\<^sup>*\<^sup>* m1 m'" by (auto simp: bind_eq_Some_conv dest: move_step)
  then show ?case by (rule converse_rtranclp_into_rtranclp)
qed simp

lemma moves_append: "make_moves message (vs @ ws) m = do { m1 \<leftarrow> make_moves message vs m; make_moves message ws m1 }"
proof (induction vs arbitrary: m)
  case (Cons v vs)
  then show ?case by (cases "make_move message v m") simp_all
qed simp

lemma event_runs:
  assumes "r < length (pl_objects (mg_pool m))" "session_step message e (pl_objects (mg_pool m) ! r) = Some t"
  shows "\<exists>m'. run_event message r e m = Some m' \<and> pl_objects (mg_pool m') = (pl_objects (mg_pool m))[r := t] \<and>
     mg_inbox m' = mg_inbox m \<and> mg_requests m' = mg_requests m"
  using assms by (simp add: run_event_def array_get_def post_def)

text \<open>The connection a session asked for is established and the session started on it.\<close>

lemma connection_moves:
  assumes "mg_inbox m = []" "mg_requests m = q # qs" "cr_mode q = NORMAL" "cr_session q < length (pl_objects (mg_pool m))"
    and "start NORMAL (set_connection True (pl_objects (mg_pool m) ! cr_session q)) = Some t"
  shows "\<exists>m'. make_moves message [Connection, Posted, Posted] m = Some m' \<and> pl_objects (mg_pool m') = (pl_objects (mg_pool m))[cr_session q := t] \<and>
     mg_inbox m' = [] \<and> mg_requests m' = qs"
proof -
  let ?r = "cr_session q" and ?o = "pl_objects (mg_pool m)"
  define ma where "ma = dispatch_to ?r [Set_Connection True, Start NORMAL] (m\<lparr>mg_requests := qs\<rparr>)"
  have a: "make_move message Connection m = Some ma" using assms(2,3) by (simp add: on_connection_def ma_def)
  have ia: "mg_inbox ma = [(?r, Set_Connection True), (?r, Start NORMAL)]" "pl_objects (mg_pool ma) = ?o" "mg_requests ma = qs"
    using assms(1) by (simp_all add: ma_def dispatch_to_def)
  obtain mb where b: "run_event message ?r (Set_Connection True) (ma\<lparr>mg_inbox := [(?r, Start NORMAL)]\<rparr>) = Some mb"
    "pl_objects (mg_pool mb) = ?o[?r := set_connection True (?o ! ?r)]" "mg_inbox mb = [(?r, Start NORMAL)]" "mg_requests mb = qs"
    using event_runs [of ?r "ma\<lparr>mg_inbox := [(?r, Start NORMAL)]\<rparr>" message "Set_Connection True"] ia assms(4) by auto
  obtain mc where c: "run_event message ?r (Start NORMAL) (mb\<lparr>mg_inbox := []\<rparr>) = Some mc"
    "pl_objects (mg_pool mc) = ?o[?r := t]" "mg_inbox mc = []" "mg_requests mc = qs"
    using event_runs [of ?r "mb\<lparr>mg_inbox := []\<rparr>" message "Start NORMAL" t] b(2-4) assms(4,5) by auto
  have "make_moves message [Connection, Posted, Posted] m = Some mc" using a ia(1) b(1,3) c(1) by simp
  then show ?thesis using c(2-4) by blast
qed

text \<open>What one session has queued reaches another.\<close>

lemma bytes_move:
  assumes "r < length (pl_objects (mg_pool m))" "r' < length (pl_objects (mg_pool m))"
    and "on_read message None (pending (pl_objects (mg_pool m) ! r)) (pl_objects (mg_pool m) ! r') = Some t"
  shows "\<exists>m'. make_move message (Bytes r r') m = Some m' \<and> pl_objects (mg_pool m') = (pl_objects (mg_pool m))[r' := t]"
proof -
  obtain m' where "run_event message r' (Read_Done None (pending (pl_objects (mg_pool m) ! r))) m = Some m'"
    "pl_objects (mg_pool m') = (pl_objects (mg_pool m))[r' := t]"
    using event_runs [of r' m message "Read_Done None (pending (pl_objects (mg_pool m) ! r))" t] assms(2,3) by auto
  then show ?thesis using assms(1) by (simp add: array_get_def)
qed

lemma example_sizes:
  "log_fits [out_wire client_session_params 1 (Out_Logon 30 False)]" "length (out_wire client_session_params 1 (Out_Logon 30 False)) \<le> MAX_MESSAGE_SIZE"
  "log_fits [out_wire (server_session_params\<lparr>heart_beat_int := 30\<rparr>) 1 (Out_Logon 30 False)]"
  "length (out_wire (server_session_params\<lparr>heart_beat_int := 30\<rparr>) 1 (Out_Logon 30 False)) \<le> MAX_MESSAGE_SIZE"
  by (simp_all add: log_fits_def length_out_wire out_fields_def header_fields_def enc_fields_def enc_field_def default_params_def
      server_session_params_def client_session_params_def now_fix_def to_chars.simps to_chars_int_def min_blob_buffer_grow_size_def MAX_MESSAGE_SIZE_def)

lemma example_logon:
  "\<exists>ids m0 m a c. example_setup = Some (ids, m0) \<and> length ids = 2 \<and>
     map (\<lambda>q. (cr_kind q, cc_ip (cr_config q), cc_port (cr_config q))) (mg_requests m0) =
       [(Listen, ''127.0.0.1'', 5001), (Connect, ''127.0.0.1'', 5001)] \<and>
     make_moves message example_moves m0 = Some m \<and> (mg_step message)\<^sup>*\<^sup>* m0 m \<and> pl_objects (mg_pool m) = [a, c] \<and> s_role a = ACCEPTOR \<and> s_role c = INITIATOR \<and>
     s_state a = ACTIVE \<and> s_state c = ACTIVE \<and> next_in (s_seq a) = 2 \<and> next_in (s_seq c) = 2 \<and>
     next_out (s_seq a) = 2 \<and> next_out (s_seq c) = 2"
proof -
  have p: "params_ok client_session_params" "params_ok server_session_params" "peer_of client_session_params server_session_params"
    by (simp_all add: params_ok_def peer_of_def text_ok_def default_params_def client_session_params_def server_session_params_def DEFAULT_FIX_VERSION_def)
  have hb: "heart_beat_int client_session_params = 30" "10 \<le> (30 :: 32 word)" "(30 :: 32 word) \<le> 120"
    "initiator_reset_on_logon client_session_params = False" "False \<longrightarrow> acceptor_reset_on_logon server_session_params" "sint (30 :: 32 word) = 30"
    by (simp_all add: default_params_def client_session_params_def)
  obtain a0 c0 i j m0 where new: "session_new i ACCEPTOR server_session_params = Some a0" "session_new j INITIATOR client_session_params = Some c0"
    and m0: "example_setup = Some ([i, j], m0)" "pl_objects (mg_pool m0) = [a0, c0]" "mg_inbox m0 = []"
    "mg_requests m0 = [\<lparr>cr_kind = Listen, cr_config = server_conn_config, cr_session = 0, cr_mode = NORMAL\<rparr>,
       \<lparr>cr_kind = Connect, cr_config = client_conn_config, cr_session = 1, cr_mode = NORMAL\<rparr>]"
    using example_created [of message] by metis
  note hs = handshake_completes [OF p hb(1-5) refl _ refl, of j i message, unfolded hb(6) new option.inject, OF example_sizes(1,3,2,4)]
  then obtain c1 a1 a2 c2 where s: "start NORMAL (set_connection True c0) = Some c1" "start NORMAL (set_connection True a0) = Some a1"
    "on_read message None (pending c1) a1 = Some a2" "on_read message None (pending a2) c1 = Some c2"
    "s_state a2 = ACTIVE" "s_state c2 = ACTIVE" "next_in (s_seq a2) = 2" "next_in (s_seq c2) = 2"
    "next_out (s_seq a2) = 2" "next_out (s_seq c2) = 2"
    by (elim exE conjE) simp
  obtain m1 where m1: "make_moves message [Connection, Posted, Posted] m0 = Some m1" "pl_objects (mg_pool m1) = [a1, c0]" "mg_inbox m1 = []"
    "mg_requests m1 = [\<lparr>cr_kind = Connect, cr_config = client_conn_config, cr_session = 1, cr_mode = NORMAL\<rparr>]"
    using connection_moves [OF m0(3,4), of a1 message] m0(2) s(2) by auto
  obtain m2 where m2: "make_moves message [Connection, Posted, Posted] m1 = Some m2" "pl_objects (mg_pool m2) = [a1, c1]"
    using connection_moves [OF m1(3,4), of c1 message] m1(2) s(1) by auto
  obtain m3 where m3: "make_move message (Bytes 1 0) m2 = Some m3" "pl_objects (mg_pool m3) = [a2, c1]"
    using bytes_move [of 1 m2 0 message a2] m2(2) s(3) by auto
  obtain m4 where m4: "make_move message (Bytes 0 1) m3 = Some m4" "pl_objects (mg_pool m4) = [a2, c2]"
    using bytes_move [of 0 m3 1 message c2] m3(2) s(4) by auto
  have moves: "example_moves = [Connection, Posted, Posted] @ [Connection, Posted, Posted] @ [Bytes 1 0, Bytes 0 1]"
    by (simp add: example_moves_def)
  have last: "make_moves message [Bytes 1 0, Bytes 0 1] m2 = Some m4"
    using m3(1) m4(1) by (simp only: make_moves.simps bind.bind_lunit)
  have run: "make_moves message example_moves m0 = Some m4"
    by (simp only: moves moves_append m1(1) m2(1) last bind.bind_lunit)
  note moves_steps [OF run]
  moreover have "s_role a2 = ACCEPTOR" "s_role c2 = INITIATOR"
    using speaks_step [of message "Read_Done None (pending c1)" a1 a2] speaks_step [of message "Read_Done None (pending a2)" c1 c2]
      speaks_step [of message "Start NORMAL" "set_connection True a0" a1] speaks_step [of message "Start NORMAL" "set_connection True c0" c1]
      s(1-4) session_new_role [OF new(1)] session_new_role [OF new(2)] by (simp_all add: speaks_def set_connection_def)
  ultimately show ?thesis
    using m0(1,4) m4(2) s(5-10) run
    by - (rule exI [of _ "[i, j]"], rule exI [of _ m0], rule exI [of _ m4], rule exI [of _ a2], rule exI [of _ c2], simp add: server_conn_config_def client_conn_config_def)
qed

text \<open>
  Every run of \<open>main\<close> joins the threads of the reactor, and its engine obeys the laws of every engine. But \<open>stop_all\<close> only
  posts its work and \<open>main\<close> stops the reactor at once: a run may end with both sessions logged on and the task of \<open>stop_all\<close> waiting, so
  that neither side has sent a logout.
\<close>

lemma example_main_inv:
  assumes "example_main message n lines m r console"
  shows "mg_inv message m" "rx_workers r = 0" "console = shell_run lines"
proof -
  obtain ids m0 m1 where e: "example_setup = Some (ids, m0)" "(mg_step message)\<^sup>*\<^sup>* m0 m1" "(mg_step message)\<^sup>*\<^sup>* (stop_all m1) m"
    and r: "reactor_wait True (reactor_stop (reactor_run n reactor_new)) = Some r" "console = shell_run lines"
    using assms unfolding example_main_def by blast
  have "mg_reach message m0" using example_created [of message] e(1) by (metis option.inject prod.inject)
  then have "mg_reach message m1" using e(2) by simp
  then have "mg_reach message (stop_all m1)" using st_stop_all by (rule rtranclp.rtrancl_into_rtrancl)
  then have "mg_reach message m" using e(3) by simp
  then show "mg_inv message m" by (rule mg_reach_inv)
  show "rx_workers r = 0" "console = shell_run lines" using r by (auto simp: reactor_wait_def split: if_splits)
qed

lemma example_main_may_end_logged_on:
  "\<exists>m r a c. example_main message n lines m r (shell_run lines) \<and> pl_objects (mg_pool m) = [a, c] \<and>
     s_state a = ACTIVE \<and> s_state c = ACTIVE \<and> Stop_All_Task \<in> set (mg_strand m)"
proof -
  obtain ids m0 m a c where e: "example_setup = Some (ids, m0)" "(mg_step message)\<^sup>*\<^sup>* m0 m"
    and m: "pl_objects (mg_pool m) = [a, c]" "s_state a = ACTIVE" "s_state c = ACTIVE"
    using example_logon [of message] by (elim exE conjE) simp
  obtain r where r: "reactor_wait True (reactor_stop (reactor_run n reactor_new)) = Some r"
    using reactor_shutdown [of True "reactor_run n reactor_new"] by blast
  have "example_main message n lines (stop_all m) r (shell_run lines)"
    unfolding example_main_def using e r by (intro exI [of _ ids] exI [of _ m0] exI [of _ m]) simp
  then show ?thesis
    using m by - (rule exI [of _ "stop_all m"], rule exI [of _ r], rule exI [of _ a], rule exI [of _ c], simp add: stop_all_def post_def)
qed

section \<open>Main theorems\<close>

text \<open>
  C40: The sessions of the example log on. \<open>main\<close> creates an acceptor that listens on 127.0.0.1:5001 and an initiator that
  connects to the same address. When both connections are established, the sessions are started on them, the acceptor reads what
  the initiator has queued and the initiator what the acceptor has queued in answer, then none of these moves of the engine faults and both
  sessions are active, expect number 2 and send number 2 next, whatever the texts of the error codes.\<close>

theorem example_sessions_log_on:
  "\<exists>ids m0 m a c. example_setup = Some (ids, m0) \<and> length ids = 2 \<and>
     map (\<lambda>q. (cr_kind q, cc_ip (cr_config q), cc_port (cr_config q))) (mg_requests m0) =
       [(Listen, ''127.0.0.1'', 5001), (Connect, ''127.0.0.1'', 5001)] \<and>
     make_moves message example_moves m0 = Some m \<and> (mg_step message)\<^sup>*\<^sup>* m0 m \<and>
     pl_objects (mg_pool m) = [a, c] \<and> s_role a = ACCEPTOR \<and> s_role c = INITIATOR \<and>
     s_state a = ACTIVE \<and> s_state c = ACTIVE \<and> next_in (s_seq a) = 2 \<and> next_in (s_seq c) = 2 \<and>
     next_out (s_seq a) = 2 \<and> next_out (s_seq c) = 2"
  by (rule example_logon)

end
