(* ===== verification/Spec2Isabelle.thy ===== *)
theory Spec2Isabelle
  imports Framer_Refinement Session_Stream Session_Timers Log_Thread Connector Basic_Example
begin

text \<open>
  A verification development for FixEngine, a FIX session engine in C++ (directories \<open>include/fix\<close>
  and \<open>src\<close> of the repository, called by their file names below).

  \<^bold>\<open>The program.\<close> A \<open>SessionManager\<close> creates sessions in a \<open>SessionPool\<close>, asks an
  \<open>IConnectionFactory\<close> for a connection for each, and forwards messages of the application to them. A \<open>Session\<close>
  reads bytes from its connection into a \<open>Framer\<close> (over a \<open>LinearBuffer\<close> and a \<open>Ring\<close> of messages), and for each
  message runs \<open>Parser\<close>, \<open>Validator\<close> and its handler; messages that arrive ahead of their number are held in
  a \<open>RecoveryCache\<close> while it asks for the missing ones. What it sends is built by \<open>MessageFactory\<close> in a
  \<open>FactoryScratch\<close>, recorded by \<open>MessageStore\<close> so that it can be sent again, and queued in blocks of an
  \<open>Arena\<close>. Every component logs through \<open>LogCore\<close>: a lock-free \<open>MpscRing\<close> and a thread that writes \<open>LogFileSink\<close>.

  \<^bold>\<open>Conventions.\<close> The model is functional: a struct is a record, an enum a datatype, a
  member function a function from the old to the new object. \<open>None\<close> of an operation stands for an exception, an
  access outside an array or a null pointer, so a result \<open>Some\<close> is a statement of safety. Sequence numbers,
  offsets and tickets keep their width as words where the code computes with them; sizes of memory
  are natural numbers. Loops whose end is not structural are \<open>partial_function (option)\<close>
  (\<open>append_loop\<close>, \<open>rs_skip\<close>, \<open>rs_actions\<close>, \<open>resend_loop\<close>, \<open>drain_loop\<close>, \<open>read_loop\<close>): not ending is \<open>None\<close>, and the
  theorems prove \<open>Some\<close>. Asynchronous waits are phases or flags of the state; the handlers are
  functions, and inductive relations let them run in any order the executor allows.
  Time, random numbers, sockets, files and the operating system are arguments.

  \<^bold>\<open>Foundations.\<close>
  \<^item> \<open>Fix_Prelude\<close>: lemmas on lists, words and options; \<open>Charconv\<close>: \<open>to_chars\<close>, \<open>from_chars\<close>
    and \<open>Utils::parse_int\<close>.
  \<^item> \<open>Ring\<close> (core/Ring.hpp): the circular buffer with its policies; locale \<open>bounded_fifo\<close>.
  \<^item> \<open>Linear_Buffer\<close> (core/LinearBuffer.hpp): the growing window of bytes; locale \<open>abs_stream\<close>.

  \<^bold>\<open>Receiving.\<close>
  \<^item> \<open>Framer\<close>, \<open>Framer_Refinement\<close> (core/Framer.hpp, Framer.cpp): the state machine that cuts the stream. It refines
    \<open>frames\<close>, a function of the whole stream: however the bytes are cut into reads, the same messages come out.
  \<^item> \<open>Message_Model\<close> (core/Message.hpp, message/GenericMessage.hpp, Message.cpp), \<open>Parser\<close> (Parser.cpp): \<open>parse\<close>
    inverts the encoding, and what it accepts is an encoding where an SOH precedes the trailer.
  \<^item> \<open>Schema\<close> (schema, message/admin): field types, message schemas and the hashed registry, equal to a linear search.
  \<^item> \<open>Tag_Scratch\<close>, \<open>Validator\<close> (core/Validator.hpp, Validator.cpp): the bit set (locale \<open>marking\<close>) and
    the validation of header, fields, nested groups and trailer against a declarative specification; the severity of its report.

  \<^bold>\<open>Sending.\<close>
  \<^item> \<open>Factory_Scratch\<close> (FactoryScratch.cpp; locale \<open>byte_sink\<close>) and \<open>Message_Factory\<close> (core/MessageFactory.hpp, SeqProvider,
    Clock): every message the factory builds is a well-formed FIX message with correct body length and checksum; a
    regenerated message differs in the resend fields only.
  \<^item> \<open>Message_Store\<close> (core/MessageStore.hpp, MessageStore.cpp; locale \<open>numbered_log\<close>): what was stored is
    found under its number; the resend stream covers the range with messages and gap fills.
  \<^item> \<open>Arena\<close> (core/Arena.hpp, core/WireWriter.hpp, Arena.cpp, WireWriter.cpp): no two live handles share a block.
  \<^item> \<open>Interop\<close>: administrative and custom messages with texts free of SOH pass the parser and validator of the peer.

  \<^bold>\<open>Sessions.\<close>
  \<^item> \<open>Recovery_Cache\<close> (RecoveryCache.cpp; locale \<open>keyed_buffer\<close>): any sequence of insertions and removals
    does what it does on a map. \<open>Network_Error\<close> (error/Network.hpp).
  \<^item> \<open>Session\<close> (core/Session.hpp, Session.cpp): every handler, timer and helper. \<open>session_reach\<close> are the states of
    a session whatever its peer, timers, application and connection do.
  \<^item> \<open>Session_Steps\<close> breaks the handlers into small changes; \<open>Session_Write\<close> gets from it
    the invariant of all reachable states (arena, write queue, recovery cache, framer, scratch of the factory), that the bytes given to the connection are the messages sent in
    order under partial writes, and that a stopped session is silent.
  \<^item> \<open>Session_Protocol\<close>: sending a built message. \<open>Session_Recovery\<close>: a message in, ahead of or behind the expected
    number, and the closing of a gap. \<open>Session_Theorems\<close>: the rules of sequencing.
    \<open>Session_Handshake\<close>: the logon of an initiator and an acceptor. \<open>Session_Timers\<close>: what a session does about a silent peer.
    \<open>Session_Resend\<close>: the answer to a resend request. \<open>Session_Exchange\<close>: both sides of a recovery, from the
    message that shows the loss to the last answer. \<open>Session_Stream\<close>: a session that reads a stream in pieces does what it
    does when the messages are processed one by one, and the delivery from one session through the loopback to another.
  \<^item> \<open>Session_Pool\<close> (SessionPool.cpp; locale \<open>handle_table\<close>) and \<open>Session_Manager\<close> (SessionManager.cpp): ids and slots,
    the tasks on the strand of the manager, connection answers and reconnects. \<open>mg_step\<close> is
    the engine: calls, tasks, events of sessions and answers in any order. The registry leaves no message type without a
    handler in the session, so the engine never calls the application.

  \<^bold>\<open>Logging.\<close>
  \<^item> \<open>Log_Ring\<close> (log/MpscRing.hpp): each atomic action is a step; all interleavings of producers and the
    consumer. \<open>Log_Sink\<close> (LogFileSink.cpp): open files and their contents.
  \<^item> \<open>Log_Core\<close> (log/LogCore.hpp, LogCore.cpp, SessionLogger.cpp): threads that log, the draining thread with its semaphore, the
    destructor; \<open>log_step\<close> lets them interleave at every action, \<open>log_inv\<close> is the invariant of all reachable states.
    \<open>Log_Thread\<close>: with at most 128 sessions, files that can be opened and no failed \<open>try_push\<close>, the files are complete after the
    destructor, which returns; when the thread waits nothing is left behind, unless its last
    round ended at the cap of 1024 entries.

  \<^bold>\<open>Connections.\<close>
  \<^item> \<open>Connector\<close> (AsioConnectionFactory.cpp; locale \<open>retried\<close>): connecting and listening end and report the right outcome.
  \<^item> \<open>Loopback\<close> (core/LoopbackTransport.hpp): the in-memory connection is a reliable byte stream.
  \<^item> \<open>Front_End\<close> (core/Application.hpp, FixShell.cpp, Reactor.cpp, AsioConnection.cpp): the sample application, the shell,
    starting and stopping the workers, and closing a socket.
  \<^item> \<open>Basic_Example\<close> (examples/basic.cpp): the program with its two sessions; a run of the engine in which
    each reads what the other has queued ends with both active.

  \<^bold>\<open>Bounds.\<close> The framer theorems hold for fewer than 1024 messages per read (the ring of messages rejects
  more) and bodies up to \<open>MAX_MESSAGE_SIZE\<close>. The store theorems ask that all messages fit 32-bit offsets and
  numbers, as \<open>MsgIndex\<close> has them. The ring theorems ask for fewer than \<open>2 ^ 64\<close> tickets. \<open>ensure_open\<close>,
  \<open>evict_one\<close> and \<open>close_file\<close> of the sink call each other; their model has a depth, and the theorems hold for every positive
  depth. A connect operation ends after 26 completions (nine attempts of at most three waits, less
  the last wait), a listen operation after eight.

  \<^bold>\<open>Not modelled.\<close> \<open>AsioTimer\<close> and the reads and writes of \<open>AsioConnection\<close> (one Boost.Asio call each), the
  event loop under \<open>Reactor\<close> (the order of handlers is arbitrary in the model), the maximum of the semaphore of the log,
  \<open>generate_engine_id\<close> (clock and process id), the texts of log messages beyond those the model writes, memory
  allocation failure, and the clean-up of C++ destructors other than those that release arena blocks and
  end the log. Atomic operations take effect in one order for all threads. The jitter of the connect back-off is exact where the code rounds to \<open>double\<close>.
\<close>

end
